(* ===== verification/Prelude.thy ===== *)
theory Prelude
  imports Main "HOL-Library.Word"
begin

text \<open>
  Shared vocabulary of the development: the machine integers of the C code, the
  result type of a kernel function (an error value, or a result with the new state),
  the sequencing combinator and loops over it, total-correctness triples with their
  rules, little-endian memory encodings, and generic lemmas on lists and words.
\<close>

unbundle bit_operations_syntax

section \<open>Machine integers\<close>

type_synonym u8 = "8 word"
type_synonym u16 = "16 word"
type_synonym u32 = "32 word"
type_synonym u64 = "64 word"

text \<open>The value of a C \<open>int\<close> after arithmetic: 32 bits, which wrap around.\<close>

definition i32 :: "int \<Rightarrow> int" where
  "i32 n = sint (of_int n :: u32)"

lemma i32_small: "- (2 ^ 31) \<le> n \<Longrightarrow> n < 2 ^ 31 \<Longrightarrow> i32 n = n"
  by (simp add: i32_def signed_of_int signed_take_bit_int_eq_self)

lemma i32_add [simp]: "i32 (i32 a + b) = i32 (a + b)"
  and i32_add2 [simp]: "i32 (b + i32 a) = i32 (b + a)"
  by (simp_all add: i32_def)

lemma i32_Suc_ne: "i32 (a + 1) \<noteq> i32 a"
proof
  assume "i32 (a + 1) = i32 a"
  then have "(of_int (a + 1) :: u32) = of_int a" by (simp only: i32_def signed_word_eqI)
  then show False by simp
qed

section \<open>Results of kernel functions\<close>

text \<open>
  A kernel function either returns, with a value and the new state, or stops the
  machine: \<open>Panic msg\<close> is the call \<^verbatim>\<open>panic(msg)\<close> of trap.c (which never returns),
  \<open>Fault msg\<close> an access the C code makes outside its objects (a null pointer, an
  array index out of range), \<open>Hang\<close> a busy-wait loop whose condition can no longer
  change. \<open>Exit code\<close> is the end of a process of the user level, \<^verbatim>\<open>exit(code)\<close>.
\<close>

datatype kerror = Panic string | Fault string | Hang | Exit int

type_synonym ('a, 's) outcome = "kerror + 'a \<times> 's"

definition ret :: "'a \<Rightarrow> 's \<Rightarrow> ('a, 's) outcome" where
  "ret a s = Inr (a, s)"

definition bnd :: "('a, 's) outcome \<Rightarrow> ('a \<Rightarrow> 's \<Rightarrow> kerror + 'b) \<Rightarrow> kerror + 'b" where
  "bnd r f = (case r of Inl e \<Rightarrow> Inl e | Inr (a, s) \<Rightarrow> f a s)"

text \<open>A counted C loop: the body runs for each index of the list, in order.\<close>

fun for_each :: "'i list \<Rightarrow> ('i \<Rightarrow> 's \<Rightarrow> (unit, 's) outcome) \<Rightarrow> 's \<Rightarrow> (unit, 's) outcome" where
  "for_each [] body s = ret () s"
| "for_each (i # is) body s = bnd (body i s) (\<lambda>_ s. for_each is body s)"

named_theorems outcome_simps "evaluation of the result monad"
named_theorems record_frames "fields an operation leaves alone"

lemma bnd_Inl [simp, outcome_simps]: "bnd (Inl e) f = Inl e"
  by (simp add: bnd_def)

lemma bnd_Inr [simp, outcome_simps]: "bnd (Inr (a, s)) f = f a s"
  by (simp add: bnd_def)

lemma bnd_ret [simp, outcome_simps]: "bnd (ret a s) f = f a s"
  by (simp add: bnd_def ret_def)

lemma bnd_eq_Inr: "bnd r f = Inr y \<longleftrightarrow> (\<exists>a s. r = Inr (a, s) \<and> f a s = Inr y)"
  by (cases r) (auto simp: bnd_def)

lemma bnd_eq_Inl:
  "bnd r f = Inl e \<longleftrightarrow> r = Inl e \<or> (\<exists>a s. r = Inr (a, s) \<and> f a s = Inl e)"
  by (cases r) (auto simp: bnd_def)

lemma bnd_InrE [elim]:
  assumes "bnd r f = Inr y"
  obtains a s where "r = Inr (a, s)" and "f a s = Inr y"
  using assms by (auto simp: bnd_eq_Inr)

lemma bnd_cong [fundef_cong]:
  assumes "r = r'" and "\<And>a s. r' = Inr (a, s) \<Longrightarrow> f a s = g a s"
  shows "bnd r f = bnd r' g"
  using assms by (cases r') (auto simp: bnd_def)

lemma ret_eq [simp, outcome_simps]: "ret a s = Inr (b, t) \<longleftrightarrow> a = b \<and> s = t"
  by (simp add: ret_def)

lemma for_each_append:
  "for_each (xs @ ys) body s = bnd (for_each xs body s) (\<lambda>_ s. for_each ys body s)"
proof (induction xs arbitrary: s)
  case Nil
  then show ?case by simp
next
  case (Cons x xs)
  then show ?case by (cases "body x s") (auto simp: bnd_def)
qed

subsection \<open>Total-correctness triples\<close>

text \<open>
  \<open>triple P m Q\<close>: started in a state with \<open>P\<close>, the function \<open>m\<close> returns (it does not
  panic, fault or hang) and value and new state satisfy \<open>Q\<close>.
\<close>

definition triple :: "('s \<Rightarrow> bool) \<Rightarrow> ('s \<Rightarrow> ('a, 's) outcome) \<Rightarrow> ('a \<Rightarrow> 's \<Rightarrow> bool) \<Rightarrow> bool" where
  "triple P m Q \<longleftrightarrow> (\<forall>s. P s \<longrightarrow> (\<exists>a s'. m s = Inr (a, s') \<and> Q a s'))"

lemma tripleI:
  "(\<And>s. P s \<Longrightarrow> \<exists>a s'. m s = Inr (a, s') \<and> Q a s') \<Longrightarrow> triple P m Q"
  by (simp add: triple_def)

lemma tripleE:
  assumes "triple P m Q" and "P s"
  obtains a s' where "m s = Inr (a, s')" and "Q a s'"
  using assms by (auto simp: triple_def)

lemma triple_conseq:
  assumes "triple P m Q" and "\<And>s. P' s \<Longrightarrow> P s" and "\<And>a s. Q a s \<Longrightarrow> Q' a s"
  shows "triple P' m Q'"
  using assms unfolding triple_def by blast

lemma triple_bnd:
  assumes "triple P m Q" and "\<And>a. triple (Q a) (f a) R"
  shows "triple P (\<lambda>s. bnd (m s) f) R"
  using assms unfolding triple_def by fastforce

text \<open>The rule for counted loops: an invariant indexed by the iterations already done.\<close>

lemma triple_for_each:
  assumes "\<And>i. i < length xs \<Longrightarrow> triple (I i) (body (xs ! i)) (\<lambda>_. I (Suc i))"
  shows "triple (I 0) (for_each xs body) (\<lambda>_. I (length xs))"
proof -
  have "k \<le> length xs \<Longrightarrow> triple (I 0) (for_each (take k xs) body) (\<lambda>_. I k)" for k
  proof (induction k)
    case 0
    then show ?case by (simp add: triple_def ret_def)
  next
    case (Suc k)
    then have IH: "triple (I 0) (for_each (take k xs) body) (\<lambda>_. I k)" by simp
    have step: "triple (I k) (for_each [xs ! k] body) (\<lambda>_. I (Suc k))"
      using assms [of k] Suc.prems by (fastforce simp: triple_def)
    have "take (Suc k) xs = take k xs @ [xs ! k]"
      using Suc.prems by (simp add: take_Suc_conv_app_nth)
    moreover have "triple (I 0)
        (\<lambda>s. bnd (for_each (take k xs) body s) (\<lambda>_. for_each [xs ! k] body)) (\<lambda>_. I (Suc k))"
      by (rule triple_bnd [OF IH]) (rule step)
    ultimately show ?case
      by (simp add: for_each_append [abs_def])
  qed
  from this [of "length xs"] show ?thesis by simp
qed

section \<open>Words\<close>

lemma unat_of_nat_small:
  "n < 2 ^ LENGTH('a) \<Longrightarrow> unat (of_nat n :: 'a::len word) = n"
  by (simp add: unat_of_nat take_bit_nat_eq_self)

lemma unat_plus_small:
  "unat x + unat y < 2 ^ LENGTH('a) \<Longrightarrow> unat (x + y :: 'a::len word) = unat x + unat y"
  by (simp add: unat_word_ariths)

section \<open>Little-endian encodings\<close>

text \<open>The bytes of a word in memory order, least significant first, and back.\<close>

definition le_bytes :: "nat \<Rightarrow> 'a::len word \<Rightarrow> u8 list" where
  "le_bytes n w = map (\<lambda>i. ucast (drop_bit (8 * i) w)) [0..<n]"

primrec le_word :: "u8 list \<Rightarrow> 'a::len word" where
  "le_word [] = 0"
| "le_word (b # bs) = ucast b OR push_bit 8 (le_word bs)"

lemma length_le_bytes [simp]: "length (le_bytes n w) = n"
  by (simp add: le_bytes_def)

lemma bit_le_word:
  "bit (le_word bs :: 'a::len word) k \<longleftrightarrow>
     k < LENGTH('a) \<and> k div 8 < length bs \<and> bit (bs ! (k div 8)) (k mod 8)"
proof (induction bs arbitrary: k)
  case Nil
  then show ?case by simp
next
  case (Cons b bs)
  show ?case
  proof (cases "k < 8")
    case True
    then show ?thesis
      by (auto simp: bit_or_iff bit_push_bit_iff bit_ucast_iff dest: bit_imp_le_length)
  next
    case False
    then obtain j where j: "k = j + 8" by (metis add.commute le_add_diff_inverse not_less)
    have big: "\<not> bit b k" using False by (auto dest: bit_imp_le_length)
    have "k div 8 = Suc (j div 8)" and "k mod 8 = j mod 8" by (simp_all add: j)
    with big Cons.IH [of j] show ?thesis
      by (auto simp: bit_or_iff bit_push_bit_iff bit_ucast_iff j dest: bit_imp_le_length)
  qed
qed

lemma le_word_le_bytes:
  fixes w :: "'a::len word"
  assumes "LENGTH('a) \<le> 8 * n"
  shows "le_word (le_bytes n w) = w"
proof (rule bit_word_eqI)
  fix k
  assume k: "k < LENGTH('a)"
  then have d: "k div 8 < n" using assms by simp
  have "8 * (k div 8) + k mod 8 = k" by simp
  then show "bit (le_word (le_bytes n w) :: 'a word) k = bit w k"
    using k d by (simp add: bit_le_word le_bytes_def bit_ucast_iff bit_drop_bit_eq)
qed

lemma le_bytes_le_word:
  assumes "8 * length bs \<le> LENGTH('a::len)"
  shows "le_bytes (length bs) (le_word bs :: 'a word) = bs"
proof (rule nth_equalityI)
  show "length (le_bytes (length bs) (le_word bs :: 'a word)) = length bs" by simp
next
  fix i
  assume "i < length (le_bytes (length bs) (le_word bs :: 'a word))"
  then have i: "i < length bs" by simp
  show "le_bytes (length bs) (le_word bs :: 'a word) ! i = bs ! i"
  proof (rule bit_word_eqI)
    fix k
    assume k: "k < LENGTH(8)"
    then have "(8 * i + k) div 8 = i" and "(8 * i + k) mod 8 = k" and "8 * i + k < LENGTH('a)"
      using i assms by auto
    then show "bit (le_bytes (length bs) (le_word bs :: 'a word) ! i) k = bit (bs ! i) k"
      using i k by (simp add: le_bytes_def bit_ucast_iff bit_drop_bit_eq bit_le_word)
  qed
qed

end
