(* ===== verification/Riscv.thy ===== *)
theory Riscv
  imports Prelude
begin

text \<open>
  The constants and address macros of include/riscv.h (page size, physical memory
  limit, PTE flag bits, PTE packing, Sv39 indices, page rounding) and the byte-wise
  physical memory through which pmm.c and vm.c store pointers and page-table entries.
\<close>

section \<open>Constants and macros of riscv.h\<close>

definition PGSIZE :: u64 where "PGSIZE = 4096"
definition PHYSTOP :: u64 where "PHYSTOP = 0x88000000"

definition PTE_V :: u64 where "PTE_V = 1"
definition PTE_R :: u64 where "PTE_R = 2"
definition PTE_W :: u64 where "PTE_W = 4"
definition PTE_X :: u64 where "PTE_X = 8"
definition PTE_U :: u64 where "PTE_U = 16"

definition PTE_PA :: "u64 \<Rightarrow> u64" where
  "PTE_PA pte = push_bit 12 (drop_bit 10 pte)"

definition PA_PTE :: "u64 \<Rightarrow> u64" where
  "PA_PTE pa = push_bit 10 (drop_bit 12 pa)"

definition VPN_SHIFT :: "nat \<Rightarrow> nat" where
  "VPN_SHIFT level = 12 + 9 * level"

definition VPN_MASK :: "u64 \<Rightarrow> nat \<Rightarrow> u64" where
  "VPN_MASK va level = drop_bit (VPN_SHIFT level) va AND 0x1FF"

definition PGGROUNDUP :: "u64 \<Rightarrow> u64" where
  "PGGROUNDUP sz = (sz + PGSIZE - 1) AND NOT (PGSIZE - 1)"

definition PGGROUNDDOWN :: "u64 \<Rightarrow> u64" where
  "PGGROUNDDOWN a = a AND NOT (PGSIZE - 1)"

lemmas riscv_consts = PGSIZE_def PHYSTOP_def PTE_V_def PTE_R_def PTE_W_def PTE_X_def PTE_U_def

section \<open>Physical memory\<close>

text \<open>
  A store of consecutive bytes, addresses wrapping at 64 bits; 64-bit cells are
  little-endian, as RISC-V has them.
\<close>

type_synonym pmemory = "u64 \<Rightarrow> u8"

definition store_bytes :: "pmemory \<Rightarrow> u64 \<Rightarrow> u8 list \<Rightarrow> pmemory" where
  "store_bytes m a bs = (\<lambda>x. if unat (x - a) < length bs then bs ! unat (x - a) else m x)"

definition load_bytes :: "pmemory \<Rightarrow> u64 \<Rightarrow> nat \<Rightarrow> u8 list" where
  "load_bytes m a n = map (\<lambda>i. m (a + of_nat i)) [0..<n]"

definition load64 :: "pmemory \<Rightarrow> u64 \<Rightarrow> u64" where
  "load64 m a = le_word (load_bytes m a 8)"

definition store64 :: "pmemory \<Rightarrow> u64 \<Rightarrow> u64 \<Rightarrow> pmemory" where
  "store64 m a v = store_bytes m a (le_bytes 8 v)"

text \<open>The address \<open>x\<close> lies in the page that starts at \<open>p\<close>.\<close>

definition in_page :: "u64 \<Rightarrow> u64 \<Rightarrow> bool" where
  "in_page p x \<longleftrightarrow> unat (x - p) < 4096"

definition page_aligned :: "u64 \<Rightarrow> bool" where
  "page_aligned p \<longleftrightarrow> unat p mod 4096 = 0"

text \<open>The \<open>i\<close>-th 64-bit cell of a page (a PTE of a page table has \<open>i < 512\<close>).\<close>

definition slot :: "u64 \<Rightarrow> nat \<Rightarrow> u64" where
  "slot p i = p + 8 * of_nat i"

subsection \<open>Loads after stores\<close>

lemma length_load_bytes [simp]: "length (load_bytes m a n) = n"
  by (simp add: load_bytes_def)

lemma unat_add_diff: "n < 2 ^ 64 \<Longrightarrow> unat ((a + of_nat n) - a :: u64) = n"
  by (simp add: unat_of_nat_small)

lemma load_store_bytes_same:
  assumes "length bs = n" and "n \<le> 2 ^ 64 - 1"
  shows "load_bytes (store_bytes m a bs) a n = bs"
proof (rule nth_equalityI)
  show "length (load_bytes (store_bytes m a bs) a n) = length bs"
    using assms by simp
next
  fix i
  assume "i < length (load_bytes (store_bytes m a bs) a n)"
  then have "i < n" by simp
  then have "unat (of_nat i :: u64) = i" using assms by (simp add: unat_of_nat_small)
  with \<open>i < n\<close> assms show "load_bytes (store_bytes m a bs) a n ! i = bs ! i"
    by (simp add: load_bytes_def store_bytes_def)
qed

lemma load64_store64_same [simp]: "load64 (store64 m a v) a = v"
  by (simp add: load64_def store64_def load_store_bytes_same le_word_le_bytes)

lemma load_bytes_store_diff:
  assumes "\<And>i. i < n \<Longrightarrow> \<not> unat (b + of_nat i - a) < length bs"
  shows "load_bytes (store_bytes m a bs) b n = load_bytes m b n"
  using assms by (auto simp: load_bytes_def store_bytes_def)

lemma store_bytes_outside: "\<not> unat (x - a) < length bs \<Longrightarrow> store_bytes m a bs x = m x"
  by (simp add: store_bytes_def)

subsection \<open>Page arithmetic\<close>

lemma and_minus_4096: "a AND - 4096 = push_bit 12 (drop_bit 12 (a :: u64))"
proof -
  have m: "(- 4096 :: u64) = NOT (mask 12)" using minus_exp_eq_not_mask [of 12, where 'a = u64] by simp
  show ?thesis unfolding m
    by (rule bit_word_eqI)
      (auto simp: bit_and_iff bit_not_iff bit_mask_iff bit_push_bit_iff bit_drop_bit_eq)
qed

lemma unat_push_drop_12: "unat (push_bit 12 (drop_bit 12 (a :: u64))) = 4096 * (unat a div 4096)"
proof -
  have "unat a < 2 ^ 64" using unsigned_less [of a, where 'a = nat] by simp
  moreover have "4096 * (unat a div 4096) \<le> unat a" by simp
  ultimately have "4096 * (unat a div 4096) < 2 ^ 64" by linarith
  then show ?thesis
    by (simp add: push_bit_eq_mult drop_bit_eq_div unat_word_ariths unat_div_distrib mult.commute)
qed

lemma unat_PGGROUNDDOWN: "unat (PGGROUNDDOWN a) = 4096 * (unat a div 4096)"
  by (simp add: PGGROUNDDOWN_def PGSIZE_def and_minus_4096 unat_push_drop_12)

lemma unat_PGGROUNDUP:
  assumes "unat a + 4095 < 2 ^ 64"
  shows "unat (PGGROUNDUP a) = 4096 * ((unat a + 4095) div 4096)"
proof -
  have "unat (4095 + a) = unat a + 4095"
    using assms by (simp add: unat_word_ariths)
  then show ?thesis
    by (simp add: PGGROUNDUP_def PGSIZE_def and_minus_4096 unat_push_drop_12)
qed

lemma page_aligned_PGGROUNDDOWN [simp]: "page_aligned (PGGROUNDDOWN a)"
  by (simp add: page_aligned_def unat_PGGROUNDDOWN)

lemma unat_diff_less_iff:
  fixes x a :: u64
  assumes "n \<le> 2 ^ 64"
  shows "unat (x - a) < n \<longleftrightarrow> (\<exists>j < n. x = a + of_nat j)"
proof
  assume "unat (x - a) < n"
  moreover have "x = a + of_nat (unat (x - a))" by simp
  ultimately show "\<exists>j < n. x = a + of_nat j" by blast
next
  assume "\<exists>j < n. x = a + of_nat j"
  then obtain j where "j < n" and "x = a + of_nat j" by blast
  then show "unat (x - a) < n" using assms by (simp add: unat_of_nat_small)
qed

lemma page_alignedE:
  assumes "page_aligned p"
  obtains k where "unat p = 4096 * k"
  using assms by (auto simp: page_aligned_def mod_eq_0_iff_dvd)

lemma page_aligned_bound: "page_aligned p \<Longrightarrow> unat p \<le> 2 ^ 64 - 4096"
proof -
  assume "page_aligned p"
  then obtain k where k: "unat p = 4096 * k" by (auto simp: page_aligned_def)
  have "unat p < 2 ^ 64" using unsigned_less [of p, where 'a = nat] by simp
  with k show ?thesis by simp
qed

lemma unat_page_offset:
  assumes "page_aligned p" and "k < 4096"
  shows "unat (p + of_nat k) = unat p + k"
  using page_aligned_bound [OF assms(1)] assms(2)
  by (simp add: unat_word_ariths unat_of_nat_small)

lemma in_page_iff:
  assumes "page_aligned p"
  shows "in_page p x \<longleftrightarrow> unat x div 4096 = unat p div 4096"
proof -
  have p: "unat p mod 4096 = 0" using assms by (simp add: page_aligned_def)
  have "in_page p x \<longleftrightarrow> (\<exists>j < 4096. x = p + of_nat j)"
    by (simp add: in_page_def unat_diff_less_iff)
  also have "\<dots> \<longleftrightarrow> (\<exists>j < 4096. unat x = unat p + j)"
    by (metis unat_page_offset [OF assms] word_unat_eq_iff)
  also have "\<dots> \<longleftrightarrow> unat x div 4096 = unat p div 4096"
  proof
    assume "\<exists>j < 4096. unat x = unat p + j"
    then obtain j where "j < 4096" and "unat x = unat p + j" by blast
    moreover obtain k where "unat p = 4096 * k" using p by (auto simp: mod_eq_0_iff_dvd)
    ultimately show "unat x div 4096 = unat p div 4096" by simp
  next
    assume "unat x div 4096 = unat p div 4096"
    then have "unat x = unat p + unat x mod 4096"
      using p by (metis add.right_neutral mult_div_mod_eq)
    then show "\<exists>j < 4096. unat x = unat p + j"
      by (metis mod_less_divisor zero_less_numeral)
  qed
  finally show ?thesis .
qed

lemma in_page_disjoint:
  "page_aligned p \<Longrightarrow> page_aligned q \<Longrightarrow> in_page p x \<Longrightarrow> in_page q x \<Longrightarrow> p = q"
  by (metis in_page_iff page_aligned_def mult_div_mod_eq word_unat_eq_iff)

lemma in_page_offset: "k < 4096 \<Longrightarrow> in_page p (p + of_nat k)"
  by (simp add: in_page_def unat_of_nat_small)

lemma in_page_PGGROUNDDOWN: "in_page (PGGROUNDDOWN a) a"
  by (simp add: in_page_iff unat_PGGROUNDDOWN)

subsection \<open>Cells of pages\<close>

lemma slot_offset: "slot p i = p + of_nat (8 * i)"
  by (simp add: slot_def)

lemma unat_slot: "page_aligned p \<Longrightarrow> i < 512 \<Longrightarrow> unat (slot p i) = unat p + 8 * i"
  by (simp add: slot_offset unat_page_offset del: of_nat_mult)

lemma slot_byte_offset: "slot p i + of_nat j = p + of_nat (8 * i + j)"
  by (simp add: slot_def)

lemma in_page_slot: "i < 512 \<Longrightarrow> j < 8 \<Longrightarrow> in_page p (slot p i + of_nat j)"
  by (simp only: slot_byte_offset) (rule in_page_offset, simp)

lemma slot_inj:
  assumes "page_aligned p" and "page_aligned q" and "i < 512" and "i' < 512" and "j < 8" and "j' < 8"
    and eq: "slot p i + of_nat j = slot q i' + of_nat j'"
  shows "p = q \<and> i = i' \<and> j = j'"
proof -
  have pq: "p = q"
    using in_page_disjoint [OF assms(1,2), of "slot p i + of_nat j"] assms(3-6) eq
    by (metis in_page_slot)
  have "unat (p + of_nat (8 * i + j)) = unat (p + of_nat (8 * i' + j'))"
    using eq pq by (simp only: slot_byte_offset)
  then have "8 * i + j = 8 * i' + j'"
    using assms(3-6) by (simp only: unat_page_offset [OF assms(1)])
  moreover have "(8 * i + j) div 8 = i" and "(8 * i' + j') div 8 = i'"
    using assms(5,6) by simp_all
  ultimately have "i = i'" by metis
  with \<open>8 * i + j = 8 * i' + j'\<close> show ?thesis using pq by simp
qed

lemma load64_store64_slot:
  assumes "page_aligned p" and "page_aligned q" and "i < 512" and "j < 512"
  shows "load64 (store64 m (slot p i) v) (slot q j) =
    (if p = q \<and> i = j then v else load64 m (slot q j))"
proof (cases "p = q \<and> i = j")
  case True
  then show ?thesis by simp
next
  case False
  have "\<not> unat (slot q j + of_nat k - slot p i) < length (le_bytes 8 v)" if "k < 8" for k
    using slot_inj [OF assms(2,1,4,3) that] False by (auto simp: unat_diff_less_iff)
  then show ?thesis
    unfolding load64_def store64_def if_not_P [OF False] by (simp add: load_bytes_store_diff)
qed

lemma store64_outside_page:
  assumes "i < 512" and "\<not> in_page p x"
  shows "store64 m (slot p i) v x = m x"
proof -
  have "\<not> unat (x - slot p i) < 8"
    using assms in_page_slot [OF assms(1)] by (auto simp: unat_diff_less_iff)
  then show ?thesis by (simp add: store64_def store_bytes_outside)
qed

end
