(* ===== verification/Pmm.thy ===== *)
theory Pmm
  imports Riscv
begin

text \<open>
  The physical page allocator, kernel/pmm.c: a free list threaded through the free
  pages themselves, each holding in its first 8 bytes the address of the next. The
  operations are \<open>free_page\<close>, \<open>alloc_page\<close> and \<open>pmm_init\<close>. The interface
  \<open>page_allocator\<close> states what clients rely on (a stack of distinct, aligned, non-null
  pages); it is interpreted on the operations below.
\<close>

section \<open>State and operations\<close>

text \<open>Physical memory and the variable \<open>freelist\<close> of pmm.c.\<close>

record mem =
  pmem :: pmemory
  freelist :: u64

text \<open>\<open>r->next = freelist\<close>, then \<open>freelist = r\<close>; the store through a null pointer faults.\<close>

definition free_page :: "u64 \<Rightarrow> 'a mem_scheme \<Rightarrow> (unit, 'a mem_scheme) outcome" where
  "free_page pa s =
     (if pa = 0 then Inl (Fault ''free_page'')
      else ret () (s\<lparr>pmem := store64 (pmem s) pa (freelist s), freelist := pa\<rparr>))"

definition alloc_page :: "'a mem_scheme \<Rightarrow> u64 \<times> 'a mem_scheme" where
  "alloc_page s =
     (if freelist s = 0 then (0, s)
      else (freelist s, s\<lparr>freelist := load64 (pmem s) (freelist s)\<rparr>))"

text \<open>The loop of \<open>pmm_init\<close>; \<open>kend\<close> is the linker symbol \<^verbatim>\<open>end\<close>.\<close>

lemma pmm_loop_decreases:
  assumes "pa + PGSIZE \<le> PHYSTOP"
  shows "unat (PHYSTOP - (pa + PGSIZE)) < unat (PHYSTOP - pa)"
proof -
  let ?d = "PHYSTOP - (pa + PGSIZE)"
  have "unat ?d \<le> unat PHYSTOP"
    using assms by (simp add: unat_sub word_le_nat_alt)
  then have "unat (?d + 4096) = unat ?d + 4096"
    by (subst unat_plus_small) (simp_all add: PHYSTOP_def)
  moreover have "PHYSTOP - pa = ?d + 4096" by (simp add: PGSIZE_def)
  ultimately show ?thesis by (metis less_add_same_cancel1 zero_less_numeral)
qed

function pmm_loop :: "u64 \<Rightarrow> 'a mem_scheme \<Rightarrow> (unit, 'a mem_scheme) outcome" where
  "pmm_loop pa s =
     (if pa + PGSIZE \<le> PHYSTOP
      then bnd (free_page pa s) (\<lambda>_ s. pmm_loop (pa + PGSIZE) s)
      else ret () s)"
  by pat_completeness auto
termination
  by (relation "measure (\<lambda>(pa, s). unat (PHYSTOP - pa))") (auto simp: pmm_loop_decreases)

declare pmm_loop.simps [simp del]

definition pmm_init :: "u64 \<Rightarrow> 'a mem_scheme \<Rightarrow> (unit, 'a mem_scheme) outcome" where
  "pmm_init kend s = pmm_loop (PGGROUNDUP kend) s"

section \<open>The free list as a list of pages\<close>

primrec chain :: "pmemory \<Rightarrow> u64 \<Rightarrow> u64 list \<Rightarrow> bool" where
  "chain m p [] \<longleftrightarrow> p = 0"
| "chain m p (x # xs) \<longleftrightarrow> p = x \<and> x \<noteq> 0 \<and> page_aligned x \<and> chain m (load64 m x) xs"

definition free_pages :: "'a mem_scheme \<Rightarrow> u64 list \<Rightarrow> bool" where
  "free_pages s ps \<longleftrightarrow> chain (pmem s) (freelist s) ps \<and> distinct ps"

lemma chain_aligned: "chain m p ps \<Longrightarrow> x \<in> set ps \<Longrightarrow> x \<noteq> 0 \<and> page_aligned x"
  by (induction ps arbitrary: p) auto

lemma slot_0: "slot p 0 = p"
  by (simp add: slot_def)

lemma load64_store64_page:
  assumes "page_aligned p" and "page_aligned q" and "p \<noteq> q"
  shows "load64 (store64 m p v) q = load64 m q"
  using load64_store64_slot [OF assms(1,2), of 0 0] assms(3) by (simp add: slot_0)

text \<open>A store into a page outside the chain leaves the chain alone.\<close>

lemma chain_cong:
  assumes "\<And>x. x \<in> set ps \<Longrightarrow> load64 m' x = load64 m x"
  shows "chain m' p ps = chain m p ps"
  using assms by (induction ps arbitrary: p) auto

lemma chain_store64:
  assumes "chain m p ps" and "page_aligned x" and "x \<notin> set ps"
  shows "chain (store64 m x v) p ps"
proof -
  have "load64 (store64 m x v) y = load64 m y" if "y \<in> set ps" for y
    using that assms chain_aligned [OF assms(1) that] by (auto intro: load64_store64_page)
  then show ?thesis using chain_cong assms(1) by blast
qed

lemma free_pages_unique:
  assumes "free_pages s ps" and "free_pages s qs"
  shows "ps = qs"
proof -
  have "chain m p ps \<Longrightarrow> chain m p qs \<Longrightarrow> ps = qs" for m p
  proof (induction ps arbitrary: p qs)
    case Nil
    then show ?case by (cases qs) auto
  next
    case (Cons x xs)
    then show ?case by (cases qs) auto
  qed
  with assms show ?thesis unfolding free_pages_def by blast
qed

section \<open>The allocator's interface\<close>

text \<open>
  What the clients of the allocator (page tables, process creation) rely on: a
  relation \<open>rep\<close> between states and the stack of free pages.
\<close>

locale page_allocator =
  fixes alloc :: "'s \<Rightarrow> u64 \<times> 's"
    and free :: "u64 \<Rightarrow> 's \<Rightarrow> (unit, 's) outcome"
    and rep :: "'s \<Rightarrow> u64 list \<Rightarrow> bool"
  assumes rep_pages: "rep s ps \<Longrightarrow> distinct ps \<and> (\<forall>p \<in> set ps. p \<noteq> 0 \<and> page_aligned p)"
    and alloc_empty: "rep s [] \<Longrightarrow> alloc s = (0, s)"
    and alloc_cons: "rep s (p # ps) \<Longrightarrow> \<exists>s'. alloc s = (p, s') \<and> rep s' ps"
    and free_push: "rep s ps \<Longrightarrow> page_aligned p \<Longrightarrow> p \<noteq> 0 \<Longrightarrow> p \<notin> set ps \<Longrightarrow>
           \<exists>s'. free p s = Inr ((), s') \<and> rep s' (p # ps)"
begin

text \<open>Any number of allocations in a row.\<close>

primrec alloc_many :: "nat \<Rightarrow> 's \<Rightarrow> u64 list \<times> 's" where
  "alloc_many 0 s = ([], s)"
| "alloc_many (Suc n) s = (let (p, s) = alloc s; (ps, s) = alloc_many n s in (p # ps, s))"

lemma alloc_many_spec:
  "rep s ps \<Longrightarrow> n \<le> length ps \<Longrightarrow>
     \<exists>s'. alloc_many n s = (take n ps, s') \<and> rep s' (drop n ps)"
proof (induction n arbitrary: s ps)
  case 0
  then show ?case by simp
next
  case (Suc n)
  then obtain p qs where ps: "ps = p # qs" by (cases ps) auto
  with Suc.prems obtain s1 where "alloc s = (p, s1)" and "rep s1 qs"
    using alloc_cons by blast
  moreover from this obtain s' where "alloc_many n s1 = (take n qs, s')" and "rep s' (drop n qs)"
    using Suc ps by fastforce
  ultimately show ?case by (simp add: ps)
qed

text \<open>Pages handed out are pairwise different, and none of them is still free.\<close>

lemma alloc_many_fresh:
  assumes "rep s ps" and "n \<le> length ps" and "alloc_many n s = (qs, s')"
  shows "distinct qs \<and> length qs = n \<and> 0 \<notin> set qs \<and> rep s' (drop n ps)
    \<and> set qs \<inter> set (drop n ps) = {}"
proof -
  have eq: "qs = take n ps" and r: "rep s' (drop n ps)"
    using alloc_many_spec [OF assms(1,2)] assms(3) by auto
  have d: "distinct ps" and nz: "\<forall>p \<in> set ps. p \<noteq> 0" using rep_pages [OF assms(1)] by auto
  have "0 \<notin> set (take n ps)" using nz in_set_takeD by fastforce
  then show ?thesis
    using eq r d assms(2) by (simp add: set_take_disj_set_drop_if_distinct)
qed

lemma free_alloc_lifo:
  assumes "rep s ps" and "page_aligned p" and "p \<noteq> 0" and "p \<notin> set ps"
  shows "\<exists>s1 s2. free p s = Inr ((), s1) \<and> alloc s1 = (p, s2) \<and> rep s2 ps"
  using free_push [OF assms] alloc_cons by blast

end

interpretation pmm: page_allocator alloc_page free_page free_pages
proof unfold_locales
  fix s :: "'a mem_scheme" and ps
  assume "free_pages s ps"
  then show "distinct ps \<and> (\<forall>p \<in> set ps. p \<noteq> 0 \<and> page_aligned p)"
    by (auto simp: free_pages_def dest: chain_aligned)
next
  fix s :: "'a mem_scheme"
  assume "free_pages s []"
  then show "alloc_page s = (0, s)"
    by (simp add: free_pages_def alloc_page_def)
next
  fix s :: "'a mem_scheme" and p ps
  assume "free_pages s (p # ps)"
  then show "\<exists>s'. alloc_page s = (p, s') \<and> free_pages s' ps"
    by (auto simp: free_pages_def alloc_page_def)
next
  fix s :: "'a mem_scheme" and p ps
  assume "free_pages s ps" and "page_aligned p" and "p \<noteq> 0" and "p \<notin> set ps"
  then show "\<exists>s'. free_page p s = Inr ((), s') \<and> free_pages s' (p # ps)"
    by (auto simp: free_pages_def free_page_def ret_def chain_store64)
qed

section \<open>Initialisation\<close>

text \<open>The pages from \<open>start\<close> up to the end of physical memory, in increasing order.\<close>

definition ram_pages :: "u64 \<Rightarrow> u64 list" where
  "ram_pages start = map (\<lambda>i. start + of_nat (4096 * i)) [0..<unat (PHYSTOP - start) div 4096]"

lemma unat_PHYSTOP: "unat PHYSTOP = 0x88000000"
  by (simp add: PHYSTOP_def)

lemma no_wrap_next_page:
  assumes "unat pa \<le> unat PHYSTOP"
  shows "unat (pa + PGSIZE) = unat pa + 4096"
  using assms unat_plus_small [of pa PGSIZE] by (simp add: unat_PHYSTOP PGSIZE_def)

lemma ram_pages_Cons:
  assumes "unat pa + 4096 \<le> unat PHYSTOP"
  shows "ram_pages pa = pa # ram_pages (pa + PGSIZE)"
proof -
  have n: "unat (PHYSTOP - pa) = unat (PHYSTOP - (pa + PGSIZE)) + 4096"
    using assms no_wrap_next_page [of pa] by (simp add: unat_sub word_le_nat_alt)
  have "unat (PHYSTOP - pa) div 4096 = Suc (unat (PHYSTOP - (pa + PGSIZE)) div 4096)"
    unfolding n by (subst div_add_self2) simp_all
  then have "[0..<unat (PHYSTOP - pa) div 4096] =
      0 # map Suc [0..<unat (PHYSTOP - (pa + PGSIZE)) div 4096]"
    by (simp add: upt_conv_Cons map_Suc_upt del: upt_Suc)
  then show ?thesis by (simp add: ram_pages_def PGSIZE_def algebra_simps)
qed

lemma ram_pages_Nil:
  assumes "unat pa \<le> unat PHYSTOP" and "unat PHYSTOP < unat pa + 4096"
  shows "ram_pages pa = []"
  using assms by (simp add: ram_pages_def unat_sub word_le_nat_alt)

lemma pmm_loop_spec:
  assumes "free_pages s ps" and "page_aligned pa" and "pa \<noteq> 0" and "unat pa \<le> unat PHYSTOP"
    and "\<forall>p \<in> set ps. unat p < unat pa"
  shows "\<exists>s'. pmm_loop pa s = Inr ((), s') \<and> free_pages s' (rev (ram_pages pa) @ ps)"
  using assms
proof (induction pa s arbitrary: ps rule: pmm_loop.induct)
  case (1 pa s)
  have next_pa: "unat (pa + PGSIZE) = unat pa + 4096" by (rule no_wrap_next_page [OF "1.prems"(4)])
  show ?case
  proof (cases "pa + PGSIZE \<le> PHYSTOP")
    case True
    have "pa \<notin> set ps" using "1.prems"(5) by auto
    with "1.prems" obtain s1 where f: "free_page pa s = Inr ((), s1)"
      and fp: "free_pages s1 (pa # ps)" using pmm.free_push by metis
    have "page_aligned (pa + PGSIZE)"
      using "1.prems"(2) next_pa by (simp add: page_aligned_def)
    moreover have "pa + PGSIZE \<noteq> 0" using next_pa by (metis add_is_0 unat_0 zero_neq_numeral)
    moreover have "unat (pa + PGSIZE) \<le> unat PHYSTOP"
      using True by (simp add: word_le_nat_alt)
    moreover have "\<forall>p \<in> set (pa # ps). unat p < unat (pa + PGSIZE)"
      using "1.prems"(5) next_pa by auto
    ultimately obtain s' where "pmm_loop (pa + PGSIZE) s1 = Inr ((), s')"
      and "free_pages s' (rev (ram_pages (pa + PGSIZE)) @ pa # ps)"
      using "1.IH" [OF True f fp] by blast
    moreover have "ram_pages pa = pa # ram_pages (pa + PGSIZE)"
      using True next_pa by (intro ram_pages_Cons) (simp add: word_le_nat_alt)
    ultimately show ?thesis using True f by (simp add: pmm_loop.simps [of pa s])
  next
    case False
    then have "ram_pages pa = []"
      using "1.prems"(4) next_pa by (intro ram_pages_Nil) (simp_all add: word_le_nat_alt)
    then show ?thesis using False "1.prems"(1) by (simp add: pmm_loop.simps [of pa s] ret_def)
  qed
qed

lemma set_ram_pages:
  assumes "page_aligned start" and "unat start \<le> unat PHYSTOP"
  shows "set (ram_pages start) =
    {p. page_aligned p \<and> unat start \<le> unat p \<and> unat p + 4096 \<le> unat PHYSTOP}"
proof -
  obtain k where k: "unat start = 4096 * k"
    using assms(1) by (auto simp: page_aligned_def mod_eq_0_iff_dvd)
  have d: "unat (PHYSTOP - start) = unat PHYSTOP - unat start"
    using assms(2) by (simp add: unat_sub word_le_nat_alt)
  have u: "unat (start + of_nat (4096 * i)) = 4096 * (k + i)" if "i < unat (PHYSTOP - start) div 4096" for i
    using that d k assms(2)
    by (subst unat_plus_small) (auto simp: unat_of_nat_small unat_PHYSTOP simp del: of_nat_mult)
  show ?thesis
  proof (intro set_eqI iffI)
    fix p
    assume "p \<in> set (ram_pages start)"
    then obtain i where i: "i < unat (PHYSTOP - start) div 4096" "p = start + of_nat (4096 * i)"
      by (auto simp: ram_pages_def)
    then show "p \<in> {p. page_aligned p \<and> unat start \<le> unat p \<and> unat p + 4096 \<le> unat PHYSTOP}"
      using u [OF i(1)] d k by (auto simp: page_aligned_def unat_PHYSTOP)
  next
    fix p
    assume "p \<in> {p. page_aligned p \<and> unat start \<le> unat p \<and> unat p + 4096 \<le> unat PHYSTOP}"
    then obtain j where j: "unat p = 4096 * j" "k \<le> j" "4096 * j + 4096 \<le> unat PHYSTOP"
      using k by (auto simp: page_aligned_def mod_eq_0_iff_dvd)
    then have i: "j - k < unat (PHYSTOP - start) div 4096"
      using d k by (simp add: unat_PHYSTOP)
    have "unat (start + of_nat (4096 * (j - k))) = unat p" using u [OF i] j by simp
    then have "p = start + of_nat (4096 * (j - k))" by (simp add: word_unat_eq_iff)
    with i show "p \<in> set (ram_pages start)" by (auto simp: ram_pages_def)
  qed
qed

lemma PGGROUNDUP_ram:
  assumes "0 < unat kend" and "unat kend \<le> unat PHYSTOP"
  shows "page_aligned (PGGROUNDUP kend)" and "PGGROUNDUP kend \<noteq> 0"
    and "unat (PGGROUNDUP kend) \<le> unat PHYSTOP"
    and "unat (PGGROUNDUP kend) = 4096 * ((unat kend + 4095) div 4096)"
proof -
  show up: "unat (PGGROUNDUP kend) = 4096 * ((unat kend + 4095) div 4096)"
    using assms(2) by (intro unat_PGGROUNDUP) (simp add: unat_PHYSTOP)
  then show "page_aligned (PGGROUNDUP kend)" by (simp add: page_aligned_def)
  have "(unat kend + 4095) div 4096 \<noteq> 0" using assms(1) by (simp add: div_eq_0_iff)
  then show "PGGROUNDUP kend \<noteq> 0" using up by (metis mult_is_0 unat_0 zero_neq_numeral)
  have "unat kend + 4095 \<le> 4096 * 0x88000 + 4095" using assms(2) by (simp add: unat_PHYSTOP)
  then have "(unat kend + 4095) div 4096 \<le> 0x88000" by linarith
  then show "unat (PGGROUNDUP kend) \<le> unat PHYSTOP" by (simp add: up unat_PHYSTOP)
qed

lemma pmm_init_spec:
  assumes "0 < unat kend" and "unat kend \<le> unat PHYSTOP" and "freelist s = 0"
  shows "\<exists>s'. pmm_init kend s = Inr ((), s') \<and> free_pages s' (rev (ram_pages (PGGROUNDUP kend)))"
proof -
  have "free_pages s []" using assms(3) by (simp add: free_pages_def)
  then show ?thesis
    using pmm_loop_spec [OF _ PGGROUNDUP_ram(1-3) [OF assms(1,2)], of s "[]"]
    by (auto simp: pmm_init_def)
qed

section \<open>Properties\<close>

text \<open>
  After \<open>pmm_init\<close> the free list holds exactly the page-aligned pages between the end
  of the kernel image and \<open>PHYSTOP\<close>, each once, and initialisation never faults.
\<close>

theorem pmm_init_frees_ram:
  assumes "0 < unat kend" and "unat kend \<le> unat PHYSTOP" and "freelist s = 0"
  shows "\<exists>s' ps. pmm_init kend s = Inr ((), s') \<and> free_pages s' ps \<and>
    set ps = {p. page_aligned p \<and> unat kend \<le> unat p \<and> unat p + 4096 \<le> unat PHYSTOP}"
proof -
  note up = PGGROUNDUP_ram [OF assms(1,2)]
  have "unat (PGGROUNDUP kend) \<le> unat p \<longleftrightarrow> unat kend \<le> unat p" if aligned: "page_aligned p" for p
  proof -
    obtain j where "unat p = 4096 * j" using aligned by (rule page_alignedE)
    then show ?thesis by (auto simp: up(4))
  qed
  then show ?thesis using pmm_init_spec [OF assms]
    by (auto simp: set_ram_pages [OF up(1,3)] intro!: exI [of _ "rev (ram_pages (PGGROUNDUP kend))"])
qed

theorem pmm_init_frees_ram_witness:
  "\<exists>s' ps. pmm_init 0x80300000 \<lparr>pmem = (\<lambda>_. 0), freelist = 0\<rparr> = Inr ((), s') \<and> free_pages s' ps \<and>
    set ps = {p. page_aligned p \<and> unat (0x80300000 :: u64) \<le> unat p \<and> unat p + 4096 \<le> unat PHYSTOP}"
  by (rule pmm_init_frees_ram) (simp_all add: PHYSTOP_def)

text \<open>
  Any number of allocations in a row hands out pairwise different, non-null pages,
  and none of them is left on the free list.
\<close>

theorem alloc_page_fresh:
  assumes "free_pages s ps" and "n \<le> length ps" and "pmm.alloc_many n s = (qs, s')"
  shows "distinct qs \<and> length qs = n \<and> 0 \<notin> set qs \<and> free_pages s' (drop n ps)
    \<and> set qs \<inter> set (drop n ps) = {}"
  using assms by (rule pmm.alloc_many_fresh)

definition two_pages :: mem where
  "two_pages = \<lparr>pmem = store64 (store64 (\<lambda>_. 0) 0x80001000 0x80002000) 0x80002000 0,
     freelist = 0x80001000\<rparr>"

lemma free_pages_two_pages: "free_pages two_pages [0x80001000, 0x80002000]"
  by (simp add: free_pages_def two_pages_def page_aligned_def load64_store64_page)

theorem alloc_page_fresh_witness:
  "\<exists>s'. pmm.alloc_many 2 two_pages = ([0x80001000, 0x80002000], s')
    \<and> distinct [0x80001000, 0x80002000 :: u64] \<and> free_pages s' []"
proof -
  obtain s' where s': "pmm.alloc_many 2 two_pages = ([0x80001000, 0x80002000], s')"
    using pmm.alloc_many_spec [OF free_pages_two_pages, of 2] by auto
  from alloc_page_fresh [OF free_pages_two_pages _ s'] have "free_pages s' []" by simp
  with s' show ?thesis by simp
qed

end
