(* ===== verification/Vm.thy ===== *)
theory Vm
  imports Pmm
begin

text \<open>
  The Sv39 page tables, kernel/vm.c: the walk that creates missing tables, the walk
  that only looks up, creation of a root table, mapping of a page, and the copies
  between kernel and user memory. Page tables live in physical memory; a PTE is the
  64-bit cell \<open>slot pt i\<close> of the page at \<open>pt\<close>.
\<close>

section \<open>Operations\<close>

text \<open>The index \<^verbatim>\<open>VPN_MASK(va, level)\<close> used to subscript a table.\<close>

definition vpn :: "u64 \<Rightarrow> nat \<Rightarrow> nat" where
  "vpn va level = unat (VPN_MASK va level)"

text \<open>\<^verbatim>\<open>for(int i=0;i<512;i++) newpt[i]=0;\<close>\<close>

definition zero_page :: "pmemory \<Rightarrow> u64 \<Rightarrow> pmemory" where
  "zero_page m p = fold (\<lambda>i m. store64 m (slot p i) 0) [0..<512] m"

text \<open>
  The loop of \<open>walk_create\<close>, over the levels still to descend. The page returned by
  \<open>alloc_page\<close> is not checked: zeroing the null page faults.
\<close>

fun walk_create_from :: "u64 \<Rightarrow> nat list \<Rightarrow> u64 \<Rightarrow> 'a mem_scheme \<Rightarrow> (u64, 'a mem_scheme) outcome" where
  "walk_create_from va [] pt s = ret (slot pt (vpn va 0)) s"
| "walk_create_from va (level # ls) pt s =
     (let idx = vpn va level; pte = load64 (pmem s) (slot pt idx) in
      if pte AND PTE_V \<noteq> 0 then walk_create_from va ls (PTE_PA pte) s
      else
        (let (newpt, s) = alloc_page s in
         if newpt = 0 then Inl (Fault ''walk_create'')
         else
           (let s = s\<lparr>pmem := zero_page (pmem s) newpt\<rparr>;
                s = s\<lparr>pmem := store64 (pmem s) (slot pt idx) (PA_PTE newpt OR PTE_V)\<rparr>
            in walk_create_from va ls newpt s)))"

definition walk_create :: "u64 \<Rightarrow> u64 \<Rightarrow> 'a mem_scheme \<Rightarrow> (u64, 'a mem_scheme) outcome" where
  "walk_create pt va s = walk_create_from va [2, 1] pt s"

fun walk_lookup_from :: "pmemory \<Rightarrow> u64 \<Rightarrow> nat list \<Rightarrow> u64 \<Rightarrow> u64" where
  "walk_lookup_from m va [] pt = slot pt (vpn va 0)"
| "walk_lookup_from m va (level # ls) pt =
     (let pte = load64 m (slot pt (vpn va level)) in
      if pte AND PTE_V = 0 then 0 else walk_lookup_from m va ls (PTE_PA pte))"

definition walk_lookup :: "pmemory \<Rightarrow> u64 \<Rightarrow> u64 \<Rightarrow> u64" where
  "walk_lookup m pt va = walk_lookup_from m va [2, 1] pt"

definition create_pagetable :: "'a mem_scheme \<Rightarrow> (u64, 'a mem_scheme) outcome" where
  "create_pagetable s =
     (let (pt, s) = alloc_page s in
      if pt = 0 then Inl (Fault ''create_pagetable'')
      else ret pt (s\<lparr>pmem := zero_page (pmem s) pt\<rparr>))"

definition map_page :: "u64 \<Rightarrow> u64 \<Rightarrow> u64 \<Rightarrow> u64 \<Rightarrow> 'a mem_scheme \<Rightarrow> (int, 'a mem_scheme) outcome" where
  "map_page pt va pa perm s =
     bnd (walk_create pt va s) (\<lambda>pte s.
       if pte = 0 then ret (-1) s
       else ret 0 (s\<lparr>pmem := store64 (pmem s) pte (PA_PTE pa OR perm OR PTE_V)\<rparr>))"

text \<open>
  \<open>user_pte\<close> is the test shared by the three copy loops: the PTE of a page that is
  mapped and accessible to user mode, \<open>None\<close> where they return -1.
\<close>

definition user_pte :: "pmemory \<Rightarrow> u64 \<Rightarrow> u64 \<Rightarrow> u64 option" where
  "user_pte m pt va0 =
     (let pte = walk_lookup m pt va0 in
      if pte = 0 \<or> load64 m pte AND PTE_V = 0 \<or> load64 m pte AND PTE_U = 0 then None
      else Some (load64 m pte))"

text \<open>The bytes left in the page of \<open>va\<close>, cut to \<open>len\<close>: the \<open>n\<close> of the copy loops.\<close>

definition chunk :: "u64 \<Rightarrow> u64 \<Rightarrow> u64" where
  "chunk va len = (let n = PGSIZE - (va - PGGROUNDDOWN va) in if n > len then len else n)"

lemma page_offset: "unat (va - PGGROUNDDOWN va) = unat va mod 4096"
proof -
  have "unat (PGGROUNDDOWN va) \<le> unat va" by (simp add: unat_PGGROUNDDOWN)
  then have "unat (va - PGGROUNDDOWN va) = unat va - unat (PGGROUNDDOWN va)"
    by (simp add: unat_sub word_le_nat_alt)
  then show ?thesis by (simp add: unat_PGGROUNDDOWN minus_mult_div_eq_mod)
qed

lemma unat_chunk: "unat (chunk va len) = min (4096 - unat va mod 4096) (unat len)"
proof -
  have "unat va mod 4096 < 4096" by simp
  then have "unat (PGSIZE - (va - PGGROUNDDOWN va)) = 4096 - unat va mod 4096"
    by (subst unat_sub) (simp_all add: page_offset PGSIZE_def word_le_nat_alt)
  then show ?thesis by (auto simp: chunk_def Let_def word_less_nat_alt)
qed

lemma chunk_decreases: "0 < len \<Longrightarrow> unat (len - chunk va len) < unat len"
proof -
  assume "0 < len"
  then have "0 < unat len" by (simp add: word_less_nat_alt)
  moreover have "0 < 4096 - unat va mod 4096" by simp
  ultimately have "0 < unat (chunk va len)" by (simp only: unat_chunk min_less_iff_conj)
  moreover have "unat (chunk va len) \<le> unat len" by (simp add: unat_chunk)
  ultimately show ?thesis by (simp add: unat_sub word_le_nat_alt)
qed

text \<open>
  \<open>copyin\<close> returns its result code with the bytes it has stored at \<open>dst\<close>, the bytes
  stored before a failure included.
\<close>

function copyin :: "pmemory \<Rightarrow> u64 \<Rightarrow> u64 \<Rightarrow> u64 \<Rightarrow> u8 list \<times> int" where
  "copyin m pt srcva len =
     (if 0 < len then
        (let va0 = PGGROUNDDOWN srcva in
         case user_pte m pt va0 of None \<Rightarrow> ([], -1)
         | Some pte \<Rightarrow>
             (let n = chunk srcva len;
                  bs = load_bytes m (PTE_PA pte + (srcva - va0)) (unat n);
                  (rest, r) = copyin m pt (va0 + PGSIZE) (len - n)
              in (bs @ rest, r)))
      else ([], 0))"
  by pat_completeness auto
termination
  by (relation "measure (\<lambda>(m, pt, srcva, len). unat len)") (auto simp: chunk_decreases)

declare copyin.simps [simp del]

text \<open>The inner loop of \<open>copyinstr\<close>: up to \<open>n\<close> bytes, stopping after a NUL.\<close>

fun copy_until_nul :: "u8 list \<Rightarrow> u8 list \<times> bool" where
  "copy_until_nul [] = ([], False)"
| "copy_until_nul (b # bs) =
     (if b = 0 then ([0], True)
      else (let (cs, got) = copy_until_nul bs in (b # cs, got)))"

function copyinstr :: "pmemory \<Rightarrow> u64 \<Rightarrow> u64 \<Rightarrow> u64 \<Rightarrow> u8 list \<times> int" where
  "copyinstr m pt srcva maxlen =
     (if 0 < maxlen then
        (let va0 = PGGROUNDDOWN srcva in
         case user_pte m pt va0 of None \<Rightarrow> ([], -1)
         | Some pte \<Rightarrow>
             (let n = chunk srcva maxlen;
                  (bs, got_null) = copy_until_nul (load_bytes m (PTE_PA pte + (srcva - va0)) (unat n))
              in if got_null then (bs, 0)
                 else (let (rest, r) = copyinstr m pt (va0 + PGSIZE) (maxlen - n) in (bs @ rest, r))))
      else ([], -1))"
  by pat_completeness auto
termination
  by (relation "measure (\<lambda>(m, pt, srcva, maxlen). unat maxlen)") (auto simp: chunk_decreases)

declare copyinstr.simps [simp del]

text \<open>\<open>copyout\<close> stores \<open>src\<close> into user memory; its argument \<open>len\<close> is the length of \<open>src\<close>.\<close>

function copyout :: "u64 \<Rightarrow> u64 \<Rightarrow> u8 list \<Rightarrow> u64 \<Rightarrow> pmemory \<Rightarrow> int \<times> pmemory" where
  "copyout pt dstva src len m =
     (if 0 < len then
        (let va0 = PGGROUNDDOWN dstva in
         case user_pte m pt va0 of None \<Rightarrow> (-1, m)
         | Some pte \<Rightarrow>
             (let n = chunk dstva len;
                  m = store_bytes m (PTE_PA pte + (dstva - va0)) (take (unat n) src)
              in copyout pt (va0 + PGSIZE) (drop (unat n) src) (len - n) m))
      else (0, m))"
  by pat_completeness auto
termination
  by (relation "measure (\<lambda>(pt, dstva, src, len, m). unat len)") (auto simp: chunk_decreases)

declare copyout.simps [simp del]

section \<open>PTE packing\<close>

lemma VPN_MASK_less: "vpn va level < 512"
proof -
  have "VPN_MASK va level \<le> 0x1FF" unfolding VPN_MASK_def by (rule word_and_le1)
  then show ?thesis by (simp add: vpn_def word_le_nat_alt)
qed

lemma vpn_eq: "vpn va level = unat va div 2 ^ (12 + 9 * level) mod 512"
proof -
  have "(0x1FF :: u64) = mask 9" by (simp add: mask_eq_exp_minus_1)
  then have "VPN_MASK va level = take_bit 9 (drop_bit (VPN_SHIFT level) va)"
    by (simp add: VPN_MASK_def take_bit_eq_mask)
  moreover have "unat (take_bit 9 w) = unat w mod 512" for w :: u64
    by (simp add: take_bit_eq_mod unat_mod_distrib)
  moreover have "unat (drop_bit n w) = unat w div 2 ^ n" for w :: u64 and n
    using unsigned_less [of w, where 'a = nat]
    by (simp only: unsigned_drop_bit_eq) (simp add: drop_bit_eq_div take_bit_nat_eq_self)
  ultimately show ?thesis by (simp only: vpn_def VPN_SHIFT_def)
qed

text \<open>A frame address survives packing into a PTE, whatever flags are added below bit 10.\<close>

lemma page_aligned_bits: "page_aligned p \<Longrightarrow> k < 12 \<Longrightarrow> \<not> bit p k"
proof -
  assume p: "page_aligned p" and k: "k < 12"
  have "take_bit 12 (unat p) = 0" using p by (simp add: page_aligned_def take_bit_eq_mod)
  then have "\<not> bit (take_bit 12 (unat p)) k" by simp
  then show ?thesis using k by (simp add: bit_take_bit_iff bit_unsigned_iff)
qed

lemma PTE_PA_pack:
  assumes "page_aligned p" and "flags AND NOT 0x3FF = 0"
  shows "PTE_PA (PA_PTE p OR flags) = p"
proof (rule bit_word_eqI)
  fix k
  assume k: "k < LENGTH(64)"
  have m: "(NOT 0x3FF :: u64) = NOT (mask 10)" by (simp add: mask_eq_exp_minus_1)
  have hi: "\<not> bit flags j" if "10 \<le> j" "j < 64" for j
    using assms(2) that unfolding m
    by (auto simp: bit_eq_iff bit_and_iff bit_not_iff bit_mask_iff) 
  show "bit (PTE_PA (PA_PTE p OR flags)) k = bit p k"
  proof (cases "k < 12")
    case True
    then show ?thesis
      using page_aligned_bits [OF assms(1)] by (simp add: PTE_PA_def bit_push_bit_iff bit_or_iff)
  next
    case False
    then obtain j where "k = j + 12" by (metis add.commute le_add_diff_inverse not_less)
    then show ?thesis
      using k hi [of "10 + j"]
      by (simp add: PTE_PA_def PA_PTE_def bit_push_bit_iff bit_drop_bit_eq bit_or_iff add.commute)
  qed
qed

lemma page_aligned_PTE_PA: "page_aligned (PTE_PA e)"
proof -
  have "take_bit 12 (PTE_PA e) = 0"
    by (rule bit_word_eqI) (simp add: PTE_PA_def bit_take_bit_iff bit_push_bit_iff)
  then have "PTE_PA e mod 4096 = 0" by (simp add: take_bit_eq_mod)
  then have "unat (PTE_PA e) mod unat (4096 :: u64) = 0" by (metis unat_mod_distrib unat_0)
  then show ?thesis by (simp add: page_aligned_def)
qed

lemma pte_valid_bit: "(PA_PTE p OR (perm OR PTE_V)) AND PTE_V \<noteq> 0"
proof -
  have "bit ((PA_PTE p OR (perm OR PTE_V)) AND PTE_V) 0"
    by (simp add: bit_and_iff bit_or_iff PTE_V_def)
  then show ?thesis by auto
qed

section \<open>Zeroing a page\<close>

lemma zero_page_upto:
  assumes "page_aligned p" and "n \<le> 512"
  shows "fold (\<lambda>i m. store64 m (slot p i) 0) [0..<n] m x =
    (if unat (x - p) < 8 * n then 0 else m x)"
  using assms(2)
proof (induction n)
  case 0
  then show ?case by simp
next
  case (Suc n)
  let ?m = "fold (\<lambda>i m. store64 m (slot p i) 0) [0..<n] m"
  have x: "x - slot p n = (x - p) - of_nat (8 * n)" by (simp add: slot_def)
  have cell: "unat (x - slot p n) < 8 \<longleftrightarrow> 8 * n \<le> unat (x - p) \<and> unat (x - p) < 8 * Suc n"
  proof -
    have "unat (x - slot p n) < 8 \<longleftrightarrow> (\<exists>j < 8. x = slot p n + of_nat j)"
      by (simp add: unat_diff_less_iff)
    also have "\<dots> \<longleftrightarrow> (\<exists>j < 8. x - p = of_nat (8 * n + j))"
      unfolding slot_byte_offset by (metis add_diff_cancel_left' diff_add_cancel add.commute)
    also have "\<dots> \<longleftrightarrow> (\<exists>j < 8. unat (x - p) = 8 * n + j)"
      using Suc.prems by (auto simp: word_unat_eq_iff unat_of_nat_small simp del: of_nat_add of_nat_mult)
    also have "\<dots> \<longleftrightarrow> 8 * n \<le> unat (x - p) \<and> unat (x - p) < 8 * Suc n"
      by (auto intro!: exI [of _ "unat (x - p) - 8 * n"])
    finally show ?thesis .
  qed
  have "store64 ?m (slot p n) 0 x = (if unat (x - slot p n) < 8 then 0 else ?m x)"
    by (simp add: store64_def store_bytes_def le_bytes_def)
  moreover have "?m x = (if unat (x - p) < 8 * n then 0 else m x)" using Suc by simp
  ultimately show ?case using cell by auto
qed

lemma zero_page_eq:
  "page_aligned p \<Longrightarrow> zero_page m p x = (if in_page p x then 0 else m x)"
  unfolding zero_page_def by (subst zero_page_upto) (simp_all add: in_page_def)

lemma load64_zero_page_same: "page_aligned p \<Longrightarrow> i < 512 \<Longrightarrow> load64 (zero_page m p) (slot p i) = 0"
proof -
  assume p: "page_aligned p" and i: "i < 512"
  have "load_bytes (zero_page m p) (slot p i) 8 = replicate 8 0"
    using in_page_slot [OF i] by (auto simp: load_bytes_def zero_page_eq [OF p] intro!: nth_equalityI)
  then show ?thesis by (simp add: load64_def numeral_eq_Suc)
qed

lemma load64_zero_page_other:
  assumes "page_aligned p" and "page_aligned q" and "p \<noteq> q" and "i < 512"
  shows "load64 (zero_page m p) (slot q i) = load64 m (slot q i)"
proof -
  have "\<not> in_page p (slot q i + of_nat j)" if "j < 8" for j
    using in_page_disjoint [OF assms(1,2)] in_page_slot [OF assms(4) that, of q] assms(3) by blast
  then have "load_bytes (zero_page m p) (slot q i) 8 = load_bytes m (slot q i) 8"
    by (auto simp: load_bytes_def zero_page_eq [OF assms(1)])
  then show ?thesis by (simp add: load64_def)
qed

end
