(* ===== verification/PageTables.thy ===== *)
theory PageTables
  imports Vm
begin

text \<open>
  What the page-table code keeps true and what it computes: the tables of an address
  space form a tree of distinct pages that are not on the free list; \<open>map_page\<close> changes
  the translation of one virtual page and of no other; the lookup agrees with that
  translation; \<open>create_pagetable\<close> gives the empty address space.
\<close>

section \<open>Tables of an address space\<close>

text \<open>The table (or frame) a valid entry refers to.\<close>

definition child :: "pmemory \<Rightarrow> u64 \<Rightarrow> nat \<Rightarrow> u64 option" where
  "child m t i =
     (let e = load64 m (slot t i) in if e AND PTE_V = 0 then None else Some (PTE_PA e))"

text \<open>The tables of levels 2 and 1, and all tables of the tree rooted at \<open>r\<close>.\<close>

definition uppers :: "pmemory \<Rightarrow> u64 \<Rightarrow> u64 set" where
  "uppers m r = insert r {c. \<exists>i < 512. child m r i = Some c}"

definition tables :: "pmemory \<Rightarrow> u64 \<Rightarrow> u64 set" where
  "tables m r = uppers m r \<union> {c. \<exists>t \<in> uppers m r. \<exists>i < 512. child m t i = Some c}"

definition pt_ok :: "pmemory \<Rightarrow> u64 \<Rightarrow> bool" where
  "pt_ok m r \<longleftrightarrow> page_aligned r \<and> r \<noteq> 0 \<and>
     (\<forall>t \<in> uppers m r. \<forall>i < 512. \<forall>c. child m t i = Some c \<longrightarrow> c \<noteq> 0 \<and> c \<noteq> r) \<and>
     (\<forall>t \<in> uppers m r. \<forall>t' \<in> uppers m r. \<forall>i < 512. \<forall>i' < 512. \<forall>c.
        child m t i = Some c \<longrightarrow> child m t' i' = Some c \<longrightarrow> t = t' \<and> i = i')"

text \<open>The leaf entry that translates \<open>va\<close>, if it is valid.\<close>

definition xlate :: "pmemory \<Rightarrow> u64 \<Rightarrow> u64 \<Rightarrow> u64 option" where
  "xlate m r va =
     (case child m r (vpn va 2) of None \<Rightarrow> None
      | Some a \<Rightarrow>
          (case child m a (vpn va 1) of None \<Rightarrow> None
           | Some b \<Rightarrow>
               (let e = load64 m (slot b (vpn va 0)) in
                if e AND PTE_V = 0 then None else Some e)))"

definition same_page :: "u64 \<Rightarrow> u64 \<Rightarrow> bool" where
  "same_page va va' \<longleftrightarrow> vpn va 2 = vpn va' 2 \<and> vpn va 1 = vpn va' 1 \<and> vpn va 0 = vpn va' 0"

lemma child_aligned: "child m t i = Some c \<Longrightarrow> page_aligned c"
  by (auto simp: child_def Let_def page_aligned_PTE_PA split: if_splits)

lemma uppers_tables: "t \<in> uppers m r \<Longrightarrow> t \<in> tables m r"
  by (simp add: tables_def)

lemma root_uppers: "r \<in> uppers m r"
  by (simp add: uppers_def)

lemma child_uppers: "child m r i = Some c \<Longrightarrow> i < 512 \<Longrightarrow> c \<in> uppers m r"
  by (auto simp: uppers_def)

lemma child_tables: "t \<in> uppers m r \<Longrightarrow> child m t i = Some c \<Longrightarrow> i < 512 \<Longrightarrow> c \<in> tables m r"
  by (auto simp: tables_def)

lemma tables_cases: "t \<in> tables m r \<Longrightarrow> t = r \<or> (\<exists>q \<in> uppers m r. \<exists>i < 512. child m q i = Some t)"
  by (auto simp: tables_def uppers_def)

lemma tables_aligned: "pt_ok m r \<Longrightarrow> t \<in> tables m r \<Longrightarrow> page_aligned t"
  using tables_cases [of t m r] child_aligned by (auto simp: pt_ok_def)

lemma tables_nonzero: "pt_ok m r \<Longrightarrow> t \<in> tables m r \<Longrightarrow> t \<noteq> 0"
  using tables_cases [of t m r] unfolding pt_ok_def by blast

lemma child_unique:
  "\<lbrakk>pt_ok m r; t \<in> uppers m r; t' \<in> uppers m r; i < 512; i' < 512; child m t i = Some c;
    child m t' i' = Some c\<rbrakk> \<Longrightarrow> t = t' \<and> i = i'"
  unfolding pt_ok_def by blast

lemma child_not_root: "\<lbrakk>pt_ok m r; t \<in> uppers m r; i < 512; child m t i = Some c\<rbrakk> \<Longrightarrow> c \<noteq> r"
  unfolding pt_ok_def by blast

text \<open>A level-0 table is no table of a higher level.\<close>

lemma leaf_not_upper:
  assumes ok: "pt_ok m r" and a: "child m r i = Some a" and b: "child m a j = Some b"
    and lt: "i < 512" "j < 512"
  shows "b \<notin> uppers m r"
proof
  assume "b \<in> uppers m r"
  have au: "a \<in> uppers m r" by (rule child_uppers [OF a lt(1)])
  from \<open>b \<in> uppers m r\<close> consider "b = r" | k where "k < 512" "child m r k = Some b"
    by (auto simp: uppers_def)
  then show False
  proof cases
    case 1
    then show ?thesis using child_not_root [OF ok au lt(2) b] by simp
  next
    case 2
    then have "a = r" using child_unique [OF ok au root_uppers lt(2) 2(1) b 2(2)] by simp
    then show ?thesis using child_not_root [OF ok root_uppers lt(1) a] by simp
  qed
qed

lemma walk_lookup_child:
  "walk_lookup m r va =
     (case child m r (vpn va 2) of None \<Rightarrow> 0
      | Some a \<Rightarrow> (case child m a (vpn va 1) of None \<Rightarrow> 0 | Some b \<Rightarrow> slot b (vpn va 0)))"
  by (simp add: walk_lookup_def child_def Let_def)

lemma slot_nonzero: "page_aligned p \<Longrightarrow> p \<noteq> 0 \<Longrightarrow> i < 512 \<Longrightarrow> slot p i \<noteq> 0"
  using unat_slot [of p i] by (metis add_is_0 unat_eq_zero)

text \<open>The lookup finds exactly the valid translations.\<close>

lemma xlate_walk_lookup:
  assumes "pt_ok m r"
  shows "xlate m r va =
    (let p = walk_lookup m r va in
     if p = 0 \<or> load64 m p AND PTE_V = 0 then None else Some (load64 m p))"
proof (cases "child m r (vpn va 2)")
  case None
  then show ?thesis by (simp add: xlate_def walk_lookup_child)
next
  case (Some a)
  show ?thesis
  proof (cases "child m a (vpn va 1)")
    case None
    then show ?thesis using Some by (simp add: xlate_def walk_lookup_child)
  next
    case b: (Some b)
    have "b \<in> tables m r"
      using Some b by (meson child_tables child_uppers VPN_MASK_less)
    then have "slot b (vpn va 0) \<noteq> 0"
      using assms by (simp add: slot_nonzero tables_aligned tables_nonzero VPN_MASK_less)
    then show ?thesis using Some b by (simp add: xlate_def walk_lookup_child Let_def)
  qed
qed

section \<open>Linking a new table\<close>

text \<open>
  One step of \<open>walk_create\<close> at a table \<open>t\<close> whose entry \<open>i\<close> is invalid: the page \<open>n\<close> is
  zeroed and hung below the entry.
\<close>

definition link :: "pmemory \<Rightarrow> u64 \<Rightarrow> nat \<Rightarrow> u64 \<Rightarrow> pmemory" where
  "link m t i n = store64 (zero_page m n) (slot t i) (PA_PTE n OR PTE_V)"

definition linkable :: "pmemory \<Rightarrow> u64 \<Rightarrow> u64 \<Rightarrow> nat \<Rightarrow> u64 \<Rightarrow> bool" where
  "linkable m r t i n \<longleftrightarrow> pt_ok m r \<and> t \<in> uppers m r \<and> i < 512 \<and> child m t i = None \<and>
     page_aligned n \<and> n \<noteq> 0 \<and> n \<notin> tables m r"

lemma linkableD:
  assumes "linkable m r t i n"
  shows "pt_ok m r" and "t \<in> uppers m r" and "i < 512" and "child m t i = None"
    and "page_aligned n" and "n \<noteq> 0" and "n \<notin> tables m r"
  using assms by (simp_all add: linkable_def)

lemma linkable_neq: "linkable m r t i n \<Longrightarrow> t \<noteq> n \<and> r \<noteq> n"
  using uppers_tables root_uppers by (metis linkableD(2,7))

lemma link_entry:
  assumes L: "linkable m r t i n" and "q \<in> tables m r" and "j < 512"
  shows "load64 (link m t i n) (slot q j) =
    (if q = t \<and> j = i then PA_PTE n OR PTE_V else load64 m (slot q j))"
proof -
  have "page_aligned q" and "page_aligned t" and "q \<noteq> n"
    using assms linkableD [OF L] tables_aligned uppers_tables by blast+
  then show ?thesis
    using assms linkableD [OF L] by (auto simp: link_def load64_store64_slot load64_zero_page_other)
qed

lemma link_entry_new:
  assumes L: "linkable m r t i n" and "j < 512"
  shows "load64 (link m t i n) (slot n j) = 0"
proof -
  have "page_aligned t" using linkableD [OF L] tables_aligned uppers_tables by blast
  then show ?thesis
    using assms linkableD [OF L] linkable_neq [OF L]
    by (simp add: link_def load64_store64_slot load64_zero_page_same)
qed

lemma PTE_V_nonzero: "PTE_V \<noteq> 0"
  by (simp add: PTE_V_def)

lemma table_pte:
  "page_aligned n \<Longrightarrow> PTE_PA (PA_PTE n OR PTE_V) = n"
  "(PA_PTE n OR PTE_V) AND PTE_V \<noteq> 0"
proof -
  show "page_aligned n \<Longrightarrow> PTE_PA (PA_PTE n OR PTE_V) = n"
    by (intro PTE_PA_pack) (simp_all add: PTE_V_def)
  have "bit ((PA_PTE n OR PTE_V) AND PTE_V) 0" by (simp add: bit_and_iff bit_or_iff PTE_V_def)
  then show "(PA_PTE n OR PTE_V) AND PTE_V \<noteq> 0" by auto
qed

lemma link_child:
  assumes L: "linkable m r t i n" and "q \<in> tables m r" and "j < 512"
  shows "child (link m t i n) q j = (if q = t \<and> j = i then Some n else child m q j)"
  using link_entry [OF assms] table_pte linkableD [OF L]
  by (auto simp: child_def PTE_V_nonzero Let_def)

lemma link_child_new:
  "linkable m r t i n \<Longrightarrow> j < 512 \<Longrightarrow> child (link m t i n) n j = None"
  by (simp add: child_def link_entry_new Let_def)

lemma link_uppers:
  assumes L: "linkable m r t i n"
  shows "uppers (link m t i n) r = (if t = r then insert n (uppers m r) else uppers m r)"
proof -
  have "child (link m t i n) r j = (if r = t \<and> j = i then Some n else child m r j)" if "j < 512" for j
    using link_child [OF L uppers_tables [OF root_uppers] that] .
  then have "(\<exists>j < 512. child (link m t i n) r j = Some c) \<longleftrightarrow>
      t = r \<and> c = n \<or> (\<exists>j < 512. child m r j = Some c)" for c
    using linkableD [OF L] by (metis option.distinct(1) option.inject)
  then show ?thesis by (auto simp: uppers_def)
qed

lemma link_uppers_old:
  "linkable m r t i n \<Longrightarrow> q \<in> uppers (link m t i n) r \<Longrightarrow> q \<noteq> n \<Longrightarrow> q \<in> uppers m r"
  by (auto simp: link_uppers split: if_splits)

lemma link_child_upper:
  assumes L: "linkable m r t i n" and q: "q \<in> uppers (link m t i n) r" and j: "j < 512"
  shows "child (link m t i n) q j =
    (if q = n then None else if q = t \<and> j = i then Some n else child m q j)"
proof (cases "q = n")
  case True
  then show ?thesis using link_child_new [OF L j] by simp
next
  case False
  then have "q \<in> tables m r" using link_uppers_old [OF L q] uppers_tables by blast
  then show ?thesis using False link_child [OF L _ j] by simp
qed

lemma link_tables:
  assumes L: "linkable m r t i n"
  shows "tables (link m t i n) r = insert n (tables m r)"
proof -
  note L' = linkableD [OF L] and ne = linkable_neq [OF L]
  let ?m = "link m t i n"
  have up: "uppers m r \<subseteq> uppers ?m r" by (auto simp: link_uppers [OF L])
  have "(\<exists>q \<in> uppers ?m r. \<exists>j < 512. child ?m q j = Some c) \<longleftrightarrow>
      c = n \<or> (\<exists>q \<in> uppers m r. \<exists>j < 512. child m q j = Some c)" (is "?L \<longleftrightarrow> ?R") for c
  proof
    assume ?L
    then obtain q j where q: "q \<in> uppers ?m r" "j < 512" "child ?m q j = Some c" by blast
    then have "q \<noteq> n" using link_child_new [OF L] by auto
    then show ?R using q link_child_upper [OF L q(1,2)] link_uppers_old [OF L q(1)]
      by (auto split: if_splits)
  next
    assume ?R
    then consider "c = n" | q j where "q \<in> uppers m r" "j < 512" "child m q j = Some c" by blast
    then show ?L
    proof cases
      case 1
      then have "child ?m t i = Some c" using link_child_upper [OF L, of t i] L' ne up by auto
      then show ?thesis using L' up by blast
    next
      case (2 q j)
      then have "q \<noteq> n" and "q \<in> uppers ?m r" using L' uppers_tables up by blast+
      then have "child ?m q j = Some c" using 2 L' link_child_upper [OF L, of q j] by auto
      then show ?thesis using 2 up by blast
    qed
  qed
  then have "{c. \<exists>q \<in> uppers ?m r. \<exists>j < 512. child ?m q j = Some c} =
      insert n {c. \<exists>q \<in> uppers m r. \<exists>j < 512. child m q j = Some c}" by blast
  then show ?thesis by (auto simp: tables_def link_uppers [OF L] split: if_splits)
qed

lemma link_pt_ok:
  assumes L: "linkable m r t i n"
  shows "pt_ok (link m t i n) r"
  unfolding pt_ok_def
proof (intro conjI ballI allI impI)
  show "page_aligned r" and "r \<noteq> 0" using linkableD(1) [OF L] by (simp_all add: pt_ok_def)
next
  fix q j c
  assume q: "q \<in> uppers (link m t i n) r" "j < 512" "child (link m t i n) q j = Some c"
  then have ne: "q \<noteq> n" using link_child_new [OF L] by auto
  then have "q \<in> uppers m r" using q link_uppers_old [OF L] by blast
  moreover have "c = n \<or> child m q j = Some c"
    using q ne link_child_upper [OF L q(1,2)] by (auto split: if_splits)
  ultimately show "c \<noteq> 0" and "c \<noteq> r"
    using linkableD(1,6) [OF L] linkable_neq [OF L] q(2) unfolding pt_ok_def by blast+
next
  fix q q' j j' c
  assume q: "q \<in> uppers (link m t i n) r" "q' \<in> uppers (link m t i n) r" "j < 512" "j' < 512"
    "child (link m t i n) q j = Some c" "child (link m t i n) q' j' = Some c"
  have ne: "q \<noteq> n" "q' \<noteq> n" using link_child_new [OF L] q by auto
  then have up: "q \<in> uppers m r" "q' \<in> uppers m r" using q link_uppers_old [OF L] by blast+
  have "child m u k \<noteq> Some n" if "u \<in> uppers m r" "k < 512" for u k
    using that linkableD(7) [OF L] child_tables by blast
  then show "q = q'" and "j = j'"
    using q up ne link_child_upper [OF L q(1,3)] link_child_upper [OF L q(2,4)]
      child_unique [OF linkableD(1) [OF L] up q(3,4)]
    by (auto split: if_splits)
qed

lemma link_xlate:
  assumes L: "linkable m r t i n"
  shows "xlate (link m t i n) r va = xlate m r va"
proof -
  note L' = linkableD [OF L] and lt = VPN_MASK_less
  let ?m = "link m t i n"
  have c2: "child ?m r (vpn va 2) = (if r = t \<and> vpn va 2 = i then Some n else child m r (vpn va 2))"
    by (rule link_child [OF L uppers_tables [OF root_uppers] lt])
  show ?thesis
  proof (cases "child m r (vpn va 2)")
    case None
    then show ?thesis using c2 link_child_new [OF L lt, of va 1] by (simp add: xlate_def)
  next
    case (Some a)
    have au: "a \<in> uppers m r" by (rule child_uppers [OF Some lt])
    have c2': "child ?m r (vpn va 2) = Some a" using c2 Some L' by auto
    have c1: "child ?m a (vpn va 1) = (if a = t \<and> vpn va 1 = i then Some n else child m a (vpn va 1))"
      by (rule link_child [OF L uppers_tables [OF au] lt])
    show ?thesis
    proof (cases "child m a (vpn va 1)")
      case None
      then show ?thesis
        using Some c2' c1 link_entry_new [OF L lt, of va 0] by (simp add: xlate_def Let_def)
    next
      case b: (Some b)
      then have "load64 ?m (slot b (vpn va 0)) = load64 m (slot b (vpn va 0))"
        using link_entry [OF L child_tables [OF au b lt] lt, of va 0]
          leaf_not_upper [OF L'(1) Some b lt lt] L' by auto
      then show ?thesis using Some c2' c1 b L' by (auto simp: xlate_def)
    qed
  qed
qed

lemma link_frame:
  "linkable m r t i n \<Longrightarrow> \<not> in_page n x \<Longrightarrow> \<not> in_page t x \<Longrightarrow> link m t i n x = m x"
  by (simp add: link_def linkable_def store64_outside_page zero_page_eq)

section \<open>Writing a leaf entry\<close>

text \<open>A path of the tree down to entry \<open>k\<close> of the level-0 table \<open>b\<close>.\<close>

definition leaf_path :: "pmemory \<Rightarrow> u64 \<Rightarrow> nat \<Rightarrow> nat \<Rightarrow> nat \<Rightarrow> u64 \<Rightarrow> u64 \<Rightarrow> bool" where
  "leaf_path m r i j k a b \<longleftrightarrow> pt_ok m r \<and> i < 512 \<and> j < 512 \<and> k < 512 \<and>
     child m r i = Some a \<and> child m a j = Some b"

lemma leaf_pathD:
  assumes "leaf_path m r i j k a b"
  shows "pt_ok m r" and "i < 512" and "j < 512" and "k < 512" and "child m r i = Some a"
    and "child m a j = Some b" and "a \<in> uppers m r" and "b \<in> tables m r" and "b \<notin> uppers m r"
proof -
  show P: "pt_ok m r" "i < 512" "j < 512" "k < 512" "child m r i = Some a" "child m a j = Some b"
    using assms by (simp_all add: leaf_path_def)
  then show au: "a \<in> uppers m r" by (blast intro: child_uppers)
  show "b \<in> tables m r" using au P by (blast intro: child_tables)
  show "b \<notin> uppers m r" using leaf_not_upper P by blast
qed

lemma leaf_entry:
  assumes P: "leaf_path m r i j k a b" and "q \<in> tables m r" and "l < 512"
  shows "load64 (store64 m (slot b k) e) (slot q l) =
    (if q = b \<and> l = k then e else load64 m (slot q l))"
  using assms leaf_pathD [OF P] tables_aligned [OF leaf_pathD(1) [OF P]]
  by (auto simp: load64_store64_slot)

lemma leaf_child:
  assumes P: "leaf_path m r i j k a b" and "q \<in> uppers m r" and "l < 512"
  shows "child (store64 m (slot b k) e) q l = child m q l"
  using leaf_entry [OF P uppers_tables [OF assms(2)] assms(3)] leaf_pathD(9) [OF P] assms(2)
  by (auto simp: child_def)

lemma leaf_uppers:
  assumes P: "leaf_path m r i j k a b"
  shows "uppers (store64 m (slot b k) e) r = uppers m r"
  using leaf_child [OF P root_uppers] by (auto simp: uppers_def)

lemma leaf_tables:
  assumes P: "leaf_path m r i j k a b"
  shows "tables (store64 m (slot b k) e) r = tables m r"
proof -
  have "(\<exists>t \<in> uppers m r. \<exists>l < 512. child (store64 m (slot b k) e) t l = Some c) \<longleftrightarrow>
      (\<exists>t \<in> uppers m r. \<exists>l < 512. child m t l = Some c)" for c
    using leaf_child [OF P] by metis
  then show ?thesis by (simp add: tables_def leaf_uppers [OF P])
qed

lemma leaf_pt_ok:
  assumes P: "leaf_path m r i j k a b"
  shows "pt_ok (store64 m (slot b k) e) r"
proof -
  note ok = leaf_pathD(1) [OF P]
  let ?m = "store64 m (slot b k) e"
  have "\<forall>t \<in> uppers m r. \<forall>i < 512. \<forall>c. child ?m t i = Some c \<longrightarrow> c \<noteq> 0 \<and> c \<noteq> r"
    using ok leaf_child [OF P] unfolding pt_ok_def by metis
  moreover have "\<forall>t \<in> uppers m r. \<forall>t' \<in> uppers m r. \<forall>i < 512. \<forall>i' < 512. \<forall>c.
      child ?m t i = Some c \<longrightarrow> child ?m t' i' = Some c \<longrightarrow> t = t' \<and> i = i'"
    using child_unique [OF ok] leaf_child [OF P] by metis
  ultimately show ?thesis using ok unfolding pt_ok_def leaf_uppers [OF P] by blast
qed

lemma leaf_xlate:
  assumes P: "leaf_path m r i j k a b" and e: "e AND PTE_V \<noteq> 0"
  shows "xlate (store64 m (slot b k) e) r va =
    (if vpn va 2 = i \<and> vpn va 1 = j \<and> vpn va 0 = k then Some e else xlate m r va)"
proof (cases "child m r (vpn va 2)")
  case None
  then have "vpn va 2 \<noteq> i" using leaf_pathD [OF P] by auto
  then show ?thesis using None leaf_child [OF P root_uppers VPN_MASK_less] by (simp add: xlate_def)
next
  case (Some a')
  note P' = leaf_pathD [OF P] and lt = VPN_MASK_less
  let ?m = "store64 m (slot b k) e"
  have au: "a' \<in> uppers m r" by (rule child_uppers [OF Some lt])
  have c2: "child ?m r (vpn va 2) = Some a'" using Some leaf_child [OF P root_uppers lt] by simp
  have c1: "child ?m a' (vpn va 1) = child m a' (vpn va 1)" by (rule leaf_child [OF P au lt])
  show ?thesis
  proof (cases "child m a' (vpn va 1)")
    case None
    then have no: "\<not> (vpn va 2 = i \<and> vpn va 1 = j)" using P' Some by auto
    have "xlate ?m r va = None" and "xlate m r va = None"
      using None Some c1 c2 by (simp_all add: xlate_def)
    then show ?thesis using no by auto
  next
    case b': (Some b')
    have "b' = b \<longleftrightarrow> a' = a \<and> vpn va 1 = j"
      using child_unique [OF P'(1) au P'(7) lt P'(3) b'] P'(6) b' by auto
    moreover have "a' = a \<longleftrightarrow> vpn va 2 = i"
      using child_unique [OF P'(1) root_uppers root_uppers lt P'(2) Some] P'(5) Some by auto
    moreover have "load64 ?m (slot b' (vpn va 0)) =
        (if b' = b \<and> vpn va 0 = k then e else load64 m (slot b' (vpn va 0)))"
      by (rule leaf_entry [OF P child_tables [OF au b' lt] lt])
    ultimately show ?thesis using Some b' c1 c2 e by (simp add: xlate_def Let_def)
  qed
qed

lemma leaf_frame:
  "leaf_path m r i j k a b \<Longrightarrow> \<not> in_page b x \<Longrightarrow> store64 m (slot b k) e x = m x"
  by (simp add: leaf_path_def store64_outside_page)

section \<open>Address spaces and the free list\<close>

text \<open>No table of the address space is free.\<close>

definition space_ok :: "u64 \<Rightarrow> 'a mem_scheme \<Rightarrow> u64 list \<Rightarrow> bool" where
  "space_ok r s ps \<longleftrightarrow> pt_ok (pmem s) r \<and> free_pages s ps \<and> set ps \<inter> tables (pmem s) r = {}"

text \<open>
  \<open>s'\<close> is \<open>s\<close> after some tables, taken from the free pages, were added: translations and
  everything outside the tables are the same.
\<close>

definition extends :: "u64 \<Rightarrow> 'a mem_scheme \<Rightarrow> u64 list \<Rightarrow> 'a mem_scheme \<Rightarrow> u64 list \<Rightarrow> bool" where
  "extends r s ps s' ps' \<longleftrightarrow> space_ok r s' ps' \<and>
     uppers (pmem s) r \<subseteq> uppers (pmem s') r \<and>
     tables (pmem s) r \<subseteq> tables (pmem s') r \<and> tables (pmem s') r \<subseteq> tables (pmem s) r \<union> set ps \<and>
     set ps' \<subseteq> set ps \<and>
     (\<forall>q \<in> uppers (pmem s) r. \<forall>j < 512. \<forall>c.
        child (pmem s) q j = Some c \<longrightarrow> child (pmem s') q j = Some c) \<and>
     (\<forall>va. xlate (pmem s') r va = xlate (pmem s) r va) \<and>
     (\<forall>x. (\<forall>q \<in> tables (pmem s') r. \<not> in_page q x) \<longrightarrow> pmem s' x = pmem s x) \<and>
     mem.more s' = mem.more s"

lemma extends_refl: "space_ok r s ps \<Longrightarrow> extends r s ps s ps"
  by (simp add: extends_def)

lemma extends_trans:
  assumes "extends r s ps s1 ps1" and "extends r s1 ps1 s2 ps2"
  shows "extends r s ps s2 ps2"
  using assms unfolding extends_def by (simp add: subset_iff) metis

lemma extends_space_ok: "extends r s ps s' ps' \<Longrightarrow> space_ok r s' ps'"
  by (simp add: extends_def)

lemma chain_link:
  assumes "chain m p ps" and "page_aligned n" and "page_aligned t" and "i < 512"
    and "n \<notin> set ps" and "t \<notin> set ps"
  shows "chain (link m t i n) p ps"
proof -
  have "load64 (link m t i n) x = load64 m x" if "x \<in> set ps" for x
  proof -
    have x: "page_aligned x" "x \<noteq> n" "x \<noteq> t"
      using chain_aligned [OF assms(1) that] assms that by auto
    then have "load64 (link m t i n) (slot x 0) = load64 m (slot x 0)"
      using assms by (simp add: link_def load64_store64_slot load64_zero_page_other)
    then show ?thesis by (simp add: slot_0)
  qed
  then show ?thesis using chain_cong assms(1) by blast
qed

text \<open>One level of the walk: the entry is there, or the next free page is linked in.\<close>

lemma walk_create_level:
  assumes ok: "space_ok r s ps" and t: "t \<in> uppers (pmem s) r"
    and ps: "child (pmem s) t (vpn va l) = None \<Longrightarrow> ps \<noteq> []"
  shows "\<exists>s' ps' c. walk_create_from va (l # ls) t s = walk_create_from va ls c s' \<and>
    child (pmem s') t (vpn va l) = Some c \<and> extends r s ps s' ps' \<and>
    length ps = length ps' + (if child (pmem s) t (vpn va l) = None then 1 else 0)"
proof (cases "child (pmem s) t (vpn va l)")
  case (Some c)
  then have "walk_create_from va (l # ls) t s = walk_create_from va ls c s"
    by (auto simp: child_def Let_def split: if_splits)
  with Some extends_refl [OF ok] show ?thesis by fastforce
next
  case None
  obtain n qs where n: "ps = n # qs" using ps [OF None] by (cases ps) auto
  let ?i = "vpn va l"
  have fp: "free_pages s (n # qs)" and d: "set ps \<inter> tables (pmem s) r = {}"
    and pt: "pt_ok (pmem s) r" using ok n by (simp_all add: space_ok_def)
  have n0: "n \<noteq> 0" "page_aligned n" "n \<notin> set qs" using pmm.rep_pages [OF fp] by auto
  have L: "linkable (pmem s) r t ?i n"
    using pt t None n0 d n by (simp add: linkable_def VPN_MASK_less)
  define s1 where "s1 = s\<lparr>freelist := load64 (pmem s) n\<rparr>"
  define s2 where "s2 = s1\<lparr>pmem := link (pmem s) t ?i n\<rparr>"
  have al: "alloc_page s = (n, s1)" and ch: "chain (pmem s) (load64 (pmem s) n) qs"
    using fp n0 by (simp_all add: alloc_page_def free_pages_def s1_def)
  have "walk_create_from va (l # ls) t s = walk_create_from va ls n s2"
    using None n0 by (simp add: child_def Let_def al s2_def s1_def link_def split: if_splits)
  moreover have ta: "page_aligned t" and tq: "t \<notin> set qs"
    using tables_aligned [OF pt uppers_tables [OF t]] uppers_tables [OF t] d n by auto
  have "free_pages s2 qs"
    using chain_link [OF ch n0(2) ta VPN_MASK_less n0(3) tq] fp
    by (simp add: free_pages_def s2_def s1_def)
  then have "space_ok r s2 qs"
    using link_pt_ok [OF L] link_tables [OF L] d n n0 by (auto simp: space_ok_def s2_def)
  moreover have "child (pmem s2) t ?i = Some n"
    using link_child [OF L uppers_tables [OF t] VPN_MASK_less] by (simp add: s2_def)
  moreover have "child (pmem s2) q j = Some c"
    if "q \<in> uppers (pmem s) r" "j < 512" "child (pmem s) q j = Some c" for q j c
    using link_child [OF L uppers_tables [OF that(1)] that(2)] that(3) None by (auto simp: s2_def)
  moreover have "pmem s2 x = pmem s x"
    if "\<forall>q \<in> tables (pmem s2) r. \<not> in_page q x" for x
    using that link_frame [OF L, of x] uppers_tables [OF t] by (simp add: s2_def link_tables [OF L])
  moreover have "uppers (pmem s) r \<subseteq> uppers (pmem s2) r"
    using link_uppers [OF L] by (auto simp: s2_def)
  moreover have "tables (pmem s2) r = insert n (tables (pmem s) r)"
    and "\<forall>va. xlate (pmem s2) r va = xlate (pmem s) r va" and "mem.more s2 = mem.more s"
    using link_tables [OF L] link_xlate [OF L] by (simp_all add: s2_def s1_def)
  ultimately have "walk_create_from va (l # ls) t s = walk_create_from va ls n s2 \<and>
    child (pmem s2) t ?i = Some n \<and> extends r s ps s2 qs \<and> length ps = Suc (length qs)"
    using n by (auto simp: extends_def)
  then show ?thesis using None by auto
qed

text \<open>
  The tables still missing below \<open>r\<close> for the addresses of \<open>P\<close>: \<open>(i, None)\<close> stands for the
  level-1 table of index \<open>i\<close>, \<open>(i, Some j)\<close> for a level-0 table. As many free pages are
  enough to map all of \<open>P\<close>.
\<close>

definition missing :: "pmemory \<Rightarrow> u64 \<Rightarrow> u64 set \<Rightarrow> (nat \<times> nat option) set" where
  "missing m r P =
     {(vpn va 2, None) | va. va \<in> P \<and> child m r (vpn va 2) = None} \<union>
     {(vpn va 2, Some (vpn va 1)) | va. va \<in> P \<and>
        (\<forall>a. child m r (vpn va 2) = Some a \<longrightarrow> child m a (vpn va 1) = None)}"

text \<open>As many free pages as missing tables, and \<open>k\<close> more.\<close>

definition spare :: "nat \<Rightarrow> u64 \<Rightarrow> u64 set \<Rightarrow> 'a mem_scheme \<Rightarrow> u64 list \<Rightarrow> bool" where
  "spare k r P s ps \<longleftrightarrow> space_ok r s ps \<and> finite P \<and> card (missing (pmem s) r P) + k \<le> length ps"

abbreviation affordable :: "u64 \<Rightarrow> u64 set \<Rightarrow> 'a mem_scheme \<Rightarrow> u64 list \<Rightarrow> bool" where
  "affordable \<equiv> spare 0"

lemma affordable_def:
  "affordable r P s ps \<longleftrightarrow> space_ok r s ps \<and> finite P \<and> card (missing (pmem s) r P) \<le> length ps"
  by (simp add: spare_def)

lemma finite_missing: "finite P \<Longrightarrow> finite (missing m r P)"
proof -
  assume P: "finite P"
  have "missing m r P \<subseteq> (\<lambda>va. (vpn va 2, None)) ` P \<union> (\<lambda>va. (vpn va 2, Some (vpn va 1))) ` P"
    by (auto simp: missing_def)
  with P show ?thesis by (meson finite_Un finite_imageI finite_subset)
qed

lemma missing_mono:
  assumes "extends r s ps s' ps'"
  shows "missing (pmem s') r P \<subseteq> missing (pmem s) r P"
proof -
  have keep: "child (pmem s') q j = Some c"
    if "q \<in> uppers (pmem s) r" "j < 512" "child (pmem s) q j = Some c" for q j c
    using assms that unfolding extends_def by blast
  have l2: "child (pmem s) r (vpn va 2) = None" if "child (pmem s') r (vpn va 2) = None" for va
    using keep [OF root_uppers VPN_MASK_less] that by (cases "child (pmem s) r (vpn va 2)") auto
  have l1: "child (pmem s) a (vpn va 1) = None"
    if no: "\<forall>a. child (pmem s') r (vpn va 2) = Some a \<longrightarrow> child (pmem s') a (vpn va 1) = None"
      and a: "child (pmem s) r (vpn va 2) = Some a" for va a
    using keep [OF root_uppers VPN_MASK_less a] no
      keep [OF child_uppers [OF a VPN_MASK_less] VPN_MASK_less]
    by (cases "child (pmem s) a (vpn va 1)") auto
  show ?thesis using l1 l2 by (auto simp: missing_def)
qed

text \<open>Spending one page on a missing table leaves enough for the others, and \<open>k\<close> to spare.\<close>

lemma affordable_step:
  assumes "spare k r P s ps" and "extends r s ps s' ps'"
    and "length ps = length ps' + (if x \<in> missing (pmem s) r P then 1 else 0)"
    and "x \<notin> missing (pmem s') r P"
  shows "spare k r P s' ps'"
proof -
  let ?M = "missing (pmem s) r P" and ?M' = "missing (pmem s') r P"
  have fin: "finite ?M" using assms(1) finite_missing by (simp add: spare_def)
  have sub: "?M' \<subseteq> ?M - {x}" using missing_mono [OF assms(2)] assms(4) by blast
  have "card ?M' \<le> card (?M - {x})" by (rule card_mono) (use fin sub in auto)
  moreover have "card ?M = card (?M - {x}) + (if x \<in> ?M then 1 else 0)"
    using card.remove [OF fin, of x] by auto
  then have "card (?M - {x}) + k \<le> length ps'"
    using assms(1,3) by (auto simp: spare_def split: if_splits)
  ultimately show ?thesis
    using assms(1) extends_space_ok [OF assms(2)] by (simp add: spare_def)
qed

lemma affordable_nonempty:
  assumes "spare k r P s ps" and "x \<in> missing (pmem s) r P"
  shows "ps \<noteq> []"
proof -
  have "card (missing (pmem s) r P) \<noteq> 0"
    using assms finite_missing by (auto simp: spare_def)
  then show ?thesis using assms(1) by (auto simp: spare_def)
qed

text \<open>The whole walk ends at the cell of the leaf entry of \<open>va\<close>.\<close>

lemma walk_create_spec:
  assumes af: "spare k r P s ps" and va: "va \<in> P"
  shows "\<exists>s' ps' a b. walk_create r va s = Inr (slot b (vpn va 0), s') \<and>
    leaf_path (pmem s') r (vpn va 2) (vpn va 1) (vpn va 0) a b \<and>
    extends r s ps s' ps' \<and> spare k r P s' ps' \<and> length ps \<le> length ps' + 2"
proof -
  let ?x = "(vpn va 2, None :: nat option)" and ?y = "(vpn va 2, Some (vpn va 1))"
  have x: "?x \<in> missing m r P \<longleftrightarrow> child m r (vpn va 2) = None" for m
    using va by (auto simp: missing_def)
  have y: "?y \<in> missing m r P \<longleftrightarrow> child m a (vpn va 1) = None"
    if "child m r (vpn va 2) = Some a" for m a
    using va that by (auto simp: missing_def)
  have ok: "space_ok r s ps" using af by (simp add: spare_def)
  have ne: "ps \<noteq> []" if "child (pmem s) r (vpn va 2) = None"
    using affordable_nonempty [OF af, of ?x] x that by simp
  from walk_create_level [OF ok root_uppers ne, of va 2 "[1]"] obtain s1 ps1 a where s1: "walk_create_from va [2, 1] r s = walk_create_from va [1] a s1"
    and a: "child (pmem s1) r (vpn va 2) = Some a" and e1: "extends r s ps s1 ps1"
    and l1: "length ps = length ps1 + (if child (pmem s) r (vpn va 2) = None then 1 else 0)"
    by auto
  have af1: "spare k r P s1 ps1"
    using affordable_step [OF af e1, of ?x] l1 x a by simp
  have au: "a \<in> uppers (pmem s1) r" by (rule child_uppers [OF a VPN_MASK_less])
  have ne1: "ps1 \<noteq> []" if "child (pmem s1) a (vpn va 1) = None"
    using affordable_nonempty [OF af1, of ?y] y [OF a] that by simp
  from walk_create_level [OF extends_space_ok [OF e1] au ne1, of va 1 "[]"] obtain s2 ps2 b where s2: "walk_create_from va [1] a s1 = walk_create_from va [] b s2"
    and b: "child (pmem s2) a (vpn va 1) = Some b" and e2: "extends r s1 ps1 s2 ps2"
    and l2: "length ps1 = length ps2 + (if child (pmem s1) a (vpn va 1) = None then 1 else 0)"
    by auto
  have a2: "child (pmem s2) r (vpn va 2) = Some a"
    using e2 a root_uppers VPN_MASK_less unfolding extends_def by blast
  have "spare k r P s2 ps2"
    using affordable_step [OF af1 e2, of ?y] l2 y [OF a] y [OF a2] b by simp
  moreover have "leaf_path (pmem s2) r (vpn va 2) (vpn va 1) (vpn va 0) a b"
    using a2 b extends_space_ok [OF e2] by (simp add: leaf_path_def VPN_MASK_less space_ok_def)
  moreover have "walk_create r va s = Inr (slot b (vpn va 0), s2)"
    unfolding walk_create_def s1 s2 by (simp add: ret_def)
  moreover have "length ps \<le> length ps2 + 2" using l1 l2 by simp
  ultimately show ?thesis using extends_trans [OF e1 e2] by blast
qed

section \<open>Mapping a page\<close>

lemma chain_leaf:
  assumes "chain m p ps" and "page_aligned b" and "k < 512" and "b \<notin> set ps"
  shows "chain (store64 m (slot b k) e) p ps"
proof -
  have "load64 (store64 m (slot b k) e) x = load64 m x" if "x \<in> set ps" for x
    using chain_aligned [OF assms(1) that] assms that load64_store64_slot [of b x k 0 m e]
    by (auto simp: slot_0)
  then show ?thesis using chain_cong assms(1) by blast
qed

lemma leaf_missing:
  assumes P: "leaf_path m r i j k a b"
  shows "missing (store64 m (slot b k) e) r V = missing m r V"
proof -
  have "child (store64 m (slot b k) e) r (vpn va 2) = child m r (vpn va 2)" for va
    by (rule leaf_child [OF P root_uppers VPN_MASK_less])
  moreover have "child (store64 m (slot b k) e) c (vpn va 1) = child m c (vpn va 1)"
    if "child m r (vpn va 2) = Some c" for va c
    by (rule leaf_child [OF P child_uppers [OF that VPN_MASK_less] VPN_MASK_less])
  ultimately show ?thesis unfolding missing_def by (simp cong: conj_cong)
qed

lemma map_page_spec:
  assumes af: "spare k r P s ps" and va: "va \<in> P"
  shows "\<exists>s' ps'. map_page r va pa perm s = Inr (0, s') \<and> spare k r P s' ps' \<and>
    set ps' \<subseteq> set ps \<and> tables (pmem s) r \<subseteq> tables (pmem s') r \<and>
    tables (pmem s') r \<subseteq> tables (pmem s) r \<union> set ps \<and>
    (\<forall>va'. xlate (pmem s') r va' =
       (if same_page va va' then Some (PA_PTE pa OR perm OR PTE_V) else xlate (pmem s) r va')) \<and>
    (\<forall>x. (\<forall>q \<in> tables (pmem s') r. \<not> in_page q x) \<longrightarrow> pmem s' x = pmem s x) \<and>
    mem.more s' = mem.more s \<and> length ps \<le> length ps' + 2"
proof -
  obtain s1 ps1 a b where w: "walk_create r va s = Inr (slot b (vpn va 0), s1)"
    and P: "leaf_path (pmem s1) r (vpn va 2) (vpn va 1) (vpn va 0) a b"
    and ex: "extends r s ps s1 ps1" and af1: "spare k r P s1 ps1" and l1: "length ps \<le> length ps1 + 2"
    using walk_create_spec [OF af va] by blast
  let ?e = "PA_PTE pa OR perm OR PTE_V"
  define s2 where "s2 = s1\<lparr>pmem := store64 (pmem s1) (slot b (vpn va 0)) ?e\<rparr>"
  note P' = leaf_pathD [OF P]
  have b: "page_aligned b" "b \<noteq> 0" using P' tables_aligned tables_nonzero by blast+
  then have "slot b (vpn va 0) \<noteq> 0" by (simp add: slot_nonzero VPN_MASK_less)
  then have m: "map_page r va pa perm s = Inr (0, s2)"
    by (simp add: map_page_def w s2_def ret_def)
  have d: "set ps1 \<inter> tables (pmem s1) r = {}" and fp: "free_pages s1 ps1"
    using af1 by (simp_all add: spare_def space_ok_def)
  then have "b \<notin> set ps1" using P'(8) by blast
  then have "free_pages s2 ps1"
    using fp b chain_leaf VPN_MASK_less by (simp add: free_pages_def s2_def)
  then have "spare k r P s2 ps1"
    using af1 d leaf_pt_ok [OF P] leaf_tables [OF P] leaf_missing [OF P]
    by (simp add: spare_def space_ok_def s2_def)
  moreover have "?e AND PTE_V \<noteq> 0"
    using pte_valid_bit [of pa perm] by (simp add: or.assoc)
  then have "xlate (pmem s2) r va' =
      (if same_page va va' then Some ?e else xlate (pmem s) r va')" for va'
    using leaf_xlate [OF P, of ?e va'] ex by (auto simp: s2_def same_page_def extends_def)
  moreover have "pmem s2 x = pmem s x" if "\<forall>q \<in> tables (pmem s2) r. \<not> in_page q x" for x
    using that leaf_frame [OF P] P'(8) ex by (simp add: s2_def leaf_tables [OF P] extends_def)
  moreover have "tables (pmem s2) r = tables (pmem s1) r" and "mem.more s2 = mem.more s1"
    by (simp_all add: s2_def leaf_tables [OF P])
  ultimately show ?thesis
    using m ex l1 unfolding extends_def by (intro exI [of _ s2] exI [of _ ps1]) simp
qed

end
