(* ===== verification/VmInit.thy ===== *)
theory VmInit
  imports PageTables
begin

text \<open>
  The kernel address space, kernel/vm_init.c: \<open>map_region\<close> maps a contiguous range page
  by page, \<open>kvminit\<close> builds the kernel's identity map, \<open>kvminithart\<close> computes the value
  of the satp register. The theorems give the exact translation of every Sv39 address
  after \<open>kvminit\<close>, with the number of free pages that suffices.
\<close>

section \<open>Operations\<close>

definition MAXVA :: u64 where "MAXVA = 0x4000000000"
definition TRAMPOLINE :: u64 where "TRAMPOLINE = MAXVA - PGSIZE"
definition TRAPFRAME :: u64 where "TRAPFRAME = TRAMPOLINE - PGSIZE"
definition VIRTIO0 :: u64 where "VIRTIO0 = 0x10001000"

text \<open>
  The loop of \<open>map_region\<close>. Its results are ignored, as the code does. When \<open>lastp\<close> is the
  last page of the 64-bit space the counter wraps below \<open>lastp\<close> and the loop does not end.
\<close>

function map_region_loop :: "u64 \<Rightarrow> u64 \<Rightarrow> u64 \<Rightarrow> u64 \<Rightarrow> u64 \<Rightarrow> 'a mem_scheme \<Rightarrow> (unit, 'a mem_scheme) outcome" where
  "map_region_loop pt a lastp pa perm s =
     (if a \<le> lastp then
        (if lastp + PGSIZE < lastp then Inl Hang
         else bnd (map_page pt a pa perm s) (\<lambda>_ s.
                map_region_loop pt (a + PGSIZE) lastp (pa + PGSIZE) perm s))
      else ret () s)"
  by pat_completeness auto

lemma unat_no_wrap:
  assumes "a \<le> lastp" and "\<not> lastp + PGSIZE < lastp"
  shows "unat (a + PGSIZE) = unat a + 4096" and "unat lastp + 4096 < 2 ^ 64"
proof -
  have "lastp \<le> lastp + PGSIZE" using assms(2) by simp
  then have "unat (lastp + PGSIZE) = unat lastp + 4096"
    by (simp add: unat_plus_simple [THEN iffD1] PGSIZE_def)
  then show l: "unat lastp + 4096 < 2 ^ 64" using unsigned_less [of "lastp + PGSIZE", where 'a = nat] by simp
  have "unat a \<le> unat lastp" using assms(1) by (simp add: word_le_nat_alt)
  then show "unat (a + PGSIZE) = unat a + 4096"
    using l by (subst unat_plus_small) (simp_all add: PGSIZE_def)
qed

termination map_region_loop
proof (relation "measure (\<lambda>(pt, a, lastp, pa, perm, s). 2 ^ 64 - unat a)", goal_cases)
  case 1
  show ?case by simp
next
  case (2 pt a lastp pa perm s b t)
  have "unat a < 2 ^ 64" using unsigned_less [of a, where 'a = nat] by simp
  then show ?case using unat_no_wrap [OF 2(1,2)] by (simp add: diff_less_mono2)
qed

declare map_region_loop.simps [simp del]

definition map_region :: "u64 \<Rightarrow> u64 \<Rightarrow> u64 \<Rightarrow> u64 \<Rightarrow> u64 \<Rightarrow> 'a mem_scheme \<Rightarrow> (unit, 'a mem_scheme) outcome" where
  "map_region pt va pa sz perm s =
     map_region_loop pt (PGGROUNDDOWN va) (PGGROUNDUP (va + sz - 1)) pa perm s"

text \<open>\<open>kvminit\<close> returns the root it stores in \<open>kernel_pagetable\<close>; \<open>tramp\<close> is the linker symbol.\<close>

definition kvminit :: "u64 \<Rightarrow> 'a mem_scheme \<Rightarrow> (u64, 'a mem_scheme) outcome" where
  "kvminit tramp s =
     bnd (create_pagetable s) (\<lambda>kpt s.
     bnd (map_region kpt 0x80200000 0x80200000 (PHYSTOP - 0x80200000) (PTE_R OR PTE_W OR PTE_X) s) (\<lambda>_ s.
     bnd (map_page kpt 0x10000000 0x10000000 (PTE_R OR PTE_W) s) (\<lambda>_ s.
     bnd (map_region kpt 0x80000000 0x80000000 0x200000 (PTE_R OR PTE_X) s) (\<lambda>_ s.
     bnd (map_page kpt TRAMPOLINE tramp (PTE_R OR PTE_X) s) (\<lambda>_ s.
     bnd (map_page kpt VIRTIO0 VIRTIO0 (PTE_R OR PTE_W) s) (\<lambda>_ s.
     ret kpt s))))))"

text \<open>The value \<open>kvminithart\<close> writes to satp: mode 8 (Sv39) and the root's page number.\<close>

definition kvminithart_satp :: "u64 \<Rightarrow> u64" where
  "kvminithart_satp kpt = push_bit 60 8 OR drop_bit 12 kpt"

section \<open>Sv39 pages\<close>

lemma vpn_digits:
  "vpn va 2 = (unat va div 4096) div 262144 mod 512"
  "vpn va 1 = (unat va div 4096) div 512 mod 512"
  "vpn va 0 = (unat va div 4096) mod 512"
  by (simp_all add: vpn_eq div_mult2_eq [symmetric])

lemma digits_eq_iff:
  fixes x y :: nat
  shows "x div 262144 mod 512 = y div 262144 mod 512 \<and> x div 512 mod 512 = y div 512 mod 512 \<and>
    x mod 512 = y mod 512 \<longleftrightarrow> x mod 134217728 = y mod 134217728"
proof -
  have d: "x mod 134217728 = (x div 262144 mod 512) * 262144 + (x div 512 mod 512) * 512 + x mod 512"
    for x :: nat
  proof -
    have "x mod (512 * 262144) = 512 * (x div 512 mod 262144) + x mod 512"
      by (rule mod_mult2_eq)
    moreover have "x div 512 mod (512 * 512) = 512 * (x div 512 div 512 mod 512) + x div 512 mod 512"
      by (rule mod_mult2_eq)
    ultimately show ?thesis by (simp add: div_mult2_eq [symmetric])
  qed
  have e: "(x mod 134217728) div 262144 = x div 262144 mod 512"
    "(x mod 134217728) div 512 mod 512 = x div 512 mod 512"
    "(x mod 134217728) mod 512 = x mod 512" for x :: nat
  proof -
    have "(x mod (262144 * 512)) div 262144 = x div 262144 mod 512"
      by (subst mod_mult2_eq) simp
    then show "(x mod 134217728) div 262144 = x div 262144 mod 512" by simp
    have "(x mod (512 * 262144)) div 512 = x div 512 mod 262144"
      by (subst mod_mult2_eq) simp
    then have "(x mod 134217728) div 512 mod 512 = x div 512 mod 262144 mod 512" by simp
    also have "\<dots> = x div 512 mod 512" by (rule mod_mod_cancel) simp
    finally show "(x mod 134217728) div 512 mod 512 = x div 512 mod 512" .
    show "(x mod 134217728) mod 512 = x mod 512" by (rule mod_mod_cancel) simp
  qed
  show ?thesis using d e by metis
qed

lemma same_page_iff:
  "same_page va va' \<longleftrightarrow> unat va div 4096 mod 2 ^ 27 = unat va' div 4096 mod 2 ^ 27"
  unfolding same_page_def vpn_digits using digits_eq_iff by simp

lemma same_page_sv39:
  assumes "unat va < 2 ^ 39" and "unat va' < 2 ^ 39"
  shows "same_page va va' \<longleftrightarrow> PGGROUNDDOWN va = PGGROUNDDOWN va'"
proof -
  have "unat va div 4096 < 2 ^ 27" and "unat va' div 4096 < 2 ^ 27"
    using assms by simp_all
  then show ?thesis by (simp add: same_page_iff word_unat_eq_iff unat_PGGROUNDDOWN)
qed

section \<open>Mapping a region\<close>

lemma page_cases:
  assumes a: "page_aligned a" and al: "unat a \<le> unat lastp" and l: "unat lastp + 4096 < 2 ^ 64"
    and p: "page_aligned p" 
  shows "a \<le> p \<and> p \<le> lastp \<longleftrightarrow> p = a \<or> a + PGSIZE \<le> p \<and> p \<le> lastp"
proof -
  have n: "unat (a + PGSIZE) = unat a + 4096"
    using al l by (subst unat_plus_small) (simp_all add: PGSIZE_def)
  obtain j where "unat a = 4096 * j" using a by (rule page_alignedE)
  moreover obtain k where "unat p = 4096 * k" using p by (rule page_alignedE)
  ultimately show ?thesis using al n by (auto simp: word_le_nat_alt word_unat_eq_iff)
qed

lemma map_region_loop_spec:
  assumes "spare k r P s ps" and "page_aligned a" and "unat a < 2 ^ 39" and "unat lastp < 2 ^ 38"
    and "\<And>va. page_aligned va \<Longrightarrow> a \<le> va \<Longrightarrow> va \<le> lastp \<Longrightarrow> va \<in> P"
  shows "\<exists>s' ps'. map_region_loop r a lastp pa perm s = Inr ((), s') \<and> spare k r P s' ps' \<and>
    mem.more s' = mem.more s \<and>
    (\<forall>va. unat va < 2 ^ 39 \<longrightarrow> xlate (pmem s') r va =
       (if a \<le> PGGROUNDDOWN va \<and> PGGROUNDDOWN va \<le> lastp
        then Some (PA_PTE (pa + (PGGROUNDDOWN va - a)) OR perm OR PTE_V)
        else xlate (pmem s) r va))"
  using assms
proof (induction r a lastp pa perm s arbitrary: ps rule: map_region_loop.induct)
  case (1 r a lastp pa perm s)
  show ?case
  proof (cases "a \<le> lastp")
    case False
    then have "\<not> (a \<le> p \<and> p \<le> lastp)" for p by auto
    then show ?thesis using False "1.prems"(1)
      by (auto simp: map_region_loop.simps [of r a lastp] ret_def)
  next
    case True
    have nw: "\<not> lastp + PGSIZE < lastp"
    proof -
      have "unat (lastp + PGSIZE) = unat lastp + 4096"
        using "1.prems"(4) by (subst unat_plus_small) (simp_all add: PGSIZE_def)
      then show ?thesis by (simp add: word_less_nat_alt)
    qed
    note next_a = unat_no_wrap [OF True nw]
    have al: "unat a \<le> unat lastp" using True by (simp add: word_le_nat_alt)
    have aP: "a \<in> P" using "1.prems"(2,5) True by simp
    from map_page_spec [OF "1.prems"(1) aP, of pa perm] obtain s1 ps1
      where m: "map_page r a pa perm s = Inr (0, s1)" and af: "spare k r P s1 ps1"
        and x1: "\<forall>va. xlate (pmem s1) r va =
          (if same_page a va then Some (PA_PTE pa OR perm OR PTE_V) else xlate (pmem s) r va)"
        and more1: "mem.more s1 = mem.more s" by blast
    have "page_aligned (a + PGSIZE)" using "1.prems"(2) next_a(1) by (simp add: page_aligned_def)
    moreover have "unat (a + PGSIZE) < 2 ^ 39" using next_a(1) al "1.prems"(4) by simp
    moreover have "va \<in> P" if "page_aligned va" "a + PGSIZE \<le> va" "va \<le> lastp" for va
      using that "1.prems"(5) page_cases [OF "1.prems"(2) al next_a(2) that(1)] by blast
    ultimately obtain s' ps' where rest: "map_region_loop r (a + PGSIZE) lastp (pa + PGSIZE) perm s1 = Inr ((), s')"
      and af': "spare k r P s' ps'" and more': "mem.more s' = mem.more s1"
      and x': "\<forall>va. unat va < 2 ^ 39 \<longrightarrow> xlate (pmem s') r va =
       (if a + PGSIZE \<le> PGGROUNDDOWN va \<and> PGGROUNDDOWN va \<le> lastp
        then Some (PA_PTE (pa + PGSIZE + (PGGROUNDDOWN va - (a + PGSIZE))) OR perm OR PTE_V)
        else xlate (pmem s1) r va)"
      using "1.IH" [OF True nw m af] "1.prems"(4) by blast
    have "xlate (pmem s') r va =
       (if a \<le> PGGROUNDDOWN va \<and> PGGROUNDDOWN va \<le> lastp
        then Some (PA_PTE (pa + (PGGROUNDDOWN va - a)) OR perm OR PTE_V)
        else xlate (pmem s) r va)" if va: "unat va < 2 ^ 39" for va
    proof -
      have sp: "same_page a va \<longleftrightarrow> PGGROUNDDOWN va = a"
      proof -
        have "PGGROUNDDOWN a = a"
          using "1.prems"(2) by (auto simp: word_unat_eq_iff unat_PGGROUNDDOWN page_aligned_def)
        then show ?thesis using same_page_sv39 [OF "1.prems"(3) va] by auto
      qed
      have ex: "pa + PGSIZE + (PGGROUNDDOWN va - (a + PGSIZE)) = pa + (PGGROUNDDOWN va - a)"
        by simp
      show ?thesis
        using x' va x1 sp page_cases [OF "1.prems"(2) al next_a(2) page_aligned_PGGROUNDDOWN, of va]
        unfolding ex by auto
    qed
    then show ?thesis using True nw m rest af' more' more1
      by (auto simp: map_region_loop.simps [of r a lastp])
  qed
qed

section \<open>A fresh root table\<close>

lemma create_pagetable_spec:
  assumes "free_pages s (n # qs)"
  shows "\<exists>s'. create_pagetable s = Inr (n, s') \<and> space_ok n s' qs \<and> tables (pmem s') n = {n} \<and>
    (\<forall>i < 512. child (pmem s') n i = None) \<and> (\<forall>va. xlate (pmem s') n va = None) \<and>
    (\<forall>x. \<not> in_page n x \<longrightarrow> pmem s' x = pmem s x) \<and> mem.more s' = mem.more s"
proof -
  have n: "n \<noteq> 0" "page_aligned n" "n \<notin> set qs" using pmm.rep_pages [OF assms] by auto
  obtain s1 where al: "alloc_page s = (n, s1)" and fp: "free_pages s1 qs"
    using pmm.alloc_cons [OF assms] by blast
  have s1: "pmem s1 = pmem s" "mem.more s1 = mem.more s"
    using al by (auto simp: alloc_page_def split: if_splits)
  define s' where "s' = s1\<lparr>pmem := zero_page (pmem s1) n\<rparr>"
  have ch: "child (pmem s') n i = None" if "i < 512" for i
    using that n by (simp add: child_def s'_def load64_zero_page_same Let_def)
  then have up: "uppers (pmem s') n = {n}" by (auto simp: uppers_def)
  then have tb: "tables (pmem s') n = {n}" using ch by (auto simp: tables_def)
  have "chain (pmem s') (freelist s') qs"
  proof -
    have "load64 (pmem s') x = load64 (pmem s1) x" if "x \<in> set qs" for x
    proof -
      have "page_aligned x" and "n \<noteq> x" using fp that n chain_aligned by (auto simp: free_pages_def)
      then show ?thesis using load64_zero_page_other [OF n(2), of x 0] by (simp add: s'_def slot_0)
    qed
    then show ?thesis using chain_cong [of qs "pmem s'" "pmem s1"] fp by (simp add: free_pages_def s'_def)
  qed
  then have "space_ok n s' qs"
    using fp n ch up tb by (auto simp: space_ok_def free_pages_def pt_ok_def)
  moreover have "create_pagetable s = Inr (n, s')"
    using n al by (simp add: create_pagetable_def s'_def ret_def)
  moreover have "xlate (pmem s') n va = None" for va
    using ch [OF VPN_MASK_less] by (simp add: xlate_def)
  moreover have "pmem s' x = pmem s x" if "\<not> in_page n x" for x
    using that n s1 by (simp add: s'_def zero_page_eq)
  moreover have "mem.more s' = mem.more s" using s1 by (simp add: s'_def)
  ultimately show ?thesis using ch tb by blast
qed

section \<open>The kernel address space\<close>

definition kernel_vas :: "u64 set" where
  "kernel_vas = {va. page_aligned va \<and> 0x80000000 \<le> va \<and> va \<le> 0x88000000} \<union>
     {0x10000000, TRAMPOLINE, VIRTIO0}"

text \<open>
  The translation \<open>kvminit\<close> sets up, page by page. Both regions end one page late: the
  region below the kernel image also covers the image's first page, and the RAM region
  covers the page at \<open>PHYSTOP\<close>.
\<close>

definition kernel_map :: "u64 \<Rightarrow> u64 \<Rightarrow> u64 option" where
  "kernel_map tramp va =
     (let p = PGGROUNDDOWN va in
      if p = VIRTIO0 then Some (PA_PTE VIRTIO0 OR (PTE_R OR PTE_W) OR PTE_V)
      else if p = TRAMPOLINE then Some (PA_PTE tramp OR (PTE_R OR PTE_X) OR PTE_V)
      else if 0x80000000 \<le> p \<and> p \<le> 0x80200000 then Some (PA_PTE p OR (PTE_R OR PTE_X) OR PTE_V)
      else if p = 0x10000000 then Some (PA_PTE p OR (PTE_R OR PTE_W) OR PTE_V)
      else if 0x80200000 \<le> p \<and> p \<le> PHYSTOP
      then Some (PA_PTE p OR (PTE_R OR PTE_W OR PTE_X) OR PTE_V)
      else None)"

text \<open>Tables needed for the kernel's addresses: three of level 1 and 67 of level 0.\<close>

lemma kernel_region_vpn:
  assumes "0x80000000 \<le> va" and "va \<le> (0x88000000 :: u64)"
  shows "vpn va 2 = 2" and "vpn va 1 \<le> 64"
proof -
  have b: "0x80000000 \<le> unat va" "unat va \<le> 0x88000000"
    using assms by (simp_all add: word_le_nat_alt)
  have "unat va div 1073741824 = 2" using b by simp
  then show "vpn va 2 = 2" by (simp add: vpn_eq)
  have "1024 \<le> unat va div 2097152" and "unat va div 2097152 \<le> 1088" using b by simp_all
  moreover have "n mod 512 \<le> 64" if "1024 \<le> n" "n \<le> 1088" for n :: nat
  proof -
    have "n div 512 = 2" using that by simp
    then have "n = 512 * 2 + n mod 512" by (metis mult_div_mod_eq)
    then show ?thesis using that(2) by linarith
  qed
  ultimately show "vpn va 1 \<le> 64" by (simp add: vpn_eq)
qed

lemma kernel_vas_vpn:
  assumes "va \<in> kernel_vas"
  shows "(vpn va 2, None) \<in> {(2, None), (0, None), (255, None)}"
    and "(vpn va 2, Some (vpn va 1)) \<in>
      (\<lambda>j. (2, Some j)) ` {..64} \<union> {(0, Some 128), (255, Some 511)}"
  using assms kernel_region_vpn [of va]
  by (auto simp: kernel_vas_def vpn_eq TRAMPOLINE_def VIRTIO0_def MAXVA_def PGSIZE_def)

lemma card_missing_kernel: "card (missing m r kernel_vas) \<le> 70"
proof -
  let ?A = "{(2, None), (0, None), (255, None)} :: (nat \<times> nat option) set"
  let ?B = "(\<lambda>j. (2, Some j)) ` {..64} \<union> {(0, Some 128), (255, Some 511)} :: (nat \<times> nat option) set"
  have "missing m r kernel_vas \<subseteq> ?A \<union> ?B"
    unfolding missing_def using kernel_vas_vpn by fastforce
  then have "card (missing m r kernel_vas) \<le> card (?A \<union> ?B)" by (rule card_mono [rotated]) simp
  also have "\<dots> \<le> card ?A + card ?B" by (rule card_Un_le)
  also have "card ?B \<le> card ((\<lambda>j. (2 :: nat, Some j)) ` {..64 :: nat}) + 2"
    by (rule order.trans [OF card_Un_le]) simp
  also have "card ((\<lambda>j. (2 :: nat, Some j)) ` {..64 :: nat}) \<le> 65"
    by (rule order.trans [OF card_image_le]) simp_all
  finally show ?thesis by simp
qed

lemma same_page_eq:
  assumes "unat a < 2 ^ 39" and "unat va < 2 ^ 39" and "page_aligned a"
  shows "same_page a va \<longleftrightarrow> PGGROUNDDOWN va = a"
proof -
  have "PGGROUNDDOWN a = a"
    using assms(3) by (auto simp: word_unat_eq_iff unat_PGGROUNDDOWN page_aligned_def)
  then show ?thesis using same_page_sv39 [OF assms(1,2)] by auto
qed

lemma map_region_kernel:
  assumes "spare k r kernel_vas s ps" and "page_aligned a" and "0x80000000 \<le> a"
    and "PGGROUNDUP (a + n - 1) = b" and "b \<le> 0x88000000" and "a \<le> b"
  shows "\<exists>s' ps'. map_region r a a n perm s = Inr ((), s') \<and> spare k r kernel_vas s' ps' \<and>
    mem.more s' = mem.more s \<and>
    (\<forall>va. unat va < 2 ^ 39 \<longrightarrow> xlate (pmem s') r va =
       (if a \<le> PGGROUNDDOWN va \<and> PGGROUNDDOWN va \<le> b
        then Some (PA_PTE (PGGROUNDDOWN va) OR perm OR PTE_V) else xlate (pmem s) r va))"
proof -
  have a: "PGGROUNDDOWN a = a"
    using assms(2) by (auto simp: word_unat_eq_iff unat_PGGROUNDDOWN page_aligned_def)
  have "unat b \<le> unat (0x88000000 :: u64)" "unat a \<le> unat b"
    using assms(5,6) by (simp_all only: word_le_nat_alt)
  then have lt: "unat a < 2 ^ 39" "unat b < 2 ^ 38" by simp_all
  have vas: "va \<in> kernel_vas" if "page_aligned va" "a \<le> va" "va \<le> b" for va
    using that assms(3,5) by (auto simp: kernel_vas_def)
  have id: "a + (p - a) = p" for p by simp
  show ?thesis
    using map_region_loop_spec [OF assms(1,2) lt vas, of a perm]
    unfolding map_region_def a assms(4) id .
qed

lemma page_aligned_numerals:
  "page_aligned 0x80200000" "page_aligned 0x80000000" "page_aligned 0x10000000"
  "page_aligned TRAMPOLINE" "page_aligned VIRTIO0" "page_aligned TRAPFRAME"
  by (simp_all add: page_aligned_def TRAMPOLINE_def VIRTIO0_def TRAPFRAME_def MAXVA_def PGSIZE_def)

lemma kvminit_spec:
  assumes "free_pages s ps" and "71 + k \<le> length ps"
  shows "\<exists>kpt s' qs. kvminit tramp s = Inr (kpt, s') \<and> space_ok kpt s' qs \<and> k \<le> length qs \<and> mem.more s' = mem.more s \<and>
    (\<forall>va. unat va < 2 ^ 39 \<longrightarrow> xlate (pmem s') kpt va = kernel_map tramp va)"
proof -
  obtain n qs where ps: "ps = n # qs" using assms(2) by (cases ps) auto
  obtain s0 where c: "create_pagetable s = Inr (n, s0)" and ok: "space_ok n s0 qs"
    and x0: "\<forall>va. xlate (pmem s0) n va = None" and e0: "mem.more s0 = mem.more s"
    using create_pagetable_spec assms(1) ps by blast
  have af0: "spare k n kernel_vas s0 qs"
    using ok card_missing_kernel [of "pmem s0" n] assms(2) ps by (simp add: spare_def)
  have g1: "PGGROUNDUP (0x80200000 + (PHYSTOP - 0x80200000) - 1) = 0x88000000"
    and g2: "PGGROUNDUP (0x80000000 + 0x200000 - 1) = (0x80200000 :: u64)"
    by (simp_all add: PGGROUNDUP_def PHYSTOP_def PGSIZE_def)
  have vas: "0x10000000 \<in> kernel_vas" "TRAMPOLINE \<in> kernel_vas" "VIRTIO0 \<in> kernel_vas"
    by (simp_all add: kernel_vas_def)
  have lt: "unat (0x10000000 :: u64) < 2 ^ 39" "unat TRAMPOLINE < 2 ^ 39" "unat VIRTIO0 < 2 ^ 39"
    by (simp_all add: TRAMPOLINE_def VIRTIO0_def MAXVA_def PGSIZE_def)
  note al = page_aligned_numerals
  have rng: "0x80000000 \<le> (0x80200000 :: u64)" "(0x88000000 :: u64) \<le> 0x88000000"
    "0x80200000 \<le> (0x88000000 :: u64)" "0x80000000 \<le> (0x80000000 :: u64)"
    by simp_all
  from map_region_kernel [OF af0 al(1) rng(1) g1 rng(2,3), of "PTE_R OR PTE_W OR PTE_X"]
  obtain s1 ps1 where m1: "map_region n 0x80200000 0x80200000 (PHYSTOP - 0x80200000)
      (PTE_R OR PTE_W OR PTE_X) s0 = Inr ((), s1)" and e1: "mem.more s1 = mem.more s0" and af1: "spare k n kernel_vas s1 ps1"
    and x1: "\<forall>va. unat va < 2 ^ 39 \<longrightarrow> xlate (pmem s1) n va =
      (if 0x80200000 \<le> PGGROUNDDOWN va \<and> PGGROUNDDOWN va \<le> 0x88000000
       then Some (PA_PTE (PGGROUNDDOWN va) OR (PTE_R OR PTE_W OR PTE_X) OR PTE_V)
       else xlate (pmem s0) n va)"
    by blast
  from map_page_spec [OF af1 vas(1), of "0x10000000" "PTE_R OR PTE_W"] obtain s2 ps2
    where m2: "map_page n 0x10000000 0x10000000 (PTE_R OR PTE_W) s1 = Inr (0, s2)"
      and e2: "mem.more s2 = mem.more s1" and af2: "spare k n kernel_vas s2 ps2"
      and x2: "\<forall>va. xlate (pmem s2) n va = (if same_page 0x10000000 va
        then Some (PA_PTE 0x10000000 OR (PTE_R OR PTE_W) OR PTE_V) else xlate (pmem s1) n va)"
    by blast
  from map_region_kernel [OF af2 al(2) rng(4) g2 rng(3,1), of "PTE_R OR PTE_X"]
  obtain s3 ps3 where m3: "map_region n 0x80000000 0x80000000 0x200000 (PTE_R OR PTE_X) s2 = Inr ((), s3)"
    and e3: "mem.more s3 = mem.more s2" and af3: "spare k n kernel_vas s3 ps3"
    and x3: "\<forall>va. unat va < 2 ^ 39 \<longrightarrow> xlate (pmem s3) n va =
      (if 0x80000000 \<le> PGGROUNDDOWN va \<and> PGGROUNDDOWN va \<le> 0x80200000
       then Some (PA_PTE (PGGROUNDDOWN va) OR (PTE_R OR PTE_X) OR PTE_V)
       else xlate (pmem s2) n va)"
    by blast
  from map_page_spec [OF af3 vas(2), of tramp "PTE_R OR PTE_X"] obtain s4 ps4
    where m4: "map_page n TRAMPOLINE tramp (PTE_R OR PTE_X) s3 = Inr (0, s4)"
      and e4: "mem.more s4 = mem.more s3" and af4: "spare k n kernel_vas s4 ps4"
      and x4: "\<forall>va. xlate (pmem s4) n va = (if same_page TRAMPOLINE va
        then Some (PA_PTE tramp OR (PTE_R OR PTE_X) OR PTE_V) else xlate (pmem s3) n va)"
    by blast
  from map_page_spec [OF af4 vas(3), of VIRTIO0 "PTE_R OR PTE_W"] obtain s5 ps5
    where m5: "map_page n VIRTIO0 VIRTIO0 (PTE_R OR PTE_W) s4 = Inr (0, s5)"
      and e5: "mem.more s5 = mem.more s4" and af5: "spare k n kernel_vas s5 ps5"
      and x5: "\<forall>va. xlate (pmem s5) n va = (if same_page VIRTIO0 va
        then Some (PA_PTE VIRTIO0 OR (PTE_R OR PTE_W) OR PTE_V) else xlate (pmem s4) n va)"
    by blast
  have "kvminit tramp s = Inr (n, s5)"
    by (simp add: kvminit_def c m1 m2 m3 m4 m5)
  moreover have "xlate (pmem s5) n va = kernel_map tramp va" if va: "unat va < 2 ^ 39" for va
    using va x0 x1 x2 x3 x4 x5 same_page_eq [OF lt(1) va al(3)] same_page_eq [OF lt(2) va al(4)]
      same_page_eq [OF lt(3) va al(5)]
    by (simp add: kernel_map_def Let_def PHYSTOP_def)
  moreover have "space_ok n s5 ps5" "k \<le> length ps5" using af5 by (simp_all add: spare_def)
  moreover have "mem.more s5 = mem.more s" using e0 e1 e2 e3 e4 e5 by simp
  ultimately show ?thesis by blast
qed

text \<open>
  C27. \<open>kvminit\<close> succeeds whenever 71 pages are free and builds exactly the kernel map:
  identity for the image and RAM, the two device pages, the trampoline, nothing else.
\<close>

theorem kvminit_builds_kernel_map:
  assumes "free_pages s ps" and "71 \<le> length ps"
  shows "\<exists>kpt s'. kvminit tramp s = Inr (kpt, s') \<and> pt_ok (pmem s') kpt \<and>
    (\<forall>va. unat va < 2 ^ 39 \<longrightarrow> xlate (pmem s') kpt va = kernel_map tramp va)"
  using kvminit_spec [OF assms(1), of 0 tramp] assms(2) by (auto simp: space_ok_def)

theorem kvminit_builds_kernel_map_witness:
  "\<exists>s kpt s'. pmm_init 0x80300000 \<lparr>pmem = (\<lambda>_. 0), freelist = 0\<rparr> = Inr ((), s) \<and>
    kvminit 0x80204000 s = Inr (kpt, s') \<and> pt_ok (pmem s') kpt \<and>
    (\<forall>va. unat va < 2 ^ 39 \<longrightarrow> xlate (pmem s') kpt va = kernel_map 0x80204000 va)"
proof -
  have "0 < unat (0x80300000 :: u64)" and "unat (0x80300000 :: u64) \<le> unat PHYSTOP"
    by (simp_all add: unat_PHYSTOP)
  from pmm_init_spec [OF this, of "\<lparr>pmem = (\<lambda>_. 0), freelist = 0\<rparr>"] obtain s where
    s: "pmm_init 0x80300000 \<lparr>pmem = (\<lambda>_. 0), freelist = 0\<rparr> = Inr ((), s)"
    "free_pages s (rev (ram_pages (PGGROUNDUP 0x80300000)))" by auto
  have "71 \<le> length (rev (ram_pages (PGGROUNDUP 0x80300000)))"
    by (simp add: ram_pages_def PGGROUNDUP_def PGSIZE_def PHYSTOP_def)
  from kvminit_builds_kernel_map [OF s(2) this, of "0x80204000"] s(1) show ?thesis by blast
qed

end
