(* ===== verification/UserCopy.thy ===== *)
theory UserCopy
  imports VmInit
begin

text \<open>
  The copies between kernel and user memory (vm.c: copyin, copyinstr, copyout) against
  byte-at-a-time reference functions: a page-wise copy gives the same bytes and the same
  result as reading or writing one virtual address after the other, whatever the page
  boundaries, and stops at the first address that is not a user page.
\<close>

section \<open>Reference functions\<close>

text \<open>The physical address of a user virtual address.\<close>

definition user_addr :: "pmemory \<Rightarrow> u64 \<Rightarrow> u64 \<Rightarrow> u64 option" where
  "user_addr m r va =
     map_option (\<lambda>pte. PTE_PA pte + (va - PGGROUNDDOWN va)) (user_pte m r (PGGROUNDDOWN va))"

fun read_user :: "pmemory \<Rightarrow> u64 \<Rightarrow> u64 \<Rightarrow> nat \<Rightarrow> u8 list \<times> int" where
  "read_user m r va 0 = ([], 0)"
| "read_user m r va (Suc n) =
     (case user_addr m r va of None \<Rightarrow> ([], -1)
      | Some pa \<Rightarrow> (let (bs, res) = read_user m r (va + 1) n in (m pa # bs, res)))"

fun read_user_str :: "pmemory \<Rightarrow> u64 \<Rightarrow> u64 \<Rightarrow> nat \<Rightarrow> u8 list \<times> int" where
  "read_user_str m r va 0 = ([], -1)"
| "read_user_str m r va (Suc n) =
     (case user_addr m r va of None \<Rightarrow> ([], -1)
      | Some pa \<Rightarrow>
          if m pa = 0 then ([0], 0)
          else (let (bs, res) = read_user_str m r (va + 1) n in (m pa # bs, res)))"

fun write_user :: "u64 \<Rightarrow> u64 \<Rightarrow> u8 list \<Rightarrow> pmemory \<Rightarrow> int \<times> pmemory" where
  "write_user r va [] m = (0, m)"
| "write_user r va (b # bs) m =
     (case user_addr m r va of None \<Rightarrow> (-1, m)
      | Some pa \<Rightarrow> write_user r (va + 1) bs (m(pa := b)))"

section \<open>Within a page\<close>

text \<open>\<open>k\<close> bytes from \<open>va\<close> stay in the page of \<open>va\<close>.\<close>

definition within :: "u64 \<Rightarrow> nat \<Rightarrow> bool" where
  "within va k \<longleftrightarrow> unat va mod 4096 + k \<le> 4096"

lemma within_step:
  assumes "within va (Suc k)" and "0 < k"
  shows "PGGROUNDDOWN (va + 1) = PGGROUNDDOWN va" and "within (va + 1) k"
    and "va + 1 - PGGROUNDDOWN va = (va - PGGROUNDDOWN va) + 1"
proof -
  have m: "unat va mod 4096 + 1 < 4096" using assms by (simp add: within_def)
  have lt: "unat va + 1 < 2 ^ 64"
  proof (rule ccontr)
    assume "\<not> unat va + 1 < 2 ^ 64"
    then have "unat va = 2 ^ 64 - 1" using unsigned_less [of va, where 'a = nat] by simp
    then show False using m by simp
  qed
  then have n: "unat (va + 1) = unat va + 1" by (subst unat_plus_small) simp_all
  have "(unat va + 1) mod 4096 = unat va mod 4096 + 1" using m by (simp add: mod_Suc)
  moreover have "(unat va + 1) div 4096 = unat va div 4096"
    using m by (metis Suc_eq_plus1 div_Suc less_irrefl calculation add.commute mod_Suc not_less_eq
        Suc_n_not_le_n zero_less_Suc bot_nat_0.not_eq_extremum)
  ultimately show "PGGROUNDDOWN (va + 1) = PGGROUNDDOWN va" and "within (va + 1) k"
    using assms by (simp_all add: word_unat_eq_iff unat_PGGROUNDDOWN n within_def)
  show "va + 1 - PGGROUNDDOWN va = (va - PGGROUNDDOWN va) + 1" by simp
qed

lemma load_bytes_Suc: "load_bytes m a (Suc n) = m a # load_bytes m (a + 1) n"
proof -
  have "[0..<Suc n] = 0 # map Suc [0..<n]" by (simp add: upt_conv_Cons map_Suc_upt del: upt_Suc)
  then show ?thesis by (simp add: load_bytes_def algebra_simps)
qed

lemma load_bytes_0: "load_bytes m a 0 = []"
  by (simp add: load_bytes_def)

text \<open>The chunk of a page copy, and what is left for the next iteration.\<close>

lemma chunk_within: "within va (unat (chunk va len))"
  unfolding within_def unat_chunk by linarith

lemma chunk_next:
  assumes "chunk va len \<noteq> len"
  shows "va + chunk va len = PGGROUNDDOWN va + PGSIZE"
proof -
  have "chunk va len = PGSIZE - (va - PGGROUNDDOWN va)"
    using assms by (simp add: chunk_def Let_def split: if_splits)
  then show ?thesis by simp
qed

lemma chunk_le: "unat (chunk va len) \<le> unat len" "0 < len \<Longrightarrow> 0 < unat (chunk va len)"
proof -
  show "unat (chunk va len) \<le> unat len" by (simp add: unat_chunk)
  assume "0 < len"
  then have "0 < unat len" by (simp add: word_less_nat_alt)
  moreover have "0 < 4096 - unat va mod 4096" by simp
  ultimately show "0 < unat (chunk va len)" by (simp only: unat_chunk min_less_iff_conj)
qed

section \<open>copyin\<close>

lemma read_user_page:
  assumes "within va k" and "user_pte m r (PGGROUNDDOWN va) = Some pte"
  shows "read_user m r va (k + n) =
    (let (bs, res) = read_user m r (va + of_nat k) n
     in (load_bytes m (PTE_PA pte + (va - PGGROUNDDOWN va)) k @ bs, res))"
  using assms
proof (induction k arbitrary: va)
  case 0
  then show ?case by (simp add: load_bytes_0)
next
  case (Suc k)
  let ?pa = "PTE_PA pte + (va - PGGROUNDDOWN va)"
  have u: "user_addr m r va = Some ?pa" using Suc.prems(2) by (simp add: user_addr_def)
  show ?case
  proof (cases "k = 0")
    case True
    then show ?thesis using u by (simp add: load_bytes_Suc load_bytes_0)
  next
    case False
    note st = within_step [OF Suc.prems(1) False [unfolded neq0_conv]]
    have pa: "PTE_PA pte + (va + 1 - PGGROUNDDOWN (va + 1)) = ?pa + 1"
      unfolding st(1) by simp
    have va: "va + of_nat (Suc k) = va + 1 + of_nat k" by simp
    have IH: "read_user m r (va + 1) (k + n) =
      (let (bs, res) = read_user m r (va + 1 + of_nat k) n in (load_bytes m (?pa + 1) k @ bs, res))"
      unfolding pa [symmetric]
      by (rule Suc.IH [OF st(2)]) (use Suc.prems(2) in \<open>simp only: st(1)\<close>)
    show ?thesis
      unfolding va add_Suc read_user.simps u option.case IH load_bytes_Suc
      by (simp add: split_beta Let_def)
  qed
qed

lemma read_user_None:
  "user_pte m r (PGGROUNDDOWN va) = None \<Longrightarrow> 0 < n \<Longrightarrow> read_user m r va n = ([], -1)"
  by (cases n) (simp_all add: user_addr_def)

lemma copyin_read_user: "copyin m pt srcva len = read_user m pt srcva (unat len)"
proof (induction m pt srcva len rule: copyin.induct)
  case (1 m pt srcva len)
  let ?n = "chunk srcva len"
  show ?case
  proof (cases "0 < len")
    case False
    then have "len = 0" by (simp add: word_gt_0)
    then show ?thesis by (simp add: copyin.simps [of m pt srcva 0])
  next
    case len: True
    then have pos: "0 < unat len" by (simp add: word_less_nat_alt)
    show ?thesis
    proof (cases "user_pte m pt (PGGROUNDDOWN srcva)")
      case None
      then show ?thesis
        using len read_user_None [OF None pos] by (simp add: copyin.simps [of m pt srcva len])
    next
      case (Some pte)
      have l: "unat (len - ?n) = unat len - unat ?n"
        using chunk_le(1) by (simp add: unat_sub word_le_nat_alt)
      have IH: "copyin m pt (PGGROUNDDOWN srcva + PGSIZE) (len - ?n) =
          read_user m pt (PGGROUNDDOWN srcva + PGSIZE) (unat (len - ?n))"
        using "1.IH" [OF len refl Some refl refl] by simp
      have rest: "read_user m pt (PGGROUNDDOWN srcva + PGSIZE) (unat (len - ?n)) =
          read_user m pt (srcva + of_nat (unat ?n)) (unat len - unat ?n)"
        using chunk_next [of srcva len] by (cases "?n = len") (simp_all add: l)
      have "unat len = unat ?n + (unat len - unat ?n)" using chunk_le(1) by simp
      then have "read_user m pt srcva (unat len) =
          (let (bs, res) = read_user m pt (srcva + of_nat (unat ?n)) (unat len - unat ?n)
           in (load_bytes m (PTE_PA pte + (srcva - PGGROUNDDOWN srcva)) (unat ?n) @ bs, res))"
        using read_user_page [OF chunk_within Some, of len "unat len - unat ?n"] by metis
      then show ?thesis
        using len Some IH rest by (simp add: copyin.simps [of m pt srcva len] Let_def)
    qed
  qed
qed

section \<open>copyinstr\<close>

lemma read_user_str_page:
  assumes "within va k" and "user_pte m r (PGGROUNDDOWN va) = Some pte"
  shows "read_user_str m r va (k + n) =
    (let (bs, got) = copy_until_nul (load_bytes m (PTE_PA pte + (va - PGGROUNDDOWN va)) k)
     in if got then (bs, 0)
        else (let (rest, res) = read_user_str m r (va + of_nat k) n in (bs @ rest, res)))"
  using assms
proof (induction k arbitrary: va)
  case 0
  then show ?case by (simp add: load_bytes_0)
next
  case (Suc k)
  let ?pa = "PTE_PA pte + (va - PGGROUNDDOWN va)"
  have u: "user_addr m r va = Some ?pa" using Suc.prems(2) by (simp add: user_addr_def)
  show ?case
  proof (cases "k = 0")
    case True
    then show ?thesis using u by (simp add: load_bytes_Suc load_bytes_0)
  next
    case False
    note st = within_step [OF Suc.prems(1) False [unfolded neq0_conv]]
    have pa: "PTE_PA pte + (va + 1 - PGGROUNDDOWN (va + 1)) = ?pa + 1"
      unfolding st(1) by simp
    have va: "va + of_nat (Suc k) = va + 1 + of_nat k" by simp
    have IH: "read_user_str m r (va + 1) (k + n) =
      (let (bs, got) = copy_until_nul (load_bytes m (?pa + 1) k)
       in if got then (bs, 0)
          else (let (rest, res) = read_user_str m r (va + 1 + of_nat k) n in (bs @ rest, res)))"
      unfolding pa [symmetric]
      by (rule Suc.IH [OF st(2)]) (use Suc.prems(2) in \<open>simp only: st(1)\<close>)
    show ?thesis
      unfolding va add_Suc read_user_str.simps u option.case IH load_bytes_Suc
      by (simp add: split_beta Let_def)
  qed
qed

lemma read_user_str_None:
  "user_pte m r (PGGROUNDDOWN va) = None \<Longrightarrow> read_user_str m r va n = ([], -1)"
  by (cases n) (simp_all add: user_addr_def)

lemma copyinstr_read_user_str: "copyinstr m pt srcva len = read_user_str m pt srcva (unat len)"
proof (induction m pt srcva len rule: copyinstr.induct)
  case (1 m pt srcva len)
  let ?n = "chunk srcva len"
  show ?case
  proof (cases "0 < len")
    case False
    then have "len = 0" by (simp add: word_gt_0)
    then show ?thesis by (simp add: copyinstr.simps [of m pt srcva 0])
  next
    case len: True
    show ?thesis
    proof (cases "user_pte m pt (PGGROUNDDOWN srcva)")
      case None
      then show ?thesis
        using len read_user_str_None [OF None] by (simp add: copyinstr.simps [of m pt srcva len])
    next
      case (Some pte)
      let ?bs = "load_bytes m (PTE_PA pte + (srcva - PGGROUNDDOWN srcva)) (unat ?n)"
      obtain bs got where cu: "copy_until_nul ?bs = (bs, got)" by fastforce
      have l: "unat (len - ?n) = unat len - unat ?n"
        using chunk_le(1) by (simp add: unat_sub word_le_nat_alt)
      have rest: "copyinstr m pt (PGGROUNDDOWN srcva + PGSIZE) (len - ?n) =
          read_user_str m pt (srcva + of_nat (unat ?n)) (unat len - unat ?n)" if ng: "\<not> got"
      proof -
        have "copyinstr m pt (PGGROUNDDOWN srcva + PGSIZE) (len - ?n) =
            read_user_str m pt (PGGROUNDDOWN srcva + PGSIZE) (unat (len - ?n))"
          using "1.IH" [OF len refl Some refl refl cu [symmetric] ng] .
        then show ?thesis using chunk_next [of srcva len] by (cases "?n = len") (simp_all add: l)
      qed
      have "unat len = unat ?n + (unat len - unat ?n)" using chunk_le(1) by simp
      then have "read_user_str m pt srcva (unat len) =
          (if got then (bs, 0)
           else (let (rest, res) = read_user_str m pt (srcva + of_nat (unat ?n)) (unat len - unat ?n)
                 in (bs @ rest, res)))"
        using read_user_str_page [OF chunk_within Some, of len "unat len - unat ?n"] cu
        by (simp only: Let_def case_prod_conv)
      then show ?thesis
        using len Some rest cu by (simp add: copyinstr.simps [of m pt srcva len] Let_def)
    qed
  qed
qed

section \<open>copyout\<close>

text \<open>
  User frames are no page tables: what \<open>copyout\<close> needs for the tables it walks to stay
  as they are while it stores. Without it a user page could rewrite its own mapping.
\<close>

definition isolated :: "pmemory \<Rightarrow> u64 \<Rightarrow> bool" where
  "isolated m r \<longleftrightarrow> pt_ok m r \<and> (\<forall>va e. user_pte m r va = Some e \<longrightarrow> PTE_PA e \<notin> tables m r)"

text \<open>Everything the walks read lies in the tables.\<close>

definition same_tables :: "pmemory \<Rightarrow> u64 \<Rightarrow> pmemory \<Rightarrow> bool" where
  "same_tables m r m' \<longleftrightarrow> (\<forall>t \<in> tables m r. \<forall>x. in_page t x \<longrightarrow> m' x = m x)"

lemma same_tables_entry:
  assumes "same_tables m r m'" and "t \<in> tables m r" and "i < 512"
  shows "load64 m' (slot t i) = load64 m (slot t i)"
proof -
  have "m' (slot t i + of_nat j) = m (slot t i + of_nat j)" if "j < 8" for j
    using assms in_page_slot [OF assms(3) that] unfolding same_tables_def by blast
  then have "load_bytes m' (slot t i) 8 = load_bytes m (slot t i) 8"
    by (auto simp: load_bytes_def)
  then show ?thesis by (simp add: load64_def)
qed

lemma same_tables_child:
  "same_tables m r m' \<Longrightarrow> t \<in> tables m r \<Longrightarrow> i < 512 \<Longrightarrow> child m' t i = child m t i"
  by (simp add: child_def same_tables_entry)

lemma same_tables_uppers: "same_tables m r m' \<Longrightarrow> uppers m' r = uppers m r"
  using same_tables_child [OF _ uppers_tables [OF root_uppers]] by (auto simp: uppers_def)

lemma same_tables_tables:
  assumes "same_tables m r m'"
  shows "tables m' r = tables m r"
proof -
  have "(\<exists>t \<in> uppers m r. \<exists>i < 512. child m' t i = Some c) \<longleftrightarrow>
      (\<exists>t \<in> uppers m r. \<exists>i < 512. child m t i = Some c)" for c
    using same_tables_child [OF assms uppers_tables] by metis
  then show ?thesis by (simp add: tables_def same_tables_uppers [OF assms])
qed

lemma same_tables_pt_ok:
  assumes S: "same_tables m r m'" and ok: "pt_ok m r"
  shows "pt_ok m' r"
proof -
  have c: "child m' t i = child m t i" if "t \<in> uppers m r" "i < 512" for t i
    using same_tables_child [OF S uppers_tables] that by blast
  have "\<forall>t \<in> uppers m r. \<forall>i < 512. \<forall>c. child m' t i = Some c \<longrightarrow> c \<noteq> 0 \<and> c \<noteq> r"
    using ok c unfolding pt_ok_def by metis
  moreover have "\<forall>t \<in> uppers m r. \<forall>t' \<in> uppers m r. \<forall>i < 512. \<forall>i' < 512. \<forall>c.
      child m' t i = Some c \<longrightarrow> child m' t' i' = Some c \<longrightarrow> t = t' \<and> i = i'"
    using child_unique [OF ok] c by metis
  ultimately show ?thesis using ok unfolding pt_ok_def same_tables_uppers [OF S] by blast
qed

lemma same_tables_user_pte:
  assumes S: "same_tables m r m'"
  shows "user_pte m' r va = user_pte m r va"
proof (cases "child m r (vpn va 2)")
  case None
  then have "child m' r (vpn va 2) = None"
    using same_tables_child [OF S uppers_tables [OF root_uppers] VPN_MASK_less] by simp
  with None show ?thesis by (simp add: user_pte_def walk_lookup_child)
next
  case (Some a)
  have a': "child m' r (vpn va 2) = Some a"
    using Some same_tables_child [OF S uppers_tables [OF root_uppers] VPN_MASK_less] by simp
  have au: "a \<in> uppers m r" by (rule child_uppers [OF Some VPN_MASK_less])
  have c: "child m' a (vpn va 1) = child m a (vpn va 1)"
    by (rule same_tables_child [OF S uppers_tables [OF au] VPN_MASK_less])
  show ?thesis
  proof (cases "child m a (vpn va 1)")
    case None
    then show ?thesis using Some a' c by (simp add: user_pte_def walk_lookup_child)
  next
    case b: (Some b)
    have "load64 m' (slot b (vpn va 0)) = load64 m (slot b (vpn va 0))"
      by (rule same_tables_entry [OF S child_tables [OF au b VPN_MASK_less] VPN_MASK_less])
    then show ?thesis using Some a' c b by (simp add: user_pte_def walk_lookup_child Let_def)
  qed
qed

lemma same_tables_isolated: "same_tables m r m' \<Longrightarrow> isolated m r \<Longrightarrow> isolated m' r"
  by (simp add: isolated_def same_tables_pt_ok same_tables_user_pte same_tables_tables)

lemma same_tables_user_addr: "same_tables m r m' \<Longrightarrow> user_addr m' r va = user_addr m r va"
  by (simp add: user_addr_def same_tables_user_pte)

lemma user_store_same_tables:
  assumes "isolated m r" and "user_addr m r va = Some pa"
  shows "same_tables m r (m(pa := b))"
proof -
  obtain e where e: "user_pte m r (PGGROUNDDOWN va) = Some e"
    and pa: "pa = PTE_PA e + (va - PGGROUNDDOWN va)"
    using assms(2) by (auto simp: user_addr_def)
  have "in_page (PTE_PA e) pa" by (simp add: in_page_def pa page_offset)
  moreover have "PTE_PA e \<notin> tables m r" using assms(1) e by (auto simp: isolated_def)
  ultimately have "\<not> in_page t pa" if "t \<in> tables m r" for t
    using in_page_disjoint [OF page_aligned_PTE_PA tables_aligned [OF _ that]] assms(1) that
    by (metis isolated_def)
  then show ?thesis by (auto simp: same_tables_def)
qed

lemma store_bytes_Nil: "store_bytes m a [] = m"
  by (simp add: store_bytes_def)

lemma store_bytes_Cons:
  assumes "length bs < 2 ^ 63"
  shows "store_bytes m a (b # bs) = store_bytes (m(a := b)) (a + 1) bs"
proof
  fix x
  show "store_bytes m a (b # bs) x = store_bytes (m(a := b)) (a + 1) bs x"
  proof (cases "x = a")
    case True
    have "unat (x - (a + 1)) = 2 ^ 64 - 1" using True by (simp add: unsigned_minus_1_eq_mask mask_eq_exp_minus_1)
    then show ?thesis using True assms by (simp add: store_bytes_def)
  next
    case False
    then have nz: "x - a \<noteq> 0" by simp
    have "unat (x - (a + 1)) = unat (x - a) - 1"
      using unat_minus_one [OF nz] by (simp only: diff_diff_add)
    moreover have "unat (x - a) \<noteq> 0" using nz unat_eq_zero by blast
    ultimately have "unat (x - a) = Suc (unat (x - (a + 1)))" by linarith
    then show ?thesis using False by (simp add: store_bytes_def)
  qed
qed

lemma write_user_page:
  assumes "within va (length bs)" and "user_pte m r (PGGROUNDDOWN va) = Some pte"
    and "isolated m r"
  shows "write_user r va (bs @ cs) m =
    write_user r (va + of_nat (length bs)) cs
      (store_bytes m (PTE_PA pte + (va - PGGROUNDDOWN va)) bs)"
  using assms
proof (induction bs arbitrary: va m)
  case Nil
  then show ?case by (simp add: store_bytes_def)
next
  case (Cons b bs)
  let ?pa = "PTE_PA pte + (va - PGGROUNDDOWN va)"
  have u: "user_addr m r va = Some ?pa" using Cons.prems(2) by (simp add: user_addr_def)
  have "length bs < 2 ^ 63" using Cons.prems(1) by (simp add: within_def)
  note sb = store_bytes_Cons [OF this]
  show ?case
  proof (cases "bs = []")
    case True
    then show ?thesis using u by (simp add: store_bytes_Cons store_bytes_Nil fun_upd_def)
  next
    case False
    let ?m = "m(?pa := b)"
    have st: "PGGROUNDDOWN (va + 1) = PGGROUNDDOWN va" "within (va + 1) (length bs)"
      using within_step [of va "length bs"] Cons.prems(1) False by simp_all
    note S = user_store_same_tables [OF Cons.prems(3) u, of b]
    have pa: "PTE_PA pte + (va + 1 - PGGROUNDDOWN (va + 1)) = ?pa + 1"
      unfolding st(1) by simp
    have va: "va + of_nat (length (b # bs)) = va + 1 + of_nat (length bs)" by simp
    have "write_user r (va + 1) (bs @ cs) ?m =
        write_user r (va + 1 + of_nat (length bs)) cs (store_bytes ?m (?pa + 1) bs)"
      unfolding pa [symmetric]
      by (rule Cons.IH [OF st(2) _ same_tables_isolated [OF S Cons.prems(3)]])
        (use Cons.prems(2) in \<open>simp only: st(1) same_tables_user_pte [OF S]\<close>)
    then show ?thesis unfolding va append_Cons write_user.simps u option.case sb .
  qed
qed

lemma write_user_None:
  "user_pte m r (PGGROUNDDOWN va) = None \<Longrightarrow> bs \<noteq> [] \<Longrightarrow> write_user r va bs m = (-1, m)"
  by (cases bs) (simp_all add: user_addr_def)

text \<open>Storing within a page of the address space keeps the tables.\<close>

lemma page_store_same_tables:
  assumes "isolated m r" and "user_pte m r (PGGROUNDDOWN va) = Some pte"
    and "within va (length bs)"
  shows "same_tables m r (store_bytes m (PTE_PA pte + (va - PGGROUNDDOWN va)) bs)"
proof -
  let ?pa = "PTE_PA pte + (va - PGGROUNDDOWN va)"
  have "\<not> unat (x - ?pa) < length bs" if t: "t \<in> tables m r" and x: "in_page t x" for t x
  proof
    assume "unat (x - ?pa) < length bs"
    then obtain j where j: "j < length bs" and xj: "x = ?pa + of_nat j"
      using assms(3) by (subst (asm) unat_diff_less_iff) (auto simp: within_def)
    have "unat (of_nat j :: u64) = j" using j assms(3) by (simp add: unat_of_nat_small within_def)
    then have "unat ((va - PGGROUNDDOWN va) + of_nat j) = unat va mod 4096 + j"
      using j assms(3) by (subst unat_plus_small) (simp_all add: page_offset within_def)
    then have "in_page (PTE_PA pte) x"
      using j assms(3) by (simp add: in_page_def xj within_def algebra_simps)
    moreover have "PTE_PA pte \<noteq> t" using assms(1,2) t by (auto simp: isolated_def)
    ultimately show False
      using in_page_disjoint [OF page_aligned_PTE_PA tables_aligned [OF _ t]] assms(1) x
      by (metis isolated_def)
  qed
  then show ?thesis by (auto simp: same_tables_def store_bytes_def)
qed

lemma copyout_write_user:
  assumes "isolated m pt" and "length src = unat len"
  shows "copyout pt dstva src len m = write_user pt dstva src m"
  using assms
proof (induction pt dstva src len m rule: copyout.induct)
  case (1 pt dstva src len m)
  let ?n = "chunk dstva len"
  show ?case
  proof (cases "0 < len")
    case False
    then have "len = 0" by (simp add: word_gt_0)
    then show ?thesis using "1.prems"(2) by (simp add: copyout.simps [of pt dstva "[]" 0])
  next
    case len: True
    then have pos: "src \<noteq> []" using "1.prems"(2) by (auto simp: word_less_nat_alt)
    show ?thesis
    proof (cases "user_pte m pt (PGGROUNDDOWN dstva)")
      case None
      then show ?thesis
        using len write_user_None [OF None pos] by (simp add: copyout.simps [of pt dstva src len])
    next
      case (Some pte)
      let ?bs = "take (unat ?n) src" and ?cs = "drop (unat ?n) src"
      let ?m = "store_bytes m (PTE_PA pte + (dstva - PGGROUNDDOWN dstva)) ?bs"
      have n: "length ?bs = unat ?n" using chunk_le(1) "1.prems"(2) by simp
      then have w: "within dstva (length ?bs)" using chunk_within by simp
      have l: "length ?cs = unat (len - ?n)"
        using chunk_le(1) "1.prems"(2) by (simp add: unat_sub word_le_nat_alt)
      have iso: "isolated ?m pt"
        using same_tables_isolated page_store_same_tables [OF "1.prems"(1) Some w] "1.prems"(1) by blast
      have IH: "copyout pt (PGGROUNDDOWN dstva + PGSIZE) ?cs (len - ?n) ?m =
          write_user pt (PGGROUNDDOWN dstva + PGSIZE) ?cs ?m"
        using "1.IH" [OF len refl Some refl refl iso l] .
      have "write_user pt (PGGROUNDDOWN dstva + PGSIZE) ?cs ?m =
          write_user pt (dstva + of_nat (length ?bs)) ?cs ?m"
        using chunk_next [of dstva len] l unfolding n by (cases "?n = len") simp_all
      also have "\<dots> = write_user pt dstva (?bs @ ?cs) m"
        by (rule write_user_page [OF w Some "1.prems"(1), symmetric])
      finally show ?thesis
        using len Some IH by (simp add: copyout.simps [of pt dstva src len] Let_def)
    qed
  qed
qed

section \<open>A written buffer reads back\<close>

text \<open>No two user addresses below \<open>2^39\<close> (all an Sv39 walk looks at) share a byte.\<close>

definition unaliased :: "pmemory \<Rightarrow> u64 \<Rightarrow> bool" where
  "unaliased m r \<longleftrightarrow> (\<forall>va va' pa. unat va < 2 ^ 39 \<longrightarrow> unat va' < 2 ^ 39 \<longrightarrow>
     user_addr m r va = Some pa \<longrightarrow> user_addr m r va' = Some pa \<longrightarrow> va = va')"

lemma write_user_frame:
  assumes "write_user r va bs m = (res, m')" and "isolated m r"
    and "\<And>i. i < length bs \<Longrightarrow> user_addr m r (va + of_nat i) \<noteq> Some x"
  shows "m' x = m x"
  using assms
proof (induction bs arbitrary: va m)
  case Nil
  then show ?case by simp
next
  case (Cons b bs)
  show ?case
  proof (cases "user_addr m r va")
    case None
    then show ?thesis using Cons.prems(1) by simp
  next
    case (Some pa)
    note S = user_store_same_tables [OF Cons.prems(2) Some, of b]
    have "user_addr (m(pa := b)) r (va + 1 + of_nat i) \<noteq> Some x" if "i < length bs" for i
      using Cons.prems(3) [of "Suc i"] that by (simp add: same_tables_user_addr [OF S] algebra_simps)
    moreover have "write_user r (va + 1) bs (m(pa := b)) = (res, m')" using Cons.prems(1) Some by simp
    ultimately have "m' x = (m(pa := b)) x"
      using Cons.IH same_tables_isolated [OF S Cons.prems(2)] by blast
    moreover have "x \<noteq> pa" using Cons.prems(3) [of 0] Some by auto
    ultimately show ?thesis by simp
  qed
qed

lemma write_user_same_tables:
  assumes "write_user r va bs m = (res, m')" and "isolated m r"
  shows "same_tables m r m'"
  using assms
proof (induction bs arbitrary: va m)
  case Nil
  then show ?case by (simp add: same_tables_def)
next
  case (Cons b bs)
  show ?case
  proof (cases "user_addr m r va")
    case None
    then show ?thesis using Cons.prems(1) by (simp add: same_tables_def)
  next
    case (Some pa)
    note S = user_store_same_tables [OF Cons.prems(2) Some, of b]
    have "write_user r (va + 1) bs (m(pa := b)) = (res, m')" using Cons.prems(1) Some by simp
    then have "same_tables (m(pa := b)) r m'"
      using Cons.IH same_tables_isolated [OF S Cons.prems(2)] by blast
    with S show ?thesis unfolding same_tables_def same_tables_tables [OF S] by (simp add: same_tables_def)
  qed
qed

lemma write_read_user:
  assumes "write_user r va bs m = (0, m')" and "isolated m r" and "unaliased m r"
    and "unat va + length bs \<le> 2 ^ 39"
  shows "read_user m' r va (length bs) = (bs, 0)"
  using assms
proof (induction bs arbitrary: va m)
  case Nil
  then show ?case by simp
next
  case (Cons b bs)
  from Cons.prems(1) obtain pa where u: "user_addr m r va = Some pa"
    and w: "write_user r (va + 1) bs (m(pa := b)) = (0, m')"
    by (auto split: option.splits)
  note S = user_store_same_tables [OF Cons.prems(2) u, of b]
  have iso: "isolated (m(pa := b)) r" by (rule same_tables_isolated [OF S Cons.prems(2)])
  have una: "unaliased (m(pa := b)) r"
    using Cons.prems(3) by (simp add: unaliased_def same_tables_user_addr [OF S])
  have va: "unat (va + of_nat (Suc i)) = unat va + Suc i" if "i < length bs" for i
    using that Cons.prems(4) by (subst unat_plus_small) (simp_all add: unat_of_nat_small del: of_nat_Suc)
  have v1: "bs \<noteq> [] \<Longrightarrow> unat (va + 1) = unat va + 1" using va [of 0] by (cases bs) simp_all
  have rest: "read_user m' r (va + 1) (length bs) = (bs, 0)"
    using Cons.IH [OF w iso una] v1 Cons.prems(4) by (cases "bs = []") simp_all
  have "m' pa = b"
  proof -
    have "user_addr (m(pa := b)) r (va + 1 + of_nat i) \<noteq> Some pa" if i: "i < length bs" for i
    proof
      assume a: "user_addr (m(pa := b)) r (va + 1 + of_nat i) = Some pa"
      have e: "va + 1 + of_nat i = va + of_nat (Suc i)" by simp
      have "unat va < 2 ^ 39" and "unat (va + of_nat (Suc i)) < 2 ^ 39"
        using Cons.prems(4) va [OF i] i by simp_all
      then have "va = va + of_nat (Suc i)"
        using Cons.prems(3) u a unfolding e same_tables_user_addr [OF S] unaliased_def by blast
      then have "unat va = unat (va + of_nat (Suc i))" by (rule arg_cong)
      then show False unfolding va [OF i] by simp
    qed
    then show ?thesis using write_user_frame [OF w iso] by simp
  qed
  moreover have "user_addr m' r va = Some pa"
    using same_tables_user_addr [OF write_user_same_tables [OF w iso]] u
      same_tables_user_addr [OF S] by simp
  ultimately show ?case using rest by simp
qed

section \<open>An address space with one user page\<close>

lemma user_pte_xlate:
  "pt_ok m r \<Longrightarrow> user_pte m r va = Some e \<longleftrightarrow> xlate m r va = Some e \<and> e AND PTE_U \<noteq> 0"
  by (auto simp: user_pte_def xlate_walk_lookup Let_def)

definition boot :: mem where
  "boot = \<lparr>pmem = (\<lambda>_. 0), freelist = 0\<rparr>"

definition example_pte :: u64 where
  "example_pte = PA_PTE 0x80201000 OR (PTE_R OR PTE_W OR PTE_U) OR PTE_V"

lemma boot_space:
  "\<exists>s r s1 ps. pmm_init 0x80300000 boot = Inr ((), s) \<and> create_pagetable s = Inr (r, s1) \<and>
    space_ok r s1 ps \<and> 2 \<le> length ps \<and> (\<forall>va. xlate (pmem s1) r va = None) \<and>
    0x80201000 \<notin> tables (pmem s1) r \<union> set ps"
proof -
  have k: "0 < unat (0x80300000 :: u64)" "unat (0x80300000 :: u64) \<le> unat PHYSTOP"
    by (simp_all add: unat_PHYSTOP)
  from pmm_init_spec [OF k, of boot] obtain s where
    s: "pmm_init 0x80300000 boot = Inr ((), s)"
    and fp: "free_pages s (rev (ram_pages (PGGROUNDUP 0x80300000)))" by (auto simp: boot_def)
  have l: "71 \<le> length (rev (ram_pages (PGGROUNDUP 0x80300000)))"
    by (simp add: ram_pages_def PGGROUNDUP_def PGSIZE_def PHYSTOP_def)
  then obtain n qs where nq: "rev (ram_pages (PGGROUNDUP 0x80300000)) = n # qs"
    by (cases "rev (ram_pages (PGGROUNDUP 0x80300000))") auto
  have "0x80201000 \<notin> set (ram_pages (PGGROUNDUP 0x80300000))"
    unfolding set_ram_pages [OF PGGROUNDUP_ram(1,3) [OF k]]
    by (simp add: PGGROUNDUP_ram(4) [OF k])
  then have no: "0x80201000 \<notin> set (n # qs)" unfolding nq [symmetric] by simp
  have "2 \<le> length qs" using l unfolding nq by simp
  with create_pagetable_spec [OF fp [unfolded nq]] no s show ?thesis by fastforce
qed

lemma card_missing_single: "card (missing m r {va}) \<le> 2"
proof -
  have "missing m r {va} \<subseteq> {(vpn va 2, None), (vpn va 2, Some (vpn va 1))}"
    by (auto simp: missing_def)
  then have "card (missing m r {va}) \<le> card {(vpn va 2, None), (vpn va 2, Some (vpn va 1))}"
    by (rule card_mono [rotated]) simp
  then show ?thesis by simp
qed

lemma affordable_single: "space_ok r s ps \<Longrightarrow> 2 \<le> length ps \<Longrightarrow> affordable r {va} s ps"
  using card_missing_single [of "pmem s" r va] by (simp add: affordable_def)

lemma example_pte_facts:
  "example_pte AND PTE_U \<noteq> 0" "PTE_PA example_pte = 0x80201000"
  by (simp_all add: example_pte_def PTE_PA_def PA_PTE_def PTE_R_def PTE_W_def PTE_U_def PTE_V_def)

text \<open>A memory whose root \<open>r\<close> maps the user page 0x1000 and nothing else.\<close>

lemma one_user_page:
  "\<exists>m r. isolated m r \<and> unaliased m r \<and> user_pte m r 0x1000 = Some example_pte"
proof -
  from boot_space obtain s :: mem and r ps where ok: "space_ok r s ps" and l: "2 \<le> length ps"
    and none: "\<forall>va. xlate (pmem s) r va = None" and no: "0x80201000 \<notin> tables (pmem s) r \<union> set ps"
    by blast
  from map_page_spec [OF affordable_single [OF ok l] singletonI, of "0x1000" "0x80201000"
      "PTE_R OR PTE_W OR PTE_U"]
  obtain s' :: mem and ps' where af: "affordable r {0x1000} s' ps'"
    and tb: "tables (pmem s') r \<subseteq> tables (pmem s) r \<union> set ps"
    and x': "\<forall>va. xlate (pmem s') r va = (if same_page 0x1000 va then Some example_pte else xlate (pmem s) r va)"
    unfolding example_pte_def by blast
  have x: "\<forall>va. xlate (pmem s') r va = (if same_page 0x1000 va then Some example_pte else None)"
    using x' none by simp
  have pt: "pt_ok (pmem s') r" using af by (simp add: affordable_def space_ok_def)
  have up: "user_pte (pmem s') r va = Some e \<longleftrightarrow> same_page 0x1000 va \<and> e = example_pte" for va e
    using x example_pte_facts by (auto simp: user_pte_xlate [OF pt])
  have "isolated (pmem s') r"
    using pt up tb no example_pte_facts by (auto simp: isolated_def)
  moreover have "unaliased (pmem s') r"
    unfolding unaliased_def
  proof (intro allI impI)
    fix va va' pa
    assume lt: "unat va < 2 ^ 39" "unat va' < 2 ^ 39"
      and u: "user_addr (pmem s') r va = Some pa" "user_addr (pmem s') r va' = Some pa"
    have pg: "PGGROUNDDOWN v = 0x1000 \<and> pa = PTE_PA example_pte + (v - 0x1000)"
      if v: "unat v < 2 ^ 39" and a: "user_addr (pmem s') r v = Some pa" for v
    proof -
      have sp: "same_page 0x1000 (PGGROUNDDOWN v)"
        and p: "pa = PTE_PA example_pte + (v - PGGROUNDDOWN v)"
        using a by (auto simp: user_addr_def up)
      have "unat (PGGROUNDDOWN v) \<le> unat v" by (simp add: unat_PGGROUNDDOWN)
      then have "unat (PGGROUNDDOWN v) < 2 ^ 39" using v by linarith
      then have "PGGROUNDDOWN (PGGROUNDDOWN v) = 0x1000"
        using sp same_page_eq [of "0x1000" "PGGROUNDDOWN v"] by (simp add: page_aligned_def)
      then have "PGGROUNDDOWN v = 0x1000" by (simp add: word_unat_eq_iff unat_PGGROUNDDOWN)
      with p show ?thesis by simp
    qed
    show "va = va'" using pg [OF lt(1) u(1)] pg [OF lt(2) u(2)] by simp
  qed
  moreover have "user_pte (pmem s') r 0x1000 = Some example_pte"
    by (simp add: up same_page_def)
  ultimately show ?thesis by blast
qed

section \<open>Properties\<close>

text \<open>
  C26. With two pages to spare for new tables, \<open>map_page\<close> succeeds, keeps the tree well formed and
  off the free list, and changes the translation of the addresses of its page and no other.
\<close>

theorem map_page_translates:
  assumes "space_ok r s ps" and "2 \<le> length ps"
  shows "\<exists>s' ps'. map_page r va pa perm s = Inr (0, s') \<and> space_ok r s' ps' \<and>
    (\<forall>va'. xlate (pmem s') r va' =
      (if same_page va va' then Some (PA_PTE pa OR perm OR PTE_V) else xlate (pmem s) r va'))"
proof -
  from map_page_spec [OF affordable_single [OF assms] singletonI]
  obtain s' ps' where "map_page r va pa perm s = Inr (0, s')" "affordable r {va} s' ps'"
    "\<forall>va'. xlate (pmem s') r va' =
      (if same_page va va' then Some (PA_PTE pa OR perm OR PTE_V) else xlate (pmem s) r va')" by blast
  then show ?thesis by (auto simp: affordable_def)
qed

theorem map_page_translates_witness:
  "\<exists>s r s1 s2. pmm_init 0x80300000 boot = Inr ((), s) \<and> create_pagetable s = Inr (r, s1) \<and>
    map_page r 0x1000 0x80201000 (PTE_R OR PTE_W OR PTE_U) s1 = Inr (0, s2) \<and>
    xlate (pmem s2) r 0x1234 = Some (PA_PTE 0x80201000 OR (PTE_R OR PTE_W OR PTE_U) OR PTE_V) \<and>
    xlate (pmem s2) r 0x2000 = None"
proof -
  from boot_space obtain s r s1 ps where s: "pmm_init 0x80300000 boot = Inr ((), s)"
    "create_pagetable s = Inr (r, s1)" and ok: "space_ok r s1 ps" "2 \<le> length ps"
    and none: "\<forall>va. xlate (pmem s1) r va = None" by blast
  have "same_page 0x1000 0x1234" "\<not> same_page 0x1000 0x2000"
    by (simp_all add: same_page_def vpn_eq)
  with map_page_translates [OF ok, of "0x1000" "0x80201000" "PTE_R OR PTE_W OR PTE_U"] none s
  show ?thesis by fastforce
qed

text \<open>
  C28. \<open>copyin\<close> delivers exactly the bytes a byte-at-a-time read of the user addresses gives,
  and fails at the first address that is not a user page, whatever the page boundaries.
\<close>

theorem copyin_reads_user: "copyin m pt srcva len = read_user m pt srcva (unat len)"
  by (rule copyin_read_user)

text \<open>
  C29. \<open>copyinstr\<close> copies the user string up to and with its first NUL, returns 0 exactly when
  a NUL lies within the first \<open>maxlen\<close> accessible bytes, and -1 otherwise.
\<close>

theorem copyinstr_reads_user_string:
  "copyinstr m pt srcva maxlen = read_user_str m pt srcva (unat maxlen)"
  by (rule copyinstr_read_user_str)

text \<open>
  C30. In an address space whose user frames are no page tables, \<open>copyout\<close> is the byte-at-a-time
  write to the user addresses.
\<close>

theorem copyout_writes_user:
  assumes "isolated m pt" and "length src = unat len"
  shows "copyout pt dstva src len m = write_user pt dstva src m"
  using assms by (rule copyout_write_user)

theorem copyout_writes_user_witness:
  "\<exists>m pt. copyout pt 0x1ffe [1, 2, 3] 3 m = write_user pt 0x1ffe [1, 2, 3] m \<and>
    user_pte m pt 0x1000 = Some example_pte"
proof -
  obtain m pt where "isolated m pt" and "user_pte m pt 0x1000 = Some example_pte"
    using one_user_page by blast
  with copyout_writes_user [of m pt "[1, 2, 3]" 3 "0x1ffe"] show ?thesis by auto
qed

text \<open>
  C31. What \<open>copyout\<close> stored, \<open>copyin\<close> reads back, across any number of pages, when no two user
  addresses share a byte of memory.
\<close>

theorem copyout_copyin_roundtrip:
  assumes "isolated m pt" and "unaliased m pt" and "length src = unat len"
    and "unat va + unat len \<le> 2 ^ 39" and "copyout pt va src len m = (0, m')"
  shows "copyin m' pt va len = (src, 0)"
proof -
  have "write_user pt va src m = (0, m')"
    using assms(5) copyout_write_user [OF assms(1,3), of va] by simp
  from write_read_user [OF this assms(1,2)] assms(3,4) show ?thesis by (simp add: copyin_read_user)
qed

theorem copyout_copyin_roundtrip_witness:
  "\<exists>m pt m'. copyout pt 0x1004 [7, 8, 9] 3 m = (0, m') \<and> copyin m' pt 0x1004 3 = ([7, 8, 9], 0)"
proof -
  obtain m pt where m: "isolated m pt" "unaliased m pt" and u: "user_pte m pt 0x1000 = Some example_pte"
    using one_user_page by blast
  have pg: "PGGROUNDDOWN 0x1004 = 0x1000" by (simp add: PGGROUNDDOWN_def PGSIZE_def)
  have ch: "chunk 0x1004 3 = 3" by (simp add: chunk_def pg PGSIZE_def)
  obtain m' where c: "copyout pt 0x1004 [7, 8, 9] 3 m = (0, m')"
    by (simp add: copyout.simps [of pt "0x1004"] copyout.simps [of pt _ "[]" 0] u pg ch)
  from copyout_copyin_roundtrip [OF m _ _ c] c show ?thesis by auto
qed

end
