(* ===== verification/Console.thy ===== *)
theory Console
  imports UserCopy "HOL-Library.Char_ord"
begin

text \<open>
  The console and the kernel's printf (uart.c, console.c, printf.c). The state of the
  UART is the list of bytes sent so far; its transmitter is taken to become ready, as
  the wait loop of \<open>uart_putc\<close> expects. A C string is the list of its bytes; a list
  that contains a NUL ends there, as the C loops do. An argument of a variadic call is
  a 64-bit register or a string (\<open>None\<close> is the null pointer); fetching an argument that
  was not passed, or of the other kind, is a fault.
\<close>

record con = mem +
  tx :: "u8 list"

datatype arg = AVal u64 | AStr "u8 list option"

text \<open>String literals.\<close>

definition cstr :: "string \<Rightarrow> u8 list" where
  "cstr s = map of_char s"

definition ch :: "char \<Rightarrow> u8" where
  "ch c = of_char c"

lemmas char_consts = cstr_def ch_def

section \<open>Characters and strings\<close>

definition uart_putc :: "u8 \<Rightarrow> 'a con_scheme \<Rightarrow> 'a con_scheme" where
  "uart_putc c s = s\<lparr>tx := tx s @ [c]\<rparr>"

definition console_putc :: "u8 \<Rightarrow> 'a con_scheme \<Rightarrow> 'a con_scheme" where
  "console_putc c s =
     (let s = (if c = 10 then uart_putc 13 s else s) in uart_putc c s)"

fun console_puts :: "u8 list \<Rightarrow> 'a con_scheme \<Rightarrow> 'a con_scheme" where
  "console_puts [] s = s"
| "console_puts (c # cs) s = (if c = 0 then s else console_puts cs (console_putc c s))"

definition clear_screen :: "'a con_scheme \<Rightarrow> 'a con_scheme" where
  "clear_screen s = console_puts (27 # cstr ''[2J'' @ 27 # cstr ''[H'') s"

fun uart_puts :: "u8 list \<Rightarrow> 'a con_scheme \<Rightarrow> 'a con_scheme" where
  "uart_puts [] s = s"
| "uart_puts (c # cs) s =
     (if c = 0 then s
      else uart_puts cs (uart_putc c (if c = 10 then uart_putc 13 s else s)))"

section \<open>printf\<close>

text \<open>The functions below \<open>printf\<close> take and return the counter \<open>*cnt\<close>.\<close>

definition outc :: "u8 \<Rightarrow> int \<times> 'a con_scheme \<Rightarrow> int \<times> 'a con_scheme" where
  "outc c = (\<lambda>(cnt, s). (cnt + 1, console_putc c s))"

fun prints_loop :: "u8 list \<Rightarrow> int \<times> 'a con_scheme \<Rightarrow> int \<times> 'a con_scheme" where
  "prints_loop [] st = st"
| "prints_loop (c # cs) st = (if c = 0 then st else prints_loop cs (outc c st))"

definition prints :: "u8 list option \<Rightarrow> int \<times> 'a con_scheme \<Rightarrow> int \<times> 'a con_scheme" where
  "prints s = prints_loop (case s of None \<Rightarrow> cstr ''(null)'' | Some cs \<Rightarrow> cs)"

text \<open>
  The digit loop of \<open>printu\<close>: \<open>buf\<close> holds the digits written so far, the next one goes
  to \<open>buf[length buf]\<close>, and the array has 32 entries.
\<close>

definition digit :: "u64 \<Rightarrow> u8" where
  "digit r = (if r < 10 then 48 + ucast r else 97 + ucast (r - 10))"

function digits :: "u64 \<Rightarrow> u32 \<Rightarrow> u8 list \<Rightarrow> u8 list option" where
  "digits x base buf =
     (if x = 0 then Some buf
      else if length buf \<ge> 32 then None
      else digits (x div ucast base) base (buf @ [digit (x mod ucast base)]))"
  by pat_completeness auto
termination
  by (relation "measure (\<lambda>(x, base, buf). 32 - length buf)") auto

declare digits.simps [simp del]

definition printu :: "u64 \<Rightarrow> u32 \<Rightarrow> int \<times> 'a con_scheme \<Rightarrow> kerror + int \<times> 'a con_scheme" where
  "printu x base st =
     (if x = 0 then Inr (outc 48 st)
      else (case digits x base [] of
              None \<Rightarrow> Inl (Fault ''printu: buf'')
            | Some buf \<Rightarrow> Inr (fold outc (rev buf) st)))"

text \<open>The comparison with 0x80000000 is one with +2147483648, which a negative \<open>v\<close> never equals.\<close>

definition printd :: "u64 \<Rightarrow> int \<times> 'a con_scheme \<Rightarrow> kerror + int \<times> 'a con_scheme" where
  "printd v st =
     (if v <s 0 then
        (if v = 0x80000000 then Inr (prints (Some (cstr ''-2147483648'')) st)
         else printu (- v) 10 (outc 45 st))
      else printu v 10 st)"

text \<open>\<open>va_arg(ap, int)\<close> widened to 64 bits, \<open>va_arg(ap, unsigned)\<close>, a pointer, a string.\<close>

definition va_int :: "u64 \<Rightarrow> u64" where
  "va_int w = scast (ucast w :: u32)"

definition va_uint :: "u64 \<Rightarrow> u64" where
  "va_uint w = ucast (ucast w :: u32)"

fun conv :: "u8 \<Rightarrow> arg list \<Rightarrow> int \<times> 'a con_scheme \<Rightarrow> kerror + arg list \<times> int \<times> 'a con_scheme" where
  "conv f ap st =
     (if f = ch CHR ''d'' then
        (case ap of AVal w # ap \<Rightarrow> map_sum id (Pair ap) (printd (va_int w) st)
         | _ \<Rightarrow> Inl (Fault ''va_arg''))
      else if f = ch CHR ''x'' then
        (case ap of AVal w # ap \<Rightarrow> map_sum id (Pair ap) (printu (va_uint w) 16 st)
         | _ \<Rightarrow> Inl (Fault ''va_arg''))
      else if f = ch CHR ''p'' then
        (case ap of AVal w # ap \<Rightarrow> map_sum id (Pair ap) (printu w 16 (prints (Some (cstr ''0x'')) st))
         | _ \<Rightarrow> Inl (Fault ''va_arg''))
      else if f = ch CHR ''s'' then
        (case ap of AStr cs # ap \<Rightarrow> Inr (ap, prints cs st) | _ \<Rightarrow> Inl (Fault ''va_arg''))
      else if f = ch CHR ''c'' then
        (case ap of AVal w # ap \<Rightarrow> Inr (ap, outc (ucast w) st) | _ \<Rightarrow> Inl (Fault ''va_arg''))
      else if f = ch CHR ''%'' then Inr (ap, outc (ch CHR ''%'') st)
      else Inr (ap, outc f (outc (ch CHR ''%'') st)))"

fun printf_loop :: "u8 list \<Rightarrow> arg list \<Rightarrow> int \<times> 'a con_scheme \<Rightarrow> (int, 'a con_scheme) outcome" where
  "printf_loop [] ap st = Inr st"
| "printf_loop [c] ap st =
     (if c = 0 \<or> c = ch CHR ''%'' then Inr st else Inr (outc c st))"
| "printf_loop (c # f # fmt) ap st =
     (if c = 0 then Inr st
      else if c \<noteq> ch CHR ''%'' then printf_loop (f # fmt) ap (outc c st)
      else if f = 0 then Inr st
      else (case conv f ap st of Inl e \<Rightarrow> Inl e | Inr (ap, st) \<Rightarrow> printf_loop fmt ap st))"

definition printf :: "string \<Rightarrow> arg list \<Rightarrow> 'a con_scheme \<Rightarrow> (int, 'a con_scheme) outcome" where
  "printf fmt ap s = printf_loop (cstr fmt) ap (0, s)"

section \<open>Output as text\<close>

text \<open>What the UART sends for a text: every newline is preceded by a carriage return.\<close>

definition crlf :: "u8 list \<Rightarrow> u8 list" where
  "crlf cs = concat (map (\<lambda>c. if c = 10 then [13, 10] else [c]) cs)"

definition emit :: "u8 list \<Rightarrow> int \<times> 'a con_scheme \<Rightarrow> int \<times> 'a con_scheme" where
  "emit cs = (\<lambda>(cnt, s). (cnt + int (length cs), s\<lparr>tx := tx s @ crlf cs\<rparr>))"

lemma crlf_append [simp]: "crlf (xs @ ys) = crlf xs @ crlf ys"
  by (simp add: crlf_def)

lemma crlf_Nil [simp]: "crlf [] = []"
  by (simp add: crlf_def)

lemma emit_Nil [simp]: "emit [] st = st"
  by (cases st) (simp add: emit_def)

lemma emit_emit [simp]: "emit ys (emit xs st) = emit (xs @ ys) st"
  by (cases st) (simp add: emit_def)

lemma outc_emit: "outc c = emit [c]"
  by (auto simp: fun_eq_iff outc_def emit_def console_putc_def uart_putc_def crlf_def Let_def)

lemma fold_outc: "fold outc cs st = emit cs st"
proof (induction cs arbitrary: st)
  case Nil
  then show ?case by simp
next
  case (Cons c cs)
  then show ?case by (simp add: outc_emit)
qed

lemma prints_loop_emit: "prints_loop cs st = emit (takeWhile (\<lambda>c. c \<noteq> 0) cs) st"
  by (induction cs arbitrary: st) (simp_all add: outc_emit)

lemma console_puts_crlf:
  "console_puts cs s = s\<lparr>tx := tx s @ crlf (takeWhile (\<lambda>c. c \<noteq> 0) cs)\<rparr>"
  by (induction cs arbitrary: s) (simp_all add: console_putc_def uart_putc_def crlf_def Let_def)

lemma uart_puts_console_puts: "uart_puts cs s = console_puts cs s"
  by (induction cs arbitrary: s) (simp_all add: console_putc_def Let_def)

section \<open>Numerals\<close>

text \<open>The digits of a number, least significant first, and its text.\<close>

fun low_digits :: "nat \<Rightarrow> nat \<Rightarrow> nat list" where
  "low_digits b n = (if b < 2 \<or> n = 0 then [] else n mod b # low_digits b (n div b))"

declare low_digits.simps [simp del]

definition digit_char :: "nat \<Rightarrow> u8" where
  "digit_char d = (if d < 10 then of_nat (48 + d) else of_nat (87 + d))"

definition numeral_text :: "nat \<Rightarrow> nat \<Rightarrow> u8 list" where
  "numeral_text b n = (if n = 0 then [48] else rev (map digit_char (low_digits b n)))"

definition decimal_text :: "int \<Rightarrow> u8 list" where
  "decimal_text i =
     (if i < 0 then 45 # numeral_text 10 (nat (- i)) else numeral_text 10 (nat i))"

text \<open>The digits denote the number and are below the base.\<close>

lemma low_digits_value: "2 \<le> b \<Longrightarrow> horner_sum (\<lambda>d. d) b (low_digits b n) = n"
proof (induction b n rule: low_digits.induct)
  case (1 b n)
  then show ?case by (subst low_digits.simps) (auto simp: algebra_simps)
qed

lemma low_digits_bound: "d \<in> set (low_digits b n) \<Longrightarrow> d < b"
proof (induction b n rule: low_digits.induct)
  case (1 b n)
  then show ?case by (subst (asm) (2) low_digits.simps) (auto split: if_splits)
qed

lemma length_low_digits: "n < b ^ k \<Longrightarrow> length (low_digits b n) \<le> k"
proof (induction k arbitrary: n)
  case 0
  then show ?case by (simp add: low_digits.simps)
next
  case (Suc k)
  show ?case
  proof (cases "b < 2 \<or> n = 0")
    case True
    then show ?thesis by (simp add: low_digits.simps)
  next
    case False
    then have "n div b < b ^ k"
      using Suc.prems by (simp add: less_mult_imp_div_less mult.commute)
    then show ?thesis using False Suc.IH [of "n div b"] by (subst low_digits.simps) simp
  qed
qed

lemma digit_eq:
  assumes "unat r < 16"
  shows "digit r = digit_char (unat r)"
proof -
  have u: "ucast w = (of_nat (unat w) :: u8)" for w :: u64 by simp
  show ?thesis
  proof (cases "r < 10")
    case True
    then have "unat r < 10" by (simp add: word_less_nat_alt)
    then show ?thesis using True by (simp add: digit_def digit_char_def)
  next
    case False
    then have ge: "10 \<le> unat r" by (simp add: word_less_nat_alt)
    then have "unat (r - 10) = unat r - 10" by (simp add: unat_sub word_le_nat_alt)
    then have "97 + ucast (r - 10) = (of_nat (97 + (unat r - 10)) :: u8)" by (simp add: u)
    also have "97 + (unat r - 10) = 87 + unat r" using ge by simp
    finally show ?thesis using False ge by (simp add: digit_def digit_char_def)
  qed
qed

lemma digits_low_digits:
  assumes "length buf + length (low_digits (unat base) (unat x)) \<le> 32"
    and "2 \<le> unat base" and "unat base \<le> 16"
  shows "digits x base buf = Some (buf @ map digit_char (low_digits (unat base) (unat x)))"
  using assms
proof (induction x base buf rule: digits.induct)
  case (1 x base buf)
  show ?case
  proof (cases "x = 0")
    case True
    then show ?thesis by (simp add: digits.simps low_digits.simps)
  next
    case False
    let ?b = "unat base"
    have x: "unat x \<noteq> 0" using False unat_eq_zero by blast
    have b: "unat (ucast base :: u64) = ?b" by (simp add: unsigned_ucast_eq take_bit_nat_eq_self unsigned_less [THEN less_trans])
    have d: "unat (x div ucast base) = unat x div ?b" "unat (x mod ucast base) = unat x mod ?b"
      by (simp_all add: unat_div_distrib unat_mod_distrib b)
    have lo: "low_digits ?b (unat x) = unat x mod ?b # low_digits ?b (unat x div ?b)"
      using x "1.prems"(2) by (subst low_digits.simps) simp
    have m: "unat (x mod ucast base) < 16"
      using "1.prems"(2,3) mod_less_divisor [of ?b "unat x"] unfolding d by linarith
    have l: "\<not> 32 \<le> length buf" using "1.prems"(1) lo by simp
    have "digits (x div ucast base) base (buf @ [digit (x mod ucast base)]) =
        Some ((buf @ [digit (x mod ucast base)]) @ map digit_char (low_digits ?b (unat x div ?b)))"
      using "1.IH" [OF False l] "1.prems" lo unfolding d by simp
    then show ?thesis
      using False l digit_eq [OF m] lo d by (simp add: digits.simps [of x])
  qed
qed

lemma digits_text:
  assumes "base = 10 \<or> base = 16"
  shows "digits x base [] = Some (map digit_char (low_digits (unat base) (unat x)))"
    and "length (low_digits (unat base) (unat x)) \<le> 20"
proof -
  have "unat x < 10 ^ 20" using unsigned_less [of x, where 'a = nat] by simp
  moreover have "(10 :: nat) ^ 20 \<le> 16 ^ 20" by (rule power_mono) simp_all
  ultimately have "unat x < unat base ^ 20" using assms by auto
  then show l: "length (low_digits (unat base) (unat x)) \<le> 20" by (rule length_low_digits)
  then show "digits x base [] = Some (map digit_char (low_digits (unat base) (unat x)))"
    using assms digits_low_digits [of "[]" base x] by auto
qed

lemma printu_text:
  assumes "base = 10 \<or> base = 16"
  shows "printu x base st = Inr (emit (numeral_text (unat base) (unat x)) st)"
proof (cases "x = 0")
  case True
  then show ?thesis by (simp add: printu_def numeral_text_def outc_emit)
next
  case False
  from digits_text(1) [OF assms] show ?thesis
    using False by (simp add: printu_def fold_outc numeral_text_def unat_eq_zero)
qed

lemma sint_msb: "sint v = uint v - (if v <s 0 then 2 ^ LENGTH('a) else 0)" for v :: "'a::len word"
proof (cases "sint v < 0")
  case True
  have "uint v = (sint v + 2 ^ LENGTH('a)) mod 2 ^ LENGTH('a)" by (simp add: uint_sint take_bit_eq_mod)
  also have "\<dots> = sint v + 2 ^ LENGTH('a)"
  proof (rule mod_pos_pos_trivial)
    have "- (2 ^ (LENGTH('a) - 1)) \<le> sint v" by (rule sint_ge)
    moreover have "(2 :: int) ^ (LENGTH('a) - 1) \<le> 2 ^ LENGTH('a)" by (rule power_increasing) simp_all
    ultimately show "0 \<le> sint v + 2 ^ LENGTH('a)" by linarith
  qed (use True in simp)
  finally show ?thesis using True by (simp add: word_sless_alt)
next
  case False
  have "uint v = sint v mod 2 ^ LENGTH('a)" by (simp add: uint_sint take_bit_eq_mod)
  also have "\<dots> = sint v"
  proof (rule mod_pos_pos_trivial)
    have "sint v < 2 ^ (LENGTH('a) - 1)" by (rule sint_lt)
    moreover have "(2 :: int) ^ (LENGTH('a) - 1) \<le> 2 ^ LENGTH('a)" by (rule power_increasing) simp_all
    ultimately show "sint v < 2 ^ LENGTH('a)" by linarith
  qed (use False in simp)
  finally show ?thesis using False by (simp add: word_sless_alt)
qed

lemma uint_uminus: "v \<noteq> 0 \<Longrightarrow> uint (- v) = 2 ^ LENGTH('a) - uint v" for v :: "'a::len word"
  using uint_nonnegative [of v] uint_lt2p [of v]
  by (simp add: uint_word_ariths zmod_zminus1_eq_if unsigned_eq_0_iff mod_pos_pos_trivial)

lemma unat_uminus_neg:
  assumes "v <s 0"
  shows "unat (- v) = nat (- sint v)"
proof -
  have "v \<noteq> 0" using assms by auto
  then have "uint (- v) = - sint v" using assms sint_msb [of v] by (simp add: uint_uminus)
  then show ?thesis by (simp only: unat_eq_nat_uint)
qed

lemma unat_nonneg: "\<not> v <s 0 \<Longrightarrow> unat v = nat (sint v)"
  using sint_msb [of v] by simp

lemma printd_text: "printd v st = Inr (emit (decimal_text (sint v)) st)"
proof (cases "v <s 0")
  case True
  then have neg: "sint v < 0" by (simp add: word_sless_alt)
  have ne: "v \<noteq> 0x80000000"
  proof
    assume "v = 0x80000000"
    then show False using True by (simp add: word_sless_alt)
  qed
  have "unat (- v) = nat (- sint v)" by (rule unat_uminus_neg [OF True])
  then show ?thesis
    using True neg ne by (simp add: printd_def printu_text outc_emit decimal_text_def)
next
  case False
  then have pos: "0 \<le> sint v" by (simp add: word_sless_alt)
  have "unat v = nat (sint v)" by (rule unat_nonneg [OF False])
  then show ?thesis using False pos by (simp add: printd_def printu_text decimal_text_def)
qed

section \<open>Formatted text\<close>

text \<open>The text a conversion stands for, with the arguments left; \<open>None\<close> if one is missing.\<close>

fun conv_text :: "u8 \<Rightarrow> arg list \<Rightarrow> (u8 list \<times> arg list) option" where
  "conv_text f ap =
     (if f = ch CHR ''%'' then Some ([f], ap)
      else if f \<notin> ch ` {CHR ''d'', CHR ''x'', CHR ''p'', CHR ''s'', CHR ''c''} then Some ([ch CHR ''%'', f], ap)
      else (case ap of
          [] \<Rightarrow> None
        | AStr s # ap \<Rightarrow>
            if f = ch CHR ''s''
            then Some (case s of None \<Rightarrow> cstr ''(null)'' | Some cs \<Rightarrow> takeWhile (\<lambda>c. c \<noteq> 0) cs, ap)
            else None
        | AVal w # ap \<Rightarrow>
            if f = ch CHR ''d'' then Some (decimal_text (sint (ucast w :: u32)), ap)
            else if f = ch CHR ''x'' then Some (numeral_text 16 (unat (ucast w :: u32)), ap)
            else if f = ch CHR ''p'' then Some (cstr ''0x'' @ numeral_text 16 (unat w), ap)
            else if f = ch CHR ''c'' then Some ([ucast w], ap)
            else None))"

fun format_text :: "u8 list \<Rightarrow> arg list \<Rightarrow> u8 list option" where
  "format_text [] ap = Some []"
| "format_text [c] ap = Some (if c = 0 \<or> c = ch CHR ''%'' then [] else [c])"
| "format_text (c # f # fmt) ap =
     (if c = 0 then Some []
      else if c \<noteq> ch CHR ''%'' then map_option (Cons c) (format_text (f # fmt) ap)
      else if f = 0 then Some []
      else (case conv_text f ap of None \<Rightarrow> None
            | Some (t, ap) \<Rightarrow> map_option ((@) t) (format_text fmt ap)))"

lemma prints_text:
  "prints s st = emit (case s of None \<Rightarrow> cstr ''(null)'' | Some cs \<Rightarrow> takeWhile (\<lambda>c. c \<noteq> 0) cs) st"
  by (simp add: prints_def prints_loop_emit cstr_def split: option.split)

lemma sint_va_int: "sint (va_int w) = sint (ucast w :: u32)"
  by (simp add: va_int_def sint_up_scast is_up_def source_size_def target_size_def word_size)

lemma unat_va_uint: "unat (va_uint w) = unat (ucast w :: u32)"
proof -
  have "unat (ucast w :: u32) < 2 ^ 64"
    using unsigned_less [of "ucast w :: u32", where 'a = nat] by simp
  then show ?thesis
    unfolding va_uint_def by (subst unsigned_ucast_eq, intro take_bit_nat_eq_self) simp
qed

lemma conv_conv_text:
  "conv f ap st = (case conv_text f ap of None \<Rightarrow> Inl (Fault ''va_arg'')
     | Some (t, ap') \<Rightarrow> Inr (ap', emit t st))"
  by (simp add: printd_text printu_text prints_text sint_va_int unat_va_uint outc_emit char_consts split: list.split arg.split)

declare conv.simps [simp del] conv_text.simps [simp del]

lemma printf_loop_text:
  "printf_loop fmt ap st = (case format_text fmt ap of None \<Rightarrow> Inl (Fault ''va_arg'')
     | Some t \<Rightarrow> Inr (emit t st))"
proof (induction fmt ap st rule: printf_loop.induct)
  case (3 c f fmt ap st)
  show ?case
  proof (cases "c = 0 \<or> (c = ch CHR ''%'' \<and> f = 0)")
    case True
    then show ?thesis by auto
  next
    case nz: False
    show ?thesis
    proof (cases "c = ch CHR ''%''")
      case False
      then show ?thesis using "3.IH"(1) nz by (simp add: outc_emit split: option.split)
    next
      case pc: True
      then have f: "c \<noteq> 0" "f \<noteq> 0" using nz by auto
      show ?thesis
      proof (cases "conv_text f ap")
        case None
        then show ?thesis using f pc by (simp add: conv_conv_text)
      next
        case (Some x)
        obtain t ap' where x: "x = (t, ap')" by (cases x)
        have cv: "conv f ap st = Inr (ap', emit t st)" using Some x by (simp add: conv_conv_text)
        have "printf_loop fmt ap' (emit t st) = (case format_text fmt ap' of None \<Rightarrow> Inl (Fault ''va_arg'')
          | Some u \<Rightarrow> Inr (emit u (emit t st)))"
          using "3.IH"(2) f pc cv by blast
        then show ?thesis using f pc cv Some x by (simp split: option.split)
      qed
    qed
  qed
qed (auto simp: outc_emit)

lemma printf_spec:
  "printf fmt ap s = (case format_text (cstr fmt) ap of None \<Rightarrow> Inl (Fault ''va_arg'')
     | Some t \<Rightarrow> Inr (int (length t), s\<lparr>tx := tx s @ crlf t\<rparr>))"
  by (simp add: printf_def printf_loop_text emit_def split: option.split)

lemma crlf_no_newline: "10 \<notin> set cs \<Longrightarrow> crlf cs = cs"
  by (induction cs) (auto simp: crlf_def)

section \<open>Properties\<close>

text \<open>
  C39. \<open>printf\<close> sends exactly the text its format and arguments stand for, each newline as CR LF,
  and returns the text's length; it faults exactly when an argument is missing or of the wrong
  kind, and the 32-byte digit buffer never overflows.
\<close>

theorem printf_prints_text:
  "printf fmt ap s = (case format_text (cstr fmt) ap of None \<Rightarrow> Inl (Fault ''va_arg'')
     | Some t \<Rightarrow> Inr (int (length t), s\<lparr>tx := tx s @ crlf t\<rparr>))"
  by (rule printf_spec)

text \<open>
  C40. The digit loop of \<open>printu\<close> stays within its buffer and leaves the digits of \<open>x\<close>, least
  significant first: their values in the base add up to \<open>x\<close>.
\<close>

theorem printu_digits:
  assumes "base = 10 \<or> base = 16"
  shows "\<exists>ds. digits x base [] = Some (map digit_char ds) \<and> length ds \<le> 20 \<and>
    (\<forall>d \<in> set ds. d < unat base) \<and> horner_sum (\<lambda>d. d) (unat base) ds = unat x"
proof -
  note D = digits_text [OF assms, of x]
  have "2 \<le> unat base" using assms by auto
  then show ?thesis using D low_digits_value low_digits_bound by metis
qed

theorem printu_digits_witness:
  "\<exists>ds. digits 255 16 [] = Some (map digit_char ds) \<and> length ds \<le> 20 \<and>
    (\<forall>d \<in> set ds. d < unat (16 :: u32)) \<and> horner_sum (\<lambda>d. d) (unat (16 :: u32)) ds = unat (255 :: u64)"
  using printu_digits [of 16 255] by blast

end
