(* ===== verification/Klog.thy ===== *)
theory Klog
  imports Console
begin

text \<open>
  The kernel log (klog.c): messages go to the console and to a ring buffer of 4096
  bytes that keeps the newest 4095. \<open>get_time()\<close> is an argument of the functions that
  read the clock.
\<close>

record klog = con +
  kl_buffer :: "u8 list"
  kl_head :: nat
  kl_tail :: nat
  kl_count :: int
  kl_total_logs :: int
  kl_dropped :: int
  kl_enabled :: bool
  kl_use_color :: bool

definition LOG_BUFSIZE :: nat where "LOG_BUFSIZE = 4096"
definition LOG_DEBUG :: int where "LOG_DEBUG = 0"
definition LOG_INFO :: int where "LOG_INFO = 1"
definition LOG_WARN :: int where "LOG_WARN = 2"
definition LOG_ERROR :: int where "LOG_ERROR = 3"
definition LOG_LEVEL :: int where "LOG_LEVEL = LOG_DEBUG"

lemmas klog_consts = LOG_BUFSIZE_def LOG_DEBUG_def LOG_INFO_def LOG_WARN_def LOG_ERROR_def LOG_LEVEL_def

definition level_names :: "string list" where
  "level_names = [''DEBUG'', ''INFO '', ''WARN '', ''ERROR'']"

definition level_colors :: "u8 list list" where
  "level_colors = map (\<lambda>s. 27 # cstr s) [''[36m'', ''[32m'', ''[33m'', ''[31m'']"

definition color_reset :: "u8 list" where
  "color_reset = 27 # cstr ''[0m''"

section \<open>The ring buffer\<close>

definition log_putc :: "u8 \<Rightarrow> 'a klog_scheme \<Rightarrow> 'a klog_scheme" where
  "log_putc c s =
     (let s = s\<lparr>kl_buffer := (kl_buffer s)[kl_head s := c]\<rparr>;
          s = s\<lparr>kl_head := (kl_head s + 1) mod LOG_BUFSIZE\<rparr>
      in if kl_head s = kl_tail s
         then s\<lparr>kl_tail := (kl_tail s + 1) mod LOG_BUFSIZE, kl_dropped := i32 (kl_dropped s + 1)\<rparr>
         else s)"

fun log_puts :: "u8 list \<Rightarrow> 'a klog_scheme \<Rightarrow> 'a klog_scheme" where
  "log_puts [] s = s"
| "log_puts (c # cs) s = (if c = 0 then s else log_puts cs (log_putc c s))"

text \<open>
  The digit loops, into an array of \<open>lim\<close> bytes: 20 in \<open>log_print_num\<close>, 16 for \<open>%d\<close> (there
  the number is not negative, so the signed division is the unsigned one).
\<close>

function dec_loop :: "nat \<Rightarrow> u64 \<Rightarrow> u8 list \<Rightarrow> u8 list option" where
  "dec_loop lim n buf =
     (if n = 0 then Some buf
      else if length buf \<ge> lim then None
      else dec_loop lim (n div 10) (buf @ [48 + ucast (n mod 10)]))"
  by pat_completeness auto
termination
  by (relation "measure (\<lambda>(lim, n, buf). lim - length buf)") auto

declare dec_loop.simps [simp del]

definition put_digits :: "u8 list option \<Rightarrow> 'a klog_scheme \<Rightarrow> (unit, 'a klog_scheme) outcome" where
  "put_digits r s = (case r of None \<Rightarrow> Inl (Fault ''buf'') | Some buf \<Rightarrow> ret () (fold log_putc (rev buf) s))"

definition log_print_num :: "u64 \<Rightarrow> 'a klog_scheme \<Rightarrow> (unit, 'a klog_scheme) outcome" where
  "log_print_num n s =
     (if n = 0 then ret () (log_putc 48 s) else put_digits (dec_loop 20 n []) s)"

section \<open>klog\<close>

text \<open>The \<open>%d\<close> case: \<open>-val\<close> wraps for the least int, whose digits are then not written.\<close>

definition log_int :: "u32 \<Rightarrow> 'a klog_scheme \<Rightarrow> (unit, 'a klog_scheme) outcome" where
  "log_int val s =
     (let (val, s) = (if val <s 0 then (- val, log_putc (ch CHR ''-'') s) else (val, s));
          buf = (if val = 0 then [48] else [])
      in put_digits (if 0 <s val then dec_loop 16 (ucast val) buf else Some buf) s)"

fun klog_conv :: "u8 \<Rightarrow> arg list \<Rightarrow> 'a klog_scheme \<Rightarrow> (arg list, 'a klog_scheme) outcome" where
  "klog_conv f ap s =
     (if f = ch CHR ''d'' then
        (case ap of AVal w # ap \<Rightarrow>
             bnd (printf ''%d'' [AVal w] s) (\<lambda>_ s. bnd (log_int (ucast w) s) (\<lambda>_. ret ap))
         | _ \<Rightarrow> Inl (Fault ''va_arg''))
      else if f = ch CHR ''x'' then
        (case ap of AVal w # ap \<Rightarrow> bnd (printf ''%x'' [AVal w] s) (\<lambda>_. ret ap)
         | _ \<Rightarrow> Inl (Fault ''va_arg''))
      else if f = ch CHR ''s'' then
        (case ap of AStr str # ap \<Rightarrow>
             (let str = (case str of None \<Rightarrow> cstr ''(null)'' | Some cs \<Rightarrow> cs) in
              bnd (printf ''%s'' [AStr (Some str)] s) (\<lambda>_ s. ret ap (log_puts str s)))
         | _ \<Rightarrow> Inl (Fault ''va_arg''))
      else if f = ch CHR ''c'' then
        (case ap of AVal w # ap \<Rightarrow>
             bnd (printf ''%c'' [AVal w] s) (\<lambda>_ s. ret ap (log_putc (ucast w) s))
         | _ \<Rightarrow> Inl (Fault ''va_arg''))
      else if f = ch CHR ''%'' then
        bnd (printf ''%%'' [] s) (\<lambda>_ s. ret ap (log_putc (ch CHR ''%'') s))
      else
        bnd (printf ''%%%c'' [AVal (ucast f)] s)
          (\<lambda>_ s. ret ap (log_putc f (log_putc (ch CHR ''%'') s))))"

fun klog_loop :: "u8 list \<Rightarrow> arg list \<Rightarrow> 'a klog_scheme \<Rightarrow> (unit, 'a klog_scheme) outcome" where
  "klog_loop [] ap s = ret () s"
| "klog_loop [c] ap s =
     (if c = 0 \<or> c = ch CHR ''%'' then ret () s
      else bnd (printf ''%c'' [AVal (ucast c)] s) (\<lambda>_ s. ret () (log_putc c s)))"
| "klog_loop (c # f # fmt) ap s =
     (if c = 0 then ret () s
      else if c \<noteq> ch CHR ''%'' then
        bnd (printf ''%c'' [AVal (ucast c)] s) (\<lambda>_ s. klog_loop (f # fmt) ap (log_putc c s))
      else if f = 0 then ret () s
      else bnd (klog_conv f ap s) (\<lambda>ap s. klog_loop fmt ap s))"

definition klog_color :: "int \<Rightarrow> 'a klog_scheme \<Rightarrow> (unit, 'a klog_scheme) outcome" where
  "klog_color level s =
     (if kl_use_color s then
        (if level < 4 then
           bnd (printf ''%s'' [AStr (Some (level_colors ! nat level))] s) (\<lambda>_. ret ())
         else Inl (Fault ''level_colors''))
      else ret () s)"

text \<open>\<open>LOG_LEVEL\<close> keeps negative levels out; nothing keeps levels above 3 out.\<close>

definition klog :: "u64 \<Rightarrow> int \<Rightarrow> string \<Rightarrow> arg list \<Rightarrow> 'a klog_scheme \<Rightarrow> (unit, 'a klog_scheme) outcome" where
  "klog time level fmt ap s =
     (if \<not> kl_enabled s \<or> level < LOG_LEVEL then ret () s
      else
        (let s = s\<lparr>kl_total_logs := i32 (kl_total_logs s + 1)\<rparr>;
             ts = time div 10000
         in bnd (klog_color level s) (\<lambda>_ s.
            if \<not> level < 4 then Inl (Fault ''level_names'')
            else
              (let name = cstr (level_names ! nat level) in
               bnd (printf ''[%d] [%s] '' [AVal ts, AStr (Some name)] s) (\<lambda>_ s.
               bnd (if kl_use_color s then bnd (printf ''%s'' [AStr (Some color_reset)] s) (\<lambda>_. ret ())
                    else ret () s) (\<lambda>_ s.
               bnd (log_print_num ts (log_putc (ch CHR ''['') s)) (\<lambda>_ s.
               let s = log_puts (cstr ''] '') (log_puts name (log_puts (cstr ''] ['') s)) in
               bnd (klog_loop (cstr fmt) ap s) (\<lambda>_ s.
               ret () (s\<lparr>kl_count := i32 (kl_count s + 1)\<rparr>)))))))))"

section \<open>The other operations\<close>

definition log_init :: "u64 \<Rightarrow> 'a klog_scheme \<Rightarrow> (unit, 'a klog_scheme) outcome" where
  "log_init time s =
     klog time LOG_INFO ''Kernel log system initialized\<newline>'' []
       (s\<lparr>kl_head := 0, kl_tail := 0, kl_count := 0, kl_total_logs := 0, kl_dropped := 0,
          kl_enabled := True, kl_use_color := True\<rparr>)"

definition log_clear :: "u64 \<Rightarrow> 'a klog_scheme \<Rightarrow> (unit, 'a klog_scheme) outcome" where
  "log_clear time s =
     klog time LOG_INFO ''Log buffer cleared\<newline>'' [] (s\<lparr>kl_head := 0, kl_tail := 0, kl_count := 0\<rparr>)"

text \<open>
  The loop of \<open>log_dump\<close>. An index past the buffer is a fault; a \<open>head\<close> past it would
  never be reached.
\<close>

function log_dump_loop :: "nat \<Rightarrow> 'a klog_scheme \<Rightarrow> (unit, 'a klog_scheme) outcome" where
  "log_dump_loop pos s =
     (if pos = kl_head s then ret () s
      else if pos \<ge> LOG_BUFSIZE then Inl (Fault ''log_dump'')
      else if kl_head s \<ge> LOG_BUFSIZE then Inl Hang
      else bnd (printf ''%c'' [AVal (ucast (kl_buffer s ! pos))] s)
             (\<lambda>_ s. log_dump_loop ((pos + 1) mod LOG_BUFSIZE) s))"
  by pat_completeness auto
termination
proof (relation "measure (\<lambda>(pos, s). (kl_head s + LOG_BUFSIZE - pos) mod LOG_BUFSIZE)")
  fix pos and s s' :: "'a klog_scheme" and n
  assume A: "pos \<noteq> kl_head s" "\<not> LOG_BUFSIZE \<le> pos" "\<not> LOG_BUFSIZE \<le> kl_head s"
    and p: "printf ''%c'' [AVal (ucast (kl_buffer s ! pos))] s = Inr (n, s')"
  have h: "kl_head s' = kl_head s" using p by (auto simp: printf_spec split: option.splits)
  have "(h + 4096 - (p + 1) mod 4096) mod 4096 < (h + 4096 - p) mod 4096"
    if "p \<noteq> h" "p < 4096" "h < 4096" for p h :: nat
  proof (cases "p < h")
    case True
    then have e: "h + 4096 - p = (h - p) + 4096" "h + 4096 - (p + 1) = (h - (p + 1)) + 4096" by simp_all
    have "(h + 4096 - p) mod 4096 = h - p" and "(h + 4096 - (p + 1)) mod 4096 = h - (p + 1)"
      unfolding e mod_add_self2 using that True by simp_all
    then show ?thesis using that True by simp
  next
    case False
    then have a: "(h + 4096 - p) mod 4096 = h + 4096 - p" using that by simp
    show ?thesis
    proof (cases "p + 1 = 4096")
      case True
      then show ?thesis using a that by simp
    next
      case no: False
      then have "(h + 4096 - (p + 1)) mod 4096 = h + 4096 - (p + 1)" using that False by simp
      then show ?thesis using a that no by simp
    qed
  qed
  with A h show "(((pos + 1) mod LOG_BUFSIZE, s'), (pos, s)) \<in>
      measure (\<lambda>(pos, s). (kl_head s + LOG_BUFSIZE - pos) mod LOG_BUFSIZE)"
    by (simp add: LOG_BUFSIZE_def)
qed simp

declare log_dump_loop.simps [simp del]

definition log_dump :: "'a klog_scheme \<Rightarrow> (unit, 'a klog_scheme) outcome" where
  "log_dump s =
     bnd (printf ''\<newline>=== Log Buffer Dump ===\<newline>'' [] s) (\<lambda>_ s.
     bnd (log_dump_loop (kl_tail s) s) (\<lambda>_ s.
     bnd (printf ''\<newline>=== End of Log ===\<newline>'' [] s) (\<lambda>_. ret ())))"

definition of_int_arg :: "int \<Rightarrow> arg" where
  "of_int_arg i = AVal (of_int i)"

definition log_stats :: "'a klog_scheme \<Rightarrow> (unit, 'a klog_scheme) outcome" where
  "log_stats s =
     bnd (printf ''\<newline>=== Log Statistics ===\<newline>'' [] s) (\<lambda>_ s.
     bnd (printf ''Total logs:   %d\<newline>'' [of_int_arg (kl_total_logs s)] s) (\<lambda>_ s.
     bnd (printf ''Buffer count: %d\<newline>'' [of_int_arg (kl_count s)] s) (\<lambda>_ s.
     bnd (printf ''Dropped:      %d\<newline>'' [of_int_arg (kl_dropped s)] s) (\<lambda>_ s.
     bnd (printf ''Buffer usage: %d / %d bytes\<newline>''
            [of_int_arg ((int (kl_head s) - int (kl_tail s) + int LOG_BUFSIZE) mod int LOG_BUFSIZE),
             of_int_arg (int LOG_BUFSIZE)] s) (\<lambda>_ s.
     bnd (printf ''======================\<newline>'' [] s) (\<lambda>_. ret ()))))))"

section \<open>What the ring holds\<close>

definition seg :: "u8 list \<Rightarrow> nat \<Rightarrow> nat \<Rightarrow> u8 list" where
  "seg buf t n = map (\<lambda>i. buf ! ((t + i) mod LOG_BUFSIZE)) [0..<n]"

text \<open>\<open>log_ring s xs\<close>: the ring of \<open>s\<close> is well formed and holds the text \<open>xs\<close>, oldest byte first.\<close>

definition log_ring :: "'a klog_scheme \<Rightarrow> u8 list \<Rightarrow> bool" where
  "log_ring s xs \<longleftrightarrow> length (kl_buffer s) = LOG_BUFSIZE \<and> kl_tail s < LOG_BUFSIZE \<and>
     length xs < LOG_BUFSIZE \<and> kl_head s = (kl_tail s + length xs) mod LOG_BUFSIZE \<and>
     xs = seg (kl_buffer s) (kl_tail s) (length xs)"

definition newest :: "nat \<Rightarrow> 'b list \<Rightarrow> 'b list" where
  "newest n xs = drop (length xs - n) xs"

lemma length_seg [simp]: "length (seg buf t n) = n"
  by (simp add: seg_def)

lemma ring_index_eq:
  assumes "i < LOG_BUFSIZE" and "j < LOG_BUFSIZE"
  shows "(t + i) mod LOG_BUFSIZE = (t + j) mod LOG_BUFSIZE \<longleftrightarrow> i = j"
proof
  assume eq: "(t + i) mod LOG_BUFSIZE = (t + j) mod LOG_BUFSIZE"
  then have "int LOG_BUFSIZE dvd int (t + i) - int (t + j)"
    by (metis mod_eq_dvd_iff zmod_int)
  then have "int LOG_BUFSIZE dvd int i - int j" by simp
  moreover have "\<bar>int i - int j\<bar> < int LOG_BUFSIZE" using assms by linarith
  ultimately show "i = j" by (metis dvd_imp_le_int eq_iff_diff_eq_0 not_less of_nat_eq_iff abs_of_nat)
qed simp

lemma seg_put:
  assumes "n < LOG_BUFSIZE" and "length buf = LOG_BUFSIZE"
  shows "seg (buf[(t + n) mod LOG_BUFSIZE := c]) t (Suc n) = seg buf t n @ [c]"
proof -
  have "buf[(t + n) mod LOG_BUFSIZE := c] ! ((t + i) mod LOG_BUFSIZE) = buf ! ((t + i) mod LOG_BUFSIZE)"
    if "i < n" for i
    using that assms ring_index_eq [of i n t] by simp
  moreover have "(t + n) mod LOG_BUFSIZE < length buf" using assms by simp
  ultimately show ?thesis by (simp add: seg_def)
qed

lemma seg_tl: "seg buf ((t + 1) mod LOG_BUFSIZE) n = tl (seg buf t (Suc n))"
  by (rule nth_equalityI) (simp_all add: seg_def nth_tl mod_add_right_eq algebra_simps del: upt_Suc)

lemma newest_short: "length xs \<le> n \<Longrightarrow> newest n xs = xs"
  by (simp add: newest_def)

lemma newest_newest: "newest n (newest n xs @ ys) = newest n (xs @ ys)"
  by (cases "length xs \<le> n") (simp_all add: newest_def add.commute)

lemma log_putc_ring:
  assumes "log_ring s xs"
  shows "log_ring (log_putc c s) (newest (LOG_BUFSIZE - 1) (xs @ [c]))"
    and "kl_dropped (log_putc c s) = (if length xs = LOG_BUFSIZE - 1 then i32 (kl_dropped s + 1) else kl_dropped s)"
proof -
  let ?n = "length xs"
  note R = assms [unfolded log_ring_def]
  define buf where "buf = (kl_buffer s)[kl_head s := c]"
  have h: "kl_head s = (kl_tail s + ?n) mod LOG_BUFSIZE" using R by simp
  have sg: "seg buf (kl_tail s) (Suc ?n) = xs @ [c]"
    using seg_put [of ?n "kl_buffer s" "kl_tail s" c] R by (simp add: buf_def)
  have h': "(kl_head s + 1) mod LOG_BUFSIZE = (kl_tail s + Suc ?n) mod LOG_BUFSIZE"
    by (simp add: h mod_add_left_eq mod_Suc_eq)
  have full: "(kl_tail s + Suc ?n) mod LOG_BUFSIZE = kl_tail s \<longleftrightarrow> ?n = LOG_BUFSIZE - 1"
  proof (cases "Suc ?n = LOG_BUFSIZE")
    case True
    then show ?thesis using R by auto
  next
    case False
    then show ?thesis using ring_index_eq [of "Suc ?n" 0 "kl_tail s"] R by auto
  qed
  have s': "log_putc c s = (if ?n = LOG_BUFSIZE - 1
      then s\<lparr>kl_buffer := buf, kl_head := kl_tail s, kl_tail := (kl_tail s + 1) mod LOG_BUFSIZE,
             kl_dropped := i32 (kl_dropped s + 1)\<rparr>
      else s\<lparr>kl_buffer := buf, kl_head := (kl_tail s + Suc ?n) mod LOG_BUFSIZE\<rparr>)"
    using full unfolding log_putc_def Let_def buf_def by (simp del: One_nat_def add: h') metis
  show "kl_dropped (log_putc c s) = (if ?n = LOG_BUFSIZE - 1 then i32 (kl_dropped s + 1) else kl_dropped s)"
    by (simp add: s')
  show "log_ring (log_putc c s) (newest (LOG_BUFSIZE - 1) (xs @ [c]))"
  proof (cases "?n = LOG_BUFSIZE - 1")
    case True
    have nw: "newest (LOG_BUFSIZE - 1) (xs @ [c]) = tl (xs @ [c])"
      using True by (cases xs) (simp_all add: newest_def LOG_BUFSIZE_def)
    have "tl (xs @ [c]) = seg buf ((kl_tail s + 1) mod LOG_BUFSIZE) ?n"
      by (simp only: seg_tl sg)
    moreover have "kl_tail s = ((kl_tail s + 1) mod LOG_BUFSIZE + ?n) mod LOG_BUFSIZE"
      using True R by (simp add: mod_add_left_eq LOG_BUFSIZE_def)
    moreover have "length (tl (xs @ [c])) = ?n" and "length buf = LOG_BUFSIZE"
      using R by (simp_all add: buf_def)
    moreover have "?n < LOG_BUFSIZE" using R by blast
    ultimately show ?thesis
      unfolding nw s' log_ring_def using True by simp
  next
    case False
    then have "Suc ?n \<le> LOG_BUFSIZE - 1" using R by linarith
    then have nw: "newest (LOG_BUFSIZE - 1) (xs @ [c]) = xs @ [c]" by (simp add: newest_short)
    moreover have "length buf = LOG_BUFSIZE" and "kl_tail s < LOG_BUFSIZE" and "?n < LOG_BUFSIZE"
      using R by (simp_all add: buf_def)
    ultimately show ?thesis
      unfolding nw s' log_ring_def using False sg by simp
  qed
qed

section \<open>The effect of the output functions\<close>

text \<open>\<open>put con rec s\<close>: \<open>con\<close> printed on the console and \<open>rec\<close> recorded in the ring.\<close>

definition put :: "u8 list \<Rightarrow> u8 list \<Rightarrow> 'a klog_scheme \<Rightarrow> 'a klog_scheme" where
  "put con rec s = (fold log_putc rec s)\<lparr>tx := tx s @ crlf con\<rparr>"

lemma log_putc_frame [simp, record_frames]:
  "tx (log_putc c s) = tx s" "kl_count (log_putc c s) = kl_count s"
  "kl_total_logs (log_putc c s) = kl_total_logs s" "kl_enabled (log_putc c s) = kl_enabled s"
  "kl_use_color (log_putc c s) = kl_use_color s" "log_putc c (s\<lparr>tx := t\<rparr>) = (log_putc c s)\<lparr>tx := t\<rparr>"
  by (simp_all add: log_putc_def Let_def)

lemma log_many_frame [simp, record_frames]:
  "tx (fold log_putc cs s) = tx s" "kl_count (fold log_putc cs s) = kl_count s"
  "kl_total_logs (fold log_putc cs s) = kl_total_logs s"
  "kl_enabled (fold log_putc cs s) = kl_enabled s"
  "kl_use_color (fold log_putc cs s) = kl_use_color s"
  "fold log_putc cs (s\<lparr>tx := t\<rparr>) = (fold log_putc cs s)\<lparr>tx := t\<rparr>"
  by (induction cs arbitrary: s) simp_all

lemma put_put [simp]: "put con' rec' (put con rec s) = put (con @ con') (rec @ rec') s"
  by (simp add: put_def)

lemma put_frame [simp, record_frames]:
  "tx (put con rec s) = tx s @ crlf con" "kl_count (put con rec s) = kl_count s"
  "kl_total_logs (put con rec s) = kl_total_logs s" "kl_enabled (put con rec s) = kl_enabled s"
  "kl_use_color (put con rec s) = kl_use_color s"
  by (simp_all add: put_def)

lemma put_Nil [simp]: "put [] [] s = s"
  by (simp add: put_def)

lemma log_many_put: "fold log_putc cs s = put [] cs s"
  by (simp add: put_def)

lemma log_putc_put: "log_putc c s = put [] [c] s"
  by (simp add: put_def)

lemma log_puts_put: "log_puts cs s = put [] (takeWhile (\<lambda>c. c \<noteq> 0) cs) s"
  by (induction cs arbitrary: s) (simp_all add: log_putc_put)

lemma printf_put: "format_text (cstr fmt) ap = Some t \<Longrightarrow>
    printf fmt ap s = Inr (int (length t), put t [] s)" for s :: "'a klog_scheme"
  by (simp add: printf_spec put_def)

lemma log_ring_tx [simp]: "log_ring (s\<lparr>tx := t\<rparr>) xs = log_ring s xs"
  by (simp add: log_ring_def)

lemma put_ring:
  assumes "log_ring s xs"
  shows "log_ring (put con rec s) (newest (LOG_BUFSIZE - 1) (xs @ rec))"
proof -
  have "log_ring s xs \<Longrightarrow> log_ring (fold log_putc rec s) (newest (LOG_BUFSIZE - 1) (xs @ rec))"
  proof (induction rec arbitrary: s xs)
    case Nil
    then show ?case by (simp add: newest_def log_ring_def)
  next
    case (Cons c rec)
    from Cons.IH [OF log_putc_ring(1) [OF Cons.prems]] show ?case by (simp add: newest_newest)
  qed
  then show ?thesis using assms by (simp add: put_def)
qed

lemma dec_loop_low_digits:
  assumes "length buf + length (low_digits 10 (unat n)) \<le> lim"
  shows "dec_loop lim n buf = Some (buf @ map digit_char (low_digits 10 (unat n)))"
  using assms
proof (induction lim n buf rule: dec_loop.induct)
  case (1 lim n buf)
  show ?case
  proof (cases "n = 0")
    case True
    then show ?thesis by (simp add: dec_loop.simps low_digits.simps)
  next
    case False
    have x: "unat n \<noteq> 0" using False unat_eq_zero by blast
    have d: "unat (n div 10) = unat n div 10" "unat (n mod 10) = unat n mod 10"
      by (simp_all add: unat_div_distrib unat_mod_distrib)
    have lo: "low_digits 10 (unat n) = unat n mod 10 # low_digits 10 (unat n div 10)"
      using x by (subst low_digits.simps) simp
    have "(48 + ucast (n mod 10) :: u8) = digit (n mod 10)"
      using d(2) by (simp add: digit_def word_less_nat_alt)
    also have "\<dots> = digit_char (unat n mod 10)"
      using digit_eq [of "n mod 10"] unfolding d by simp
    finally have c: "(48 + ucast (n mod 10) :: u8) = digit_char (unat n mod 10)" .
    have l: "\<not> lim \<le> length buf" using "1.prems" lo by simp
    have "dec_loop lim (n div 10) (buf @ [48 + ucast (n mod 10)]) =
        Some ((buf @ [48 + ucast (n mod 10)]) @ map digit_char (low_digits 10 (unat n div 10)))"
      using "1.IH" [OF False l] "1.prems" lo unfolding d by simp
    then show ?thesis using False l lo c by (simp add: dec_loop.simps [of lim n])
  qed
qed

lemma log_print_num_put: "log_print_num n s = Inr ((), put [] (numeral_text 10 (unat n)) s)"
proof (cases "n = 0")
  case True
  then show ?thesis by (simp add: log_print_num_def log_putc_put numeral_text_def ret_def)
next
  case False
  have "unat n < 10 ^ 20" using unsigned_less [of n, where 'a = nat] by simp
  then have "length (low_digits 10 (unat n)) \<le> 20" by (rule length_low_digits)
  then have "dec_loop 20 n [] = Some (map digit_char (low_digits 10 (unat n)))"
    using dec_loop_low_digits [of "[]" n 20] by simp
  then show ?thesis
    using False by (simp add: log_print_num_def put_digits_def log_many_put numeral_text_def
        ret_def unat_eq_zero)
qed

section \<open>The text of a log message\<close>

text \<open>The digits \<open>log_int\<close> records: only the sign for the least int.\<close>

definition log_int_text :: "u32 \<Rightarrow> u8 list" where
  "log_int_text v = (if v = 0x80000000 then [45] else decimal_text (sint v))"

text \<open>
  What a conversion prints on the console and what it records, which differ: \<open>%x\<close> records
  nothing, and \<open>%p\<close> is not a conversion of \<open>klog\<close>.
\<close>

fun klog_conv_text :: "u8 \<Rightarrow> arg list \<Rightarrow> (u8 list \<times> u8 list \<times> arg list) option" where
  "klog_conv_text f ap =
     (if f = ch CHR ''%'' then Some ([f], [f], ap)
      else if f \<notin> ch ` {CHR ''d'', CHR ''x'', CHR ''s'', CHR ''c''}
      then Some ([ch CHR ''%'', f], [ch CHR ''%'', f], ap)
      else (case ap of
          [] \<Rightarrow> None
        | AStr s # ap \<Rightarrow>
            if f = ch CHR ''s''
            then (let t = takeWhile (\<lambda>c. c \<noteq> 0) (case s of None \<Rightarrow> cstr ''(null)'' | Some cs \<Rightarrow> cs)
                  in Some (t, t, ap))
            else None
        | AVal w # ap \<Rightarrow>
            if f = ch CHR ''d''
            then Some (decimal_text (sint (ucast w :: u32)), log_int_text (ucast w), ap)
            else if f = ch CHR ''x'' then Some (numeral_text 16 (unat (ucast w :: u32)), [], ap)
            else if f = ch CHR ''c'' then Some ([ucast w], [ucast w], ap)
            else None))"

fun klog_text :: "u8 list \<Rightarrow> arg list \<Rightarrow> (u8 list \<times> u8 list) option" where
  "klog_text [] ap = Some ([], [])"
| "klog_text [c] ap = Some (if c = 0 \<or> c = ch CHR ''%'' then ([], []) else ([c], [c]))"
| "klog_text (c # f # fmt) ap =
     (if c = 0 then Some ([], [])
      else if c \<noteq> ch CHR ''%'' then map_option (map_prod (Cons c) (Cons c)) (klog_text (f # fmt) ap)
      else if f = 0 then Some ([], [])
      else (case klog_conv_text f ap of None \<Rightarrow> None
            | Some (t, u, ap) \<Rightarrow> map_option (map_prod ((@) t) ((@) u)) (klog_text fmt ap)))"

lemma log_int_put: "log_int v s = Inr ((), put [] (log_int_text v) s)"
proof -
  have dec: "dec_loop 16 (ucast w) [] = Some (map digit_char (low_digits 10 (unat w)))" for w :: u32
  proof -
    have u: "unat (ucast w :: u64) = unat w"
      by (simp add: unsigned_ucast_eq take_bit_nat_eq_self unsigned_less [THEN less_trans])
    have "unat w < 10 ^ 16" using unsigned_less [of w, where 'a = nat] by simp
    then have "length (low_digits 10 (unat w)) \<le> 16" by (rule length_low_digits)
    then show ?thesis using dec_loop_low_digits [of "[]" "ucast w" 16] u by simp
  qed
  show ?thesis
  proof (cases "v <s 0")
    case True
    then have neg: "sint v < 0" by (simp add: word_sless_alt)
    show ?thesis
    proof (cases "v = 0x80000000")
      case True
      then show ?thesis
        by (simp add: log_int_def put_digits_def log_int_text_def log_putc_put ret_def ch_def
            word_sless_alt)
    next
      case False
      have um: "unat (- v) = nat (- sint v)" by (rule unat_uminus_neg [OF True])
      have "0 <s - v"
      proof -
        have "v \<noteq> 0" using neg by auto
        then have u: "uint (- v) = - sint v" using True sint_msb [of v] by (simp add: uint_uminus)
        have "sint v \<noteq> - (2 ^ 31)"
        proof
          assume "sint v = - (2 ^ 31)"
          then have "sint v = sint (0x80000000 :: u32)" by simp
          then have "v = 0x80000000" by (rule signed_word_eqI)
          then show False using False by blast
        qed
        moreover have "- (2 ^ 31) \<le> sint v" using sint_ge [of v] by simp
        ultimately have "uint (- v) < 2 ^ 31" and "0 < uint (- v)" using u neg by linarith+
        moreover have "- (2 ^ 31) \<le> sint (- v)" using sint_ge [of "- v"] by simp
        ultimately have "0 < sint (- v)" using sint_msb [of "- v"] by (simp split: if_splits)
        then show ?thesis by (simp add: word_sless_alt)
      qed
      moreover have "- v \<noteq> 0" using neg by auto
      ultimately show ?thesis
        using True False neg um dec [of "- v"]
        by (simp add: log_int_def put_digits_def log_int_text_def decimal_text_def numeral_text_def
            log_many_put log_putc_put ret_def ch_def)
    qed
  next
    case False
    have un: "unat v = nat (sint v)" by (rule unat_nonneg [OF False])
    have pos: "0 \<le> sint v" using False by (simp add: word_sless_alt)
    have no: "v \<noteq> 0x80000000" using pos by auto
    show ?thesis
    proof (cases "v = 0")
      case True
      then show ?thesis
        by (simp add: log_int_def put_digits_def log_int_text_def decimal_text_def numeral_text_def
            log_many_put ret_def)
    next
      case nz: False
      then have "sint v \<noteq> 0" by (metis sint_0 signed_word_eqI)
      then have "0 <s v" using pos by (simp add: word_sless_alt)
      then show ?thesis
        using False pos no nz un dec [of v] \<open>sint v \<noteq> 0\<close>
        by (simp add: log_int_def put_digits_def log_int_text_def decimal_text_def numeral_text_def
            log_many_put ret_def)
    qed
  qed
qed

lemma ucast_ucast_u8: "ucast (ucast (c :: u8) :: u64) = c"
  by (rule bit_word_eqI) (simp add: bit_ucast_iff)

lemma klog_conv_put:
  "klog_conv f ap s = (case klog_conv_text f ap of None \<Rightarrow> Inl (Fault ''va_arg'')
     | Some (t, u, ap') \<Rightarrow> Inr (ap', put t u s))"
proof -
  have d: "format_text (cstr ''%d'') [AVal w] = Some (decimal_text (sint (ucast w :: u32)))" for w
    by (simp add: char_consts conv_text.simps)
  have x: "format_text (cstr ''%x'') [AVal w] = Some (numeral_text 16 (unat (ucast w :: u32)))" for w
    by (simp add: char_consts conv_text.simps)
  have c: "format_text (cstr ''%c'') [AVal w] = Some [ucast w]" for w
    by (simp add: char_consts conv_text.simps)
  have str: "format_text (cstr ''%s'') [AStr (Some cs)] = Some (takeWhile (\<lambda>c. c \<noteq> 0) cs)" for cs
    by (simp add: char_consts conv_text.simps)
  have pc: "format_text (cstr ''%%'') [] = Some [ch CHR ''%'']"
    by (simp add: char_consts conv_text.simps)
  have pp: "format_text (cstr ''%%%c'') [AVal w] = Some [ch CHR ''%'', ucast w]" for w
    by (simp add: char_consts conv_text.simps)
  have neq: "ch CHR ''d'' \<noteq> ch CHR ''x''" "ch CHR ''d'' \<noteq> ch CHR ''s''" "ch CHR ''d'' \<noteq> ch CHR ''c''"
    "ch CHR ''x'' \<noteq> ch CHR ''s''" "ch CHR ''x'' \<noteq> ch CHR ''c''" "ch CHR ''s'' \<noteq> ch CHR ''c''"
    "ch CHR ''d'' \<noteq> ch CHR ''%''" "ch CHR ''x'' \<noteq> ch CHR ''%''" "ch CHR ''s'' \<noteq> ch CHR ''%''"
    "ch CHR ''c'' \<noteq> ch CHR ''%''"
    by (simp_all add: ch_def)
  consider "f = ch CHR ''d''" | "f = ch CHR ''x''" | "f = ch CHR ''s''" | "f = ch CHR ''c''"
    | "f = ch CHR ''%''" | "f \<notin> ch ` {CHR ''d'', CHR ''x'', CHR ''s'', CHR ''c''}" "f \<noteq> ch CHR ''%''"
    by blast
  then show ?thesis
    by cases (use neq neq [symmetric] in \<open>simp_all add: printf_put [OF d] printf_put [OF x] printf_put [OF c]
      printf_put [OF str] printf_put [OF pc] printf_put [OF pp] log_int_put log_puts_put log_putc_put
      ucast_ucast_u8 ret_def Let_def split: list.split arg.split option.split\<close>)
qed

lemma klog_loop_put:
  "klog_loop fmt ap s = (case klog_text fmt ap of None \<Rightarrow> Inl (Fault ''va_arg'')
     | Some (t, u) \<Rightarrow> Inr ((), put t u s))"
proof (induction fmt ap s rule: klog_loop.induct)
  case (1 ap s)
  then show ?case by (simp add: ret_def)
next
  case (2 c ap s)
  have "format_text (cstr ''%c'') [AVal (ucast c)] = Some [c]"
    by (simp add: char_consts conv_text.simps ucast_ucast_u8)
  then show ?case by (simp add: printf_put log_putc_put ret_def)
next
  case (3 c f fmt ap s)
  have c: "format_text (cstr ''%c'') [AVal (ucast c)] = Some [c]"
    by (simp add: char_consts conv_text.simps ucast_ucast_u8)
  consider "c = 0" | "c \<noteq> 0" "c \<noteq> ch CHR ''%''" | "c \<noteq> 0" "c = ch CHR ''%''" "f = 0"
    | "c \<noteq> 0" "c = ch CHR ''%''" "f \<noteq> 0" by blast
  then show ?case
  proof cases
    case 2
    have "klog_loop (f # fmt) ap (log_putc c (put [c] [] s)) =
      (case klog_text (f # fmt) ap of None \<Rightarrow> Inl (Fault ''va_arg'')
       | Some (t, u) \<Rightarrow> Inr ((), put t u (log_putc c (put [c] [] s))))"
      using "3.IH"(1) [OF 2] printf_put [OF c] by blast
    then show ?thesis using 2 by (simp add: printf_put [OF c] log_putc_put split: option.split)
  next
    case 4
    show ?thesis
    proof (cases "klog_conv_text f ap")
      case None
      then show ?thesis using 4 by (simp add: klog_conv_put del: klog_conv.simps klog_conv_text.simps)
    next
      case (Some x)
      obtain t u ap' where x: "x = (t, u, ap')" by (cases x)
      have cv: "klog_conv f ap s = Inr (ap', put t u s)"
        using Some x by (simp add: klog_conv_put del: klog_conv.simps klog_conv_text.simps)
      have "klog_loop fmt ap' (put t u s) = (case klog_text fmt ap' of None \<Rightarrow> Inl (Fault ''va_arg'')
        | Some (t', u') \<Rightarrow> Inr ((), put t' u' (put t u s)))"
        using "3.IH"(2) 4 cv by blast
      then show ?thesis
        using 4 cv Some x
        by (simp del: klog_conv.simps klog_conv_text.simps split: option.split)
    qed
  qed (simp_all add: ret_def)
qed

declare klog_conv.simps [simp del] klog_conv_text.simps [simp del]

section \<open>The effect of klog\<close>

definition klog_prefix_con :: "bool \<Rightarrow> u64 \<Rightarrow> int \<Rightarrow> u8 list" where
  "klog_prefix_con color ts level =
     (if color then level_colors ! nat level else []) @
     cstr ''['' @ decimal_text (sint (ucast ts :: u32)) @ cstr ''] ['' @
     cstr (level_names ! nat level) @ cstr ''] '' @ (if color then color_reset else [])"

definition klog_prefix :: "u64 \<Rightarrow> int \<Rightarrow> u8 list" where
  "klog_prefix ts level =
     cstr ''['' @ numeral_text 10 (unat ts) @ cstr ''] ['' @ cstr (level_names ! nat level) @ cstr ''] ''"

lemma no_nul: 
  assumes "level \<in> {0, 1, 2, 3}"
  shows "takeWhile (\<lambda>c. c \<noteq> 0) (cstr (level_names ! nat level)) = cstr (level_names ! nat level)"
    and "takeWhile (\<lambda>c. c \<noteq> 0) (level_colors ! nat level) = level_colors ! nat level"
    and "takeWhile (\<lambda>c. c \<noteq> 0) color_reset = color_reset"
  using assms by (auto simp: level_names_def level_colors_def color_reset_def cstr_def)

lemma klog_put:
  assumes "kl_enabled s" and "0 \<le> level" and "level \<le> 3"
  shows "klog time level fmt ap s = (case klog_text (cstr fmt) ap of None \<Rightarrow> Inl (Fault ''va_arg'')
    | Some (t, u) \<Rightarrow> Inr ((), (put (klog_prefix_con (kl_use_color s) (time div 10000) level @ t)
        (klog_prefix (time div 10000) level @ u) (s\<lparr>kl_total_logs := i32 (kl_total_logs s + 1)\<rparr>))
        \<lparr>kl_count := i32 (kl_count s + 1)\<rparr>))"
proof -
  let ?ts = "time div 10000"
  have lv: "level \<in> {0, 1, 2, 3}" using assms by auto
  have str: "format_text (cstr ''%s'') [AStr (Some cs)] = Some (takeWhile (\<lambda>c. c \<noteq> 0) cs)" for cs
    by (simp add: char_consts conv_text.simps)
  have hd: "format_text (cstr ''[%d] [%s] '') [AVal ?ts, AStr (Some cs)] =
      Some (cstr ''['' @ decimal_text (sint (ucast ?ts :: u32)) @ cstr ''] ['' @
        takeWhile (\<lambda>c. c \<noteq> 0) cs @ cstr ''] '')" for cs
    by (simp add: char_consts conv_text.simps)
  have k: "takeWhile (\<lambda>c. c \<noteq> 0) (cstr ''] '') = cstr ''] ''"
    "takeWhile (\<lambda>c. c \<noteq> 0) (cstr ''] ['') = cstr ''] [''"
    by (simp_all add: cstr_def)
  show ?thesis
    using assms lv
    by (simp add: klog_def klog_color_def LOG_LEVEL_def LOG_DEBUG_def printf_put [OF str]
        printf_put [OF hd] no_nul [OF lv] log_putc_put log_puts_put log_print_num_put klog_loop_put k
        klog_prefix_con_def klog_prefix_def Let_def ret_def cstr_def [of "[_]"] ch_def
        del: klog_loop.simps split: option.split)
qed

lemma log_ring_counts [simp]:
  "log_ring (s\<lparr>kl_count := n\<rparr>) xs = log_ring s xs"
  "log_ring (s\<lparr>kl_total_logs := n\<rparr>) xs = log_ring s xs"
  by (simp_all add: log_ring_def)

lemma klog_ring:
  assumes "log_ring s xs" and "kl_enabled s" and "0 \<le> level" and "level \<le> 3"
    and "klog_text (cstr fmt) ap = Some (t, u)"
  shows "\<exists>s'. klog time level fmt ap s = Inr ((), s') \<and>
    log_ring s' (newest (LOG_BUFSIZE - 1) (xs @ klog_prefix (time div 10000) level @ u)) \<and>
    tx s' = tx s @ crlf (klog_prefix_con (kl_use_color s) (time div 10000) level @ t) \<and>
    kl_total_logs s' = i32 (kl_total_logs s + 1) \<and> kl_count s' = i32 (kl_count s + 1)"
proof -
  let ?s = "s\<lparr>kl_total_logs := i32 (kl_total_logs s + 1)\<rparr>"
  have "log_ring ?s xs" using assms(1) by simp
  from put_ring [OF this] show ?thesis
    by (simp add: klog_put [OF assms(2-4)] assms(5))
qed

lemma log_dump_loop_text:
  assumes "log_ring s xs" and "k \<le> length xs"
  shows "log_dump_loop ((kl_tail s + k) mod LOG_BUFSIZE) s =
    Inr ((), s\<lparr>tx := tx s @ crlf (drop k xs)\<rparr>)"
  using assms
proof (induction "length xs - k" arbitrary: k s)
  case 0
  then have "(kl_tail s + k) mod LOG_BUFSIZE = kl_head s" by (simp add: log_ring_def)
  then show ?case using 0 by (simp add: log_dump_loop.simps ret_def)
next
  case (Suc d)
  then have k: "k < length xs" by simp
  let ?pos = "(kl_tail s + k) mod LOG_BUFSIZE"
  have n: "length xs < LOG_BUFSIZE" and h: "kl_head s = (kl_tail s + length xs) mod LOG_BUFSIZE"
    and xs: "xs = seg (kl_buffer s) (kl_tail s) (length xs)"
    using Suc.prems(1) unfolding log_ring_def by blast+
  have ne: "?pos \<noteq> kl_head s" using ring_index_eq [of k "length xs" "kl_tail s"] k n by (simp add: h)
  have lt: "\<not> LOG_BUFSIZE \<le> ?pos" "\<not> LOG_BUFSIZE \<le> kl_head s"
    by (simp_all add: h LOG_BUFSIZE_def not_le)
  have x: "kl_buffer s ! ?pos = xs ! k"
    by (subst xs) (simp add: seg_def k del: mod_mod_trivial)
  let ?s = "s\<lparr>tx := tx s @ crlf [xs ! k]\<rparr>"
  have "format_text (cstr ''%c'') [AVal (ucast c)] = Some [c]" for c
    by (simp add: char_consts conv_text.simps ucast_ucast_u8)
  then have p: "printf ''%c'' [AVal (ucast (kl_buffer s ! ?pos))] s = Inr (1, ?s)"
    by (simp add: printf_spec x)
  have step: "(?pos + 1) mod LOG_BUFSIZE = (kl_tail s + Suc k) mod LOG_BUFSIZE"
    by (simp add: mod_add_left_eq mod_Suc_eq)
  have "log_dump_loop ((kl_tail ?s + Suc k) mod LOG_BUFSIZE) ?s =
      Inr ((), ?s\<lparr>tx := tx ?s @ crlf (drop (Suc k) xs)\<rparr>)"
    by (rule Suc.hyps) (use Suc k in simp_all)
  moreover have "crlf [xs ! k] @ crlf (drop (Suc k) xs) = crlf (drop k xs)"
    using k by (simp add: Cons_nth_drop_Suc flip: crlf_append)
  ultimately show ?case
    using ne lt p step by (simp add: log_dump_loop.simps [of ?pos])
qed

text \<open>Logging changes the console and the log, nothing else.\<close>

definition klog_frame :: "'a klog_scheme \<Rightarrow> 'a klog_scheme \<Rightarrow> bool" where
  "klog_frame s s' \<longleftrightarrow> klog.more s' = klog.more s \<and> pmem s' = pmem s \<and> freelist s' = freelist s"

lemma log_many_klog_frame: "klog_frame s (fold log_putc cs s)"
  by (induction cs arbitrary: s) (simp_all add: klog_frame_def log_putc_def Let_def)

lemma put_klog_frame: "klog_frame s (put con rec s)"
  using log_many_klog_frame [of s rec] by (simp add: put_def klog_frame_def)

lemma klog_text_total:
  assumes "klog_text (cstr fmt) ap \<noteq> None" and "level \<le> 3"
  shows "\<exists>s'. klog time level fmt ap s = Inr ((), s') \<and> klog_frame s s'"
proof (cases "kl_enabled s \<and> 0 \<le> level")
  case False
  then have "klog time level fmt ap s = Inr ((), s)"
    by (auto simp: klog_def LOG_LEVEL_def LOG_DEBUG_def ret_def)
  then show ?thesis by (simp add: klog_frame_def)
next
  case True
  obtain t u where tu: "klog_text (cstr fmt) ap = Some (t, u)" using assms(1) by auto
  show ?thesis
    using True klog_put [of s level time fmt ap] assms(2) tu
      put_klog_frame [of "s\<lparr>kl_total_logs := i32 (kl_total_logs s + 1)\<rparr>"]
    by (simp add: klog_frame_def)
qed

section \<open>Properties\<close>

text \<open>
  C32. One call of \<open>klog\<close> appends exactly its record (time stamp, level, text) to the ring, of
  which the newest 4095 bytes are kept, prints the message, and counts it.
\<close>

theorem klog_records_message:
  assumes "log_ring s xs" and "kl_enabled s" and "0 \<le> level" and "level \<le> 3"
    and "klog_text (cstr fmt) ap = Some (t, u)"
  shows "\<exists>s'. klog time level fmt ap s = Inr ((), s') \<and>
    log_ring s' (newest (LOG_BUFSIZE - 1) (xs @ klog_prefix (time div 10000) level @ u)) \<and>
    tx s' = tx s @ crlf (klog_prefix_con (kl_use_color s) (time div 10000) level @ t) \<and>
    kl_total_logs s' = i32 (kl_total_logs s + 1) \<and> kl_count s' = i32 (kl_count s + 1)"
  using assms by (rule klog_ring)

text \<open>The zero-initialised \<open>log_state\<close> of a booted kernel, switched on.\<close>

definition klog_boot :: klog where
  "klog_boot = \<lparr>pmem = (\<lambda>_. 0), freelist = 0, tx = [], kl_buffer = replicate LOG_BUFSIZE 0,
     kl_head = 0, kl_tail = 0, kl_count = 0, kl_total_logs = 0, kl_dropped = 0, kl_enabled = True,
     kl_use_color = False\<rparr>"

lemma log_ring_boot: "log_ring klog_boot []"
  by (simp add: log_ring_def klog_boot_def seg_def LOG_BUFSIZE_def)

theorem klog_records_message_witness:
  "\<exists>s'. klog 70000 LOG_WARN ''n=%d'' [AVal 12] klog_boot = Inr ((), s') \<and>
    log_ring s' (cstr ''[7] [WARN ] n=12'') \<and> tx s' = cstr ''[7] [WARN ] n=12''"
proof -
  have t: "klog_text (cstr ''n=%d'') [AVal 12] = Some (cstr ''n=12'', cstr ''n=12'')"
    by (simp add: char_consts klog_conv_text.simps log_int_text_def decimal_text_def numeral_text_def
        low_digits.simps digit_char_def)
  have p: "klog_prefix 7 2 = cstr ''[7] [WARN ] ''" "klog_prefix_con False 7 2 = cstr ''[7] [WARN ] ''"
    by (simp_all add: klog_prefix_def klog_prefix_con_def level_names_def cstr_def numeral_text_def
        decimal_text_def low_digits.simps digit_char_def)
  have "(70000 :: u64) div 10000 = 7" by simp
  with klog_records_message [OF log_ring_boot _ _ _ t, of 2 70000] p obtain s' where
    "klog 70000 2 ''n=%d'' [AVal 12] klog_boot = Inr ((), s')"
    "log_ring s' (newest (LOG_BUFSIZE - 1) (cstr ''[7] [WARN ] '' @ cstr ''n=12''))"
    "tx s' = crlf (cstr ''[7] [WARN ] '' @ cstr ''n=12'')"
    by (auto simp: klog_boot_def)
  then show ?thesis
    by (simp add: LOG_WARN_def newest_def LOG_BUFSIZE_def cstr_def crlf_def)
qed

text \<open>
  A level above \<open>LOG_ERROR\<close> is not rejected: \<open>klog\<close> reads past the tables of level names
  or colours.
\<close>

theorem klog_level_out_of_range:
  assumes "kl_enabled s" and "3 < level"
  shows "\<exists>table. klog time level fmt ap s = Inl (Fault table)"
  using assms by (auto simp: klog_def klog_color_def LOG_LEVEL_def LOG_DEBUG_def Let_def ret_def)

theorem klog_level_out_of_range_witness:
  "\<exists>table. klog 0 4 ''x'' [] klog_boot = Inl (Fault table)"
  by (rule klog_level_out_of_range) (simp_all add: klog_boot_def)

text \<open>\<open>log_dump\<close> prints the text the ring holds, oldest byte first, and changes nothing else.\<close>

theorem log_dump_prints_ring:
  assumes "log_ring s xs"
  shows "log_dump s = Inr ((), s\<lparr>tx := tx s @ crlf (cstr ''\<newline>=== Log Buffer Dump ===\<newline>'' @ xs @
    cstr ''\<newline>=== End of Log ===\<newline>'')\<rparr>)"
proof -
  have f: "format_text (cstr ''\<newline>=== Log Buffer Dump ===\<newline>'') [] = Some (cstr ''\<newline>=== Log Buffer Dump ===\<newline>'')"
    "format_text (cstr ''\<newline>=== End of Log ===\<newline>'') [] = Some (cstr ''\<newline>=== End of Log ===\<newline>'')"
    by (simp_all add: char_consts)
  let ?s = "s\<lparr>tx := tx s @ crlf (cstr ''\<newline>=== Log Buffer Dump ===\<newline>'')\<rparr>"
  have "log_ring ?s xs" using assms by simp
  from log_dump_loop_text [OF this, of 0]
  have "log_dump_loop (kl_tail s) ?s = Inr ((), ?s\<lparr>tx := tx ?s @ crlf xs\<rparr>)"
    using assms by (simp add: log_ring_def)
  then show ?thesis by (simp add: log_dump_def printf_spec f ret_def)
qed

theorem log_dump_prints_ring_witness:
  "log_dump klog_boot = Inr ((), klog_boot\<lparr>tx := crlf (cstr ''\<newline>=== Log Buffer Dump ===\<newline>'' @
    cstr ''\<newline>=== End of Log ===\<newline>'')\<rparr>)"
  using log_dump_prints_ring [OF log_ring_boot] by (simp add: klog_boot_def)

end
