(* ===== verification/Virtio.thy ===== *)
theory Virtio
  imports Klog
begin

text \<open>
  The virtio block driver (virtio_disk.c, virtio.h) and the buffers it transfers (buf.h).
  The queue is memory shared with the device: a record \<open>vq\<close> of the C \<open>struct disk\<close>, the
  three structures its pages hold (descriptors, avail ring, used ring), the static
  request header and status byte, and the trace of register writes. The device is an
  argument \<open>hw\<close>: \<open>hw i s\<close> is the state in which the \<open>i\<close>-th poll of a request finds what
  was \<open>s\<close> before. Its documented behaviour, that a pending well-formed request is served
  after finitely many polls, is the hypothesis \<open>virtio_blk hw\<close> of the properties. A
  pointer the device is given is the object it points to.
\<close>

section \<open>State\<close>

definition BSIZE :: nat where "BSIZE = 1024"
definition NUM :: nat where "NUM = 8"
definition NBUF :: nat where "NBUF = 30"

definition VIRTIO_BLK_T_IN :: u32 where "VIRTIO_BLK_T_IN = 0"
definition VIRTIO_BLK_T_OUT :: u32 where "VIRTIO_BLK_T_OUT = 1"
definition VRING_DESC_F_NEXT :: u16 where "VRING_DESC_F_NEXT = 1"
definition VRING_DESC_F_WRITE :: u16 where "VRING_DESC_F_WRITE = 2"

lemmas virtio_consts = BSIZE_def NUM_def VIRTIO_BLK_T_IN_def VIRTIO_BLK_T_OUT_def
  VRING_DESC_F_NEXT_def VRING_DESC_F_WRITE_def

text \<open>Pointers of the LRU list: the list head, or an entry of the buffer array.\<close>

datatype bptr = Head | B nat

record buf =
  b_valid :: bool
  b_disk :: bool
  b_dev :: u32
  b_blockno :: u32
  b_refcnt :: u32
  b_prev :: bptr
  b_next :: bptr
  b_data :: "u8 list"

text \<open>What a descriptor's address refers to.\<close>

datatype dma = Null | Request | Data nat | Status

record virtq_desc =
  d_addr :: dma
  d_len :: u32
  d_flags :: u16
  d_next :: u16

record vq =
  desc :: "nat \<Rightarrow> virtq_desc"
  avail_ring :: "nat \<Rightarrow> u16"
  avail_idx :: u16
  used_ring :: "nat \<Rightarrow> u32"
  used_dev_idx :: u16
  vfree :: "nat \<Rightarrow> bool"
  used_idx :: u16
  info :: "nat \<Rightarrow> nat option"
  disk_init :: bool
  req_type :: u32
  req_sector :: u64
  status0 :: u8
  regs :: "(nat \<times> u32) list"

text \<open>\<open>img\<close> is the medium, byte by byte; \<open>written\<close> the block writes it has received.\<close>

record vblk = klog +
  vq :: vq
  bufs :: "nat \<Rightarrow> buf"
  img :: "nat \<Rightarrow> u8"
  written :: "(nat \<times> u8 list) list"

section \<open>Initialisation\<close>

text \<open>
  The values read back from the registers \<open>STATUS\<close>, \<open>QUEUE_READY\<close> and \<open>QUEUE_NUM_MAX\<close>
  and the address of \<open>disk.pages\<close> are arguments.
\<close>

definition reg_write :: "nat \<Rightarrow> u32 \<Rightarrow> vq \<Rightarrow> vq" where
  "reg_write r v q = q\<lparr>regs := regs q @ [(r, v)]\<rparr>"

definition lo32 :: "u64 \<Rightarrow> u32" where "lo32 a = ucast a"
definition hi32 :: "u64 \<Rightarrow> u32" where "hi32 a = ucast (drop_bit 32 a)"

definition virtio_disk_init ::
  "u32 \<Rightarrow> u32 \<Rightarrow> u32 \<Rightarrow> u64 \<Rightarrow> 'a vblk_scheme \<Rightarrow> (unit, 'a vblk_scheme) outcome" where
  "virtio_disk_init status_read queue_ready qmax pages s =
     (if disk_init (vq s) then ret () s
      else
        (let q = vq s;
             q = reg_write 0x70 0 q;
             q = reg_write 0x70 1 q;
             q = reg_write 0x70 3 q;
             q = reg_write 0x10 0 q;
             q = reg_write 0x20 0 q;
             q = reg_write 0x70 11 q
         in if status_read AND 8 = 0 then Inl (Panic ''virtio disk FEATURES_OK unset'')
            else
              (let q = reg_write 0x30 0 q in
               if queue_ready \<noteq> 0 then Inl (Panic ''virtio disk should not be ready'')
               else if qmax = 0 then Inl (Panic ''virtio disk has no queue 0'')
               else if qmax < 8 then Inl (Panic ''virtio disk max queue too short'')
               else
                 (let q = reg_write 0x38 8 q;
                      q = q\<lparr>desc := (\<lambda>_. \<lparr>d_addr = Null, d_len = 0, d_flags = 0, d_next = 0\<rparr>),
                            avail_ring := (\<lambda>_. 0), avail_idx := 0, used_ring := (\<lambda>_. 0), used_dev_idx := 0\<rparr>;
                      q = reg_write 0x80 (lo32 pages) q;
                      q = reg_write 0x84 (hi32 pages) q;
                      q = reg_write 0x90 (lo32 (pages + 128)) q;
                      q = reg_write 0x94 (hi32 (pages + 128)) q;
                      q = reg_write 0xa0 (lo32 (pages + PGSIZE)) q;
                      q = reg_write 0xa4 (hi32 (pages + PGSIZE)) q;
                      q = reg_write 0x44 1 q;
                      q = reg_write 0x70 (status_read OR 4) q;
                      q = q\<lparr>disk_init := True, vfree := (\<lambda>i. if i < NUM then True else vfree q i)\<rparr>
                  in bnd (printf ''virtio_disk_init: disk initialized\<newline>'' [] (s\<lparr>vq := q\<rparr>))
                       (\<lambda>_. ret ())))))"

section \<open>Requests\<close>

text \<open>Only the first of the three descriptors is tested for being free.\<close>

definition alloc3_desc :: "vq \<Rightarrow> (nat \<times> vq) option" where
  "alloc3_desc q =
     (case List.find (vfree q) [0..<NUM] of None \<Rightarrow> None
      | Some i \<Rightarrow> Some (i, q\<lparr>vfree := (vfree q)(i := False, (i + 1) mod NUM := False, (i + 2) mod NUM := False)\<rparr>))"

definition free_chain :: "nat \<Rightarrow> vq \<Rightarrow> vq" where
  "free_chain i q = q\<lparr>vfree := (vfree q)(i := True, (i + 1) mod NUM := True, (i + 2) mod NUM := True)\<rparr>"

text \<open>The request's descriptors, its entry in \<open>info\<close>, the avail ring, the notification.\<close>

definition submit :: "nat \<Rightarrow> nat \<Rightarrow> bool \<Rightarrow> u64 \<Rightarrow> vq \<Rightarrow> vq" where
  "submit i b write sector q =
     (let i1 = (i + 1) mod NUM; i2 = (i + 2) mod NUM;
          q = q\<lparr>req_type := (if write then VIRTIO_BLK_T_OUT else VIRTIO_BLK_T_IN), req_sector := sector\<rparr>;
          q = q\<lparr>desc := (desc q)(i := \<lparr>d_addr = Request, d_len = 16, d_flags = VRING_DESC_F_NEXT,
                                   d_next = of_nat i1\<rparr>)\<rparr>;
          q = q\<lparr>desc := (desc q)(i1 := \<lparr>d_addr = Data b, d_len = of_nat BSIZE,
                  d_flags = (if write then 0 else VRING_DESC_F_WRITE) OR VRING_DESC_F_NEXT,
                  d_next = of_nat i2\<rparr>)\<rparr>;
          q = q\<lparr>desc := (desc q)(i2 := \<lparr>d_addr = Status, d_len = 1, d_flags = VRING_DESC_F_WRITE,
                                    d_next = 0\<rparr>)\<rparr>;
          q = q\<lparr>info := (info q)(i := Some b)\<rparr>;
          q = q\<lparr>avail_ring := (avail_ring q)(unat (avail_idx q) mod NUM := of_nat i)\<rparr>;
          q = q\<lparr>avail_idx := avail_idx q + 1\<rparr>
      in reg_write 0x50 0 q)"

text \<open>
  Completed requests are taken from the used ring. The acknowledgement of the interrupt
  status is left out: the driver never looks at it again.
\<close>

function virtio_disk_intr :: "'a vblk_scheme \<Rightarrow> (unit, 'a vblk_scheme) outcome" where
  "virtio_disk_intr s =
     (if used_idx (vq s) = used_dev_idx (vq s) then ret () s
      else
        (let q = vq s; id = unat (used_ring q (unat (used_idx q) mod NUM)) in
         if \<not> id < NUM then Inl (Fault ''disk.info'')
         else
           (let s = (case info q id of None \<Rightarrow> s
                     | Some b \<Rightarrow> s\<lparr>bufs := (bufs s)(b := (bufs s b)\<lparr>b_disk := False\<rparr>),
                                   vq := (vq s)\<lparr>info := (info (vq s))(id := None)\<rparr>\<rparr>);
                q = free_chain id (vq s)
            in virtio_disk_intr (s\<lparr>vq := q\<lparr>used_idx := used_idx q + 1\<rparr>\<rparr>))))"
  by pat_completeness auto
termination
proof (relation "measure (\<lambda>s. unat (used_dev_idx (vq s) - used_idx (vq s)))", goal_cases)
  case 1
  show ?case by simp
next
  case (2 s)
  then have "used_dev_idx (vq s) - used_idx (vq s) \<noteq> 0" by simp
  from unat_minus_one [OF this] have
    "unat (used_dev_idx (vq s) - (used_idx (vq s) + 1)) = unat (used_dev_idx (vq s) - used_idx (vq s)) - 1"
    by (simp add: diff_diff_eq)
  moreover have "unat (used_dev_idx (vq s) - used_idx (vq s)) \<noteq> 0"
    using \<open>used_dev_idx (vq s) - used_idx (vq s) \<noteq> 0\<close> unat_eq_zero by blast
  ultimately show ?case using 2 by (simp add: free_chain_def split: option.split)
qed

declare virtio_disk_intr.simps [simp del]

text \<open>\<open>while(b->disk == 1) virtio_disk_intr();\<close> with the device at work between two polls.\<close>

partial_function (option) virtio_poll ::
  "(nat \<Rightarrow> 'a vblk_scheme \<Rightarrow> 'a vblk_scheme) \<Rightarrow> nat \<Rightarrow> nat \<Rightarrow> 'a vblk_scheme \<Rightarrow>
    (unit, 'a vblk_scheme) outcome option" where
  "virtio_poll hw b i s =
     (if b_disk (bufs s b) then
        (case virtio_disk_intr (hw i s) of Inl e \<Rightarrow> Some (Inl e)
         | Inr (_, s) \<Rightarrow> virtio_poll hw b (i + 1) s)
      else Some (ret () s))"

definition virtio_disk_rw ::
  "(nat \<Rightarrow> 'a vblk_scheme \<Rightarrow> 'a vblk_scheme) \<Rightarrow> nat \<Rightarrow> bool \<Rightarrow> 'a vblk_scheme \<Rightarrow>
    (unit, 'a vblk_scheme) outcome" where
  "virtio_disk_rw hw b write s =
     (let sector = ucast (b_blockno (bufs s b) * 2) in
      if \<not> disk_init (vq s) then Inl (Panic ''virtio_disk_rw: not initialized'')
      else
        (case alloc3_desc (vq s) of
           None \<Rightarrow> Inl Hang
         | Some (i, q) \<Rightarrow>
             (let s = s\<lparr>vq := submit i b write sector q,
                        bufs := (bufs s)(b := (bufs s b)\<lparr>b_disk := True\<rparr>)\<rparr>
              in (case virtio_poll hw b 0 s of None \<Rightarrow> Inl Hang | Some r \<Rightarrow> r))))"

section \<open>The device\<close>

definition img_read :: "(nat \<Rightarrow> u8) \<Rightarrow> nat \<Rightarrow> nat \<Rightarrow> u8 list" where
  "img_read m off n = map m [off..<off + n]"

definition img_write :: "nat \<Rightarrow> u8 list \<Rightarrow> (nat \<Rightarrow> u8) \<Rightarrow> (nat \<Rightarrow> u8)" where
  "img_write off bs m = (\<lambda>x. if off \<le> x \<and> x < off + length bs then bs ! (x - off) else m x)"

text \<open>
  The pending request of a queue, if its descriptor chain is a well-formed block request:
  header, data of one block that the device writes exactly for a read, status.
\<close>

definition request :: "vq \<Rightarrow> (bool \<times> u64 \<times> nat) option" where
  "request q =
     (let d0 = desc q (unat (avail_ring q (unat (used_dev_idx q) mod NUM)));
          d1 = desc q (unat (d_next d0));
          d2 = desc q (unat (d_next d1))
      in if avail_idx q \<noteq> used_dev_idx q \<and>
            d_addr d0 = Request \<and> d_len d0 = 16 \<and> d_flags d0 = VRING_DESC_F_NEXT \<and>
            d_len d1 = of_nat BSIZE \<and>
            d_addr d2 = Status \<and> d_len d2 = 1 \<and> d_flags d2 = VRING_DESC_F_WRITE
         then (case d_addr d1 of
             Data b \<Rightarrow>
               if req_type q = VIRTIO_BLK_T_OUT \<and> d_flags d1 = VRING_DESC_F_NEXT
               then Some (True, req_sector q, b)
               else if req_type q = VIRTIO_BLK_T_IN \<and> d_flags d1 = VRING_DESC_F_WRITE OR VRING_DESC_F_NEXT
               then Some (False, req_sector q, b)
               else None
           | _ \<Rightarrow> None)
         else None)"

text \<open>A served request: data transferred, status byte, entry in the used ring.\<close>

definition served :: "bool \<Rightarrow> u64 \<Rightarrow> nat \<Rightarrow> 'a vblk_scheme \<Rightarrow> 'a vblk_scheme" where
  "served w sector b s =
     (let q = vq s; off = 512 * unat sector;
          q = q\<lparr>status0 := 0,
                used_ring := (used_ring q)(unat (used_dev_idx q) mod NUM :=
                  ucast (avail_ring q (unat (used_dev_idx q) mod NUM))),
                used_dev_idx := used_dev_idx q + 1\<rparr>
      in if w
         then s\<lparr>vq := q, img := img_write off (b_data (bufs s b)) (img s),
                written := written s @ [(off, b_data (bufs s b))]\<rparr>
         else s\<lparr>vq := q, bufs := (bufs s)(b := (bufs s b)\<lparr>b_data := img_read (img s) off BSIZE\<rparr>)\<rparr>)"

text \<open>What the driver relies on: a pending well-formed request is served in finitely many polls.\<close>

definition virtio_blk :: "(nat \<Rightarrow> 'a vblk_scheme \<Rightarrow> 'a vblk_scheme) \<Rightarrow> bool" where
  "virtio_blk hw \<longleftrightarrow> (\<forall>s w sector b. request (vq s) = Some (w, sector, b) \<longrightarrow>
     (\<exists>k. (\<forall>i < k. hw i s = s) \<and> hw k s = served w sector b s))"

text \<open>No request outstanding: the state of the queue between two calls of the driver.\<close>

definition vq_idle :: "vq \<Rightarrow> bool" where
  "vq_idle q \<longleftrightarrow> disk_init q \<and> (\<forall>i < NUM. vfree q i) \<and> used_idx q = used_dev_idx q \<and>
     avail_idx q = used_dev_idx q"

section \<open>The medium in blocks\<close>

definition disk_block :: "(nat \<Rightarrow> u8) \<Rightarrow> u32 \<Rightarrow> u8 list" where
  "disk_block m n = img_read m (512 * unat (ucast (n * 2) :: u64)) BSIZE"

definition block_write :: "u32 \<Rightarrow> u8 list \<Rightarrow> (nat \<Rightarrow> u8) \<Rightarrow> (nat \<Rightarrow> u8)" where
  "block_write n bs = img_write (512 * unat (ucast (n * 2) :: u64)) bs"

text \<open>The sector computation is a 32-bit product: only the low half of the block numbers is usable.\<close>

definition small_block :: "u32 \<Rightarrow> bool" where
  "small_block n \<longleftrightarrow> unat n < 2 ^ 31"

lemma block_offset: "small_block n \<Longrightarrow> 512 * unat (ucast (n * 2) :: u64) = 1024 * unat n"
proof -
  assume "small_block n"
  then have "unat (n * 2) = unat n * 2" by (simp add: small_block_def unat_word_ariths)
  moreover have "unat (ucast (n * 2) :: u64) = unat (n * 2)"
    by (simp add: unsigned_ucast_eq take_bit_nat_eq_self unsigned_less [THEN less_trans])
  ultimately show ?thesis by simp
qed

lemma length_disk_block [simp]: "length (disk_block m n) = BSIZE"
  by (simp add: disk_block_def img_read_def)

lemma disk_block_write_same: "length bs = BSIZE \<Longrightarrow> disk_block (block_write n bs m) n = bs"
  by (rule nth_equalityI) (simp_all add: disk_block_def block_write_def img_read_def img_write_def)

lemma disk_block_write_other:
  assumes "length bs = BSIZE" and "small_block a" and "small_block b" and "a \<noteq> b"
  shows "disk_block (block_write a bs m) b = disk_block m b"
proof -
  have "unat a \<noteq> unat b" using assms(4) unsigned_word_eqI by blast
  then have "unat a < unat b \<or> unat b < unat a" by linarith
  then show ?thesis
    using assms(1) by (auto simp: disk_block_def block_write_def img_read_def img_write_def
        block_offset [OF assms(2)] block_offset [OF assms(3)] BSIZE_def)
qed

section \<open>The driver transfers the block\<close>

lemma alloc3_idle: "vq_idle q \<Longrightarrow>
    alloc3_desc q = Some (0, q\<lparr>vfree := (vfree q)(0 := False, 1 := False, 2 := False)\<rparr>)"
  by (simp add: alloc3_desc_def vq_idle_def NUM_def upt_rec numeral_2_eq_2)

lemma request_submit:
  assumes "avail_idx q = used_dev_idx q"
  shows "request (submit 0 b write sector q) = Some (write, sector, b)"
  using assms
  by (simp add: request_def submit_def Let_def virtio_consts reg_write_def)

lemma virtio_poll_idle:
  assumes "\<forall>i < k. hw i s = s" and "n \<le> k" and "b_disk (bufs s b)"
    and "used_idx (vq s) = used_dev_idx (vq s)"
  shows "virtio_poll hw b n s = virtio_poll hw b k s"
  using assms(2)
proof (induction "k - n" arbitrary: n)
  case 0
  then show ?case by simp
next
  case (Suc d)
  then have "hw n s = s" using assms(1) by simp
  moreover have "virtio_disk_intr s = ret () s" using assms(4) by (simp add: virtio_disk_intr.simps)
  ultimately have "virtio_poll hw b n s = virtio_poll hw b (n + 1) s"
    using assms(3) by (simp add: virtio_poll.simps [of hw b n] ret_def)
  then show ?case using Suc by simp
qed

lemma virtio_disk_rw_spec:
  assumes hw: "virtio_blk hw" and idle: "vq_idle (vq s)"
  shows "\<exists>q. vq_idle q \<and> virtio_disk_rw hw b write s = Inr ((),
    (if write
     then s\<lparr>img := block_write (b_blockno (bufs s b)) (b_data (bufs s b)) (img s),
            written := written s @ [(512 * unat (ucast (b_blockno (bufs s b) * 2) :: u64), b_data (bufs s b))],
            bufs := (bufs s)(b := (bufs s b)\<lparr>b_disk := False\<rparr>), vq := q\<rparr>
     else s\<lparr>bufs := (bufs s)(b := (bufs s b)\<lparr>b_data := disk_block (img s) (b_blockno (bufs s b)),
            b_disk := False\<rparr>), vq := q\<rparr>))"
proof -
  let ?sec = "ucast (b_blockno (bufs s b) * 2) :: u64"
  let ?q0 = "(vq s)\<lparr>vfree := (vfree (vq s))(0 := False, 1 := False, 2 := False)\<rparr>"
  define s1 where "s1 = s\<lparr>vq := submit 0 b write ?sec ?q0,
    bufs := (bufs s)(b := (bufs s b)\<lparr>b_disk := True\<rparr>)\<rparr>"
  note I = idle [unfolded vq_idle_def]
  have "request (vq s1) = Some (write, ?sec, b)"
    using I by (simp add: s1_def request_submit)
  then obtain k where k: "\<forall>i < k. hw i s1 = s1" and srv: "hw k s1 = served write ?sec b s1"
    using hw unfolding virtio_blk_def by blast
  have d1: "b_disk (bufs s1 b)" and u1: "used_idx (vq s1) = used_dev_idx (vq s1)"
    using I by (simp_all add: s1_def submit_def reg_write_def Let_def)
  have rw: "virtio_disk_rw hw b write s =
      (case virtio_poll hw b k s1 of None \<Rightarrow> Inl Hang | Some r \<Rightarrow> r)"
    using I virtio_poll_idle [where hw = hw and s = s1 and k = k and n = 0, OF k le0 d1 u1]
    by (simp add: virtio_disk_rw_def alloc3_idle [OF idle] s1_def)
  have "\<exists>q. vq_idle q \<and> virtio_disk_intr (served write ?sec b s1) = Inr ((),
      (served write ?sec b s1)\<lparr>bufs := (bufs (served write ?sec b s1))
          (b := (bufs (served write ?sec b s1) b)\<lparr>b_disk := False\<rparr>), vq := q\<rparr>)"
  proof -
    let ?s = "served write ?sec b s1"
    let ?j = "unat (used_idx (vq s)) mod 8"
    have j: "used_idx (vq ?s) = used_idx (vq s)" "used_dev_idx (vq ?s) = used_idx (vq s) + 1"
      "used_ring (vq ?s) ?j = 0" "info (vq ?s) 0 = Some b" "avail_idx (vq ?s) = used_idx (vq s) + 1"
      "disk_init (vq ?s)" "\<forall>i < NUM. 3 \<le> i \<longrightarrow> vfree (vq ?s) i"
      using I by (simp_all add: served_def s1_def submit_def reg_write_def Let_def NUM_def)
    let ?q = "(free_chain 0 ((vq ?s)\<lparr>info := (info (vq ?s))(0 := None)\<rparr>))\<lparr>used_idx := used_idx (vq s) + 1\<rparr>"
    have "virtio_disk_intr ?s = virtio_disk_intr (?s\<lparr>bufs := (bufs ?s)(b := (bufs ?s b)\<lparr>b_disk := False\<rparr>), vq := ?q\<rparr>)"
      by (subst virtio_disk_intr.simps) (simp add: j free_chain_def Let_def NUM_def)
    also have "\<dots> = Inr ((), ?s\<lparr>bufs := (bufs ?s)(b := (bufs ?s b)\<lparr>b_disk := False\<rparr>), vq := ?q\<rparr>)"
      by (subst virtio_disk_intr.simps) (simp add: j free_chain_def ret_def)
    moreover have "vq_idle ?q"
      using j(6,7) by (auto simp: vq_idle_def free_chain_def j NUM_def)
    ultimately show ?thesis by metis
  qed
  then obtain q where q: "vq_idle q" and intr: "virtio_disk_intr (served write ?sec b s1) = Inr ((),
      (served write ?sec b s1)\<lparr>bufs := (bufs (served write ?sec b s1))
          (b := (bufs (served write ?sec b s1) b)\<lparr>b_disk := False\<rparr>), vq := q\<rparr>)"
    by blast
  have "virtio_poll hw b k s1 = Some (ret () ((served write ?sec b s1)\<lparr>bufs := (bufs (served write ?sec b s1))
          (b := (bufs (served write ?sec b s1) b)\<lparr>b_disk := False\<rparr>), vq := q\<rparr>))"
    by (simp add: virtio_poll.simps [of hw b k s1] virtio_poll.simps [of hw b "Suc k"] d1 srv intr)
  then show ?thesis
    using q rw by (auto simp: served_def s1_def ret_def disk_block_def block_write_def Let_def intro!: exI [of _ q])
qed

section \<open>Properties\<close>

text \<open>
  C25. From an idle queue, with a device that serves well-formed requests, \<open>virtio_disk_rw\<close>
  returns, transfers exactly the block of the buffer in the requested direction, changes no other
  buffer and no other byte of the medium, and leaves the queue idle.
\<close>

theorem virtio_disk_rw_transfers:
  assumes "virtio_blk hw" and "vq_idle (vq s)"
  shows "\<exists>q. vq_idle q \<and> virtio_disk_rw hw b write s = Inr ((),
    (if write
     then s\<lparr>img := block_write (b_blockno (bufs s b)) (b_data (bufs s b)) (img s),
            written := written s @ [(512 * unat (ucast (b_blockno (bufs s b) * 2) :: u64), b_data (bufs s b))],
            bufs := (bufs s)(b := (bufs s b)\<lparr>b_disk := False\<rparr>), vq := q\<rparr>
     else s\<lparr>bufs := (bufs s)(b := (bufs s b)\<lparr>b_data := disk_block (img s) (b_blockno (bufs s b)),
            b_disk := False\<rparr>), vq := q\<rparr>))"
  using assms by (rule virtio_disk_rw_spec)

text \<open>A device that serves a request at the first poll, and an idle queue.\<close>

definition prompt_device :: "nat \<Rightarrow> 'a vblk_scheme \<Rightarrow> 'a vblk_scheme" where
  "prompt_device i s = (case request (vq s) of None \<Rightarrow> s | Some (w, sector, b) \<Rightarrow> served w sector b s)"

lemma virtio_blk_prompt: "virtio_blk prompt_device"
  unfolding virtio_blk_def
proof (intro allI impI)
  fix s :: "'a vblk_scheme" and w sector b
  assume "request (vq s) = Some (w, sector, b)"
  then show "\<exists>k. (\<forall>i < k. prompt_device i s = s) \<and> prompt_device k s = served w sector b s"
    by (intro exI [of _ 0]) (simp add: prompt_device_def)
qed

definition vq_boot :: vq where
  "vq_boot = \<lparr>desc = (\<lambda>_. \<lparr>d_addr = Null, d_len = 0, d_flags = 0, d_next = 0\<rparr>), avail_ring = (\<lambda>_. 0),
     avail_idx = 0, used_ring = (\<lambda>_. 0), used_dev_idx = 0, vfree = (\<lambda>_. True), used_idx = 0,
     info = (\<lambda>_. None), disk_init = True, req_type = 0, req_sector = 0, status0 = 0, regs = []\<rparr>"

lemma vq_idle_boot: "vq_idle vq_boot"
  by (simp add: vq_idle_def vq_boot_def)

definition buf_boot :: buf where
  "buf_boot = \<lparr>b_valid = False, b_disk = False, b_dev = 0, b_blockno = 0, b_refcnt = 0, b_prev = Head,
     b_next = Head, b_data = replicate BSIZE 0\<rparr>"

definition vblk_boot :: vblk where
  "vblk_boot = klog.extend klog_boot
     \<lparr>vq = vq_boot, bufs = (\<lambda>_. buf_boot), img = (\<lambda>x. of_nat (x div 1024)), written = []\<rparr>"

lemma vblk_boot_fields [simp]:
  "vq vblk_boot = vq_boot" "bufs vblk_boot = (\<lambda>_. buf_boot)" "img vblk_boot = (\<lambda>x. of_nat (x div 1024))"
  "written vblk_boot = []"
  by (simp_all add: vblk_boot_def klog.defs)

theorem virtio_disk_rw_transfers_witness:
  "\<exists>q. vq_idle q \<and> virtio_disk_rw prompt_device 3 False vblk_boot =
    Inr ((), vblk_boot\<lparr>bufs := (\<lambda>_. buf_boot)(3 := buf_boot\<lparr>b_data := disk_block (img vblk_boot) 0, b_disk := False\<rparr>), vq := q\<rparr>)"
proof -
  have "vq_idle (vq vblk_boot)" by (simp add: vq_idle_boot)
  from virtio_disk_rw_transfers [OF virtio_blk_prompt this, of 3 False] show ?thesis
    by (simp add: buf_boot_def)
qed

text \<open>
  On a device that accepts the features and offers a queue of at least eight entries,
  \<open>virtio_disk_init\<close> returns with an idle queue; it panics, with its message, exactly when the
  device does not.
\<close>

lemma virtio_disk_init_idle:
  assumes "\<not> disk_init (vq s)" and "used_idx (vq s) = 0"
  shows "if status_read AND 8 \<noteq> 0 \<and> queue_ready = 0 \<and> 8 \<le> qmax
    then \<exists>s'. virtio_disk_init status_read queue_ready qmax pages s = Inr ((), s') \<and> vq_idle (vq s') \<and>
      bufs s' = bufs s \<and> img s' = img s \<and>
      regs (vq s') = regs (vq s) @
        [(0x70, 0), (0x70, 1), (0x70, 3), (0x10, 0), (0x20, 0), (0x70, 11), (0x30, 0), (0x38, 8),
         (0x80, lo32 pages), (0x84, hi32 pages), (0x90, lo32 (pages + 128)), (0x94, hi32 (pages + 128)),
         (0xa0, lo32 (pages + PGSIZE)), (0xa4, hi32 (pages + PGSIZE)), (0x44, 1), (0x70, status_read OR 4)]
    else \<exists>msg. virtio_disk_init status_read queue_ready qmax pages s = Inl (Panic msg)"
  using assms
  by (auto simp: virtio_disk_init_def printf_spec char_consts reg_write_def Let_def ret_def vq_idle_def
      not_le)

lemma virtio_disk_init_idle_example:
  "\<exists>s'. virtio_disk_init 11 0 1024 0x80300000 (vblk_boot\<lparr>vq := vq_boot\<lparr>disk_init := False\<rparr>\<rparr>) = Inr ((), s') \<and>
    vq_idle (vq s')"
  using virtio_disk_init_idle [where s = "vblk_boot\<lparr>vq := vq_boot\<lparr>disk_init := False\<rparr>\<rparr>"
      and status_read = 11 and queue_ready = 0 and qmax = 1024 and pages = "0x80300000"]
  by (auto simp: vq_boot_def)

end
