(* ===== verification/Bio.thy ===== *)
theory Bio
  imports Virtio
begin

text \<open>
  The buffer cache (bio.c): 30 buffers on a doubly linked list in least-recently-used
  order, looked up by device and block number, recycled from the tail. \<open>b_disk\<close> is set
  while the log holds changes of the buffer that are not on the medium yet. The
  theory gives the cache its abstract meaning, a record of the contents, pending
  changes, references and medium block by block, and shows that every operation
  implements an operation of that record.
\<close>

record bcache = vblk +
  bhead_prev :: bptr
  bhead_next :: bptr

section \<open>Operations\<close>

fun next_of :: "'a bcache_scheme \<Rightarrow> bptr \<Rightarrow> bptr" where
  "next_of s Head = bhead_next s"
| "next_of s (B i) = b_next (bufs s i)"

fun prev_of :: "'a bcache_scheme \<Rightarrow> bptr \<Rightarrow> bptr" where
  "prev_of s Head = bhead_prev s"
| "prev_of s (B i) = b_prev (bufs s i)"

fun set_next :: "bptr \<Rightarrow> bptr \<Rightarrow> 'a bcache_scheme \<Rightarrow> 'a bcache_scheme" where
  "set_next Head q s = s\<lparr>bhead_next := q\<rparr>"
| "set_next (B i) q s = s\<lparr>bufs := (bufs s)(i := (bufs s i)\<lparr>b_next := q\<rparr>)\<rparr>"

fun set_prev :: "bptr \<Rightarrow> bptr \<Rightarrow> 'a bcache_scheme \<Rightarrow> 'a bcache_scheme" where
  "set_prev Head q s = s\<lparr>bhead_prev := q\<rparr>"
| "set_prev (B i) q s = s\<lparr>bufs := (bufs s)(i := (bufs s i)\<lparr>b_prev := q\<rparr>)\<rparr>"

definition upd_buf :: "nat \<Rightarrow> (buf \<Rightarrow> buf) \<Rightarrow> 'a bcache_scheme \<Rightarrow> 'a bcache_scheme" where
  "upd_buf i f s = s\<lparr>bufs := (bufs s)(i := f (bufs s i))\<rparr>"

text \<open>The four assignments that put a buffer behind the list head.\<close>

definition link_front :: "nat \<Rightarrow> 'a bcache_scheme \<Rightarrow> 'a bcache_scheme" where
  "link_front b s =
     (let s = set_next (B b) (bhead_next s) s;
          s = set_prev (B b) Head s;
          s = set_prev (bhead_next s) (B b) s
      in set_next Head (B b) s)"

text \<open>The body of the loop of \<open>binit\<close>.\<close>

definition binit_step :: "nat \<Rightarrow> 'a bcache_scheme \<Rightarrow> 'a bcache_scheme" where
  "binit_step b s = upd_buf b (\<lambda>x. x\<lparr>b_valid := False, b_disk := False, b_refcnt := 0\<rparr>) (link_front b s)"

definition binit :: "'a bcache_scheme \<Rightarrow> (unit, 'a bcache_scheme) outcome" where
  "binit s =
     (let s = set_next Head Head (set_prev Head Head s);
          s = fold binit_step [0..<NBUF] s
      in bnd (printf ''binit: buffer cache initialized\<newline>'' [] s) (\<lambda>_. ret ()))"

text \<open>
  A search along the list, \<open>for(b = p; b != &bcache.head; b = step(b)) if(P) ...\<close>; on a
  list that does not come back to its head it does not return (\<open>None\<close>).
\<close>

partial_function (option) bscan :: "(bptr \<Rightarrow> bptr) \<Rightarrow> (nat \<Rightarrow> bool) \<Rightarrow> bptr \<Rightarrow> nat option option" where
  "bscan step P p =
     (case p of Head \<Rightarrow> Some None
      | B i \<Rightarrow> if P i then Some (Some i) else bscan step P (step (B i)))"

definition bget :: "u32 \<Rightarrow> u32 \<Rightarrow> 'a bcache_scheme \<Rightarrow> (nat, 'a bcache_scheme) outcome" where
  "bget dev blockno s =
     (case bscan (next_of s) (\<lambda>i. b_dev (bufs s i) = dev \<and> b_blockno (bufs s i) = blockno) (bhead_next s) of
        None \<Rightarrow> Inl Hang
      | Some (Some i) \<Rightarrow> ret i (upd_buf i (\<lambda>b. b\<lparr>b_refcnt := b_refcnt b + 1\<rparr>) s)
      | Some None \<Rightarrow>
          (case bscan (prev_of s) (\<lambda>i. b_refcnt (bufs s i) = 0 \<and> \<not> b_disk (bufs s i)) (bhead_prev s) of
             None \<Rightarrow> Inl Hang
           | Some (Some i) \<Rightarrow>
               ret i (upd_buf i (\<lambda>b. b\<lparr>b_dev := dev, b_blockno := blockno, b_valid := False, b_refcnt := 1\<rparr>) s)
           | Some None \<Rightarrow> Inl (Panic ''bget: no buffers'')))"

definition bread ::
  "(nat \<Rightarrow> 'a bcache_scheme \<Rightarrow> 'a bcache_scheme) \<Rightarrow> u32 \<Rightarrow> u32 \<Rightarrow> 'a bcache_scheme \<Rightarrow>
    (nat, 'a bcache_scheme) outcome" where
  "bread hw dev blockno s =
     bnd (bget dev blockno s) (\<lambda>b s.
       if \<not> b_valid (bufs s b) then
         bnd (virtio_disk_rw hw b False s) (\<lambda>_ s.
           ret b (upd_buf b (\<lambda>x. x\<lparr>b_valid := True, b_disk := False\<rparr>) s))
       else ret b s)"

definition bwrite ::
  "(nat \<Rightarrow> 'a bcache_scheme \<Rightarrow> 'a bcache_scheme) \<Rightarrow> nat \<Rightarrow> 'a bcache_scheme \<Rightarrow>
    (unit, 'a bcache_scheme) outcome" where
  "bwrite hw b s = virtio_disk_rw hw b True s"

definition brelse :: "nat \<Rightarrow> 'a bcache_scheme \<Rightarrow> (unit, 'a bcache_scheme) outcome" where
  "brelse b s =
     (let s = upd_buf b (\<lambda>x. x\<lparr>b_refcnt := b_refcnt x - 1\<rparr>) s in
      if b_refcnt (bufs s b) = 0 then
        (let s = set_prev (b_next (bufs s b)) (b_prev (bufs s b)) s;
             s = set_next (b_prev (bufs s b)) (b_next (bufs s b)) s
         in ret () (link_front b s))
      else ret () s)"

section \<open>The list\<close>

definition links :: "bptr \<Rightarrow> nat list \<Rightarrow> bptr \<Rightarrow> (bptr \<times> bptr) list" where
  "links p xs q = zip (p # map B xs) (map B xs @ [q])"

definition linked :: "'a bcache_scheme \<Rightarrow> (bptr \<times> bptr) list \<Rightarrow> bool" where
  "linked s ps \<longleftrightarrow> (\<forall>(p, q) \<in> set ps. next_of s p = q \<and> prev_of s q = p)"

text \<open>The LRU list of \<open>s\<close> is \<open>xs\<close>, most recently used first.\<close>

definition lru :: "'a bcache_scheme \<Rightarrow> nat list \<Rightarrow> bool" where
  "lru s xs \<longleftrightarrow> linked s (links Head xs Head) \<and> distinct xs \<and> set xs = {..<NBUF}"

lemma links_Nil [simp]: "links p [] q = [(p, q)]"
  by (simp add: links_def)

lemma links_Cons [simp]: "links p (x # xs) q = (p, B x) # links (B x) xs q"
  by (simp add: links_def)

lemma links_append: "links p (xs @ x # ys) q = links p xs (B x) @ links (B x) ys q"
  by (induction xs arbitrary: p) simp_all

lemma links_snoc: "links p (xs @ [x]) q = links p xs (B x) @ [(B x, q)]"
  by (simp add: links_append)

lemma fst_links: "map fst (links p xs q) = p # map B xs"
  by (simp add: links_def)

lemma snd_links: "map snd (links p xs q) = map B xs @ [q]"
  by (simp add: links_def)

lemma linked_append [simp]: "linked s (ps @ qs) \<longleftrightarrow> linked s ps \<and> linked s qs"
  by (simp add: linked_def ball_Un)

lemma linked_Cons [simp]:
  "linked s ((p, q) # ps) \<longleftrightarrow> next_of s p = q \<and> prev_of s q = p \<and> linked s ps"
  by (auto simp: linked_def)

lemma linked_Nil [simp]: "linked s []"
  by (simp add: linked_def)

lemma next_set_next: "next_of (set_next p q s) p' = (if p' = p then q else next_of s p')"
  by (cases p; cases p') simp_all

lemma prev_set_next: "prev_of (set_next p q s) p' = prev_of s p'"
  by (cases p; cases p') simp_all

lemma prev_set_prev: "prev_of (set_prev p q s) p' = (if p' = p then q else prev_of s p')"
  by (cases p; cases p') simp_all

lemma next_set_prev: "next_of (set_prev p q s) p' = next_of s p'"
  by (cases p; cases p') simp_all

lemmas list_simps = next_set_next prev_set_next prev_set_prev next_set_prev

lemma bscan_next: "linked s (links p xs Head) \<Longrightarrow> bscan (next_of s) P (next_of s p) = Some (List.find P xs)"
proof (induction xs arbitrary: p)
  case Nil
  then show ?case by (simp add: bscan.simps [of _ _ Head])
next
  case (Cons x xs)
  then have "next_of s p = B x" and "linked s (links (B x) xs Head)" by simp_all
  with Cons.IH [of "B x"] show ?case by (simp add: bscan.simps [of _ _ "B x"])
qed

lemma bscan_prev: "linked s (links Head xs q) \<Longrightarrow> bscan (prev_of s) P (prev_of s q) = Some (List.find P (rev xs))"
proof (induction xs arbitrary: q rule: rev_induct)
  case Nil
  then show ?case by (simp add: bscan.simps [of _ _ Head])
next
  case (snoc x xs)
  then have "prev_of s q = B x" and "linked s (links Head xs (B x))" by (simp_all add: links_snoc)
  with snoc.IH [of "B x"] show ?case by (simp add: bscan.simps [of _ _ "B x"])
qed

text \<open>An assignment leaves the links alone that do not start, or end, at the pointer.\<close>

lemma linked_set_next: "p \<notin> fst ` set ps \<Longrightarrow> linked (set_next p q s) ps = linked s ps"
  by (induction ps) (auto simp: list_simps)

lemma linked_set_prev: "p \<notin> snd ` set ps \<Longrightarrow> linked (set_prev p q s) ps = linked s ps"
  by (induction ps) (auto simp: list_simps)

lemma set_links: "fst ` set (links p xs q) = insert p (B ` set xs)" "snd ` set (links p xs q) = insert q (B ` set xs)"
  using fst_links [of p xs q] snd_links [of p xs q]
  by (metis list.set_map list.simps(15) image_set, metis list.set_map set_append list.set insert_is_Un Un_commute image_set list.simps(15) set_map)

text \<open>Linking a buffer behind the head, and taking one out.\<close>

lemma link_front_eq:
  "link_front b s =
     (let s = set_next (B b) (next_of s Head) s;
          s = set_prev (B b) Head s;
          s = set_prev (next_of s Head) (B b) s
      in set_next Head (B b) s)"
  by (simp add: link_front_def Let_def)

declare next_of.simps [simp del] prev_of.simps [simp del] set_next.simps [simp del]
  set_prev.simps [simp del]

lemma link_front_linked:
  assumes "linked s (links Head xs Head)" and "b \<notin> set xs" and "distinct xs"
  shows "linked (link_front b s) (links Head (b # xs) Head)"
proof (cases xs)
  case Nil
  then show ?thesis using assms by (simp add: link_front_eq Let_def list_simps)
next
  case (Cons x ys)
  have h: "next_of s Head = B x" using assms(1) Cons by simp
  have l: "linked s (links (B x) ys Head)" using assms(1) Cons by simp
  have "linked (link_front b s) (links (B x) ys Head)"
    using assms(2,3) l h Cons
    by (simp add: link_front_eq Let_def linked_set_next linked_set_prev set_links list_simps image_iff)
  then show ?thesis
    using h Cons assms(2) by (simp add: link_front_eq Let_def list_simps)
qed

text \<open>The last link of a path and the first.\<close>

lemma links_last: "\<exists>ps. (\<forall>q. links p xs q = ps @ [(last (p # map B xs), q)]) \<and>
    fst ` set ps = set (butlast (p # map B xs)) \<and> snd ` set ps = B ` set xs"
proof (cases xs rule: rev_cases)
  case (snoc ys x)
  then show ?thesis
    by (intro exI [of _ "links p ys (B x)"]) (auto simp: links_snoc set_links butlast_append)
qed simp

lemma links_first: "\<exists>ps. (\<forall>p. links p xs q = (p, hd (map B xs @ [q])) # ps) \<and>
    fst ` set ps = B ` set xs \<and> snd ` set ps = set (tl (map B xs @ [q]))"
proof (cases xs)
  case (Cons x ys)
  then show ?thesis
    by (intro exI [of _ "links (B x) ys q"]) (auto simp: set_links)
qed simp

lemma last_notin_butlast: "distinct xs \<Longrightarrow> xs \<noteq> [] \<Longrightarrow> last xs \<notin> set (butlast xs)"
  by (metis append_butlast_last_id distinct_butlast not_distinct_conv_prefix)

lemma hd_notin_tl: "distinct xs \<Longrightarrow> xs \<noteq> [] \<Longrightarrow> hd xs \<notin> set (tl xs)"
  by (cases xs) simp_all

lemma links_join:
  assumes "\<And>q. links p as q = X @ [(u, q)]" and "\<And>p. links p bs q = (p, v) # Y"
  shows "links p (as @ bs) q = X @ (u, v) # Y"
proof (cases bs)
  case Nil
  then have "v = q" and "Y = []" using assms(2) [of p] by simp_all
  then show ?thesis using assms(1) [of q] Nil by simp
next
  case (Cons c cs)
  then have v: "v = B c" and Y: "Y = links (B c) cs q" using assms(2) [of p] by auto
  show ?thesis unfolding v Y Cons by (simp add: links_append assms(1))
qed

lemma unlink_linked:
  assumes "linked s (links Head (as @ b # bs) Head)" and d: "distinct (as @ b # bs)"
  shows "linked (set_next (prev_of s (B b)) (next_of s (B b)) (set_prev (next_of s (B b)) (prev_of s (B b)) s))
    (links Head (as @ bs) Head)"
proof -
  let ?p = "last (Head # map B as)" and ?n = "hd (map B bs @ [Head])"
  obtain X where X: "\<And>q. links Head as q = X @ [(?p, q)]"
    "fst ` set X = set (butlast (Head # map B as))" "snd ` set X = B ` set as"
    using links_last [of Head as] by blast
  obtain Y where Y: "\<And>p. links p bs Head = (p, ?n) # Y"
    "fst ` set Y = B ` set bs" "snd ` set Y = set (tl (map B bs @ [Head]))"
    using links_first [of bs Head] by blast
  have l: "linked s X" "linked s Y" "prev_of s (B b) = ?p" "next_of s (B b) = ?n"
    using assms(1) by (simp_all add: links_append X(1) Y(1))
  have dd: "distinct (Head # map B as)" "distinct (map B bs @ [Head])"
    using d by (auto simp: distinct_map inj_on_def)
  have p_in: "?p \<in> insert Head (B ` set as)" and n_in: "?n \<in> insert Head (B ` set bs)"
    by (cases as rule: rev_cases; simp) (cases bs; simp)
  have "?p \<notin> fst ` set X" unfolding X(2) by (rule last_notin_butlast [OF dd(1)]) simp
  moreover have "?p \<notin> fst ` set Y" unfolding Y(2) using p_in d by auto
  moreover have "?n \<notin> snd ` set X" unfolding X(3) using n_in d by auto
  moreover have "?n \<notin> snd ` set Y" unfolding Y(3) by (rule hd_notin_tl [OF dd(2)]) simp
  ultimately show ?thesis
    unfolding links_join [OF X(1) Y(1)] l(3,4)
    using l(1,2) by (simp add: linked_set_next linked_set_prev list_simps)
qed

section \<open>What the operations do to the list\<close>

lemma lru_split:
  assumes "lru s xs" and "b < NBUF"
  obtains as bs where "xs = as @ b # bs"
  using assms by (metis lru_def lessThan_iff split_list)

lemma lru_move_front:
  assumes "lru s (as @ b # bs)"
  shows "lru (link_front b (set_next (prev_of s (B b)) (next_of s (B b))
      (set_prev (next_of s (B b)) (prev_of s (B b)) s))) (b # as @ bs)"
proof -
  have "linked s (links Head (as @ b # bs) Head)" and d: "distinct (as @ b # bs)"
    and set: "set (as @ b # bs) = {..<NBUF}" using assms by (simp_all add: lru_def)
  from link_front_linked [OF unlink_linked [OF this(1,2)], of b] d set
  show ?thesis by (auto simp: lru_def)
qed

text \<open>List assignments change nothing but the two pointers of a buffer.\<close>

definition core :: "buf \<Rightarrow> buf" where
  "core b = b\<lparr>b_prev := Head, b_next := Head\<rparr>"

lemma coreD:
  assumes "core b' = core b"
  shows "b_valid b' = b_valid b" "b_disk b' = b_disk b" "b_dev b' = b_dev b" "b_blockno b' = b_blockno b"
    "b_refcnt b' = b_refcnt b" "b_data b' = b_data b"
  using assms by (cases b; cases b'; simp add: core_def)+

definition list_frame :: "'a bcache_scheme \<Rightarrow> 'a bcache_scheme \<Rightarrow> bool" where
  "list_frame s s' \<longleftrightarrow> (\<forall>i. core (bufs s' i) = core (bufs s i)) \<and>
     s' = s\<lparr>bufs := bufs s', bhead_prev := bhead_prev s', bhead_next := bhead_next s'\<rparr>"

lemma list_frame_set: "list_frame s (set_next p q s)" "list_frame s (set_prev p q s)"
  by (cases p; simp add: list_frame_def set_next.simps core_def)
    (cases p; simp add: list_frame_def set_prev.simps core_def)

lemma list_frame_refl: "list_frame s s"
  by (simp add: list_frame_def)

lemma list_frame_trans: "list_frame s s' \<Longrightarrow> list_frame s' s'' \<Longrightarrow> list_frame s s''"
  unfolding list_frame_def by (cases s; cases s'; cases s'') simp

lemma list_frame_link_front: "list_frame s (link_front b s)"
  unfolding link_front_def Let_def
  by (meson list_frame_trans list_frame_set)

section \<open>Well-formed caches\<close>

text \<open>Block 0 (the boot block, never read) stands for a buffer that has not been used yet.\<close>

definition usable :: "u32 \<Rightarrow> bool" where
  "usable n \<longleftrightarrow> n \<noteq> 0 \<and> small_block n"

text \<open>
  A buffer that may be recycled holds what is on the medium; one that is in use, or has
  changes pending, holds a block.
\<close>

definition evictable :: "buf \<Rightarrow> bool" where
  "evictable b \<longleftrightarrow> b_refcnt b = 0 \<and> \<not> b_disk b"

definition buf_ok :: "(nat \<Rightarrow> u8) \<Rightarrow> buf \<Rightarrow> bool" where
  "buf_ok m b \<longleftrightarrow> length (b_data b) = BSIZE \<and> b_dev b = 0 \<and> small_block (b_blockno b) \<and>
     (if evictable b then b_valid b \<longrightarrow> b_data b = disk_block m (b_blockno b)
      else b_valid b \<and> b_blockno b \<noteq> 0)"

definition unique_blocks :: "(nat \<Rightarrow> buf) \<Rightarrow> bool" where
  "unique_blocks bf \<longleftrightarrow> (\<forall>i < NBUF. \<forall>j < NBUF.
     b_blockno (bf i) = b_blockno (bf j) \<longrightarrow> b_blockno (bf i) \<noteq> 0 \<longrightarrow> i = j)"

definition bc_ok :: "'a bcache_scheme \<Rightarrow> bool" where
  "bc_ok s \<longleftrightarrow> (\<exists>xs. lru s xs) \<and> vq_idle (vq s) \<and> (\<forall>i < NBUF. buf_ok (img s) (bufs s i)) \<and>
     unique_blocks (bufs s)"

section \<open>The abstract cache\<close>

record cache =
  content :: "u32 \<Rightarrow> u8 list"
  dirty :: "u32 \<Rightarrow> bool"
  refs :: "u32 \<Rightarrow> nat"
  medium :: "u32 \<Rightarrow> u8 list"
  writes :: "(u32 \<times> u8 list) list"

definition c_ref :: "u32 \<Rightarrow> cache \<Rightarrow> cache" where
  "c_ref n v = v\<lparr>refs := (refs v)(n := refs v n + 1)\<rparr>"

definition c_unref :: "u32 \<Rightarrow> cache \<Rightarrow> cache" where
  "c_unref n v = v\<lparr>refs := (refs v)(n := refs v n - 1)\<rparr>"

definition c_set :: "u32 \<Rightarrow> u8 list \<Rightarrow> cache \<Rightarrow> cache" where
  "c_set n d v = v\<lparr>content := (content v)(n := d)\<rparr>"

definition c_mark :: "u32 \<Rightarrow> bool \<Rightarrow> cache \<Rightarrow> cache" where
  "c_mark n d v = v\<lparr>dirty := (dirty v)(n := d)\<rparr>"

definition c_write :: "u32 \<Rightarrow> cache \<Rightarrow> cache" where
  "c_write n v = v\<lparr>dirty := (dirty v)(n := False), medium := (medium v)(n := content v n),
     writes := writes v @ [(n, content v n)]\<rparr>"

definition pinned :: "cache \<Rightarrow> u32 set" where
  "pinned v = {n. refs v n \<noteq> 0 \<or> dirty v n}"

text \<open>The cache a state stands for, from the buffer that holds a block.\<close>

definition holder :: "(nat \<Rightarrow> buf) \<Rightarrow> u32 \<Rightarrow> nat option" where
  "holder bf n = (if usable n then List.find (\<lambda>i. b_blockno (bf i) = n) [0..<NBUF] else None)"

definition medium_of :: "(nat \<Rightarrow> u8) \<Rightarrow> u32 \<Rightarrow> u8 list" where
  "medium_of m n = (if usable n then disk_block m n else [])"

definition bview :: "(nat \<Rightarrow> u8) \<Rightarrow> buf \<Rightarrow> u8 list \<times> bool \<times> nat" where
  "bview m b = (if b_valid b then b_data b else disk_block m (b_blockno b), b_disk b, unat (b_refcnt b))"

definition vw :: "(nat \<Rightarrow> u8) \<Rightarrow> (nat \<Rightarrow> buf) \<Rightarrow> u32 \<Rightarrow> u8 list \<times> bool \<times> nat" where
  "vw m bf n = (case holder bf n of None \<Rightarrow> (medium_of m n, False, 0) | Some i \<Rightarrow> bview m (bf i))"

definition cview :: "'a bcache_scheme \<Rightarrow> cache" where
  "cview s = \<lparr>content = (\<lambda>n. fst (vw (img s) (bufs s) n)), dirty = (\<lambda>n. fst (snd (vw (img s) (bufs s) n))),
     refs = (\<lambda>n. snd (snd (vw (img s) (bufs s) n))), medium = medium_of (img s),
     writes = map (\<lambda>(off, bs). (of_nat (off div 1024), bs)) (written s)\<rparr>"

text \<open>A handle: the buffer \<open>i\<close> is in use and holds block \<open>n\<close>.\<close>

definition holds :: "'a bcache_scheme \<Rightarrow> nat \<Rightarrow> u32 \<Rightarrow> bool" where
  "holds s i n \<longleftrightarrow> i < NBUF \<and> usable n \<and> b_blockno (bufs s i) = n \<and> b_refcnt (bufs s i) \<noteq> 0"

text \<open>Everything but the cache, the queue and the medium.\<close>

definition bc_frame :: "'a bcache_scheme \<Rightarrow> 'a bcache_scheme \<Rightarrow> bool" where
  "bc_frame s s' \<longleftrightarrow> s' = s\<lparr>bufs := bufs s', vq := vq s', img := img s', written := written s',
     bhead_prev := bhead_prev s', bhead_next := bhead_next s'\<rparr>"

lemma bc_frame_refl [simp]: "bc_frame s s"
  by (simp add: bc_frame_def)

lemma bc_frame_trans: "bc_frame s s' \<Longrightarrow> bc_frame s' s'' \<Longrightarrow> bc_frame s s''"
  unfolding bc_frame_def by (cases s; cases s'; cases s'') simp

lemma holder_Some:
  assumes "unique_blocks bf" and "usable n"
  shows "holder bf n = Some i \<longleftrightarrow> i < NBUF \<and> b_blockno (bf i) = n"
proof
  assume "holder bf n = Some i"
  then show "i < NBUF \<and> b_blockno (bf i) = n"
    using assms(2) by (auto simp: holder_def find_Some_iff)
next
  assume i: "i < NBUF \<and> b_blockno (bf i) = n"
  then have "holder bf n \<noteq> None" using assms(2) by (auto simp: holder_def find_None_iff)
  then obtain j where j: "holder bf n = Some j" by blast
  then have "j < NBUF \<and> b_blockno (bf j) = n" using assms(2) by (auto simp: holder_def find_Some_iff)
  then have "j = i" using assms i unfolding unique_blocks_def usable_def by metis
  with j show "holder bf n = Some i" by simp
qed

lemma holder_None: "usable n \<Longrightarrow> holder bf n = None \<longleftrightarrow> (\<forall>i < NBUF. b_blockno (bf i) \<noteq> n)"
  by (auto simp: holder_def find_None_iff)

lemma vw_held:
  "unique_blocks bf \<Longrightarrow> usable n \<Longrightarrow> i < NBUF \<Longrightarrow> b_blockno (bf i) = n \<Longrightarrow> vw m bf n = bview m (bf i)"
  using holder_Some [of bf n i] by (simp add: vw_def)

lemma vw_absent:
  "usable n \<Longrightarrow> (\<And>i. i < NBUF \<Longrightarrow> b_blockno (bf i) \<noteq> n) \<Longrightarrow> vw m bf n = (disk_block m n, False, 0)"
  using holder_None [of n bf] by (simp add: vw_def medium_of_def)

lemma vw_unusable: "\<not> usable n \<Longrightarrow> vw m bf n = ([], False, 0)"
  by (simp add: vw_def holder_def medium_of_def)

lemma bview_evictable:
  "buf_ok m b \<Longrightarrow> evictable b \<Longrightarrow> bview m b = (disk_block m (b_blockno b), False, 0)"
  by (auto simp: bview_def buf_ok_def evictable_def)

text \<open>Replacing one buffer: a new content for its block, or a recycled buffer for a new block.\<close>

lemma vw_update:
  assumes u: "unique_blocks bf" "unique_blocks (bf(i := b'))" and i: "i < NBUF"
    and old: "b_blockno b' = b_blockno (bf i) \<or> bview m (bf i) = (disk_block m (b_blockno (bf i)), False, 0)"
  shows "vw m (bf(i := b')) n = (if usable n \<and> n = b_blockno b' then bview m b' else vw m bf n)"
proof (cases "usable n")
  case False
  then show ?thesis by (simp add: vw_unusable)
next
  case us: True
  show ?thesis
  proof (cases "n = b_blockno b'")
    case True
    then show ?thesis using us vw_held [OF u(2) us i] by simp
  next
    case ne: False
    show ?thesis
    proof (cases "\<exists>j < NBUF. j \<noteq> i \<and> b_blockno (bf j) = n")
      case True
      then obtain j where j: "j < NBUF" "j \<noteq> i" "b_blockno (bf j) = n" by blast
      then show ?thesis
        using ne vw_held [OF u(1) us j(1,3), of m] vw_held [OF u(2) us j(1), of m] by simp
    next
      case no: False
      have new: "vw m (bf(i := b')) n = (disk_block m n, False, 0)"
        by (rule vw_absent [OF us]) (use no ne in auto)
      show ?thesis
      proof (cases "b_blockno (bf i) = n")
        case True
        then show ?thesis using new ne old vw_held [OF u(1) us i, of m] by auto
      next
        case False
        have "vw m bf n = (disk_block m n, False, 0)"
          by (rule vw_absent [OF us]) (use no False in auto)
        then show ?thesis using new ne by simp
      qed
    qed
  qed
qed

text \<open>Replacing a buffer by one that satisfies its condition keeps the cache well formed.\<close>

lemma lru_upd_buf:
  assumes "\<And>b. b_prev (f b) = b_prev b \<and> b_next (f b) = b_next b"
  shows "lru (upd_buf i f s) xs = lru s xs"
proof -
  have "next_of (upd_buf i f s) p = next_of s p" "prev_of (upd_buf i f s) p = prev_of s p" for p
    using assms by (cases p; simp add: upd_buf_def next_of.simps prev_of.simps)+
  then show ?thesis by (simp add: lru_def linked_def)
qed

lemma lru_bufs:
  assumes "b_prev b' = b_prev (bufs s i)" and "b_next b' = b_next (bufs s i)"
    and "bufs s' = (bufs s)(i := b')" and "bhead_prev s' = bhead_prev s" and "bhead_next s' = bhead_next s"
  shows "lru s' xs = lru s xs"
proof -
  have "next_of s' p = next_of s p" "prev_of s' p = prev_of s p" for p
    using assms by (cases p; simp add: next_of.simps prev_of.simps)+
  then show ?thesis by (simp add: lru_def linked_def)
qed

lemma bc_ok_update:
  assumes ok: "bc_ok s" and s': "bufs s' = (bufs s)(i := b')" "img s' = img s" "vq_idle (vq s')"
    "bhead_prev s' = bhead_prev s" "bhead_next s' = bhead_next s"
    and b': "b_prev b' = b_prev (bufs s i)" "b_next b' = b_next (bufs s i)" "buf_ok (img s) b'"
    and u: "unique_blocks ((bufs s)(i := b'))"
  shows "bc_ok s'"
  using assms lru_bufs [OF b'(1,2) s'(1,4,5)] by (auto simp: bc_ok_def)

lemma unique_same_block:
  "unique_blocks bf \<Longrightarrow> b_blockno b' = b_blockno (bf i) \<Longrightarrow> unique_blocks (bf(i := b'))"
  unfolding unique_blocks_def by (metis fun_upd_apply)

lemma unique_new_block:
  "unique_blocks bf \<Longrightarrow> (\<And>j. j < NBUF \<Longrightarrow> b_blockno (bf j) \<noteq> b_blockno b') \<Longrightarrow> unique_blocks (bf(i := b'))"
  unfolding unique_blocks_def by (metis fun_upd_apply)

text \<open>The view after one buffer changed, by the fields of its new value.\<close>

lemma cview_update:
  assumes ok: "bc_ok s" and i: "i < NBUF" and s': "bufs s' = (bufs s)(i := b')" "img s' = img s"
    "written s' = written s" and u: "unique_blocks ((bufs s)(i := b'))"
    and old: "b_blockno b' = b_blockno (bufs s i) \<or> evictable (bufs s i)" and us: "usable (b_blockno b')"
  shows "cview s' = (cview s)
    \<lparr>content := (content (cview s))(b_blockno b' := fst (bview (img s) b')),
     dirty := (dirty (cview s))(b_blockno b' := b_disk b'),
     refs := (refs (cview s))(b_blockno b' := unat (b_refcnt b'))\<rparr>"
proof -
  have uq: "unique_blocks (bufs s)" and bo: "buf_ok (img s) (bufs s i)" using ok i by (simp_all add: bc_ok_def)
  have old': "b_blockno b' = b_blockno (bufs s i) \<or>
      bview (img s) (bufs s i) = (disk_block (img s) (b_blockno (bufs s i)), False, 0)"
    using old bview_evictable [OF bo] by blast
  show ?thesis
    unfolding cview_def s'
    by (simp add: vw_update [OF uq u i old'] us fun_eq_iff) (simp add: bview_def)
qed

lemma holdsD:
  assumes "bc_ok s" and "holds s i n"
  shows "i < NBUF" "usable n" "b_blockno (bufs s i) = n" "b_refcnt (bufs s i) \<noteq> 0" "b_valid (bufs s i)"
    "buf_ok (img s) (bufs s i)" "unique_blocks (bufs s)" "length (b_data (bufs s i)) = BSIZE"
    "content (cview s) n = b_data (bufs s i)" "dirty (cview s) n = b_disk (bufs s i)"
    "refs (cview s) n = unat (b_refcnt (bufs s i))"
proof -
  show P: "i < NBUF" "usable n" "b_blockno (bufs s i) = n" "b_refcnt (bufs s i) \<noteq> 0"
    "buf_ok (img s) (bufs s i)" "unique_blocks (bufs s)"
    using assms by (auto simp: holds_def bc_ok_def)
  then show v: "b_valid (bufs s i)" and "length (b_data (bufs s i)) = BSIZE"
    by (auto simp: buf_ok_def evictable_def)
  have "vw (img s) (bufs s) n = bview (img s) (bufs s i)" using vw_held P by metis
  then show "content (cview s) n = b_data (bufs s i)" "dirty (cview s) n = b_disk (bufs s i)"
    "refs (cview s) n = unat (b_refcnt (bufs s i))"
    using v by (simp_all add: cview_def bview_def)
qed

section \<open>Each operation implements its abstract one\<close>

lemma evictable_exists:
  assumes ok: "bc_ok s" and room: "card (pinned (cview s)) < NBUF"
  shows "\<exists>i < NBUF. evictable (bufs s i)"
proof (rule ccontr)
  assume "\<not> ?thesis"
  then have ne: "\<not> evictable (bufs s i)" if "i < NBUF" for i using that by blast
  have bo: "buf_ok (img s) (bufs s i)" if "i < NBUF" for i using ok that by (simp add: bc_ok_def)
  have uq: "unique_blocks (bufs s)" using ok by (simp add: bc_ok_def)
  have us: "usable (b_blockno (bufs s i))" if "i < NBUF" for i
    using bo [OF that] ne [OF that] by (simp add: buf_ok_def usable_def)
  have inj: "inj_on (\<lambda>i. b_blockno (bufs s i)) {..<NBUF}"
    using uq us unfolding unique_blocks_def usable_def inj_on_def by auto
  have "b_blockno (bufs s i) \<in> pinned (cview s)" if i: "i < NBUF" for i
    using vw_held [OF uq us [OF i] i refl, of "img s"] ne [OF i]
    by (auto simp: pinned_def cview_def bview_def evictable_def unsigned_eq_0_iff simp flip: neq0_conv)
  then have "(\<lambda>i. b_blockno (bufs s i)) ` {..<NBUF} \<subseteq> pinned (cview s)" by auto
  then have "card ((\<lambda>i. b_blockno (bufs s i)) ` {..<NBUF}) \<le> card (pinned (cview s))"
    by (rule card_mono [rotated]) simp
  then show False using room card_image [OF inj] by simp
qed

lemma bread_fill:
  assumes "virtio_blk hw" and "vq_idle (vq s)"
  shows "\<exists>q. vq_idle q \<and>
    bnd (virtio_disk_rw hw i False (s\<lparr>bufs := (bufs s)(i := b)\<rparr>)) (\<lambda>_ s.
      ret i (upd_buf i (\<lambda>x. x\<lparr>b_valid := True, b_disk := False\<rparr>) s)) =
    Inr (i, s\<lparr>vq := q, bufs := (bufs s)(i := b\<lparr>b_data := disk_block (img s) (b_blockno b),
      b_valid := True, b_disk := False\<rparr>)\<rparr>)"
proof -
  have "vq_idle (vq (s\<lparr>bufs := (bufs s)(i := b)\<rparr>))" using assms(2) by simp
  from virtio_disk_rw_spec [OF assms(1) this, of i False] show ?thesis
    by (auto simp: upd_buf_def ret_def)
qed

text \<open>The state after a buffer has been taken for block \<open>n\<close>.\<close>

lemma taken:
  assumes ok: "bc_ok s" and us: "usable n" and i: "i < NBUF"
    and u: "unique_blocks ((bufs s)(i := b'))"
    and s': "s' = s\<lparr>vq := q, bufs := (bufs s)(i := b')\<rparr>" and q: "vq_idle q"
    and b': "b_prev b' = b_prev (bufs s i)" "b_next b' = b_next (bufs s i)" "buf_ok (img s) b'"
      "b_blockno b' = n" "unat (b_refcnt b') = refs (cview s) n + 1" "b_valid b'"
    and view: "b_data b' = content (cview s) n" "b_disk b' = dirty (cview s) n"
    and old: "n = b_blockno (bufs s i) \<or> evictable (bufs s i)"
  shows "bc_ok s'" "holds s' i n" "cview s' = c_ref n (cview s)" "bc_frame s s'"
    "holds s j m \<Longrightarrow> holds s' j m"
proof -
  show "bc_ok s'"
    by (rule bc_ok_update [where i = i and b' = b', OF ok]) (use s' q b' u in simp_all)
  have nz: "b_refcnt b' \<noteq> 0" using b'(5) by (metis Suc_eq_plus1 nat.distinct(1) unat_0)
  then show "holds s' i n" using i us b' by (simp add: holds_def s')
  have old': "b_blockno b' = b_blockno (bufs s i) \<or> evictable (bufs s i)" using old b'(4) by simp
  have us': "usable (b_blockno b')" using us b'(4) by simp
  have "cview s' = (cview s)
    \<lparr>content := (content (cview s))(b_blockno b' := fst (bview (img s) b')),
     dirty := (dirty (cview s))(b_blockno b' := b_disk b'),
     refs := (refs (cview s))(b_blockno b' := unat (b_refcnt b'))\<rparr>"
    by (rule cview_update [OF ok i _ _ _ u old' us']) (simp_all add: s')
  also have "\<dots> = c_ref n (cview s)"
    using view b' by (simp add: c_ref_def bview_def)
  finally show "cview s' = c_ref n (cview s)" .
  show "bc_frame s s'" by (simp add: bc_frame_def s')
  show "holds s' j m" if h: "holds s j m"
  proof (cases "j = i")
    case True
    then have "\<not> evictable (bufs s i)" using h by (auto simp: holds_def evictable_def)
    then have "n = m" using old h True by (auto simp: holds_def)
    then show ?thesis using True \<open>holds s' i n\<close> by simp
  next
    case False
    then show ?thesis using h by (simp add: holds_def s')
  qed
qed

lemma taken_all:
  assumes "bc_ok s" and "usable n" and "i < NBUF" and "unique_blocks ((bufs s)(i := b'))" and "vq_idle q"
    and "b_prev b' = b_prev (bufs s i)" and "b_next b' = b_next (bufs s i)" and "buf_ok (img s) b'"
    and "b_blockno b' = n" and "unat (b_refcnt b') = refs (cview s) n + 1" and "b_valid b'"
    and "b_data b' = content (cview s) n" and "b_disk b' = dirty (cview s) n"
    and "n = b_blockno (bufs s i) \<or> evictable (bufs s i)"
    and "r = Inr (i, s\<lparr>vq := q, bufs := (bufs s)(i := b')\<rparr>)"
  shows "\<exists>i s'. r = Inr (i, s') \<and> bc_ok s' \<and> holds s' i n \<and> cview s' = c_ref n (cview s) \<and>
    bc_frame s s' \<and> (\<forall>j m. holds s j m \<longrightarrow> holds s' j m)"
  using taken [OF assms(1-4) refl assms(5-14)] assms(15) by blast

lemma find_unique:
  assumes "i \<in> set xs" and "P i" and "\<And>j. j \<in> set xs \<Longrightarrow> P j \<Longrightarrow> j = i"
  shows "List.find P xs = Some i"
proof -
  have "List.find P xs \<noteq> None" using assms(1,2) by (auto simp: find_None_iff)
  then obtain j where "List.find P xs = Some j" by blast
  then show ?thesis using assms(3) by (metis find_Some_iff nth_mem)
qed

lemma bget_hit:
  assumes ok: "bc_ok s" and us: "usable n" and i: "i < NBUF" "b_blockno (bufs s i) = n"
  shows "bget 0 n s = Inr (i, s\<lparr>bufs := (bufs s)(i := (bufs s i)\<lparr>b_refcnt := b_refcnt (bufs s i) + 1\<rparr>)\<rparr>)"
proof -
  obtain xs where xs: "lru s xs" using ok by (auto simp: bc_ok_def)
  have bo: "\<forall>j < NBUF. b_dev (bufs s j) = 0" and uq: "unique_blocks (bufs s)"
    using ok by (simp_all add: bc_ok_def buf_ok_def)
  let ?P = "\<lambda>j. b_dev (bufs s j) = 0 \<and> b_blockno (bufs s j) = n"
  have "List.find ?P xs = Some i"
  proof (rule find_unique)
    show "i \<in> set xs" and "?P i" using xs i bo by (simp_all add: lru_def)
    show "j = i" if "j \<in> set xs" "?P j" for j
      using that uq us i xs unfolding unique_blocks_def usable_def lru_def by auto
  qed
  then have "bscan (next_of s) ?P (bhead_next s) = Some (Some i)"
    using bscan_next [of s Head xs ?P] xs by (simp add: lru_def next_of.simps)
  then show ?thesis by (simp add: bget_def upd_buf_def ret_def)
qed

lemma bget_recycle:
  assumes ok: "bc_ok s" and room: "\<exists>i < NBUF. evictable (bufs s i)"
    and no: "\<And>i. i < NBUF \<Longrightarrow> b_blockno (bufs s i) \<noteq> n"
  shows "\<exists>i < NBUF. evictable (bufs s i) \<and> bget 0 n s = Inr (i, s\<lparr>bufs := (bufs s)(i := (bufs s i)
    \<lparr>b_dev := 0, b_blockno := n, b_valid := False, b_refcnt := 1\<rparr>)\<rparr>)"
proof -
  obtain xs where xs: "lru s xs" using ok by (auto simp: bc_ok_def)
  then have set: "set xs = {..<NBUF}" and l: "linked s (links Head xs Head)" by (simp_all add: lru_def)
  let ?P = "\<lambda>j. b_dev (bufs s j) = 0 \<and> b_blockno (bufs s j) = n"
  let ?E = "\<lambda>j. b_refcnt (bufs s j) = 0 \<and> \<not> b_disk (bufs s j)"
  have "List.find ?P xs = None" using no set by (auto simp: find_None_iff)
  then have f1: "bscan (next_of s) ?P (bhead_next s) = Some None"
    using bscan_next [OF l, of ?P] by (simp add: next_of.simps)
  have "List.find ?E (rev xs) \<noteq> None" using room set by (auto simp: find_None_iff evictable_def)
  then obtain i where i: "List.find ?E (rev xs) = Some i" by blast
  then have "i \<in> set (rev xs)" and "?E i" by (metis (mono_tags, lifting) find_Some_iff nth_mem)+
  moreover have "bscan (prev_of s) ?E (bhead_prev s) = Some (Some i)"
    using bscan_prev [OF l, of ?E] i by (simp add: prev_of.simps)
  ultimately show ?thesis
    using f1 set by (intro exI [of _ i]) (simp add: bget_def upd_buf_def ret_def evictable_def)
qed

lemma bread_spec:
  assumes hw: "virtio_blk hw" and ok: "bc_ok s" and us: "usable n"
    and room: "n \<in> pinned (cview s) \<or> card (pinned (cview s)) < NBUF"
    and ov: "refs (cview s) n + 1 < 2 ^ 32"
  shows "\<exists>i s'. bread hw 0 n s = Inr (i, s') \<and> bc_ok s' \<and> holds s' i n \<and> cview s' = c_ref n (cview s) \<and>
    bc_frame s s' \<and> (\<forall>j m. holds s j m \<longrightarrow> holds s' j m)"
proof -
  have uq: "unique_blocks (bufs s)" and q0: "vq_idle (vq s)" using ok by (simp_all add: bc_ok_def)
  have bo: "buf_ok (img s) (bufs s i)" if "i < NBUF" for i using ok that by (simp add: bc_ok_def)
  show ?thesis
  proof (cases "\<exists>i < NBUF. b_blockno (bufs s i) = n")
    case True
    then obtain i where i: "i < NBUF" "b_blockno (bufs s i) = n" by blast
    let ?b = "(bufs s i)\<lparr>b_refcnt := b_refcnt (bufs s i) + 1\<rparr>"
    have v: "vw (img s) (bufs s) n = bview (img s) (bufs s i)" by (rule vw_held [OF uq us i])
    then have r: "unat (b_refcnt (bufs s i)) = refs (cview s) n" by (simp add: cview_def bview_def)
    then have r1: "unat (b_refcnt (bufs s i) + 1) = refs (cview s) n + 1"
      using ov by (subst unat_plus_small) simp_all
    then have nz: "b_refcnt (bufs s i) + 1 \<noteq> 0" by (metis Suc_eq_plus1 nat.distinct(1) unat_0)
    have get: "bget 0 n s = Inr (i, s\<lparr>bufs := (bufs s)(i := ?b)\<rparr>)" by (rule bget_hit [OF ok us i])
    show ?thesis
    proof (cases "b_valid (bufs s i)")
      case True
      show ?thesis
        by (rule taken_all [OF ok us i(1) unique_same_block [OF uq] q0, where b' = ?b])
          (use True i bo [OF i(1)] v r1 nz us in \<open>simp_all add: bread_def get ret_def buf_ok_def
              evictable_def cview_def bview_def usable_def\<close>)
    next
      case False
      let ?c = "?b\<lparr>b_data := disk_block (img s) n, b_valid := True, b_disk := False\<rparr>"
      have ev: "evictable (bufs s i)" using False bo [OF i(1)] by (auto simp: buf_ok_def split: if_splits)
      from bread_fill [OF hw q0, of i ?b] i(2) obtain q where q: "vq_idle q"
        and fill: "bnd (virtio_disk_rw hw i False (s\<lparr>bufs := (bufs s)(i := ?b)\<rparr>)) (\<lambda>_ s.
          ret i (upd_buf i (\<lambda>x. x\<lparr>b_valid := True, b_disk := False\<rparr>) s)) =
          Inr (i, s\<lparr>vq := q, bufs := (bufs s)(i := ?c)\<rparr>)" by auto
      have nd: "\<not> b_disk (bufs s i)" using ev by (simp add: evictable_def)
      show ?thesis
        by (rule taken_all [OF ok us i(1) unique_same_block [OF uq] q, where b' = ?c])
          (use False i bo [OF i(1)] v r1 nz us ev fill nd in \<open>simp_all add: bread_def get buf_ok_def
              evictable_def cview_def bview_def usable_def\<close>)
    qed
  next
    case False
    then have no: "\<And>i. i < NBUF \<Longrightarrow> b_blockno (bufs s i) \<noteq> n" by blast
    have v: "vw (img s) (bufs s) n = (disk_block (img s) n, False, 0)" by (rule vw_absent [OF us no])
    then have "n \<notin> pinned (cview s)" by (simp add: pinned_def cview_def)
    then have "\<exists>i < NBUF. evictable (bufs s i)" using room evictable_exists [OF ok] by blast
    from bget_recycle [OF ok this no] obtain i where i: "i < NBUF" and ev: "evictable (bufs s i)"
      and get: "bget 0 n s = Inr (i, s\<lparr>bufs := (bufs s)(i := (bufs s i)
        \<lparr>b_dev := 0, b_blockno := n, b_valid := False, b_refcnt := 1\<rparr>)\<rparr>)" by blast
    let ?b = "(bufs s i)\<lparr>b_dev := 0, b_blockno := n, b_valid := False, b_refcnt := 1\<rparr>"
    let ?c = "?b\<lparr>b_data := disk_block (img s) n, b_valid := True, b_disk := False\<rparr>"
    from bread_fill [OF hw q0, of i ?b] obtain q where q: "vq_idle q"
      and fill: "bnd (virtio_disk_rw hw i False (s\<lparr>bufs := (bufs s)(i := ?b)\<rparr>)) (\<lambda>_ s.
        ret i (upd_buf i (\<lambda>x. x\<lparr>b_valid := True, b_disk := False\<rparr>) s)) =
        Inr (i, s\<lparr>vq := q, bufs := (bufs s)(i := ?c)\<rparr>)" by auto
    have u: "unique_blocks ((bufs s)(i := ?c))" by (rule unique_new_block [OF uq]) (simp add: no)
    have sb: "small_block n" "n \<noteq> 0" using us by (simp_all add: usable_def)
    have len: "length (disk_block (img s) n) = BSIZE" by simp
    show ?thesis
      by (rule taken_all [OF ok us i u q])
        (use sb v ev fill in \<open>simp_all add: bread_def get buf_ok_def evictable_def cview_def\<close>)
  qed
qed

text \<open>A change of a buffer in use: its data, its dirty mark, its reference count.\<close>

lemma upd_held:
  assumes ok: "bc_ok s" and h: "holds s i n"
    and f: "\<And>b. b_prev (f b) = b_prev b" "\<And>b. b_next (f b) = b_next b"
      "b_blockno (f (bufs s i)) = n" "buf_ok (img s) (f (bufs s i))"
  shows "bc_ok (upd_buf i f s)"
    and "cview (upd_buf i f s) = (cview s)
      \<lparr>content := (content (cview s))(n := fst (bview (img s) (f (bufs s i)))),
       dirty := (dirty (cview s))(n := b_disk (f (bufs s i))),
       refs := (refs (cview s))(n := unat (b_refcnt (f (bufs s i))))\<rparr>"
    and "bc_frame s (upd_buf i f s)"
    and "holds (upd_buf i f s) j m \<longleftrightarrow>
      (if j = i then b_refcnt (f (bufs s i)) \<noteq> 0 \<and> m = n else holds s j m)"
proof -
  note H = holdsD [OF ok h]
  let ?b = "f (bufs s i)"
  have u: "unique_blocks ((bufs s)(i := ?b))"
    by (rule unique_same_block [OF H(7)]) (simp add: f H(3))
  show "bc_ok (upd_buf i f s)"
    by (rule bc_ok_update [where i = i and b' = ?b, OF ok])
      (use f u ok in \<open>simp_all add: upd_buf_def bc_ok_def\<close>)
  have old: "b_blockno ?b = b_blockno (bufs s i) \<or> evictable (bufs s i)"
    and us: "usable (b_blockno ?b)" using H f by simp_all
  have "cview (upd_buf i f s) = (cview s)
    \<lparr>content := (content (cview s))(b_blockno ?b := fst (bview (img s) ?b)),
     dirty := (dirty (cview s))(b_blockno ?b := b_disk ?b),
     refs := (refs (cview s))(b_blockno ?b := unat (b_refcnt ?b))\<rparr>"
    by (rule cview_update [OF ok H(1) _ _ _ u old us]) (simp_all add: upd_buf_def)
  then show "cview (upd_buf i f s) = (cview s)
      \<lparr>content := (content (cview s))(n := fst (bview (img s) (f (bufs s i)))),
       dirty := (dirty (cview s))(n := b_disk (f (bufs s i))),
       refs := (refs (cview s))(n := unat (b_refcnt (f (bufs s i))))\<rparr>" by (simp add: f)
  show "bc_frame s (upd_buf i f s)" by (simp add: bc_frame_def upd_buf_def)
  show "holds (upd_buf i f s) j m \<longleftrightarrow>
      (if j = i then b_refcnt (f (bufs s i)) \<noteq> 0 \<and> m = n else holds s j m)"
    using H f by (auto simp: holds_def upd_buf_def)
qed

lemma fun_upd_idle: "f x = y \<Longrightarrow> f(x := y) = f"
  by auto

lemma set_data_spec:
  assumes ok: "bc_ok s" and h: "holds s i n" and d: "length d = BSIZE"
  shows "bc_ok (upd_buf i (\<lambda>b. b\<lparr>b_data := d\<rparr>) s)"
    and "cview (upd_buf i (\<lambda>b. b\<lparr>b_data := d\<rparr>) s) = c_set n d (cview s)"
    and "bc_frame s (upd_buf i (\<lambda>b. b\<lparr>b_data := d\<rparr>) s)"
    and "holds (upd_buf i (\<lambda>b. b\<lparr>b_data := d\<rparr>) s) j m \<longleftrightarrow> holds s j m"
proof -
  note H = holdsD [OF ok h]
  have "buf_ok (img s) ((bufs s i)\<lparr>b_data := d\<rparr>)"
    using H(4,6) d by (simp add: buf_ok_def evictable_def)
  note U = upd_held [OF ok h, where f = "\<lambda>b. b\<lparr>b_data := d\<rparr>", simplified, OF H(3) this]
  show "bc_ok (upd_buf i (\<lambda>b. b\<lparr>b_data := d\<rparr>) s)" by (rule U(1))
  show "cview (upd_buf i (\<lambda>b. b\<lparr>b_data := d\<rparr>) s) = c_set n d (cview s)"
    unfolding U(2) using H by (simp add: c_set_def bview_def fun_upd_idle)
  show "bc_frame s (upd_buf i (\<lambda>b. b\<lparr>b_data := d\<rparr>) s)" by (rule U(3))
  show "holds (upd_buf i (\<lambda>b. b\<lparr>b_data := d\<rparr>) s) j m \<longleftrightarrow> holds s j m"
    unfolding U(4) using H(4) h H(3) by (auto simp: holds_def)
qed

lemma mark_spec:
  assumes ok: "bc_ok s" and h: "holds s i n"
  shows "bc_ok (upd_buf i (\<lambda>b. b\<lparr>b_disk := d\<rparr>) s)"
    and "cview (upd_buf i (\<lambda>b. b\<lparr>b_disk := d\<rparr>) s) = c_mark n d (cview s)"
    and "bc_frame s (upd_buf i (\<lambda>b. b\<lparr>b_disk := d\<rparr>) s)"
    and "holds (upd_buf i (\<lambda>b. b\<lparr>b_disk := d\<rparr>) s) j m \<longleftrightarrow> holds s j m"
proof -
  note H = holdsD [OF ok h]
  have "buf_ok (img s) ((bufs s i)\<lparr>b_disk := d\<rparr>)"
    using H(4,6) by (simp add: buf_ok_def evictable_def)
  note U = upd_held [OF ok h, where f = "\<lambda>b. b\<lparr>b_disk := d\<rparr>", simplified, OF H(3) this]
  show "bc_ok (upd_buf i (\<lambda>b. b\<lparr>b_disk := d\<rparr>) s)" by (rule U(1))
  show "cview (upd_buf i (\<lambda>b. b\<lparr>b_disk := d\<rparr>) s) = c_mark n d (cview s)"
    unfolding U(2) using H by (simp add: c_mark_def bview_def fun_upd_idle)
  show "bc_frame s (upd_buf i (\<lambda>b. b\<lparr>b_disk := d\<rparr>) s)" by (rule U(3))
  show "holds (upd_buf i (\<lambda>b. b\<lparr>b_disk := d\<rparr>) s) j m \<longleftrightarrow> holds s j m"
    unfolding U(4) using H(4) h H(3) by (auto simp: holds_def)
qed

lemma list_frame_view:
  assumes F: "list_frame s s'"
  shows "cview s' = cview s" and "holds s' = holds s" and "bc_frame s s'"
    and "bc_ok s \<Longrightarrow> lru s' xs \<Longrightarrow> bc_ok s'"
proof -
  note c = coreD [OF F [unfolded list_frame_def, THEN conjunct1, THEN spec]]
  have r: "s' = s\<lparr>bufs := bufs s', bhead_prev := bhead_prev s', bhead_next := bhead_next s'\<rparr>"
    using F by (simp add: list_frame_def)
  have f: "img s' = img s" "written s' = written s" "vq s' = vq s" by (subst r, simp)+
  have "holder (bufs s') = holder (bufs s)" by (simp add: holder_def c fun_eq_iff)
  then have "vw (img s') (bufs s') = vw (img s) (bufs s)"
    by (simp add: vw_def bview_def c f fun_eq_iff split: option.split)
  then show "cview s' = cview s" by (simp add: cview_def f)
  show "holds s' = holds s" by (simp add: holds_def c fun_eq_iff)
  show "bc_frame s s'" using r unfolding bc_frame_def by (cases s; cases s') simp
  show "bc_ok s \<Longrightarrow> lru s' xs \<Longrightarrow> bc_ok s'"
    by (auto simp: bc_ok_def f c buf_ok_def evictable_def unique_blocks_def)
qed

lemma brelse_list:
  assumes "lru s xs" and "b < NBUF"
  shows "\<exists>xs' s'. link_front b (set_next (b_prev (bufs (set_prev (b_next (bufs s b)) (b_prev (bufs s b)) s) b))
        (b_next (bufs (set_prev (b_next (bufs s b)) (b_prev (bufs s b)) s) b))
        (set_prev (b_next (bufs s b)) (b_prev (bufs s b)) s)) = s' \<and> lru s' xs' \<and> list_frame s s'"
proof -
  obtain as bs where xs: "xs = as @ b # bs" by (rule lru_split [OF assms])
  then have l: "linked s (links Head (as @ b # bs) Head)" and d: "distinct (as @ b # bs)"
    using assms(1) by (simp_all add: lru_def)
  have "next_of s (B b) = hd (map B bs @ [Head])"
    using l by (cases bs) (simp_all add: links_append)
  then have ne: "B b \<noteq> next_of s (B b)" using d by (cases bs) auto
  let ?s = "set_prev (next_of s (B b)) (prev_of s (B b)) s"
  have p: "prev_of ?s (B b) = prev_of s (B b)" "next_of ?s (B b) = next_of s (B b)"
    using ne by (simp_all add: list_simps)
  have "lru (link_front b (set_next (prev_of ?s (B b)) (next_of ?s (B b)) ?s)) (b # as @ bs)"
    unfolding p by (rule lru_move_front [OF assms(1) [unfolded xs]])
  moreover have "list_frame s (link_front b (set_next (prev_of ?s (B b)) (next_of ?s (B b)) ?s))"
    by (meson list_frame_trans list_frame_set list_frame_link_front)
  ultimately show ?thesis by (auto simp: next_of.simps prev_of.simps)
qed

lemma brelse_spec:
  assumes ok: "bc_ok s" and h: "holds s i n"
    and clean: "refs (cview s) n = 1 \<Longrightarrow> \<not> dirty (cview s) n \<Longrightarrow> content (cview s) n = medium (cview s) n"
  shows "\<exists>s'. brelse i s = Inr ((), s') \<and> bc_ok s' \<and> cview s' = c_unref n (cview s) \<and> bc_frame s s' \<and>
    (\<forall>j m. holds s' j m \<longleftrightarrow> holds s j m \<and> (m \<noteq> n \<or> refs (cview s) n \<noteq> 1))"
proof -
  note H = holdsD [OF ok h]
  let ?f = "\<lambda>x. x\<lparr>b_refcnt := b_refcnt x - 1\<rparr>"
  let ?s = "upd_buf i ?f s"
  have nz: "unat (b_refcnt (bufs s i)) \<noteq> 0" using H(4) unsigned_eq_0_iff by blast
  have r: "unat (b_refcnt (bufs s i) - 1) = refs (cview s) n - 1"
    unfolding H(11) by (rule unat_minus_one [OF H(4)])
  have r0: "b_refcnt (bufs s i) - 1 = 0 \<longleftrightarrow> refs (cview s) n = 1"
  proof -
    have "b_refcnt (bufs s i) - 1 = 0 \<longleftrightarrow> unat (b_refcnt (bufs s i) - 1) = 0"
      by (simp only: unsigned_eq_0_iff)
    then show ?thesis unfolding r using nz H(11) by linarith
  qed
  have m: "medium (cview s) n = disk_block (img s) n" using H(2) by (simp add: cview_def medium_of_def)
  have b': "buf_ok (img s) (?f (bufs s i))"
    using H(3,4,5,6,9,10) clean r0 m by (auto simp: buf_ok_def evictable_def split: if_splits)
  note U = upd_held [OF ok h, where f = ?f, simplified, OF H(3) b' [simplified]]
  have ok1: "bc_ok ?s" by (rule U(1))
  have v1: "cview ?s = c_unref n (cview s)"
    unfolding U(2) using H by (simp add: c_unref_def bview_def fun_upd_idle r)
  have h1: "holds ?s j k \<longleftrightarrow> holds s j k \<and> (k \<noteq> n \<or> refs (cview s) n \<noteq> 1)" for j k
  proof (cases "j = i")
    case True
    then show ?thesis unfolding U(4) using r0 h H(3) by (auto simp: holds_def)
  next
    case False
    have "k \<noteq> n" if "holds s j k"
      using that h H(7) False unfolding holds_def unique_blocks_def usable_def by metis
    then show ?thesis unfolding U(4) using False by auto
  qed
  show ?thesis
  proof (cases "b_refcnt (bufs ?s i) = 0")
    case False
    then have "brelse i s = Inr ((), ?s)" by (simp add: brelse_def Let_def ret_def)
    then show ?thesis using ok1 v1 U(3) h1 by blast
  next
    case True
    obtain xs where "lru ?s xs" using ok1 by (auto simp: bc_ok_def)
    from brelse_list [OF this H(1)] obtain xs' s' where
      s': "link_front i (set_next (b_prev (bufs (set_prev (b_next (bufs ?s i)) (b_prev (bufs ?s i)) ?s) i))
        (b_next (bufs (set_prev (b_next (bufs ?s i)) (b_prev (bufs ?s i)) ?s) i))
        (set_prev (b_next (bufs ?s i)) (b_prev (bufs ?s i)) ?s)) = s'" and l: "lru s' xs'"
      and F: "list_frame ?s s'" by blast
    have "brelse i s = Inr ((), s')" using True by (simp add: brelse_def Let_def ret_def s')
    moreover have "cview s' = c_unref n (cview s)" using list_frame_view(1) [OF F] v1 by simp
    moreover have "bc_ok s'" by (rule list_frame_view(4) [OF F ok1 l])
    moreover have "bc_frame s s'" by (rule bc_frame_trans [OF U(3) list_frame_view(3) [OF F]])
    moreover have "\<forall>j m. holds s' j m \<longleftrightarrow> holds s j m \<and> (m \<noteq> n \<or> refs (cview s) n \<noteq> 1)"
      using h1 by (simp add: list_frame_view(2) [OF F])
    ultimately show ?thesis by blast
  qed
qed

lemma bwrite_spec:
  assumes hw: "virtio_blk hw" and ok: "bc_ok s" and h: "holds s i n"
  shows "\<exists>s'. bwrite hw i s = Inr ((), s') \<and> bc_ok s' \<and> cview s' = c_write n (cview s) \<and> bc_frame s s' \<and>
    holds s' = holds s"
proof -
  note H = holdsD [OF ok h]
  have sb: "small_block n" and n0: "n \<noteq> 0" using H(2) by (simp_all add: usable_def)
  have off: "512 * unat (ucast (n * 2) :: u64) = 1024 * unat n" by (rule block_offset [OF sb])
  have idle: "vq_idle (vq s)" using ok by (simp add: bc_ok_def)
  let ?m = "block_write n (b_data (bufs s i)) (img s)"
  let ?b = "(bufs s i)\<lparr>b_disk := False\<rparr>"
  from virtio_disk_rw_spec [OF hw idle, of i True] H(3) obtain q where q: "vq_idle q"
    and w: "bwrite hw i s = Inr ((), s\<lparr>img := ?m, written := written s @ [(1024 * unat n, b_data (bufs s i))],
      bufs := (bufs s)(i := ?b), vq := q\<rparr>)"
    by (auto simp: bwrite_def off)
  let ?s = "s\<lparr>img := ?m, written := written s @ [(1024 * unat n, b_data (bufs s i))],
      bufs := (bufs s)(i := ?b), vq := q\<rparr>"
  have d_same: "disk_block ?m n = b_data (bufs s i)" by (rule disk_block_write_same [OF H(8)])
  have d_other: "disk_block ?m k = disk_block (img s) k" if "k \<noteq> n" "small_block k" for k
    by (rule disk_block_write_other [OF H(8) sb that(2)]) (use that in blast)
  have bo: "buf_ok (img s) (bufs s j)" if "j < NBUF" for j using ok that by (simp add: bc_ok_def)
  have ne: "b_blockno (bufs s j) \<noteq> n" if "j < NBUF" "j \<noteq> i" for j
    using H(1,3,7) n0 that unfolding unique_blocks_def by metis
  have "buf_ok ?m ((bufs ?s) j)" if j: "j < NBUF" for j
  proof (cases "j = i")
    case True
    then show ?thesis using H(4,6) by (simp add: buf_ok_def evictable_def)
  next
    case False
    then show ?thesis using bo [OF j] d_other [OF ne [OF j False]] by (simp add: buf_ok_def)
  qed
  moreover have "lru ?s xs = lru s xs" for xs
    by (rule lru_bufs [where i = i and b' = ?b]) simp_all
  moreover have u: "unique_blocks ((bufs s)(i := ?b))" by (rule unique_same_block [OF H(7)]) simp
  ultimately have "bc_ok ?s" using ok q by (simp add: bc_ok_def)
  moreover have "vw ?m ((bufs s)(i := ?b)) k =
      (if k = n then (b_data (bufs s i), False, unat (b_refcnt (bufs s i))) else vw (img s) (bufs s) k)" for k
  proof (cases "usable k")
    case False
    then show ?thesis using H(2) by (auto simp: vw_unusable)
  next
    case us: True
    have 1: "vw ?m ((bufs s)(i := ?b)) k = (if k = n then bview ?m ?b else vw ?m (bufs s) k)"
      using vw_update [OF H(7) u H(1), of ?m k] us H(3) by simp
    have "vw ?m (bufs s) k = vw (img s) (bufs s) k" if kn: "k \<noteq> n"
    proof (cases "holder (bufs s) k")
      case None
      then show ?thesis using us d_other [OF kn] by (simp add: vw_def medium_of_def usable_def)
    next
      case (Some j)
      then have "b_blockno (bufs s j) = k" using holder_Some [OF H(7) us] by blast
      then show ?thesis using Some us d_other [OF kn] by (simp add: vw_def bview_def usable_def)
    qed
    then show ?thesis using 1 H(5) by (simp add: bview_def)
  qed
  then have "cview ?s = c_write n (cview s)"
    using H(2,9,11) d_same d_other
    by (auto simp: cview_def c_write_def fun_eq_iff medium_of_def usable_def)
  moreover have "bc_frame s ?s" by (simp add: bc_frame_def)
  moreover have "holds ?s = holds s" by (auto simp: holds_def fun_eq_iff)
  ultimately show ?thesis using w by blast
qed

lemma view_coherent:
  assumes ok: "bc_ok s" and "refs (cview s) n = 0" and "\<not> dirty (cview s) n"
  shows "content (cview s) n = medium (cview s) n"
proof (cases "holder (bufs s) n")
  case None
  then show ?thesis by (simp add: cview_def vw_def)
next
  case (Some i)
  then have us: "usable n" by (auto simp: holder_def split: if_splits)
  have uq: "unique_blocks (bufs s)" using ok by (simp add: bc_ok_def)
  have i: "i < NBUF" "b_blockno (bufs s i) = n" using Some holder_Some [OF uq us] by blast+
  have v: "vw (img s) (bufs s) n = bview (img s) (bufs s i)" by (rule vw_held [OF uq us i])
  have "evictable (bufs s i)"
    using assms(2,3) v by (simp add: cview_def bview_def evictable_def unsigned_eq_0_iff)
  then have "bview (img s) (bufs s i) = (disk_block (img s) n, False, 0)"
    using bview_evictable ok i by (fastforce simp: bc_ok_def)
  then show ?thesis using v us by (simp add: cview_def medium_of_def)
qed

lemma content_length: "bc_ok s \<Longrightarrow> usable n \<Longrightarrow> length (content (cview s) n) = BSIZE"
proof -
  assume ok: "bc_ok s" and us: "usable n"
  have uq: "unique_blocks (bufs s)" using ok by (simp add: bc_ok_def)
  show ?thesis
  proof (cases "holder (bufs s) n")
    case None
    then show ?thesis using us by (simp add: cview_def vw_def medium_of_def)
  next
    case (Some i)
    then have i: "i < NBUF" "b_blockno (bufs s i) = n" using holder_Some [OF uq us] by blast+
    then show ?thesis using vw_held [OF uq us i, of "img s"] ok
      by (auto simp: cview_def bview_def bc_ok_def buf_ok_def)
  qed
qed

section \<open>Laws of the abstract cache\<close>

lemma c_simps [simp]:
  "c_unref n (c_ref n v) = v"
  "content (c_ref n v) = content v" "content (c_unref n v) = content v" "content (c_write n v) = content v"
  "content (c_mark n d v) = content v" "content (c_set n x v) = (content v)(n := x)"
  "dirty (c_ref n v) = dirty v" "dirty (c_unref n v) = dirty v" "dirty (c_set n x v) = dirty v"
  "dirty (c_write n v) = (dirty v)(n := False)" "dirty (c_mark n d v) = (dirty v)(n := d)"
  "medium (c_ref n v) = medium v" "medium (c_unref n v) = medium v" "medium (c_set n x v) = medium v"
  "medium (c_mark n d v) = medium v" "medium (c_write n v) = (medium v)(n := content v n)"
  "refs (c_set n x v) = refs v" "refs (c_mark n d v) = refs v" "refs (c_write n v) = refs v"
  "refs (c_ref n v) = (refs v)(n := refs v n + 1)" "refs (c_unref n v) = (refs v)(n := refs v n - 1)"
  "writes (c_ref n v) = writes v" "writes (c_unref n v) = writes v" "writes (c_set n x v) = writes v"
  "writes (c_mark n d v) = writes v" "writes (c_write n v) = writes v @ [(n, content v n)]"
  by (simp_all add: c_ref_def c_unref_def c_set_def c_mark_def c_write_def)

lemma pinned_c_ref [simp]: "pinned (c_ref n v) = insert n (pinned v)"
  by (auto simp: pinned_def)

lemma c_commute:
  "c_set n x (c_ref m v) = c_ref m (c_set n x v)"
  "c_write n (c_ref m v) = c_ref m (c_write n v)"
  "c_mark n d (c_ref m v) = c_ref m (c_mark n d v)"
  "n \<noteq> m \<Longrightarrow> c_unref n (c_ref m v) = c_ref m (c_unref n v)"
  by (simp_all add: c_ref_def c_unref_def c_set_def c_mark_def c_write_def fun_eq_iff)

lemma c_mark_write [simp]: "c_mark n False (c_write n v) = c_write n v"
  by (simp add: c_mark_def c_write_def)

section \<open>The interface to the clients of the cache\<close>

text \<open>
  What the log and the file system rely on: five operations on blocks, their effect on
  the abstract cache, handles that stay good, and room for one more block in use.
\<close>

locale block_cache =
  fixes bread :: "u32 \<Rightarrow> 's \<Rightarrow> (nat, 's) outcome"
    and bwrite :: "nat \<Rightarrow> 's \<Rightarrow> (unit, 's) outcome"
    and brelse :: "nat \<Rightarrow> 's \<Rightarrow> (unit, 's) outcome"
    and get_data :: "nat \<Rightarrow> 's \<Rightarrow> u8 list"
    and set_data :: "nat \<Rightarrow> u8 list \<Rightarrow> 's \<Rightarrow> 's"
    and set_disk :: "nat \<Rightarrow> bool \<Rightarrow> 's \<Rightarrow> 's"
    and ok :: "'s \<Rightarrow> bool"
    and view :: "'s \<Rightarrow> cache"
    and holds :: "'s \<Rightarrow> nat \<Rightarrow> u32 \<Rightarrow> bool"
    and frame :: "'s \<Rightarrow> 's \<Rightarrow> bool"
  assumes frame_refl: "frame s s"
    and frame_trans: "frame s s' \<Longrightarrow> frame s' s'' \<Longrightarrow> frame s s''"
    and coherent: "ok s \<Longrightarrow> refs (view s) n = 0 \<Longrightarrow> \<not> dirty (view s) n \<Longrightarrow>
           content (view s) n = medium (view s) n"
    and data_len: "ok s \<Longrightarrow> usable n \<Longrightarrow> length (content (view s) n) = BSIZE"
    and handle: "ok s \<Longrightarrow> holds s i n \<Longrightarrow> get_data i s = content (view s) n \<and> usable n \<and> refs (view s) n \<noteq> 0"
    and bread_law: "ok s \<Longrightarrow> usable n \<Longrightarrow> card (insert n (pinned (view s))) \<le> NBUF \<Longrightarrow>
           refs (view s) n + 1 < 2 ^ 32 \<Longrightarrow>
           \<exists>i s'. bread n s = Inr (i, s') \<and> ok s' \<and> holds s' i n \<and> view s' = c_ref n (view s) \<and>
             frame s s' \<and> (\<forall>j m. holds s j m \<longrightarrow> holds s' j m)"
    and bwrite_law: "ok s \<Longrightarrow> holds s i n \<Longrightarrow>
           \<exists>s'. bwrite i s = Inr ((), s') \<and> ok s' \<and> view s' = c_write n (view s) \<and> frame s s' \<and> holds s' = holds s"
    and brelse_law: "ok s \<Longrightarrow> holds s i n \<Longrightarrow>
           (refs (view s) n = 1 \<Longrightarrow> \<not> dirty (view s) n \<Longrightarrow> content (view s) n = medium (view s) n) \<Longrightarrow>
           \<exists>s'. brelse i s = Inr ((), s') \<and> ok s' \<and> view s' = c_unref n (view s) \<and> frame s s' \<and>
             (\<forall>j m. holds s' j m \<longleftrightarrow> holds s j m \<and> (m \<noteq> n \<or> refs (view s) n \<noteq> 1))"
    and set_data_law: "ok s \<Longrightarrow> holds s i n \<Longrightarrow> length d = BSIZE \<Longrightarrow>
           ok (set_data i d s) \<and> view (set_data i d s) = c_set n d (view s) \<and>
           frame s (set_data i d s) \<and> holds (set_data i d s) = holds s"
    and set_disk_law: "ok s \<Longrightarrow> holds s i n \<Longrightarrow>
           ok (set_disk i b s) \<and> view (set_disk i b s) = c_mark n b (view s) \<and>
           frame s (set_disk i b s) \<and> holds (set_disk i b s) = holds s"
begin

text \<open>Looking at a block: read it, take what is needed, release it.\<close>

definition peek :: "u32 \<Rightarrow> (u8 list \<Rightarrow> 's \<Rightarrow> 's) \<Rightarrow> 's \<Rightarrow> (unit, 's) outcome" where
  "peek n g s = bnd (bread n s) (\<lambda>i s. brelse i (g (get_data i s) s))"

text \<open>Writing a block through the cache.\<close>

definition update :: "u32 \<Rightarrow> (u8 list \<Rightarrow> 's \<Rightarrow> u8 list) \<Rightarrow> 's \<Rightarrow> (unit, 's) outcome" where
  "update n f s = bnd (bread n s) (\<lambda>i s.
     bnd (bwrite i (set_data i (f (get_data i s) s) s)) (\<lambda>_. brelse i))"

text \<open>The end of a block copy: both blocks are held.\<close>

definition finish :: "bool \<Rightarrow> nat \<Rightarrow> nat \<Rightarrow> 's \<Rightarrow> (unit, 's) outcome" where
  "finish unmark to from s =
     bnd (bwrite to (set_data to (get_data from s) s)) (\<lambda>_ s.
       bnd (brelse from (if unmark then set_disk to False s else s)) (\<lambda>_. brelse to))"

definition copy_dst_first :: "u32 \<Rightarrow> u32 \<Rightarrow> 's \<Rightarrow> (unit, 's) outcome" where
  "copy_dst_first dst src s = bnd (bread dst s) (\<lambda>to s. bnd (bread src s) (\<lambda>from. finish False to from))"

definition copy_src_first :: "bool \<Rightarrow> u32 \<Rightarrow> u32 \<Rightarrow> 's \<Rightarrow> (unit, 's) outcome" where
  "copy_src_first unmark dst src s =
     bnd (bread src s) (\<lambda>from s. bnd (bread dst s) (\<lambda>to. finish unmark to from))"

lemma peek_spec:
  assumes "ok s" and "usable n" and "card (insert n (pinned (view s))) \<le> NBUF" and "refs (view s) n + 1 < 2 ^ 32"
    and g: "\<And>s. ok s \<Longrightarrow> ok (g d s) \<and> view (g d s) = view s \<and> holds (g d s) = holds s"
    and d: "d = content (view s) n"
  shows "\<exists>s1 s'. peek n g s = Inr ((), s') \<and> ok s' \<and> view s' = view s \<and> frame s s1 \<and> frame (g d s1) s' \<and>
    (\<forall>j m. holds s j m \<and> m \<noteq> n \<longrightarrow> holds s' j m)"
proof -
  obtain i s1 where b: "bread n s = Inr (i, s1)" "ok s1" "holds s1 i n" "view s1 = c_ref n (view s)" "frame s s1"
    "\<forall>j m. holds s j m \<longrightarrow> holds s1 j m"
    using bread_law [OF assms(1-4)] by blast
  have dat: "get_data i s1 = d" using handle [OF b(2,3)] b(4) d by simp
  note G = g [OF b(2)]
  have h: "holds (g d s1) i n" using G b(3) by simp
  have cl: "content (view (g d s1)) n = medium (view (g d s1)) n"
    if "refs (view (g d s1)) n = 1" "\<not> dirty (view (g d s1)) n"
    using that G b(4) coherent [OF assms(1), of n] by simp
  obtain s2 where r: "brelse i (g d s1) = Inr ((), s2)" "ok s2" "view s2 = c_unref n (view (g d s1))"
    "frame (g d s1) s2" "\<forall>j m. holds s2 j m \<longleftrightarrow> holds (g d s1) j m \<and> (m \<noteq> n \<or> refs (view (g d s1)) n \<noteq> 1)"
    using brelse_law [OF conjunct1 [OF G] h cl] by blast
  show ?thesis
    using b r G by (intro exI [of _ s1] exI [of _ s2]) (simp add: peek_def dat)
qed

lemma update_spec:
  assumes "ok s" and "usable n" and "card (insert n (pinned (view s))) \<le> NBUF" and "refs (view s) n + 1 < 2 ^ 32"
    and f: "\<And>s1. frame s s1 \<Longrightarrow> f (content (view s) n) s1 = d" and d: "length d = BSIZE"
  shows "\<exists>s'. update n f s = Inr ((), s') \<and> ok s' \<and> view s' = c_write n (c_set n d (view s)) \<and> frame s s' \<and>
    (\<forall>j m. holds s j m \<and> m \<noteq> n \<longrightarrow> holds s' j m)"
proof -
  obtain i s1 where b: "bread n s = Inr (i, s1)" "ok s1" "holds s1 i n" "view s1 = c_ref n (view s)" "frame s s1"
    "\<forall>j m. holds s j m \<longrightarrow> holds s1 j m"
    using bread_law [OF assms(1-4)] by blast
  have dat: "f (get_data i s1) s1 = d" using handle [OF b(2,3)] b(4) f [OF b(5)] by simp
  let ?s2 = "set_data i d s1"
  have s2: "ok ?s2" "view ?s2 = c_set n d (view s1)" "frame s1 ?s2" "holds ?s2 = holds s1"
    using set_data_law [OF b(2,3) d] by auto
  have h2: "holds ?s2 i n" using s2(4) b(3) by simp
  obtain s3 where w: "bwrite i ?s2 = Inr ((), s3)" "ok s3" "view s3 = c_write n (view ?s2)" "frame ?s2 s3"
    "holds s3 = holds ?s2" using bwrite_law [OF s2(1) h2] by blast
  have h3: "holds s3 i n" using w(5) h2 by simp
  have cl: "content (view s3) n = medium (view s3) n" by (simp add: w(3) s2(2) b(4))
  obtain s4 where r: "brelse i s3 = Inr ((), s4)" "ok s4" "view s4 = c_unref n (view s3)" "frame s3 s4"
    "\<forall>j m. holds s4 j m \<longleftrightarrow> holds s3 j m \<and> (m \<noteq> n \<or> refs (view s3) n \<noteq> 1)"
    using brelse_law [OF w(2) h3 cl] by blast
  have "update n f s = Inr ((), s4)" using b w r by (simp add: update_def dat)
  moreover have "view s4 = c_write n (c_set n d (view s))"
    by (simp add: r(3) w(3) s2(2) b(4) c_commute)
  moreover have "frame s s4" by (rule frame_trans [OF b(5) frame_trans [OF s2(3) frame_trans [OF w(4) r(4)]]])
  moreover have "\<forall>j m. holds s j m \<and> m \<noteq> n \<longrightarrow> holds s4 j m" using b(6) s2(4) w(5) r(5) by simp
  ultimately show ?thesis using r(2) by blast
qed

lemma finish_spec:
  assumes "ok s" and to: "holds s to dst" and fh: "holds s from src" and ne: "dst \<noteq> src"
    and clean: "refs (view s) src = 1 \<Longrightarrow> \<not> dirty (view s) src \<Longrightarrow> content (view s) src = medium (view s) src"
  shows "\<exists>s'. finish u to from s = Inr ((), s') \<and> ok s' \<and> frame s s' \<and>
    view s' = c_unref dst (c_unref src (c_write dst (c_set dst (content (view s) src) (view s)))) \<and>
    (\<forall>j m. holds s j m \<and> m \<noteq> dst \<and> m \<noteq> src \<longrightarrow> holds s' j m)"
proof -
  let ?d = "content (view s) src"
  have dat: "get_data from s = ?d" and us: "usable src" using handle [OF assms(1) fh] by auto
  let ?s1 = "set_data to ?d s"
  have s1: "ok ?s1" "view ?s1 = c_set dst ?d (view s)" "frame s ?s1" "holds ?s1 = holds s"
    using set_data_law [OF assms(1) to] data_len [OF assms(1) us] by auto
  have h1: "holds ?s1 to dst" using s1(4) to by simp
  obtain s2 where w: "bwrite to ?s1 = Inr ((), s2)" "ok s2" "view s2 = c_write dst (view ?s1)" "frame ?s1 s2"
    "holds s2 = holds ?s1" using bwrite_law [OF s1(1) h1] by blast
  have h2: "holds s2 to dst" "holds s2 from src" using w(5) s1(4) to fh by simp_all
  define s3 where "s3 = (if u then set_disk to False s2 else s2)"
  have s3: "ok s3" "view s3 = view s2" "frame s2 s3" "holds s3 = holds s2"
    using set_disk_law [OF w(2) h2(1), of False] w frame_refl by (auto simp: s3_def)
  have h3: "holds s3 to dst" "holds s3 from src" using s3(4) h2 by simp_all
  have v3: "view s3 = c_write dst (c_set dst ?d (view s))" by (simp add: s3(2) w(3) s1(2))
  have cl3: "content (view s3) src = medium (view s3) src"
    if "refs (view s3) src = 1" "\<not> dirty (view s3) src"
    using that clean ne by (simp add: v3)
  obtain s4 where r: "brelse from s3 = Inr ((), s4)" "ok s4" "view s4 = c_unref src (view s3)" "frame s3 s4"
    "\<forall>j m. holds s4 j m \<longleftrightarrow> holds s3 j m \<and> (m \<noteq> src \<or> refs (view s3) src \<noteq> 1)"
    using brelse_law [OF s3(1) h3(2) cl3] by blast
  have h4: "holds s4 to dst" using r(5) h3(1) ne by simp
  have cl4: "content (view s4) dst = medium (view s4) dst" by (simp add: r(3) v3)
  obtain s5 where t: "brelse to s4 = Inr ((), s5)" "ok s5" "view s5 = c_unref dst (view s4)" "frame s4 s5"
    "\<forall>j m. holds s5 j m \<longleftrightarrow> holds s4 j m \<and> (m \<noteq> dst \<or> refs (view s4) dst \<noteq> 1)"
    using brelse_law [OF r(2) h4 cl4] by blast
  have "finish u to from s = Inr ((), s5)"
    using w r t by (simp add: finish_def dat s3_def [symmetric])
  moreover have "frame s s5"
    by (rule frame_trans [OF s1(3) frame_trans [OF w(4) frame_trans [OF s3(3) frame_trans [OF r(4) t(4)]]]])
  moreover have "\<forall>j m. holds s j m \<and> m \<noteq> dst \<and> m \<noteq> src \<longrightarrow> holds s5 j m"
    using s1(4) w(5) s3(4) r(5) t(5) by simp
  ultimately show ?thesis using t(2,3) r(3) v3 by auto
qed

text \<open>Both orders of reading the two blocks of a copy have the same effect.\<close>

lemma read_two:
  assumes "ok s" and "usable a" and "usable b" and ne: "a \<noteq> b"
    and room: "card (insert b (insert a (pinned (view s)))) \<le> NBUF"
    and "refs (view s) a + 1 < 2 ^ 32" and "refs (view s) b + 1 < 2 ^ 32"
  shows "\<exists>i j s1 s2. bread a s = Inr (i, s1) \<and> bread b s1 = Inr (j, s2) \<and> ok s2 \<and> holds s2 i a \<and> holds s2 j b \<and>
    view s2 = c_ref b (c_ref a (view s)) \<and> frame s s2 \<and> (\<forall>j m. holds s j m \<longrightarrow> holds s2 j m)"
proof -
  have "card (insert a (pinned (view s))) \<le> card (insert b (insert a (pinned (view s))))"
    by (rule card_mono) auto
  then have room1: "card (insert a (pinned (view s))) \<le> NBUF" using room by simp
  obtain i s1 where b1: "bread a s = Inr (i, s1)" "ok s1" "holds s1 i a" "view s1 = c_ref a (view s)" "frame s s1"
    "\<forall>j m. holds s j m \<longrightarrow> holds s1 j m"
    using bread_law [OF assms(1,2) room1 assms(6)] by blast
  have "card (insert b (pinned (view s1))) \<le> NBUF" and "refs (view s1) b + 1 < 2 ^ 32"
    using room assms(7) ne by (simp_all add: b1(4))
  then obtain j s2 where b2: "bread b s1 = Inr (j, s2)" "ok s2" "holds s2 j b" "view s2 = c_ref b (view s1)"
    "frame s1 s2" "\<forall>j m. holds s1 j m \<longrightarrow> holds s2 j m"
    using bread_law [OF b1(2) assms(3)] by blast
  moreover have "frame s s2" by (rule frame_trans [OF b1(5) b2(5)])
  ultimately show ?thesis using b1(1,3,4,6) by auto
qed

lemma copy_spec:
  assumes "ok s" and "usable dst" and "usable src" and "dst \<noteq> src"
    and "card (insert dst (insert src (pinned (view s)))) \<le> NBUF"
    and "refs (view s) dst + 1 < 2 ^ 32" and "refs (view s) src + 1 < 2 ^ 32"
  shows "\<exists>s'. copy_dst_first dst src s = Inr ((), s') \<and> ok s' \<and> frame s s' \<and>
      view s' = c_write dst (c_set dst (content (view s) src) (view s))" (is ?A)
    and "\<exists>s'. copy_src_first u dst src s = Inr ((), s') \<and> ok s' \<and> frame s s' \<and>
      view s' = c_write dst (c_set dst (content (view s) src) (view s))" (is ?B)
proof -
  have ins: "card (insert src (insert dst (pinned (view s)))) \<le> NBUF" using assms(5) by (simp add: insert_commute)
  obtain i j s1 s2 where r: "bread dst s = Inr (i, s1)" "bread src s1 = Inr (j, s2)" "ok s2" "holds s2 i dst"
    "holds s2 j src" "view s2 = c_ref src (c_ref dst (view s))" "frame s s2"
    using read_two [OF assms(1-4) ins assms(6,7)] by blast
  have cl: "content (view s2) src = medium (view s2) src" if "refs (view s2) src = 1" "\<not> dirty (view s2) src"
    using that coherent [OF assms(1), of src] assms(4) by (simp add: r(6))
  have v: "c_unref dst (c_unref src (c_write dst (c_set dst (content (view s) src) (c_ref src (c_ref dst (view s))))))
      = c_write dst (c_set dst (content (view s) src) (view s))"
    using assms(4) by (simp add: c_commute)
  obtain s3 where f: "finish False i j s2 = Inr ((), s3)" "ok s3" "frame s2 s3"
    "view s3 = c_unref dst (c_unref src (c_write dst (c_set dst (content (view s2) src) (view s2))))"
    using finish_spec [OF r(3-5) assms(4) cl] by blast
  show ?A
    using r(1,2) f(1,2) frame_trans [OF r(7) f(3)] f(4) v
    by (intro exI [of _ s3]) (simp add: copy_dst_first_def r(6))
  obtain i j s1 s2 where r: "bread src s = Inr (j, s1)" "bread dst s1 = Inr (i, s2)" "ok s2" "holds s2 j src"
    "holds s2 i dst" "view s2 = c_ref dst (c_ref src (view s))" "frame s s2"
    using read_two [OF assms(1,3,2) assms(4) [symmetric] assms(5,7,6)] by blast
  have cl: "content (view s2) src = medium (view s2) src" if "refs (view s2) src = 1" "\<not> dirty (view s2) src"
    using that coherent [OF assms(1), of src] assms(4) by (simp add: r(6))
  have v: "c_unref dst (c_unref src (c_write dst (c_set dst (content (view s) src) (c_ref dst (c_ref src (view s))))))
      = c_write dst (c_set dst (content (view s) src) (view s))"
    using assms(4) by (simp add: c_commute)
  obtain s3 where f: "finish u i j s2 = Inr ((), s3)" "ok s3" "frame s2 s3"
    "view s3 = c_unref dst (c_unref src (c_write dst (c_set dst (content (view s2) src) (view s2))))"
    using finish_spec [OF r(3,5,4) assms(4) cl] by blast
  show ?B
    using r(1,2) f(1,2) frame_trans [OF r(7) f(3)] f(4) v
    by (intro exI [of _ s3]) (simp add: copy_src_first_def r(6))
qed

end

text \<open>The stores of the clients into a buffer in use.\<close>

definition set_buf_data :: "nat \<Rightarrow> u8 list \<Rightarrow> 'a bcache_scheme \<Rightarrow> 'a bcache_scheme" where
  "set_buf_data i d s = upd_buf i (\<lambda>b. b\<lparr>b_data := d\<rparr>) s"

definition set_buf_disk :: "nat \<Rightarrow> bool \<Rightarrow> 'a bcache_scheme \<Rightarrow> 'a bcache_scheme" where
  "set_buf_disk i v s = upd_buf i (\<lambda>b. b\<lparr>b_disk := v\<rparr>) s"

lemma room_cases: "card (insert n P) \<le> k \<Longrightarrow> n \<in> P \<or> card P < k" for P :: "u32 set"
  by (cases "n \<in> P") simp_all

interpretation bc: block_cache "bread hw 0" "bwrite hw" brelse "\<lambda>i s. b_data (bufs s i)" set_buf_data
    set_buf_disk "\<lambda>s. virtio_blk hw \<and> bc_ok s" cview holds bc_frame
  for hw :: "nat \<Rightarrow> 'a bcache_scheme \<Rightarrow> 'a bcache_scheme"
proof (unfold_locales, goal_cases)
  case 1
  show ?case by simp
next
  case (2 s s' s'')
  then show ?case by (rule bc_frame_trans)
next
  case (3 s n)
  then show ?case using view_coherent by blast
next
  case (4 s n)
  then show ?case using content_length by blast
next
  case (5 s i n)
  then have "bc_ok s" "holds s i n" by auto
  note H = holdsD [OF this]
  then show ?case by (simp add: unsigned_eq_0_iff)
next
  case (6 s n)
  then show ?case using bread_spec [of hw s n] room_cases by blast
next
  case (7 s i n)
  then show ?case using bwrite_spec [of hw s i n] by blast
next
  case (8 s i n)
  then show ?case using brelse_spec [of s i n] by blast
next
  case (9 s i n d)
  then have "bc_ok s" "holds s i n" "length d = BSIZE" by auto
  note S = set_data_spec [OF this]
  show ?case using 9 S by (simp add: set_buf_data_def fun_eq_iff)
next
  case (10 s i n b)
  then have "bc_ok s" "holds s i n" by auto
  note S = mark_spec [OF this]
  show ?case using 10 S by (simp add: set_buf_disk_def fun_eq_iff)
qed

section \<open>Initialisation\<close>

lemma core_clear:
  "core x = core y \<Longrightarrow> core (x\<lparr>b_valid := False, b_disk := False, b_refcnt := 0\<rparr>) =
     core (y\<lparr>b_valid := False, b_disk := False, b_refcnt := 0\<rparr>)"
  by (cases x; cases y) (simp add: core_def)

lemma binit_step_spec:
  assumes "linked t (links Head xs Head)" and "b \<notin> set xs" and "distinct xs"
  shows "linked (binit_step b t) (links Head (b # xs) Head)"
    and "core (bufs (binit_step b t) i) = (if i = b
      then core ((bufs t i)\<lparr>b_valid := False, b_disk := False, b_refcnt := 0\<rparr>) else core (bufs t i))"
    and "bc_frame t (binit_step b t)" and "vq (binit_step b t) = vq t" and "img (binit_step b t) = img t"
    and "written (binit_step b t) = written t"
proof -
  have F: "list_frame t (link_front b t)" by (rule list_frame_link_front)
  have nx: "next_of (binit_step b t) p = next_of (link_front b t) p"
    "prev_of (binit_step b t) p = prev_of (link_front b t) p" for p
    by (cases p; simp add: binit_step_def upd_buf_def next_of.simps prev_of.simps)+
  show "linked (binit_step b t) (links Head (b # xs) Head)"
    using link_front_linked [OF assms] by (simp add: linked_def nx)
  have c: "core (bufs (link_front b t) i) = core (bufs t i)" using F by (simp add: list_frame_def)
  show "core (bufs (binit_step b t) i) = (if i = b
      then core ((bufs t i)\<lparr>b_valid := False, b_disk := False, b_refcnt := 0\<rparr>) else core (bufs t i))"
    using c core_clear [OF c] by (cases "i = b") (simp_all add: binit_step_def upd_buf_def)
  obtain x y z where r: "link_front b t = t\<lparr>bufs := x, bhead_prev := y, bhead_next := z\<rparr>"
    using F unfolding list_frame_def by blast
  show "bc_frame t (binit_step b t)"
    unfolding bc_frame_def binit_step_def upd_buf_def r by (cases t) simp
  show "vq (binit_step b t) = vq t" "img (binit_step b t) = img t" "written (binit_step b t) = written t"
    by (simp_all add: binit_step_def upd_buf_def r)
qed

lemma binit_fold:
  assumes "linked s [(Head, Head)]"
  defines "t \<equiv> \<lambda>n. fold binit_step [0..<n] s"
  shows "linked (t n) (links Head (rev [0..<n]) Head) \<and>
    (\<forall>i. core (bufs (t n) i) = (if i < n
      then core ((bufs s i)\<lparr>b_valid := False, b_disk := False, b_refcnt := 0\<rparr>) else core (bufs s i))) \<and>
    bc_frame s (t n) \<and> vq (t n) = vq s \<and> img (t n) = img s \<and> written (t n) = written s"
proof (induction n)
  case 0
  then show ?case using assms(1) by (simp add: t_def)
next
  case (Suc n)
  have t: "t (Suc n) = binit_step n (t n)" by (simp add: t_def)
  have l: "linked (t n) (links Head (rev [0..<n]) Head)" using Suc by blast
  note S = binit_step_spec [OF l, of n, simplified]
  have c: "core (bufs (t n) i) = (if i < n
      then core ((bufs s i)\<lparr>b_valid := False, b_disk := False, b_refcnt := 0\<rparr>) else core (bufs s i))" for i
    using Suc by blast
  have cn: "core (bufs (t n) n) = core (bufs s n)" by (simp add: c)
  have "core (bufs (t (Suc n)) i) = (if i < Suc n
      then core ((bufs s i)\<lparr>b_valid := False, b_disk := False, b_refcnt := 0\<rparr>) else core (bufs s i))" for i
    unfolding t S(2) using core_clear [OF cn] c by (cases i n rule: linorder_cases) simp_all
  moreover have "bc_frame s (t (Suc n))" using Suc S(3) bc_frame_trans unfolding t by blast
  ultimately show ?case using S Suc by (simp add: t)
qed

text \<open>The array as the kernel image has it: zero device and block numbers.\<close>

definition zero_bufs :: "'a bcache_scheme \<Rightarrow> bool" where
  "zero_bufs s \<longleftrightarrow> (\<forall>i < NBUF. b_dev (bufs s i) = 0 \<and> b_blockno (bufs s i) = 0 \<and> length (b_data (bufs s i)) = BSIZE)"

lemma binit_spec:
  assumes z: "zero_bufs s" and idle: "vq_idle (vq s)"
  shows "\<exists>s'. binit s = Inr ((), s') \<and> bc_ok s' \<and> pinned (cview s') = {} \<and>
    medium (cview s') = medium_of (img s) \<and> written s' = written s"
proof -
  let ?s = "set_next Head Head (set_prev Head Head s)"
  let ?t = "fold binit_step [0..<NBUF] ?s"
  have l0: "linked ?s [(Head, Head)]" by (simp add: list_simps)
  have F0: "list_frame s ?s" by (meson list_frame_trans list_frame_set)
  note c0 = coreD [OF F0 [unfolded list_frame_def, THEN conjunct1, THEN spec]]
  have f0: "vq ?s = vq s" "img ?s = img s" "written ?s = written s"
    by (simp_all add: set_next.simps set_prev.simps)
  note T = binit_fold [OF l0, of NBUF]
  have l: "linked ?t (links Head (rev [0..<NBUF]) Head)" using T by blast
  have ft: "vq ?t = vq s" "img ?t = img s" "written ?t = written s" using T f0 by auto
  have ct: "core (bufs ?t i) = core ((bufs ?s i)\<lparr>b_valid := False, b_disk := False, b_refcnt := 0\<rparr>)"
    if "i < NBUF" for i using T that by simp
  have lru: "lru ?t (rev [0..<NBUF])" using l by (auto simp: lru_def)
  have b: "\<not> b_valid (bufs ?t i)" "\<not> b_disk (bufs ?t i)" "b_refcnt (bufs ?t i) = 0"
    "b_dev (bufs ?t i) = 0" "b_blockno (bufs ?t i) = 0" "length (b_data (bufs ?t i)) = BSIZE"
    if "i < NBUF" for i
    using coreD [OF ct [OF that]] that z by (simp_all add: zero_bufs_def c0)
  define s' where "s' = ?t\<lparr>tx := tx ?t @ crlf (cstr ''binit: buffer cache initialized\<newline>'')\<rparr>"
  have p: "format_text (cstr ''binit: buffer cache initialized\<newline>'') [] =
      Some (cstr ''binit: buffer cache initialized\<newline>'')" by (simp add: char_consts)
  have run: "binit s = Inr ((), s')"
    by (simp add: binit_def Let_def printf_spec p s'_def ret_def)
  have lru': "lru s' xs = lru ?t xs" for xs
  proof -
    have "next_of s' q = next_of ?t q" "prev_of s' q = prev_of ?t q" for q
      by (cases q; simp add: s'_def next_of.simps prev_of.simps)+
    then show ?thesis by (simp add: lru_def linked_def)
  qed
  have "bc_ok s'"
    using lru lru' b idle ft
    by (auto simp: bc_ok_def s'_def buf_ok_def evictable_def unique_blocks_def small_block_def)
  moreover have "vw (img s') (bufs s') n = (medium_of (img s) n, False, 0)" for n
  proof (cases "usable n")
    case False
    then show ?thesis by (simp add: vw_unusable medium_of_def)
  next
    case True
    then show ?thesis
      using vw_absent [OF True, of "bufs s'" "img s'"] b ft by (simp add: s'_def usable_def medium_of_def)
  qed
  then have "pinned (cview s') = {}" by (simp add: pinned_def cview_def)
  moreover have "medium (cview s') = medium_of (img s)" "written s' = written s"
    by (simp_all add: cview_def s'_def ft)
  ultimately show ?thesis using run by blast
qed

definition bcache_boot :: bcache where
  "bcache_boot = vblk.extend vblk_boot \<lparr>bhead_prev = Head, bhead_next = Head\<rparr>"

lemma bcache_boot_fields [simp]:
  "vq bcache_boot = vq_boot" "bufs bcache_boot = (\<lambda>_. buf_boot)" "img bcache_boot = (\<lambda>x. of_nat (x div 1024))"
  "written bcache_boot = []"
  by (simp_all add: bcache_boot_def vblk_boot_def vblk.defs klog.defs)

lemma zero_bufs_boot: "zero_bufs bcache_boot"
  by (simp add: zero_bufs_def buf_boot_def)

lemma booted_cache:
  "\<exists>s. binit bcache_boot = Inr ((), s) \<and> bc_ok s \<and> pinned (cview s) = {}"
  using binit_spec [OF zero_bufs_boot] vq_idle_boot by auto

lemma usable_5: "usable 5"
  by (simp add: usable_def small_block_def)

section \<open>Properties\<close>

text \<open>
  C26. \<open>binit\<close> builds a well-formed cache from the zeroed buffer array: the list contains every
  buffer once, no block is cached, in use or pending, and the medium has not been written.
\<close>

theorem binit_well_formed:
  assumes "zero_bufs s" and "vq_idle (vq s)"
  shows "\<exists>s'. binit s = Inr ((), s') \<and> bc_ok s' \<and> pinned (cview s') = {} \<and>
    medium (cview s') = medium_of (img s) \<and> written s' = written s"
  using assms by (rule binit_spec)

theorem binit_well_formed_witness:
  "\<exists>s'. binit bcache_boot = Inr ((), s') \<and> bc_ok s' \<and> medium (cview s') = medium_of (img bcache_boot)"
  using binit_well_formed [OF zero_bufs_boot] vq_idle_boot by auto

text \<open>
  C5. \<open>bread\<close> implements the abstract read: it returns a buffer that holds the block with its
  current content (pending changes included, else the medium's), takes one reference, and changes
  the content of no block.
\<close>

theorem bread_refines:
  assumes "virtio_blk hw" and "bc_ok s" and "usable n"
    and "n \<in> pinned (cview s) \<or> card (pinned (cview s)) < NBUF" and "refs (cview s) n + 1 < 2 ^ 32"
  shows "\<exists>i s'. bread hw 0 n s = Inr (i, s') \<and> bc_ok s' \<and> holds s' i n \<and>
    b_data (bufs s' i) = content (cview s) n \<and> cview s' = c_ref n (cview s) \<and> bc_frame s s'"
proof -
  obtain i s' where r: "bread hw 0 n s = Inr (i, s')" "bc_ok s'" "holds s' i n" "cview s' = c_ref n (cview s)"
    "bc_frame s s'" using bread_spec [OF assms] by blast
  then show ?thesis using holdsD(9) [OF r(2,3)] by auto
qed

theorem bread_refines_witness:
  "\<exists>s i s'. binit bcache_boot = Inr ((), s) \<and> bread prompt_device 0 5 s = Inr (i, s') \<and>
    holds s' i 5 \<and> cview s' = c_ref 5 (cview s)"
proof -
  obtain s where s: "binit bcache_boot = Inr ((), s)" "bc_ok s" "pinned (cview s) = {}" using booted_cache by blast
  have "5 \<in> pinned (cview s) \<or> card (pinned (cview s)) < NBUF" by (simp add: s(3) NBUF_def)
  moreover have "refs (cview s) 5 = 0" using s(3) by (auto simp: pinned_def)
  then have "refs (cview s) 5 + 1 < 2 ^ 32" by simp
  ultimately show ?thesis
    using bread_refines [OF virtio_blk_prompt s(2) usable_5] s(1) by blast
qed

text \<open>
  \<open>bwrite\<close> implements the abstract write: the medium gets the buffer's content for that one
  block, the write is recorded last, and the block is no longer pending.
\<close>

theorem bwrite_refines:
  assumes "virtio_blk hw" and "bc_ok s" and "holds s i n"
  shows "\<exists>s'. bwrite hw i s = Inr ((), s') \<and> bc_ok s' \<and> cview s' = c_write n (cview s) \<and> bc_frame s s' \<and>
    holds s' = holds s"
  using assms by (rule bwrite_spec)

lemma booted_read:
  "\<exists>i (s :: bcache). bc_ok s \<and> holds s i 5 \<and> refs (cview s) 5 = 1 \<and> content (cview s) 5 = medium (cview s) 5"
proof -
  obtain s :: bcache where s: "bc_ok s" "pinned (cview s) = {}" using booted_cache by blast
  have room: "5 \<in> pinned (cview s) \<or> card (pinned (cview s)) < NBUF" by (simp add: s(2) NBUF_def)
  have p: "refs (cview s) 5 = 0" "\<not> dirty (cview s) 5" using s(2) by (auto simp: pinned_def)
  then have "refs (cview s) 5 + 1 < 2 ^ 32" by simp
  from bread_spec [OF virtio_blk_prompt s(1) usable_5 room this] obtain i s' where
    "bc_ok (s' :: bcache)" "holds s' i 5" "cview s' = c_ref 5 (cview s)" by blast
  then show ?thesis using p view_coherent [OF s(1) p] by (intro exI [of _ i] exI [of _ s']) simp
qed

theorem bwrite_refines_witness:
  "\<exists>i (s :: bcache) s'. bwrite prompt_device i s = Inr ((), s') \<and> cview s' = c_write 5 (cview s)"
proof -
  obtain i and s :: bcache where "bc_ok s" "holds s i 5" using booted_read by blast
  from bwrite_refines [OF virtio_blk_prompt this] show ?thesis by blast
qed

text \<open>
  \<open>brelse\<close> implements the abstract release and keeps the cache well formed, if a block whose
  last reference goes holds no change that is not pending in the log.
\<close>

theorem brelse_refines:
  assumes "bc_ok s" and "holds s i n"
    and "refs (cview s) n = 1 \<longrightarrow> \<not> dirty (cview s) n \<longrightarrow> content (cview s) n = medium (cview s) n"
  shows "\<exists>s'. brelse i s = Inr ((), s') \<and> bc_ok s' \<and> cview s' = c_unref n (cview s) \<and> bc_frame s s'"
  using brelse_spec [OF assms(1,2)] assms(3) by blast

theorem brelse_refines_witness:
  "\<exists>i (s :: bcache) s'. brelse i s = Inr ((), s') \<and> refs (cview s) 5 = 1 \<and> refs (cview s') 5 = 0"
proof -
  obtain i and s :: bcache where s: "bc_ok s" "holds s i 5" "refs (cview s) 5 = 1"
    "content (cview s) 5 = medium (cview s) 5" using booted_read by blast
  from brelse_refines [OF s(1,2)] s(3,4) show ?thesis by fastforce
qed

text \<open>
  C33. \<open>bget\<close> on every path: the cached buffer of the block; else the least recently used
  buffer that is neither in use nor pending, retargeted and invalid; else a panic.
\<close>

theorem bget_lru:
  assumes "lru s xs"
  shows "bget dev n s =
    (case List.find (\<lambda>i. b_dev (bufs s i) = dev \<and> b_blockno (bufs s i) = n) xs of
       Some i \<Rightarrow> Inr (i, upd_buf i (\<lambda>b. b\<lparr>b_refcnt := b_refcnt b + 1\<rparr>) s)
     | None \<Rightarrow>
         (case List.find (\<lambda>i. evictable (bufs s i)) (rev xs) of
            Some i \<Rightarrow> Inr (i, upd_buf i (\<lambda>b. b\<lparr>b_dev := dev, b_blockno := n, b_valid := False, b_refcnt := 1\<rparr>) s)
          | None \<Rightarrow> Inl (Panic ''bget: no buffers'')))"
proof -
  have l: "linked s (links Head xs Head)" using assms by (simp add: lru_def)
  let ?P = "\<lambda>i. b_dev (bufs s i) = dev \<and> b_blockno (bufs s i) = n"
  let ?E = "\<lambda>i. b_refcnt (bufs s i) = 0 \<and> \<not> b_disk (bufs s i)"
  have 1: "bscan (next_of s) ?P (bhead_next s) = Some (List.find ?P xs)"
    using bscan_next [OF l, of ?P] by (simp only: next_of.simps)
  have 2: "bscan (prev_of s) ?E (bhead_prev s) = Some (List.find ?E (rev xs))"
    using bscan_prev [OF l, of ?E] by (simp only: prev_of.simps)
  show ?thesis
    unfolding bget_def 1 2 by (simp add: evictable_def ret_def split: option.split)
qed

theorem bget_lru_witness:
  "\<exists>xs (s :: bcache). binit bcache_boot = Inr ((), s) \<and> lru s xs \<and>
    (List.find (\<lambda>i. b_dev (bufs s i) = 0 \<and> b_blockno (bufs s i) = 5) xs = None \<longrightarrow>
     List.find (\<lambda>i. evictable (bufs s i)) (rev xs) = None \<longrightarrow> bget 0 5 s = Inl (Panic ''bget: no buffers''))"
proof -
  obtain s where s: "binit bcache_boot = Inr ((), s)" "bc_ok s" using booted_cache by blast
  then obtain xs where "lru s xs" by (auto simp: bc_ok_def)
  with bget_lru [OF this, of 0 5] s(1) show ?thesis by (intro exI [of _ xs] exI [of _ s]) simp
qed

end
