(* ===== verification/Proc.thy ===== *)
theory Proc
  imports Bio
begin

text \<open>
  The process table and the scheduler (proc.c, proc.h). The kernel is not preempted: a
  process keeps the processor until it calls \<open>swtch\<close>, in \<open>yield\<close>, \<open>sleep\<close> or
  \<open>exit_process\<close>, which gives control back to the scheduler's loop. These functions are
  modelled up to and with that switch; the step relation \<open>sched_step\<close> composes them with
  the scheduler's choices.
\<close>

section \<open>State\<close>

datatype procstate = UNUSED | USED | RUNNABLE | RUNNING | SLEEPING | ZOMBIE

text \<open>Sleep channels: the null pointer, a process, the log.\<close>

datatype chan = NoChan | ProcChan nat | LogChan

record proc =
  p_ra :: u64
  p_sp :: u64
  p_state :: procstate
  p_pid :: int
  p_kstack :: u64
  p_name :: "u8 list"
  p_parent :: "nat option"
  p_chan :: chan
  p_exit_code :: int
  p_killed :: bool
  p_sz :: u64
  p_pagetable :: u64
  p_trapframe :: u64
  p_ofile :: "nat \<Rightarrow> nat option"

definition NPROC :: nat where "NPROC = 64"

record ptab = bcache +
  procs :: "nat \<Rightarrow> proc"
  current :: "nat option"
  nextpid :: int

definition upd_proc :: "nat \<Rightarrow> (proc \<Rightarrow> proc) \<Rightarrow> 'a ptab_scheme \<Rightarrow> 'a ptab_scheme" where
  "upd_proc i f s = s\<lparr>procs := (procs s)(i := f (procs s i))\<rparr>"

section \<open>Operations\<close>

definition myproc :: "'a ptab_scheme \<Rightarrow> nat option" where
  "myproc s = current s"

text \<open>\<open>swtch(&p->context, &sched_ctx)\<close> and the assignment the scheduler makes next.\<close>

definition swtch_sched :: "'a ptab_scheme \<Rightarrow> 'a ptab_scheme" where
  "swtch_sched s = s\<lparr>current := None\<rparr>"

definition proc_init :: "'a ptab_scheme \<Rightarrow> 'a ptab_scheme" where
  "proc_init s = fold (\<lambda>i. upd_proc i (\<lambda>p. p\<lparr>p_state := UNUSED\<rparr>)) [0..<NPROC] s"

definition yield :: "'a ptab_scheme \<Rightarrow> 'a ptab_scheme" where
  "yield s = (case myproc s of None \<Rightarrow> s
     | Some p \<Rightarrow> swtch_sched (upd_proc p (\<lambda>x. x\<lparr>p_state := RUNNABLE\<rparr>) s))"

text \<open>The lock argument of \<open>sleep\<close> is ignored. \<open>sleep_resume\<close> is what follows the switch.\<close>

definition sleep :: "chan \<Rightarrow> 'a ptab_scheme \<Rightarrow> 'a ptab_scheme" where
  "sleep c s = (case myproc s of None \<Rightarrow> s
     | Some p \<Rightarrow> swtch_sched (upd_proc p (\<lambda>x. x\<lparr>p_chan := c, p_state := SLEEPING\<rparr>) s))"

definition sleep_resume :: "'a ptab_scheme \<Rightarrow> 'a ptab_scheme" where
  "sleep_resume s = (case myproc s of None \<Rightarrow> s | Some p \<Rightarrow> upd_proc p (\<lambda>x. x\<lparr>p_chan := NoChan\<rparr>) s)"

definition wakeup :: "chan \<Rightarrow> 'a ptab_scheme \<Rightarrow> 'a ptab_scheme" where
  "wakeup c s = fold (\<lambda>i s.
     if p_state (procs s i) = SLEEPING \<and> p_chan (procs s i) = c
     then upd_proc i (\<lambda>x. x\<lparr>p_state := RUNNABLE, p_chan := NoChan\<rparr>) s else s) [0..<NPROC] s"

definition exit_process :: "u64 \<Rightarrow> int \<Rightarrow> 'a ptab_scheme \<Rightarrow> (unit, 'a ptab_scheme) outcome" where
  "exit_process time status s =
     (case myproc s of None \<Rightarrow> Inl (Fault ''exit_process'')
      | Some p \<Rightarrow>
          bnd (klog time LOG_INFO ''Process %d exiting with status %d\<newline>''
                 [of_int_arg (p_pid (procs s p)), of_int_arg status] s) (\<lambda>_ s.
          let s = upd_proc p (\<lambda>x. x\<lparr>p_exit_code := status, p_state := ZOMBIE\<rparr>) s;
              s = (case p_parent (procs s p) of None \<Rightarrow> s | Some q \<Rightarrow> wakeup (ProcChan q) s)
          in ret () (swtch_sched s)))"

text \<open>
  One iteration of the loop of \<open>wait_process\<close>: the first zombie child is reaped, or there
  is no child, or the caller goes to sleep on its own channel.
\<close>

datatype wait_result = Reaped int int | NoChild | Blocked

definition wait_iter :: "'a ptab_scheme \<Rightarrow> (wait_result, 'a ptab_scheme) outcome" where
  "wait_iter s =
     (case myproc s of None \<Rightarrow> Inl (Fault ''wait_process'')
      | Some p \<Rightarrow>
          (case List.find (\<lambda>i. p_parent (procs s i) = Some p \<and> p_state (procs s i) = ZOMBIE) [0..<NPROC] of
             Some i \<Rightarrow>
               (let pid = p_pid (procs s i); status = p_exit_code (procs s i) in
                bnd (free_page (p_kstack (procs s i)) s) (\<lambda>_ s.
                ret (Reaped pid status) (upd_proc i (\<lambda>x. x\<lparr>p_kstack := 0, p_state := UNUSED, p_pid := 0,
                  p_parent := None, p_name := (p_name x)[0 := 0]\<rparr>) s)))
           | None \<Rightarrow>
               if \<exists>i \<in> {..<NPROC}. p_parent (procs s i) = Some p
               then ret Blocked (sleep (ProcChan p) s) else ret NoChild s))"

text \<open>Every slot is looked at, the unused ones (pid 0, or a stale pid) included.\<close>

definition kill :: "int \<Rightarrow> 'a ptab_scheme \<Rightarrow> int \<times> 'a ptab_scheme" where
  "kill pid s =
     (case List.find (\<lambda>i. p_pid (procs s i) = pid) [0..<NPROC] of
        None \<Rightarrow> (-1, s)
      | Some i \<Rightarrow>
          (let s = upd_proc i (\<lambda>x. x\<lparr>p_killed := True\<rparr>) s in
           (0, if p_state (procs s i) = SLEEPING then upd_proc i (\<lambda>x. x\<lparr>p_state := RUNNABLE\<rparr>) s else s)))"

definition safestrcpy :: "u8 list \<Rightarrow> u8 list \<Rightarrow> nat \<Rightarrow> u8 list" where
  "safestrcpy dst t n =
     (let c = takeWhile (\<lambda>x. x \<noteq> 0) (take (n - 1) t) in c @ [0] @ drop (length c + 1) dst)"

text \<open>
  The scan of the scheduler's inner loop from position \<open>i\<close>, and the start of the process
  it finds.
\<close>

definition scan :: "nat \<Rightarrow> 'a ptab_scheme \<Rightarrow> nat option" where
  "scan i s = List.find (\<lambda>j. p_state (procs s j) = RUNNABLE) [i..<NPROC]"

definition run :: "nat \<Rightarrow> 'a ptab_scheme \<Rightarrow> 'a ptab_scheme" where
  "run j s = (upd_proc j (\<lambda>x. x\<lparr>p_state := RUNNING\<rparr>) s)\<lparr>current := Some j\<rparr>"

section \<open>Facts about the operations\<close>

lemma upd_proc_simps [simp]:
  "procs (upd_proc i f s) j = (if j = i then f (procs s i) else procs s j)"
  "current (upd_proc i f s) = current s" "nextpid (upd_proc i f s) = nextpid s"
  "ptab.more (upd_proc i f s) = ptab.more s" "ptab.more (swtch_sched s) = ptab.more s" "ptab.more (run k s) = ptab.more s"
  "procs (swtch_sched s) = procs s" "current (swtch_sched s) = None" "nextpid (swtch_sched s) = nextpid s"
  "procs (run k s) j = (if j = k then (procs s k)\<lparr>p_state := RUNNING\<rparr> else procs s j)"
  "current (run k s) = Some k" "nextpid (run k s) = nextpid s"
  by (simp_all add: upd_proc_def swtch_sched_def run_def)

text \<open>\<open>wakeup\<close> makes exactly the sleepers of the channel runnable.\<close>

definition woken :: "chan \<Rightarrow> proc \<Rightarrow> proc" where
  "woken c x = (if p_state x = SLEEPING \<and> p_chan x = c then x\<lparr>p_state := RUNNABLE, p_chan := NoChan\<rparr> else x)"

lemma wakeup_spec:
  "wakeup c s = s\<lparr>procs := (\<lambda>i. if i < NPROC then woken c (procs s i) else procs s i)\<rparr>"
proof -
  have "fold (\<lambda>i s. if p_state (procs s i) = SLEEPING \<and> p_chan (procs s i) = c
      then upd_proc i (\<lambda>x. x\<lparr>p_state := RUNNABLE, p_chan := NoChan\<rparr>) s else s) [0..<n] s =
    s\<lparr>procs := (\<lambda>i. if i < n then woken c (procs s i) else procs s i)\<rparr>" for n
  proof (induction n)
    case 0
    then show ?case by simp
  next
    case (Suc n)
    then show ?case by (auto simp: upd_proc_def woken_def fun_eq_iff less_Suc_eq)
  qed
  then show ?thesis by (simp add: wakeup_def)
qed

lemma wakeup_simps [simp]:
  "procs (wakeup c s) i = (if i < NPROC then woken c (procs s i) else procs s i)"
  "current (wakeup c s) = current s" "nextpid (wakeup c s) = nextpid s" "ptab.more (wakeup c s) = ptab.more s"
  by (simp_all add: wakeup_spec)

lemma woken_simps [simp]:
  "p_pid (woken c x) = p_pid x" "p_state (woken c x) = RUNNING \<longleftrightarrow> p_state x = RUNNING"
  "p_state (woken c x) = UNUSED \<longleftrightarrow> p_state x = UNUSED" "p_killed (woken c x) = p_killed x"
  "p_state (woken c x) = ZOMBIE \<longleftrightarrow> p_state x = ZOMBIE"
  "p_parent (woken c x) = p_parent x" "p_kstack (woken c x) = p_kstack x"
  by (simp_all add: woken_def)

lemma klog_frame_procs:
  assumes "klog_frame s s'"
  shows "procs s' = procs s" "current s' = current s" "nextpid s' = nextpid s"
    "pmem s' = pmem s" "freelist s' = freelist s" "ptab.more s' = ptab.more s"
  using assms by (cases s; cases s'; simp add: klog_frame_def)+

lemma find_first: "List.find P xs = Some i \<Longrightarrow> i \<in> set xs \<and> P i"
  by (auto simp: find_Some_iff)

lemma free_page_procs:
  assumes "p \<noteq> 0"
  shows "\<exists>s'. free_page p s = Inr ((), s') \<and> procs s' = procs s \<and> current s' = current s \<and> nextpid s' = nextpid s"
  using assms by (simp add: free_page_def ret_def)

lemma exit_process_spec:
  assumes "myproc s = Some p"
  shows "\<exists>s'. exit_process time status s = Inr ((), s') \<and> current s' = None \<and> nextpid s' = nextpid s \<and> ptab.more s' = ptab.more s \<and>
    (\<forall>i < NPROC. procs s' i =
      (let x = (if i = p then (procs s p)\<lparr>p_exit_code := status, p_state := ZOMBIE\<rparr> else procs s i)
       in case p_parent (procs s p) of None \<Rightarrow> x | Some q \<Rightarrow> woken (ProcChan q) x))"
proof -
  have t: "klog_text (cstr ''Process %d exiting with status %d\<newline>'') [of_int_arg a, of_int_arg b] \<noteq> None" for a b
    by (simp add: char_consts klog_conv_text.simps of_int_arg_def)
  have "LOG_INFO \<le> 3" by (simp add: LOG_INFO_def)
  from klog_text_total [OF t this] obtain s1 where k: "klog time LOG_INFO ''Process %d exiting with status %d\<newline>''
      [of_int_arg (p_pid (procs s p)), of_int_arg status] s = Inr ((), s1)" and F: "klog_frame s s1" by blast
  note f = klog_frame_procs [OF F]
  let ?s2 = "upd_proc p (\<lambda>x. x\<lparr>p_exit_code := status, p_state := ZOMBIE\<rparr>) s1"
  let ?s3 = "case p_parent (procs s p) of None \<Rightarrow> ?s2 | Some q \<Rightarrow> wakeup (ProcChan q) ?s2"
  have "exit_process time status s = Inr ((), swtch_sched ?s3)"
    using assms by (simp add: exit_process_def k ret_def Let_def f(1))
  moreover have "current (swtch_sched ?s3) = None" by simp
  moreover have "nextpid (swtch_sched ?s3) = nextpid s"
    by (cases "p_parent (procs s p)") (simp_all add: f(3))
  moreover have "ptab.more (swtch_sched ?s3) = ptab.more s"
    by (cases "p_parent (procs s p)") (simp_all add: f(6))
  moreover have "procs (swtch_sched ?s3) i =
      (let x = (if i = p then (procs s p)\<lparr>p_exit_code := status, p_state := ZOMBIE\<rparr> else procs s i)
       in case p_parent (procs s p) of None \<Rightarrow> x | Some q \<Rightarrow> woken (ProcChan q) x)" if "i < NPROC" for i
    using that by (cases "p_parent (procs s p)") (simp_all add: f(1) Let_def)
  ultimately show ?thesis by blast
qed

section \<open>Properties\<close>

text \<open>
  C34. The handshake of exit and wait: when a child exits while its parent sleeps in
  \<open>wait_process\<close>, the parent becomes runnable, and its next look at the table returns the
  child's pid and status and frees the child's slot.
\<close>

theorem exit_wakes_waiting_parent:
  assumes "current s = Some c" and "c < NPROC" and "p < NPROC" and "p \<noteq> c"
    and "p_parent (procs s c) = Some p"
    and "p_state (procs s p) = SLEEPING" and "p_chan (procs s p) = ProcChan p"
    and "\<forall>i < NPROC. p_parent (procs s i) = Some p \<longrightarrow> p_state (procs s i) = ZOMBIE \<longrightarrow> i = c"
    and "p_kstack (procs s c) \<noteq> 0"
  shows "\<exists>s1 s2. exit_process time status s = Inr ((), s1) \<and> current s1 = None \<and>
    p_state (procs s1 p) = RUNNABLE \<and>
    wait_iter (run p s1) = Inr (Reaped (p_pid (procs s c)) status, s2) \<and> p_state (procs s2 c) = UNUSED"
proof -
  obtain s1 where x: "exit_process time status s = Inr ((), s1)" "current s1 = None"
    and ps: "\<forall>i < NPROC. procs s1 i =
      woken (ProcChan p) (if i = c then (procs s c)\<lparr>p_exit_code := status, p_state := ZOMBIE\<rparr> else procs s i)"
    using exit_process_spec [of s c time status] assms(1,5) by (auto simp: myproc_def)
  have pp: "p_state (procs s1 p) = RUNNABLE" using ps assms(3,4,6,7) by (simp add: woken_def)
  have pc: "procs s1 c = (procs s c)\<lparr>p_exit_code := status, p_state := ZOMBIE\<rparr>"
    using ps assms(2) by (simp add: woken_def)
  let ?P = "\<lambda>i. p_parent (procs (run p s1) i) = Some p \<and> p_state (procs (run p s1) i) = ZOMBIE"
  have "List.find ?P [0..<NPROC] = Some c"
  proof (rule find_unique)
    show "c \<in> set [0..<NPROC]" and "?P c" using assms(2,4,5) pc by simp_all
    show "i = c" if i: "i \<in> set [0..<NPROC]" "?P i" for i
    proof (rule ccontr)
      assume ne: "i \<noteq> c"
      have lt: "i < NPROC" using i(1) by simp
      have "i \<noteq> p" using i(2) by auto
      then have "p_parent (procs s1 i) = Some p" "p_state (procs s1 i) = ZOMBIE" using i(2) by simp_all
      moreover have "procs s1 i = woken (ProcChan p) (procs s i)" using ps [THEN spec, of i] lt ne by simp
      ultimately show False using assms(8) lt ne by simp
    qed
  qed
  moreover have "p_kstack (procs (run p s1) c) \<noteq> 0" using pc assms(4,9) by simp
  from free_page_procs [OF this] obtain s3 where "free_page (p_kstack (procs (run p s1) c)) (run p s1) = Inr ((), s3)"
    "procs s3 = procs (run p s1)" by blast
  ultimately have "wait_iter (run p s1) = Inr (Reaped (p_pid (procs s c)) status, upd_proc c
      (\<lambda>x. x\<lparr>p_kstack := 0, p_state := UNUSED, p_pid := 0, p_parent := None, p_name := (p_name x)[0 := 0]\<rparr>) s3)"
    using pc assms(4) by (simp add: wait_iter_def myproc_def ret_def Let_def)
  then show ?thesis using x pp by auto
qed

definition proc_boot :: proc where
  "proc_boot = \<lparr>p_ra = 0, p_sp = 0, p_state = UNUSED, p_pid = 0, p_kstack = 0, p_name = replicate 16 0,
     p_parent = None, p_chan = NoChan, p_exit_code = 0, p_killed = False, p_sz = 0, p_pagetable = 0,
     p_trapframe = 0, p_ofile = (\<lambda>_. None)\<rparr>"

definition ptab_boot :: ptab where
  "ptab_boot = bcache.extend bcache_boot \<lparr>procs = (\<lambda>_. proc_boot), current = None, nextpid = 1\<rparr>"

lemma ptab_boot_fields [simp]:
  "procs ptab_boot = (\<lambda>_. proc_boot)" "current ptab_boot = None" "nextpid ptab_boot = 1"
  by (simp_all add: ptab_boot_def bcache.defs bcache_boot_def vblk.defs vblk_boot_def klog.defs klog_boot_def)

text \<open>A parent waiting in slot 2 and its child running in slot 3.\<close>

definition two_procs :: ptab where
  "two_procs = ptab_boot\<lparr>procs := (\<lambda>_. proc_boot)
     (2 := proc_boot\<lparr>p_state := SLEEPING, p_pid := 1, p_chan := ProcChan 2\<rparr>,
      3 := proc_boot\<lparr>p_state := RUNNING, p_pid := 2, p_parent := Some 2, p_kstack := 0x80400000\<rparr>), current := Some 3\<rparr>"

theorem exit_wakes_waiting_parent_witness:
  "\<exists>s1 s2. exit_process 0 7 two_procs = Inr ((), s1) \<and> p_state (procs s1 2) = RUNNABLE \<and>
    wait_iter (run 2 s1) = Inr (Reaped 2 7, s2)"
proof -
  have f: "current two_procs = Some 3" "procs two_procs 3 = proc_boot\<lparr>p_state := RUNNING, p_pid := 2,
      p_parent := Some 2, p_kstack := 0x80400000\<rparr>"
    "procs two_procs 2 = proc_boot\<lparr>p_state := SLEEPING, p_pid := 1, p_chan := ProcChan 2\<rparr>"
    by (simp_all add: two_procs_def)
  have one: "i = 3" if "p_parent (procs two_procs i) = Some 2" for i
    using that by (auto simp: two_procs_def proc_boot_def split: if_splits)
  have "\<forall>i < NPROC. p_parent (procs two_procs i) = Some 2 \<longrightarrow> p_state (procs two_procs i) = ZOMBIE \<longrightarrow> i = 3"
    using one by blast
  from exit_wakes_waiting_parent [OF f(1) _ _ _ _ _ _ this, of 0 7] obtain s1 s2 where
    "exit_process 0 7 two_procs = Inr ((), s1)" "p_state (procs s1 2) = RUNNABLE"
    "wait_iter (run 2 s1) = Inr (Reaped (p_pid (procs two_procs 3)) 7, s2)"
    by (auto simp: f NPROC_def)
  then show ?thesis by (auto simp: f(2))
qed

end
