(* ===== verification/Log.thy ===== *)
theory Log
  imports Proc
begin

text \<open>
  The write-ahead log (log.c). A transaction's blocks stay in the cache, marked, until
  the last operation ends; \<open>commit\<close> copies them to the log area, writes the header (the
  commit point), installs them and clears the header. Recovery installs what a header on
  the medium names. C \<open>int\<close> values are integers; an index past \<open>block[30]\<close> is a fault.
\<close>

section \<open>State\<close>

definition LOGBLOCKS :: nat where "LOGBLOCKS = 30"

record logst = ptab +
  lg_start :: int
  lg_size :: int
  lg_outstanding :: int
  lg_committing :: bool
  lg_dev :: int
  lh_n :: int
  lh_block :: "nat \<Rightarrow> int"
  lg_lock :: bool

text \<open>A 32-bit integer in the bytes of a block: \<open>*(int *)(bs + off)\<close>, read and written.\<close>

definition get_int :: "u8 list \<Rightarrow> nat \<Rightarrow> int" where
  "get_int bs off = sint (le_word (take 4 (drop off bs)) :: u32)"

definition put_int :: "nat \<Rightarrow> int \<Rightarrow> u8 list \<Rightarrow> u8 list" where
  "put_int off v bs = take off bs @ le_bytes 4 (of_int v :: u32) @ drop (off + 4) bs"

text \<open>The block number argument of \<open>bread\<close> for an \<open>int\<close> expression.\<close>

definition blkno :: "int \<Rightarrow> u32" where
  "blkno i = of_int i"

section \<open>Operations\<close>

text \<open>Nothing else runs while the lock is busy-waited for.\<close>

definition acquire_log :: "'a logst_scheme \<Rightarrow> (unit, 'a logst_scheme) outcome" where
  "acquire_log s = (if lg_lock s then Inl Hang else ret () (s\<lparr>lg_lock := True\<rparr>))"

definition release_log :: "'a logst_scheme \<Rightarrow> 'a logst_scheme" where
  "release_log s = s\<lparr>lg_lock := False\<rparr>"

type_synonym 's device = "nat \<Rightarrow> 's \<Rightarrow> 's"

definition install_step ::
  "('a logst_scheme) device \<Rightarrow> bool \<Rightarrow> nat \<Rightarrow> 'a logst_scheme \<Rightarrow> (unit, 'a logst_scheme) outcome" where
  "install_step hw recovering tail s =
     bnd (bread hw (blkno (lg_dev s)) (blkno (lg_start s + int tail + 1)) s) (\<lambda>lbuf s.
     if \<not> tail < LOGBLOCKS then Inl (Fault ''log.lh.block'')
     else
       bnd (bread hw (blkno (lg_dev s)) (blkno (lh_block s tail)) s) (\<lambda>dbuf s.
       let s = set_buf_data dbuf (b_data (bufs s lbuf)) s in
       bnd (bwrite hw dbuf s) (\<lambda>_ s.
       let s = (if \<not> recovering then set_buf_disk dbuf False s else s) in
       bnd (brelse lbuf s) (\<lambda>_ s. brelse dbuf s))))"

definition install_trans ::
  "('a logst_scheme) device \<Rightarrow> bool \<Rightarrow> 'a logst_scheme \<Rightarrow> (unit, 'a logst_scheme) outcome" where
  "install_trans hw recovering s = for_each [0..<nat (lh_n s)] (install_step hw recovering) s"

definition read_head :: "('a logst_scheme) device \<Rightarrow> 'a logst_scheme \<Rightarrow> (unit, 'a logst_scheme) outcome" where
  "read_head hw s =
     bnd (bread hw (blkno (lg_dev s)) (blkno (lg_start s)) s) (\<lambda>b s.
     let d = b_data (bufs s b);
         s = s\<lparr>lh_n := get_int d 0\<rparr>
     in bnd (for_each [0..<nat (lh_n s)] (\<lambda>i s.
          if \<not> i < LOGBLOCKS then Inl (Fault ''log.lh.block'')
          else ret () (s\<lparr>lh_block := (lh_block s)(i := get_int d (4 + 4 * i))\<rparr>)) s)
        (\<lambda>_ s. brelse b s))"

definition header_bytes :: "int \<Rightarrow> (nat \<Rightarrow> int) \<Rightarrow> u8 list \<Rightarrow> u8 list" where
  "header_bytes n blocks d = fold (\<lambda>i. put_int (4 + 4 * i) (blocks i)) [0..<nat n] (put_int 0 n d)"

definition write_head :: "('a logst_scheme) device \<Rightarrow> 'a logst_scheme \<Rightarrow> (unit, 'a logst_scheme) outcome" where
  "write_head hw s =
     bnd (bread hw (blkno (lg_dev s)) (blkno (lg_start s)) s) (\<lambda>b s.
     if nat (lh_n s) > LOGBLOCKS then Inl (Fault ''log.lh.block'')
     else
       bnd (bwrite hw b (set_buf_data b (header_bytes (lh_n s) (lh_block s) (b_data (bufs s b))) s)) (\<lambda>_ s.
       brelse b s))"

definition recover_from_log ::
  "('a logst_scheme) device \<Rightarrow> u64 \<Rightarrow> 'a logst_scheme \<Rightarrow> (unit, 'a logst_scheme) outcome" where
  "recover_from_log hw time s =
     bnd (read_head hw s) (\<lambda>_ s.
     if lh_n s > 0 then
       bnd (klog time LOG_INFO ''Recovering %d blocks from log...\<newline>'' [of_int_arg (lh_n s)] s) (\<lambda>_ s.
       bnd (install_trans hw True s) (\<lambda>_ s.
       write_head hw (s\<lparr>lh_n := 0\<rparr>)))
     else ret () s)"

definition write_log_step ::
  "('a logst_scheme) device \<Rightarrow> nat \<Rightarrow> 'a logst_scheme \<Rightarrow> (unit, 'a logst_scheme) outcome" where
  "write_log_step hw tail s =
     bnd (bread hw (blkno (lg_dev s)) (blkno (lg_start s + int tail + 1)) s) (\<lambda>to s.
     if \<not> tail < LOGBLOCKS then Inl (Fault ''log.lh.block'')
     else
       bnd (bread hw (blkno (lg_dev s)) (blkno (lh_block s tail)) s) (\<lambda>src s.
       bnd (bwrite hw to (set_buf_data to (b_data (bufs s src)) s)) (\<lambda>_ s.
       bnd (brelse src s) (\<lambda>_ s. brelse to s))))"

definition write_log :: "('a logst_scheme) device \<Rightarrow> 'a logst_scheme \<Rightarrow> (unit, 'a logst_scheme) outcome" where
  "write_log hw s = for_each [0..<nat (lh_n s)] (write_log_step hw) s"

definition commit :: "('a logst_scheme) device \<Rightarrow> 'a logst_scheme \<Rightarrow> (unit, 'a logst_scheme) outcome" where
  "commit hw s =
     (if lh_n s > 0 then
        bnd (write_log hw s) (\<lambda>_ s.
        bnd (write_head hw s) (\<lambda>_ s.
        bnd (install_trans hw False s) (\<lambda>_ s.
        write_head hw (s\<lparr>lh_n := 0\<rparr>))))
      else ret () s)"

text \<open>\<open>sizeof(struct logheader)\<close> is 124, so the first test never fails.\<close>

definition init_log ::
  "('a logst_scheme) device \<Rightarrow> u64 \<Rightarrow> int \<Rightarrow> u32 \<Rightarrow> u32 \<Rightarrow> 'a logst_scheme \<Rightarrow> (unit, 'a logst_scheme) outcome" where
  "init_log hw time dev sb_logstart sb_nlog s =
     (if 4 + 4 * LOGBLOCKS \<ge> BSIZE then Inl (Panic ''init_log: too big logheader'')
      else
        (let s = s\<lparr>lg_start := sint sb_logstart, lg_size := sint sb_nlog, lg_dev := dev, lg_lock := False\<rparr> in
         bnd (recover_from_log hw time s) (\<lambda>_ s.
         klog time LOG_INFO ''Log system initialized: dev=%d start=%d size=%d\<newline>''
           [of_int_arg dev, of_int_arg (lg_start s), of_int_arg (lg_size s)] s)))"

text \<open>
  \<open>begin_op\<close> either enters the transaction or puts the caller to sleep (with the lock
  held); \<open>begin_op_iter\<close> is one iteration of its loop, which a woken caller continues with.
\<close>

datatype begin_result = Entered | Asleep

definition begin_op_iter :: "'a logst_scheme \<Rightarrow> begin_result \<times> 'a logst_scheme" where
  "begin_op_iter s =
     (if lg_committing s then (Asleep, sleep LogChan s)
      else if lh_n s + (lg_outstanding s + 1) * 5 > lg_size s - 5 then (Asleep, sleep LogChan s)
      else (Entered, release_log (s\<lparr>lg_outstanding := lg_outstanding s + 1\<rparr>)))"

definition begin_op :: "'a logst_scheme \<Rightarrow> (begin_result, 'a logst_scheme) outcome" where
  "begin_op s = bnd (acquire_log s) (\<lambda>_ s. let (r, s) = begin_op_iter s in ret r s)"

definition end_op :: "('a logst_scheme) device \<Rightarrow> 'a logst_scheme \<Rightarrow> (unit, 'a logst_scheme) outcome" where
  "end_op hw s =
     bnd (acquire_log s) (\<lambda>_ s.
     let s = s\<lparr>lg_outstanding := lg_outstanding s - 1\<rparr> in
     if lg_committing s then Inl (Panic ''log: committing'')
     else
       (let (do_commit, s) =
          (if lg_outstanding s = 0 then (True, s\<lparr>lg_committing := True\<rparr>) else (False, wakeup LogChan s));
            s = release_log s
        in if do_commit then
             bnd (commit hw s) (\<lambda>_ s.
             bnd (acquire_log s) (\<lambda>_ s.
             ret () (release_log (wakeup LogChan (s\<lparr>lg_committing := False\<rparr>)))))
           else ret () s))"

text \<open>The search of the block in the header; the comparison is one of 32-bit values.\<close>

definition log_index :: "'a logst_scheme \<Rightarrow> u32 \<Rightarrow> nat" where
  "log_index s n = (case List.find (\<lambda>i. blkno (lh_block s i) = n) [0..<nat (lh_n s)] of
     Some i \<Rightarrow> i | None \<Rightarrow> nat (lh_n s))"

definition log_write :: "nat \<Rightarrow> 'a logst_scheme \<Rightarrow> (unit, 'a logst_scheme) outcome" where
  "log_write b s =
     bnd (acquire_log s) (\<lambda>_ s.
     if lh_n s \<ge> lg_size s - 1 then Inl (Panic ''log: too big'')
     else if lg_outstanding s < 1 then Inl (Panic ''log: outside of trans'')
     else
       (let n = b_blockno (bufs s b); i = log_index s n in
        if int i = lh_n s \<and> \<not> i < LOGBLOCKS then Inl (Fault ''log.lh.block'')
        else
          (let s = (if int i = lh_n s
                    then s\<lparr>lh_block := (lh_block s)(i := sint n), lh_n := lh_n s + 1\<rparr> else s);
               s = set_buf_disk b True s
           in ret () (release_log s))))"

section \<open>The header block\<close>

lemma length_put_int [simp]: "off + 4 \<le> length d \<Longrightarrow> length (put_int off v d) = length d"
  by (simp add: put_int_def)

lemma get_put_int:
  assumes "off + 4 \<le> length d"
  shows "get_int (put_int off v d) off = sint (of_int v :: u32)"
proof -
  have "take 4 (drop off (put_int off v d)) = le_bytes 4 (of_int v :: u32)"
    using assms by (simp add: put_int_def)
  then show ?thesis by (simp add: get_int_def le_word_le_bytes)
qed

lemma get_put_int_other:
  assumes "off + 4 \<le> length d" and "off' + 4 \<le> off \<or> off + 4 \<le> off'"
  shows "get_int (put_int off v d) off' = get_int d off'"
proof -
  have "take 4 (drop off' (put_int off v d)) = take 4 (drop off' d)"
    using assms by (auto intro!: nth_equalityI simp: put_int_def nth_append)
  then show ?thesis by (simp add: get_int_def)
qed

lemma blkno_sint [simp]: "blkno (sint (of_int v :: u32)) = blkno v" "blkno (sint w) = w" for w :: u32
  by (simp_all add: blkno_def)

text \<open>Reading a header block back gives the block numbers written to it.\<close>

lemma header_fold:
  fixes blocks :: "nat \<Rightarrow> int"
  assumes "k \<le> LOGBLOCKS" and "length d = BSIZE"
  defines "h \<equiv> fold (\<lambda>i. put_int (4 + 4 * i) (blocks i)) [0..<k] d"
  shows "length h = BSIZE \<and> get_int h 0 = get_int d 0 \<and> (\<forall>i < k. get_int h (4 + 4 * i) = sint (of_int (blocks i) :: u32))"
  using assms(1) unfolding h_def
proof (induction k)
  case 0
  then show ?case using assms(2) by simp
next
  case (Suc k)
  let ?h = "fold (\<lambda>i. put_int (4 + 4 * i) (blocks i)) [0..<k] d"
  have IH: "length ?h = BSIZE" "get_int ?h 0 = get_int d 0"
    "\<forall>i < k. get_int ?h (4 + 4 * i) = sint (of_int (blocks i) :: u32)" using Suc by simp_all
  have off: "4 + 4 * k + 4 \<le> length ?h" using Suc.prems IH(1) by (simp add: LOGBLOCKS_def BSIZE_def)
  have "get_int (put_int (4 + 4 * k) (blocks k) ?h) (4 + 4 * i) = sint (of_int (blocks i) :: u32)" if "i < Suc k" for i
  proof (cases "i = k")
    case True
    then show ?thesis using get_put_int [OF off] by simp
  next
    case False
    then show ?thesis using that IH(3) get_put_int_other [OF off, of "4 + 4 * i"] by simp
  qed
  then show ?case using IH off get_put_int_other [OF off, of 0] by simp
qed

lemma header_bytes_spec:
  assumes "0 \<le> n" and "n \<le> int LOGBLOCKS" and "length d = BSIZE"
  shows "length (header_bytes n blocks d) = BSIZE" and "get_int (header_bytes n blocks d) 0 = n"
    and "i < nat n \<Longrightarrow> blkno (get_int (header_bytes n blocks d) (4 + 4 * i)) = blkno (blocks i)"
proof -
  have l: "length (put_int 0 n d) = BSIZE" using assms(3) by (simp add: BSIZE_def)
  have k: "nat n \<le> LOGBLOCKS" using assms(2) by simp
  note H = header_fold [OF k l, of blocks]
  have "sint (of_int n :: u32) = n"
    using assms(1,2) by (simp add: LOGBLOCKS_def signed_of_int signed_take_bit_int_eq_self)
  then have "get_int (put_int 0 n d) 0 = n" using get_put_int [of 0 d n] assms(3) by (simp add: BSIZE_def)
  then show "length (header_bytes n blocks d) = BSIZE" "get_int (header_bytes n blocks d) 0 = n"
    using H by (simp_all add: header_bytes_def)
  show "blkno (get_int (header_bytes n blocks d) (4 + 4 * i)) = blkno (blocks i)" if "i < nat n"
    using H that by (simp add: header_bytes_def blkno_def)
qed

lemma header_bytes_0: "header_bytes 0 blocks d = put_int 0 0 d"
  by (simp add: header_bytes_def)

section \<open>Sequences of block writes\<close>

definition apply_writes :: "(u32 \<times> u8 list) list \<Rightarrow> (u32 \<Rightarrow> u8 list) \<Rightarrow> u32 \<Rightarrow> u8 list" where
  "apply_writes W m = fold (\<lambda>(n, d) m. m(n := d)) W m"

text \<open>The cache after writing blocks through it.\<close>

definition c_writes :: "(u32 \<times> u8 list) list \<Rightarrow> cache \<Rightarrow> cache" where
  "c_writes W v = v\<lparr>content := apply_writes W (content v), dirty := (\<lambda>n. dirty v n \<and> n \<notin> fst ` set W),
     medium := apply_writes W (medium v), writes := writes v @ W\<rparr>"

lemma apply_writes_append [simp]: "apply_writes (V @ W) m = apply_writes W (apply_writes V m)"
  by (simp add: apply_writes_def)

lemma apply_writes_Nil [simp]: "apply_writes [] m = m"
  by (simp add: apply_writes_def)

lemma apply_writes_Cons [simp]: "apply_writes ((n, d) # W) m = apply_writes W (m(n := d))"
  by (simp add: apply_writes_def)

lemma apply_writes_other: "n \<notin> fst ` set W \<Longrightarrow> apply_writes W m n = m n"
  by (induction W arbitrary: m) auto

text \<open>Writing blocks with the contents a function gives them.\<close>

lemma apply_writes_map:
  assumes "\<And>i. i \<in> set xs \<Longrightarrow> g i = f (b i)"
  shows "apply_writes (map (\<lambda>i. (b i, g i)) xs) m n = (if n \<in> b ` set xs then f n else m n)"
  using assms
proof (induction xs arbitrary: m)
  case Nil
  then show ?case by simp
next
  case (Cons x xs)
  then show ?case by (cases "n \<in> b ` set xs") auto
qed

lemma c_writes_simps [simp]:
  "content (c_writes W v) = apply_writes W (content v)" "medium (c_writes W v) = apply_writes W (medium v)"
  "refs (c_writes W v) = refs v" "writes (c_writes W v) = writes v @ W"
  "dirty (c_writes W v) n \<longleftrightarrow> dirty v n \<and> n \<notin> fst ` set W"
  by (simp_all add: c_writes_def)

lemma c_writes_Nil [simp]: "c_writes [] v = v"
  by (simp add: c_writes_def)

lemma c_writes_append: "c_writes W (c_writes V v) = c_writes (V @ W) v"
  by (simp add: c_writes_def image_Un)

lemma c_write_set: "c_write n (c_set n d v) = c_writes [(n, d)] v"
  by (auto simp: c_writes_def c_write_def c_set_def fun_eq_iff)

lemma pinned_c_writes: "pinned (c_writes W v) \<subseteq> pinned v"
  by (auto simp: pinned_def)

text \<open>A run of block copies, each with one of the two orders of the cache's interface.\<close>

context block_cache
begin

lemma copies_spec:
  assumes ok: "ok s" and pin: "pinned (view s) \<subseteq> P" and refs: "\<And>n. refs (view s) n + 1 < 2 ^ 32"
    and step: "\<And>i t. i < n \<Longrightarrow> frame s t \<Longrightarrow> ok t \<Longrightarrow> pinned (view t) \<subseteq> P \<Longrightarrow> refs (view t) = refs (view s) \<Longrightarrow>
      step i t = copy_dst_first (dst i) (src i) t \<or> step i t = copy_src_first u (dst i) (src i) t"
    and us: "\<And>i. i < n \<Longrightarrow> usable (dst i) \<and> usable (src i) \<and> card (insert (dst i) (insert (src i) P)) \<le> NBUF"
    and ne: "\<And>i j. i < n \<Longrightarrow> j < n \<Longrightarrow> dst i \<noteq> src j"
  shows "\<exists>s'. for_each [0..<n] step s = Inr ((), s') \<and> ok s' \<and> frame s s' \<and>
    view s' = c_writes (map (\<lambda>i. (dst i, content (view s) (src i))) [0..<n]) (view s)"
  using step us ne
proof (induction n)
  case 0
  then show ?case using ok frame_refl by (simp add: ret_def)
next
  case (Suc n)
  let ?W = "map (\<lambda>i. (dst i, content (view s) (src i))) [0..<n]"
  have "\<exists>s1. for_each [0..<n] step s = Inr ((), s1) \<and> ok s1 \<and> frame s s1 \<and> view s1 = c_writes ?W (view s)"
    by (rule Suc.IH) (use Suc.prems less_SucI in blast)+
  then obtain s1 where s1: "for_each [0..<n] step s = Inr ((), s1)" "ok s1" "frame s s1"
    "view s1 = c_writes ?W (view s)" by blast
  have pin1: "pinned (view s1) \<subseteq> P" and refs1: "refs (view s1) = refs (view s)"
    using pin pinned_c_writes [of ?W "view s"] by (auto simp: s1(4))
  then have "insert (dst n) (insert (src n) (pinned (view s1))) \<subseteq> insert (dst n) (insert (src n) P)" by blast
  then have room: "card (insert (dst n) (insert (src n) (pinned (view s1)))) \<le> NBUF"
    using card_mono [OF finite] Suc.prems(2) [of n] by (meson lessI order_trans)
  have "dst i \<noteq> src n" if "i < n" for i using Suc.prems(3) [of i n] that by simp
  then have "src n \<notin> dst ` {..<n}" by (metis imageE lessThan_iff)
  then have "src n \<notin> fst ` set ?W" by (simp add: image_image lessThan_atLeast0)
  then have d: "content (view s1) (src n) = content (view s) (src n)"
    by (simp add: s1(4) apply_writes_other)
  have r: "refs (view s1) (dst n) + 1 < 2 ^ 32" "refs (view s1) (src n) + 1 < 2 ^ 32"
    using refs by (simp_all add: s1(4))
  have "usable (dst n)" "usable (src n)" "dst n \<noteq> src n" using Suc.prems(2) [of n] Suc.prems(3) [of n n] by auto
  note C = copy_spec(1) [OF s1(2) this room r] copy_spec(2) [OF s1(2) this room r, of u]
  have "\<exists>s2. step n s1 = Inr ((), s2) \<and> ok s2 \<and> frame s1 s2 \<and>
      view s2 = c_write (dst n) (c_set (dst n) (content (view s1) (src n)) (view s1))"
    using Suc.prems(1) [OF lessI s1(3,2) pin1 refs1]
  proof (elim disjE, goal_cases)
    case 1
    then show ?case using C(1) by simp
  next
    case 2
    then show ?case using C(2) by simp
  qed
  then obtain s2 where s2: "step n s1 = Inr ((), s2)" "ok s2" "frame s1 s2"
    "view s2 = c_writes [(dst n, content (view s) (src n))] (view s1)"
    by (auto simp: d c_write_set)
  have "frame s s2" by (rule frame_trans [OF s1(3) s2(3)])
  then show ?case using s1(1,4) s2 by (simp add: for_each_append c_writes_append ret_def)
qed

end

section \<open>Layout and transactions\<close>

definition log_blk :: "int \<Rightarrow> nat \<Rightarrow> u32" where
  "log_blk start i = blkno (start + int i)"

text \<open>The log occupies 30 blocks: the header's and one for each of at most 29 blocks of a transaction.\<close>

definition log_area :: "int \<Rightarrow> u32 set" where
  "log_area start = log_blk start ` {..<LOGBLOCKS}"

definition area_ok :: "int \<Rightarrow> bool" where
  "area_ok start \<longleftrightarrow> 0 < start \<and> start + 31 \<le> 2 ^ 31"

definition home :: "'a logst_scheme \<Rightarrow> nat \<Rightarrow> u32" where
  "home s i = blkno (lh_block s i)"

text \<open>A transaction names fewer than 30 blocks outside the log; the caller of \<open>commit\<close> holds room for one more.\<close>

definition trans_ok :: "'a logst_scheme \<Rightarrow> bool" where
  "trans_ok s \<longleftrightarrow> lg_dev s = 0 \<and> area_ok (lg_start s) \<and> 0 \<le> lh_n s \<and> lh_n s < int LOGBLOCKS \<and>
     (\<forall>i < nat (lh_n s). usable (home s i) \<and> home s i \<notin> log_area (lg_start s))"

lemma unat_blkno: "0 \<le> k \<Longrightarrow> k < 2 ^ 32 \<Longrightarrow> unat (blkno k) = nat k"
  by (simp add: blkno_def unsigned_of_int take_bit_int_eq_self)

lemma log_blk_unat: "area_ok start \<Longrightarrow> i \<le> LOGBLOCKS \<Longrightarrow> unat (log_blk start i) = nat (start + int i)"
  unfolding log_blk_def by (rule unat_blkno) (simp_all add: area_ok_def LOGBLOCKS_def)

lemma usable_log_blk: "area_ok start \<Longrightarrow> i \<le> LOGBLOCKS \<Longrightarrow> usable (log_blk start i)"
  using log_blk_unat [of start i]
  by (auto simp: usable_def small_block_def area_ok_def LOGBLOCKS_def unat_eq_0 [symmetric])

lemma log_blk_eq:
  "area_ok start \<Longrightarrow> i \<le> LOGBLOCKS \<Longrightarrow> j \<le> LOGBLOCKS \<Longrightarrow> log_blk start i = log_blk start j \<longleftrightarrow> i = j"
  using log_blk_unat [of start i] log_blk_unat [of start j] by (auto simp: area_ok_def)

lemma log_blk_in [intro]: "i < LOGBLOCKS \<Longrightarrow> log_blk start i \<in> log_area start"
  by (simp add: log_area_def)

lemma log_head_in [intro, simp]: "log_blk start 0 \<in> log_area start"
  by (rule log_blk_in) (simp add: LOGBLOCKS_def)

lemma bc_frame_log:
  assumes "bc_frame s s'"
  shows "lg_start s' = lg_start s" "lg_size s' = lg_size s" "lg_dev s' = lg_dev s" "lh_n s' = lh_n s"
    "lh_block s' = lh_block s" "lg_outstanding s' = lg_outstanding s" "lg_committing s' = lg_committing s"
    "lg_lock s' = lg_lock s" "procs s' = procs s" "current s' = current s" "logst.more s' = logst.more s"
  using assms by (cases s; cases s'; simp add: bc_frame_def)+

lemma bc_frame_home: "bc_frame s s' \<Longrightarrow> home s' = home s"
  by (rule ext) (simp add: home_def bc_frame_log(5))

section \<open>The steps are the cache's block copies\<close>

lemma install_step_eq:
  assumes "virtio_blk hw" and "bc_ok s" and "lg_dev s = 0" and "i < LOGBLOCKS" and "area_ok (lg_start s)"
    and "card (insert (log_blk (lg_start s) (Suc i)) (pinned (cview s))) \<le> NBUF"
    and "refs (cview s) (log_blk (lg_start s) (Suc i)) + 1 < 2 ^ 32"
  shows "install_step hw r i s = bc.copy_src_first hw (\<not> r) (home s i) (log_blk (lg_start s) (Suc i)) s"
proof -
  have us: "usable (log_blk (lg_start s) (Suc i))" using usable_log_blk assms(4,5) by simp
  obtain j s1 where b: "bread hw 0 (log_blk (lg_start s) (Suc i)) s = Inr (j, s1)" "bc_frame s s1"
    using bc.bread_law [OF conjI [OF assms(1,2)] us assms(6,7)] by blast
  have n: "blkno (lg_start s + int i + 1) = log_blk (lg_start s) (Suc i)" by (simp add: log_blk_def algebra_simps)
  have z: "blkno 0 = 0" by (simp add: blkno_def)
  show ?thesis
    using assms(3,4) bc_frame_log [OF b(2)]
    by (simp add: install_step_def bc.copy_src_first_def bc.finish_def [abs_def] n z b(1) home_def Let_def)
qed

lemma write_log_step_eq:
  assumes "virtio_blk hw" and "bc_ok s" and "lg_dev s = 0" and "i < LOGBLOCKS" and "area_ok (lg_start s)"
    and "card (insert (log_blk (lg_start s) (Suc i)) (pinned (cview s))) \<le> NBUF"
    and "refs (cview s) (log_blk (lg_start s) (Suc i)) + 1 < 2 ^ 32"
  shows "write_log_step hw i s = bc.copy_dst_first hw (log_blk (lg_start s) (Suc i)) (home s i) s"
proof -
  have us: "usable (log_blk (lg_start s) (Suc i))" using usable_log_blk assms(4,5) by simp
  obtain j s1 where b: "bread hw 0 (log_blk (lg_start s) (Suc i)) s = Inr (j, s1)" "bc_frame s s1"
    using bc.bread_law [OF conjI [OF assms(1,2)] us assms(6,7)] by blast
  have n: "blkno (lg_start s + int i + 1) = log_blk (lg_start s) (Suc i)" by (simp add: log_blk_def algebra_simps)
  have z: "blkno 0 = 0" by (simp add: blkno_def)
  show ?thesis
    using assms(3,4) bc_frame_log [OF b(2)]
    by (simp add: write_log_step_def bc.copy_dst_first_def bc.finish_def [abs_def] n z b(1) home_def Let_def)
qed

section \<open>What each part of a commit does to the cache and the medium\<close>

definition has_room :: "'a logst_scheme \<Rightarrow> bool" where
  "has_room s \<longleftrightarrow> bc_ok s \<and> card (pinned (cview s)) < NBUF \<and> (\<forall>n. refs (cview s) n + 1 < 2 ^ 32)"

lemma has_roomD:
  assumes "has_room s"
  shows "bc_ok s" "card (insert n (pinned (cview s))) \<le> NBUF" "refs (cview s) n + 1 < 2 ^ 32"
  using assms card_insert_le_m1 [of NBUF "pinned (cview s)" n] by (auto simp: has_room_def NBUF_def)

lemma has_room_writes: "has_room s \<Longrightarrow> bc_ok s' \<Longrightarrow> cview s' = c_writes W (cview s) \<Longrightarrow> has_room s'"
  using card_mono [OF finite pinned_c_writes [of W "cview s"]] by (simp add: has_room_def)

text \<open>The states between the steps of a commit.\<close>

definition after :: "(u32 \<times> u8 list) list \<Rightarrow> 'a logst_scheme \<Rightarrow> 'a logst_scheme \<Rightarrow> bool" where
  "after W s s' \<longleftrightarrow> bc_ok s' \<and> bc_frame s s' \<and> cview s' = c_writes W (cview s)"

lemma write_head_spec:
  assumes hw: "virtio_blk hw" and r: "has_room s" and dev: "lg_dev s = 0" and a: "area_ok (lg_start s)"
    and n: "0 \<le> lh_n s" "lh_n s \<le> int LOGBLOCKS"
  shows "\<exists>s'. write_head hw s = Inr ((), s') \<and> after [(log_blk (lg_start s) 0,
    header_bytes (lh_n s) (lh_block s) (content (cview s) (log_blk (lg_start s) 0)))] s s'"
proof -
  let ?H = "log_blk (lg_start s) 0" and ?f = "\<lambda>d s. header_bytes (lh_n s) (lh_block s) d"
  have us: "usable ?H" using usable_log_blk [OF a] by simp
  have ok: "virtio_blk hw \<and> bc_ok s" using hw has_roomD(1) [OF r] ..
  obtain j s1 where b: "bread hw 0 ?H s = Inr (j, s1)" "bc_frame s s1"
    using bc.bread_law [OF ok us has_roomD(2,3) [OF r]] by blast
  have "blkno (lg_start s) = ?H" and "blkno 0 = 0" by (simp_all add: log_blk_def blkno_def)
  moreover have "\<not> LOGBLOCKS < nat (lh_n s)" using n by simp
  ultimately have e: "write_head hw s = bc.update hw ?H ?f s"
    using dev bc_frame_log [OF b(2)] by (simp add: write_head_def bc.update_def b(1))
  let ?d = "header_bytes (lh_n s) (lh_block s) (content (cview s) ?H)"
  have f: "?f (content (cview s) ?H) s1 = ?d" if "bc_frame s s1" for s1 using bc_frame_log [OF that] by simp
  have "length ?d = BSIZE" using header_bytes_spec(1) [OF n] bc.data_len [OF ok us] by simp
  from bc.update_spec [OF ok us has_roomD(2,3) [OF r], of ?f, OF f this] show ?thesis
    unfolding e c_write_set by (auto simp: after_def)
qed

definition log_copies :: "'a logst_scheme \<Rightarrow> (u32 \<times> u8 list) list" where
  "log_copies s = map (\<lambda>i. (log_blk (lg_start s) (Suc i), content (cview s) (home s i))) [0..<nat (lh_n s)]"

definition installs :: "'a logst_scheme \<Rightarrow> (u32 \<times> u8 list) list" where
  "installs s = map (\<lambda>i. (home s i, content (cview s) (log_blk (lg_start s) (Suc i)))) [0..<nat (lh_n s)]"

lemma trans_okD:
  assumes "trans_ok s" and "i < nat (lh_n s)"
  shows "usable (home s i)" "usable (log_blk (lg_start s) (Suc i))" "i < LOGBLOCKS"
    "j < nat (lh_n s) \<Longrightarrow> home s i \<noteq> log_blk (lg_start s) (Suc j)"
    "j < nat (lh_n s) \<Longrightarrow> log_blk (lg_start s) (Suc j) \<noteq> home s i"
    "home s i \<noteq> log_blk (lg_start s) 0"
proof -
  have T: "area_ok (lg_start s)" "lh_n s < int LOGBLOCKS" "usable (home s i)" "home s i \<notin> log_area (lg_start s)"
    using assms by (simp_all add: trans_ok_def)
  have j: "Suc j < LOGBLOCKS" if "j < nat (lh_n s)" for j using that T(2) by simp
  show "usable (home s i)" "usable (log_blk (lg_start s) (Suc i))" "i < LOGBLOCKS"
    using T usable_log_blk j [OF assms(2)] by simp_all
  show "home s i \<noteq> log_blk (lg_start s) 0" using T(4) log_head_in by force
  show "home s i \<noteq> log_blk (lg_start s) (Suc j)" if "j < nat (lh_n s)"
    using T(4) log_blk_in [OF j [OF that]] by force
  then show "log_blk (lg_start s) (Suc j) \<noteq> home s i" if "j < nat (lh_n s)" using that by force
qed

lemma step_rooms:
  assumes "pinned v \<subseteq> P" and "card (insert a (insert b P)) \<le> k" and "finite P" and "x = a \<or> x = b"
  shows "card (insert x (pinned v)) \<le> k"
proof -
  have "insert x (pinned v) \<subseteq> insert a (insert b P)" using assms(1,4) by blast
  then show ?thesis using card_mono assms(2,3) by (meson finite_insert order_trans)
qed

lemma write_log_spec:
  assumes hw: "virtio_blk hw" and r: "has_room s" and t: "trans_ok s"
    and h: "\<And>i. i < nat (lh_n s) \<Longrightarrow> home s i \<in> pinned (cview s)"
  shows "\<exists>s'. write_log hw s = Inr ((), s') \<and> after (log_copies s) s s'"
proof -
  let ?L = "\<lambda>i. log_blk (lg_start s) (Suc i)" and ?P = "pinned (cview s)"
  have ok: "virtio_blk hw \<and> bc_ok s" using hw has_roomD(1) [OF r] ..
  have room: "card (insert (?L i) (insert (home s i) ?P)) \<le> NBUF" if "i < nat (lh_n s)" for i
    using has_roomD(2) [OF r] h [OF that] by (simp add: insert_absorb)
  have "\<exists>s'. for_each [0..<nat (lh_n s)] (write_log_step hw) s = Inr ((), s') \<and> (virtio_blk hw \<and> bc_ok s') \<and>
    bc_frame s s' \<and> cview s' = c_writes (map (\<lambda>i. (?L i, content (cview s) (home s i))) [0..<nat (lh_n s)]) (cview s)"
  proof (rule bc.copies_spec [OF ok subset_refl has_roomD(3) [OF r]])
    show "write_log_step hw i t = bc.copy_dst_first hw (?L i) (home s i) t \<or>
        write_log_step hw i t = bc.copy_src_first hw False (?L i) (home s i) t"
      if "i < nat (lh_n s)" "bc_frame s t" "virtio_blk hw \<and> bc_ok t" "pinned (cview t) \<subseteq> ?P"
        "refs (cview t) = refs (cview s)" for i t
    proof -
      note F = bc_frame_log [OF that(2)] bc_frame_home [OF that(2)]
      have "card (insert (?L i) (pinned (cview t))) \<le> NBUF"
        by (rule step_rooms [OF that(4) room [OF that(1)]]) simp_all
      then show ?thesis
        using write_log_step_eq [of hw t i] that(3) trans_okD [OF t that(1)] t has_roomD(3) [OF r] that(5)
        by (simp add: F trans_ok_def)
    qed
  qed (use trans_okD [OF t] room in blast)+
  then show ?thesis by (auto simp: write_log_def after_def log_copies_def)
qed

lemma install_spec:
  assumes hw: "virtio_blk hw" and r: "has_room s" and t: "trans_ok s"
    and room: "\<And>i. i < nat (lh_n s) \<Longrightarrow>
      card (insert (home s i) (insert (log_blk (lg_start s) (Suc i)) P)) \<le> NBUF"
    and P: "pinned (cview s) \<subseteq> P"
  shows "\<exists>s'. install_trans hw b s = Inr ((), s') \<and> after (installs s) s s'"
proof -
  let ?L = "\<lambda>i. log_blk (lg_start s) (Suc i)"
  have ok: "virtio_blk hw \<and> bc_ok s" using hw has_roomD(1) [OF r] ..
  have "\<exists>s'. for_each [0..<nat (lh_n s)] (install_step hw b) s = Inr ((), s') \<and> (virtio_blk hw \<and> bc_ok s') \<and>
    bc_frame s s' \<and> cview s' = c_writes (map (\<lambda>i. (home s i, content (cview s) (?L i))) [0..<nat (lh_n s)]) (cview s)"
  proof (rule bc.copies_spec [OF ok P has_roomD(3) [OF r]])
    show "install_step hw b i t = bc.copy_dst_first hw (home s i) (?L i) t \<or>
        install_step hw b i t = bc.copy_src_first hw (\<not> b) (home s i) (?L i) t"
      if "i < nat (lh_n s)" "bc_frame s t" "virtio_blk hw \<and> bc_ok t" "pinned (cview t) \<subseteq> P"
        "refs (cview t) = refs (cview s)" for i t
    proof -
      note F = bc_frame_log [OF that(2)] bc_frame_home [OF that(2)]
      have "card (insert (?L i) (pinned (cview t))) \<le> NBUF"
        by (rule step_rooms [OF that(4) room [OF that(1)]]) simp_all
      then show ?thesis
        using install_step_eq [of hw t i b] that(3) trans_okD [OF t that(1)] t has_roomD(3) [OF r] that(5)
        by (simp add: F trans_ok_def)
    qed
  qed (use trans_okD [OF t] room in blast)+
  then show ?thesis by (auto simp: install_trans_def after_def installs_def)
qed

section \<open>A commit\<close>

lemma same_cache:
  assumes "vq s' = vq s" and "bufs s' = bufs s" and "img s' = img s" and "written s' = written s"
    and "bhead_prev s' = bhead_prev s" and "bhead_next s' = bhead_next s"
  shows "bc_ok s' = bc_ok s" "cview s' = cview s" "holds s' = holds s"
proof -
  have "next_of s' p = next_of s p" "prev_of s' p = prev_of s p" for p
    using assms by (cases p; simp add: next_of.simps prev_of.simps)+
  then have "lru s' = lru s" by (simp add: lru_def linked_def fun_eq_iff)
  then show "bc_ok s' = bc_ok s" using assms by (simp add: bc_ok_def)
  show "cview s' = cview s" using assms by (simp add: cview_def)
  show "holds s' = holds s" using assms by (simp add: holds_def fun_eq_iff)
qed

lemma lh_view [simp]:
  "bc_ok (s\<lparr>lh_n := x\<rparr>) = bc_ok s" "cview (s\<lparr>lh_n := x\<rparr>) = cview s" "has_room (s\<lparr>lh_n := x\<rparr>) = has_room s"
  "bc_ok (s\<lparr>lh_n := x, lh_block := y\<rparr>) = bc_ok s" "cview (s\<lparr>lh_n := x, lh_block := y\<rparr>) = cview s"
  "has_room (s\<lparr>lh_n := x, lh_block := y\<rparr>) = has_room s" "holds (s\<lparr>lh_n := x, lh_block := y\<rparr>) = holds s"
  using same_cache [of "s\<lparr>lh_n := x\<rparr>" s] same_cache [of "s\<lparr>lh_n := x, lh_block := y\<rparr>" s]
  by (simp_all add: has_room_def)

lemma bc_frame_lh: "bc_frame s s' \<Longrightarrow> bc_frame (s\<lparr>lh_n := x\<rparr>) (s'\<lparr>lh_n := x\<rparr>)"
  by (cases s; cases s'; simp add: bc_frame_def)

lemma after_refl: "bc_ok s \<Longrightarrow> after [] s s"
  by (simp add: after_def)

lemma after_trans: "after V s s1 \<Longrightarrow> after W s1 s2 \<Longrightarrow> after (V @ W) s s2"
  using bc_frame_trans [of s s1 s2] by (simp add: after_def c_writes_append)

lemma after_lh: "after W s s' \<Longrightarrow> after W (s\<lparr>lh_n := x\<rparr>) (s'\<lparr>lh_n := x\<rparr>)"
  using bc_frame_lh [of s s' x] by (simp add: after_def)

lemma afterD:
  assumes "after W s s'"
  shows "bc_ok s'" "cview s' = c_writes W (cview s)" "lg_start s' = lg_start s" "lg_dev s' = lg_dev s"
    "lh_n s' = lh_n s" "lh_block s' = lh_block s" "home s' = home s" "has_room s \<Longrightarrow> has_room s'"
    "trans_ok s' = trans_ok s" "pinned (cview s') \<subseteq> pinned (cview s)"
proof -
  show A: "bc_ok s'" "cview s' = c_writes W (cview s)" using assms by (simp_all add: after_def)
  have F: "bc_frame s s'" using assms by (simp add: after_def)
  show "lg_start s' = lg_start s" "lg_dev s' = lg_dev s" "lh_n s' = lh_n s" "lh_block s' = lh_block s" "home s' = home s"
    using bc_frame_log [OF F] bc_frame_home [OF F] by blast+
  then show "trans_ok s' = trans_ok s" by (simp add: trans_ok_def)
  show "has_room s \<Longrightarrow> has_room s'" using A has_room_writes by blast
  show "pinned (cview s') \<subseteq> pinned (cview s)" using A pinned_c_writes by simp
qed

definition home_writes :: "'a logst_scheme \<Rightarrow> (u32 \<times> u8 list) list" where
  "home_writes s = map (\<lambda>i. (home s i, content (cview s) (home s i))) [0..<nat (lh_n s)]"

definition head_bytes :: "'a logst_scheme \<Rightarrow> u8 list" where
  "head_bytes s = header_bytes (lh_n s) (lh_block s) (content (cview s) (log_blk (lg_start s) 0))"

text \<open>The block writes of a commit, in their order.\<close>

definition commit_writes :: "'a logst_scheme \<Rightarrow> (u32 \<times> u8 list) list" where
  "commit_writes s = log_copies s @ (log_blk (lg_start s) 0, head_bytes s) # home_writes s @
     [(log_blk (lg_start s) 0, put_int 0 0 (head_bytes s))]"

lemma slots_distinct:
  assumes "trans_ok s" and "j < nat (lh_n s)"
  shows "log_blk (lg_start s) 0 \<noteq> log_blk (lg_start s) (Suc j)"
    and "i < nat (lh_n s) \<Longrightarrow> log_blk (lg_start s) (Suc i) = log_blk (lg_start s) (Suc j) \<longleftrightarrow> i = j"
proof -
  have a: "area_ok (lg_start s)" using assms(1) by (simp add: trans_ok_def)
  have j: "Suc j \<le> LOGBLOCKS" using trans_okD(3) [OF assms] by simp
  show "log_blk (lg_start s) 0 \<noteq> log_blk (lg_start s) (Suc j)" using log_blk_eq [OF a _ j, of 0] by simp
  show "log_blk (lg_start s) (Suc i) = log_blk (lg_start s) (Suc j) \<longleftrightarrow> i = j" if "i < nat (lh_n s)"
    using log_blk_eq [OF a _ j, of "Suc i"] trans_okD(3) [OF assms(1) that] by simp
qed

lemma log_copies_other:
  assumes "trans_ok s"
  shows "apply_writes (log_copies s) m (log_blk (lg_start s) 0) = m (log_blk (lg_start s) 0)"
    and "i < nat (lh_n s) \<Longrightarrow> apply_writes (log_copies s) m (home s i) = m (home s i)"
proof -
  show "apply_writes (log_copies s) m (log_blk (lg_start s) 0) = m (log_blk (lg_start s) 0)"
    using slots_distinct(1) [OF assms] by (intro apply_writes_other) (force simp: log_copies_def)
  show "apply_writes (log_copies s) m (home s i) = m (home s i)" if "i < nat (lh_n s)"
    using trans_okD(4) [OF assms that] by (intro apply_writes_other) (force simp: log_copies_def)
qed

lemma log_copies_slot:
  assumes "trans_ok s" and "i < nat (lh_n s)"
  shows "apply_writes (log_copies s) m (log_blk (lg_start s) (Suc i)) = content (cview s) (home s i)"
proof -
  let ?L = "\<lambda>i. log_blk (lg_start s) (Suc i)"
  note inj = slots_distinct(2) [OF assms(1)]
  let ?f = "\<lambda>b. content (cview s) (home s (THE i. i < nat (lh_n s) \<and> ?L i = b))"
  have "(THE j. j < nat (lh_n s) \<and> ?L j = ?L i) = i" if "i < nat (lh_n s)" for i
    using that inj by blast
  then have "content (cview s) (home s i) = ?f (?L i)" if "i < nat (lh_n s)" for i using that by simp
  then have "apply_writes (log_copies s) m (?L i) =
      (if ?L i \<in> ?L ` set [0..<nat (lh_n s)] then ?f (?L i) else m (?L i))"
    unfolding log_copies_def by (intro apply_writes_map) simp
  then show ?thesis using assms(2) \<open>\<And>i. i < nat (lh_n s) \<Longrightarrow> content (cview s) (home s i) = ?f (?L i)\<close> by simp
qed

lemma commit_spec:
  assumes hw: "virtio_blk hw" and r: "has_room s" and t: "trans_ok s" and n: "0 < lh_n s"
    and h: "\<And>i. i < nat (lh_n s) \<Longrightarrow> home s i \<in> pinned (cview s)"
  shows "\<exists>s'. commit hw s = Inr ((), s') \<and> after (commit_writes s) (s\<lparr>lh_n := 0\<rparr>) s'"
proof -
  let ?H = "log_blk (lg_start s) 0"
  have T: "lg_dev s = 0" "area_ok (lg_start s)" "lh_n s \<le> int LOGBLOCKS" using t by (simp_all add: trans_ok_def)
  obtain s1 where s1: "write_log hw s = Inr ((), s1)" "after (log_copies s) s s1"
    using write_log_spec [OF hw r t h] by blast
  note A1 = afterD [OF s1(2)]
  have n1: "0 \<le> lh_n s1" "lh_n s1 \<le> int LOGBLOCKS" "lg_dev s1 = 0" "area_ok (lg_start s1)" using n T A1 by simp_all
  obtain s2 where s2: "write_head hw s1 = Inr ((), s2)" "after [(?H, head_bytes s)] s1 s2"
    using write_head_spec [OF hw A1(8) [OF r] n1(3,4,1,2)] by (auto simp: A1 log_copies_other(1) [OF t] head_bytes_def)
  note A2 = afterD [OF s2(2)]
  have t2: "trans_ok s2" and r2: "has_room s2" using A1 A2 t r by simp_all
  have room: "card (insert (home s2 i) (insert (log_blk (lg_start s2) (Suc i)) (pinned (cview s)))) \<le> NBUF"
    if "i < nat (lh_n s2)" for i
    using has_roomD(2) [OF r] h [of i] that by (simp add: A1 A2 insert_absorb insert_commute)
  have "pinned (cview s2) \<subseteq> pinned (cview s)" using A1(10) A2(10) by blast
  then obtain s3 where s3: "install_trans hw False s2 = Inr ((), s3)" "after (installs s2) s2 s3"
    using install_spec [OF hw r2 t2 room] by blast
  have inst: "installs s2 = home_writes s"
  proof -
    have "content (cview s2) (log_blk (lg_start s) (Suc i)) = content (cview s) (home s i)" if "i < nat (lh_n s)" for i
    proof -
      show ?thesis using log_copies_slot [OF t that] slots_distinct(1) [OF t that] by (simp add: A2(2) A1(2))
    qed
    then show ?thesis by (simp add: installs_def home_writes_def A1 A2)
  qed
  note A3 = afterD [OF s3(2)]
  let ?s3 = "s3\<lparr>lh_n := 0\<rparr>"
  have n3: "has_room ?s3" "lg_dev ?s3 = 0" "area_ok (lg_start ?s3)" "0 \<le> lh_n ?s3" "lh_n ?s3 \<le> int LOGBLOCKS"
    using r2 A3 A2 A1 T by simp_all
  have "?H \<notin> fst ` set (home_writes s)" using trans_okD(6) [OF t] by (force simp: home_writes_def)
  then have "content (cview ?s3) ?H = head_bytes s"
    using apply_writes_other [of ?H "home_writes s"] by (simp add: A3(2) A2(2) inst)
  with write_head_spec [OF hw n3] obtain s4 where
    s4: "write_head hw ?s3 = Inr ((), s4)" "after [(?H, put_int 0 0 (head_bytes s))] ?s3 s4"
    by (auto simp: A1 A2 A3 header_bytes_0)
  have "after (log_copies s @ [(?H, head_bytes s)] @ home_writes s) s s3"
    using after_trans [OF s1(2) after_trans [OF s2(2) s3(2)]] by (simp add: inst)
  from after_trans [OF after_lh [OF this] s4(2)] have "after (commit_writes s) (s\<lparr>lh_n := 0\<rparr>) s4"
    by (simp add: commit_writes_def)
  moreover have "commit hw s = Inr ((), s4)" using n by (simp add: commit_def s1(1) s2(1) s3(1) s4(1))
  ultimately show ?thesis by blast
qed

section \<open>Recovery\<close>

definition head_count :: "int \<Rightarrow> (u32 \<Rightarrow> u8 list) \<Rightarrow> int" where
  "head_count start m = get_int (m (log_blk start 0)) 0"

definition head_home :: "int \<Rightarrow> (u32 \<Rightarrow> u8 list) \<Rightarrow> nat \<Rightarrow> u32" where
  "head_home start m i = blkno (get_int (m (log_blk start 0)) (4 + 4 * i))"

definition head_ok :: "int \<Rightarrow> (u32 \<Rightarrow> u8 list) \<Rightarrow> bool" where
  "head_ok start m \<longleftrightarrow> area_ok start \<and> head_count start m < int LOGBLOCKS \<and>
     (\<forall>i < nat (head_count start m). usable (head_home start m i) \<and> head_home start m i \<notin> log_area start)"

text \<open>The block writes of a recovery from a medium, and the medium it leaves.\<close>

definition recovery_writes :: "int \<Rightarrow> (u32 \<Rightarrow> u8 list) \<Rightarrow> (u32 \<times> u8 list) list" where
  "recovery_writes start m =
     (if head_count start m > 0 then
        map (\<lambda>i. (head_home start m i, m (log_blk start (Suc i)))) [0..<nat (head_count start m)] @
          [(log_blk start 0, put_int 0 0 (m (log_blk start 0)))]
      else [])"

definition recovered :: "int \<Rightarrow> (u32 \<Rightarrow> u8 list) \<Rightarrow> u32 \<Rightarrow> u8 list" where
  "recovered start m = apply_writes (recovery_writes start m) m"

text \<open>The header a recovering kernel holds in memory.\<close>

definition load_head :: "u8 list \<Rightarrow> 'a logst_scheme \<Rightarrow> 'a logst_scheme" where
  "load_head d s = s\<lparr>lh_n := get_int d 0,
     lh_block := (\<lambda>i. if i < nat (get_int d 0) then get_int d (4 + 4 * i) else lh_block s i)\<rparr>"

lemma read_head_loop:
  "k \<le> LOGBLOCKS \<Longrightarrow> for_each [0..<k] (\<lambda>i s. if \<not> i < LOGBLOCKS then Inl (Fault ''log.lh.block'')
     else ret () (s\<lparr>lh_block := (lh_block s)(i := f i)\<rparr>)) s =
   ret () (s\<lparr>lh_block := (\<lambda>i. if i < k then f i else lh_block s i)\<rparr>)"
proof (induction k)
  case 0
  then show ?case by simp
next
  case (Suc k)
  have "(\<lambda>i. if i < k then f i else lh_block s i)(k := f k) = (\<lambda>i. if i < Suc k then f i else lh_block s i)"
    by (auto simp: fun_eq_iff)
  then show ?case using Suc by (simp add: for_each_append)
qed

lemma load_head_view [simp]:
  "bc_ok (load_head d s) = bc_ok s" "cview (load_head d s) = cview s" "holds (load_head d s) = holds s"
  "lg_start (load_head d s) = lg_start s" "lg_dev (load_head d s) = lg_dev s" "lh_n (load_head d s) = get_int d 0"
  "lg_size (load_head d s) = lg_size s" "lg_outstanding (load_head d s) = lg_outstanding s"
  "lg_committing (load_head d s) = lg_committing s" "lg_lock (load_head d s) = lg_lock s"
  "logst.more (load_head d s) = logst.more s"
  by (simp_all add: load_head_def)

lemma clean_content:
  assumes "bc_ok s" and "pinned (cview s) = {}"
  shows "content (cview s) = medium (cview s)"
proof
  fix n
  have "refs (cview s) n = 0" "\<not> dirty (cview s) n" using assms(2) by (auto simp: pinned_def)
  then show "content (cview s) n = medium (cview s) n" by (rule view_coherent [OF assms(1)])
qed

lemma clean_room: "bc_ok s \<Longrightarrow> pinned (cview s) = {} \<Longrightarrow> has_room s"
proof -
  assume a: "bc_ok s" "pinned (cview s) = {}"
  then have "refs (cview s) n = 0" for n by (auto simp: pinned_def)
  then show ?thesis using a by (simp add: has_room_def NBUF_def)
qed

lemma read_head_spec:
  assumes hw: "virtio_blk hw" and ok: "bc_ok s" and clean: "pinned (cview s) = {}" and dev: "lg_dev s = 0"
    and h: "head_ok (lg_start s) (medium (cview s))"
  shows "\<exists>s1 s'. read_head hw s = Inr ((), s') \<and> bc_ok s' \<and> cview s' = cview s \<and>
    bc_frame s s1 \<and> bc_frame (load_head (medium (cview s) (log_blk (lg_start s) 0)) s1) s'"
proof -
  let ?H = "log_blk (lg_start s) 0"
  have a: "area_ok (lg_start s)" and n: "nat (get_int (medium (cview s) ?H) 0) \<le> LOGBLOCKS"
    using h by (simp_all add: head_ok_def head_count_def nat_le_iff)
  have us: "usable ?H" using usable_log_blk [OF a] by simp
  note R = clean_room [OF ok clean]
  have okh: "virtio_blk hw \<and> bc_ok s" using hw ok ..
  obtain j s1 where b: "bread hw 0 ?H s = Inr (j, s1)" "bc_ok s1" "holds s1 j ?H" "cview s1 = c_ref ?H (cview s)"
    using bc.bread_law [OF okh us has_roomD(2,3) [OF R]] by blast
  have d: "b_data (bufs s1 j) = medium (cview s) ?H"
    using holdsD(9) [OF b(2,3)] clean_content [OF ok clean] b(4) by simp
  have "blkno (lg_start s) = ?H" and "blkno 0 = 0" by (simp_all add: log_blk_def blkno_def)
  then have e: "read_head hw s = bc.peek hw ?H load_head s"
    using n dev by (simp add: read_head_def bc.peek_def b(1) d Let_def read_head_loop load_head_def cong: if_cong)
  let ?m = "medium (cview s) ?H"
  have g: "(virtio_blk hw \<and> bc_ok (load_head ?m t)) \<and> cview (load_head ?m t) = cview t \<and>
      holds (load_head ?m t) = holds t" if "virtio_blk hw \<and> bc_ok t" for t :: "'a logst_scheme"
    using that by simp
  have "?m = content (cview s) ?H" by (simp add: clean_content [OF ok clean])
  note P = bc.peek_spec [OF okh us has_roomD(2,3) [OF R], of load_head ?m, OF g this]
  obtain s2 s3 where
    "bc.peek hw ?H load_head s = Inr ((), s3)" "virtio_blk hw \<and> bc_ok s3" "cview s3 = cview s" "bc_frame s s2"
    "bc_frame (load_head ?m s2) s3" using P by (elim meta_impE) auto
  then show ?thesis unfolding e by blast
qed

lemma klog_frame_cache:
  assumes "klog_frame s s'"
  shows "bc_ok s' = bc_ok s" "cview s' = cview s" "lg_start s' = lg_start s" "lg_dev s' = lg_dev s"
    "lh_n s' = lh_n s" "lh_block s' = lh_block s" "lg_size s' = lg_size s" "lg_outstanding s' = lg_outstanding s"
    "lg_committing s' = lg_committing s" "lg_lock s' = lg_lock s" "logst.more s' = logst.more s"
proof -
  have f: "vq s' = vq s" "bufs s' = bufs s" "img s' = img s" "written s' = written s"
    "bhead_prev s' = bhead_prev s" "bhead_next s' = bhead_next s"
    using assms by (cases s; cases s'; simp add: klog_frame_def)+
  show "bc_ok s' = bc_ok s" "cview s' = cview s" by (rule same_cache [OF f])+
  show "lg_start s' = lg_start s" "lg_dev s' = lg_dev s" "lh_n s' = lh_n s" "lh_block s' = lh_block s"
    "lg_size s' = lg_size s" "lg_outstanding s' = lg_outstanding s" "lg_committing s' = lg_committing s"
    "lg_lock s' = lg_lock s" "logst.more s' = logst.more s"
    using assms by (cases s; cases s'; simp add: klog_frame_def)+
qed

text \<open>The log's fields that recovery leaves alone.\<close>

text \<open>Memory and processes are not touched.\<close>

definition kept :: "'a ptab_scheme \<Rightarrow> 'a ptab_scheme \<Rightarrow> bool" where
  "kept s s' \<longleftrightarrow> pmem s' = pmem s \<and> freelist s' = freelist s \<and> procs s' = procs s \<and> current s' = current s \<and>
     nextpid s' = nextpid s"

lemma bc_frame_kept: "bc_frame s s' \<Longrightarrow> kept s s'"
  by (cases s; cases s'; simp add: bc_frame_def kept_def)

lemma klog_frame_kept: "klog_frame s s' \<Longrightarrow> kept s s'"
  by (cases s; cases s'; simp add: klog_frame_def kept_def)

definition log_frame :: "'a logst_scheme \<Rightarrow> 'a logst_scheme \<Rightarrow> bool" where
  "log_frame s s' \<longleftrightarrow> lg_start s' = lg_start s \<and> lg_size s' = lg_size s \<and> lg_dev s' = lg_dev s \<and>
     lg_outstanding s' = lg_outstanding s \<and> lg_committing s' = lg_committing s \<and> lg_lock s' = lg_lock s \<and>
     logst.more s' = logst.more s \<and> kept s s'"

lemma recover_spec:
  assumes hw: "virtio_blk hw" and ok: "bc_ok s" and clean: "pinned (cview s) = {}" and dev: "lg_dev s = 0"
    and h: "head_ok (lg_start s) (medium (cview s))"
  shows "\<exists>s'. recover_from_log hw time s = Inr ((), s') \<and> bc_ok s' \<and> log_frame s s' \<and>
    lh_n s' = min 0 (head_count (lg_start s) (medium (cview s))) \<and>
    cview s' = c_writes (recovery_writes (lg_start s) (medium (cview s))) (cview s)"
proof -
  let ?m = "medium (cview s)" and ?H = "log_blk (lg_start s) 0"
  obtain s0 s1 where s1: "read_head hw s = Inr ((), s1)" "bc_ok s1" "cview s1 = cview s" "bc_frame s s0"
    "bc_frame (load_head (?m ?H) s0) s1" using read_head_spec [OF assms] by blast
  note F = bc_frame_log [OF s1(4)] bc_frame_log [OF s1(5)]
  have kp: "kept s s1" using bc_frame_kept [OF s1(4)] bc_frame_kept [OF s1(5)] by (simp add: kept_def load_head_def)
  have n: "lh_n s1 = head_count (lg_start s) ?m" and f1: "lg_start s1 = lg_start s" "lg_dev s1 = 0"
    using F dev by (simp_all add: head_count_def)
  show ?thesis
  proof (cases "head_count (lg_start s) ?m > 0")
    case False
    then show ?thesis using s1 F n kp by (simp add: recover_from_log_def recovery_writes_def ret_def log_frame_def)
  next
    case True
    have hm: "home s1 i = head_home (lg_start s) ?m i" if "i < nat (lh_n s1)" for i
      using that F n by (simp add: home_def head_home_def load_head_def head_count_def)
    have t: "klog_text (cstr ''Recovering %d blocks from log...\<newline>'') [of_int_arg a] \<noteq> None" for a
      by (simp add: char_consts klog_conv_text.simps of_int_arg_def)
    have "LOG_INFO \<le> 3" by (simp add: LOG_INFO_def)
    from klog_text_total [OF t this] obtain s2 where k: "klog time LOG_INFO ''Recovering %d blocks from log...\<newline>''
      [of_int_arg (lh_n s1)] s1 = Inr ((), s2)" and kf: "klog_frame s1 s2" by blast
    note K = klog_frame_cache [OF kf]
    have hm2: "home s2 i = head_home (lg_start s) ?m i" if "i < nat (lh_n s1)" for i
      using hm [OF that] by (simp add: home_def K)
    have t2: "trans_ok s2" using h f1 n hm2 True by (simp add: trans_ok_def K head_ok_def)
    have c2: "pinned (cview s2) = {}" "bc_ok s2" using K s1 clean by simp_all
    have "card {a, b} \<le> NBUF" for a b :: u32 using card_insert_le_m1 [of 2 "{b}" a] by (simp add: NBUF_def)
    then have "card (insert (home s2 i) (insert (log_blk (lg_start s2) (Suc i)) {})) \<le> NBUF" for i .
    from install_spec [OF hw clean_room [OF c2(2,1)] t2 this, of True] c2(1)
    obtain s3 where s3: "install_trans hw True s2 = Inr ((), s3)" "after (installs s2) s2 s3" by auto
    note A3 = afterD [OF s3(2)]
    let ?n = "nat (head_count (lg_start s) ?m)"
    have inst: "installs s2 = map (\<lambda>i. (head_home (lg_start s) ?m i, ?m (log_blk (lg_start s) (Suc i)))) [0..<?n]"
      using hm2 clean_content [OF ok clean] by (simp add: installs_def K n f1 s1(3))
    let ?s3 = "s3\<lparr>lh_n := 0\<rparr>"
    have n3: "has_room ?s3" "lg_dev ?s3 = 0" "area_ok (lg_start ?s3)" "0 \<le> lh_n ?s3" "lh_n ?s3 \<le> int LOGBLOCKS"
      using A3 clean_room [OF c2(2,1)] h by (simp_all add: K f1 head_ok_def)
    have "head_home (lg_start s) ?m i \<noteq> ?H" if "i < ?n" for i
      using h that log_head_in [of "lg_start s"] by (auto simp: head_ok_def)
    then have "?H \<notin> fst ` set (installs s2)" by (force simp: inst)
    then have "content (cview ?s3) ?H = ?m ?H"
      using apply_writes_other [of ?H "installs s2"] clean_content [OF ok clean] by (simp add: A3(2) K s1(3))
    with write_head_spec [OF hw n3] obtain s4 where
      s4: "write_head hw ?s3 = Inr ((), s4)" "after [(?H, put_int 0 0 (?m ?H))] ?s3 s4"
      by (auto simp: A3 K f1 header_bytes_0)
    note A4 = afterD [OF s4(2)]
    have "cview s4 = c_writes (installs s2 @ [(?H, put_int 0 0 (?m ?H))]) (cview s)"
      by (simp add: A4(2) A3(2) K s1(3) c_writes_append)
    also have "installs s2 @ [(?H, put_int 0 0 (?m ?H))] = recovery_writes (lg_start s) ?m"
      using True by (simp add: inst recovery_writes_def)
    finally have "cview s4 = c_writes (recovery_writes (lg_start s) ?m) (cview s)" .
    moreover have "recover_from_log hw time s = Inr ((), s4)"
      using True n by (simp add: recover_from_log_def s1(1) k [unfolded n] s3(1) s4(1))
    moreover have "kept s s4"
      using kp klog_frame_kept [OF kf] bc_frame_kept [of s2 s3] bc_frame_kept [of ?s3 s4] s3(2) s4(2) by (simp add: kept_def after_def)
    moreover from this have "log_frame s s4" "lh_n s4 = 0"
      using A4 A3 K F bc_frame_log [of ?s3 s4] bc_frame_log [of s2 s3] s3(2) s4(2)
      by (simp_all add: log_frame_def after_def)
    ultimately show ?thesis using A4(1) True by simp
  qed
qed

section \<open>Crashes\<close>

lemma apply_writes_cong:
  "(\<And>b. b \<notin> fst ` set W \<Longrightarrow> m b = m' b) \<Longrightarrow> apply_writes W m = apply_writes W m'"
proof (induction W arbitrary: m m')
  case Nil
  then show ?case by auto
next
  case (Cons w W)
  obtain n d where w: "w = (n, d)" by (cases w)
  have "apply_writes W (m(n := d)) = apply_writes W (m'(n := d))"
    by (rule Cons.IH) (use Cons.prems in \<open>auto simp: w\<close>)
  then show ?case by (simp add: w)
qed

lemma set_take_other: "n \<notin> fst ` set W \<Longrightarrow> n \<notin> fst ` set (take k W)"
  using set_take_subset by fastforce

text \<open>What the medium's blocks outside the log are once the transaction has happened.\<close>

definition committed :: "'a logst_scheme \<Rightarrow> u32 \<Rightarrow> u8 list" where
  "committed s b = (if b \<in> home s ` {..<nat (lh_n s)} then content (cview s) b else medium (cview s) b)"

lemma home_writes_apply:
  "apply_writes (home_writes s) m b = (if b \<in> home s ` {..<nat (lh_n s)} then content (cview s) b else m b)"
proof -
  have "apply_writes (home_writes s) m b =
      (if b \<in> home s ` set [0..<nat (lh_n s)] then content (cview s) b else m b)"
    unfolding home_writes_def by (rule apply_writes_map) simp
  then show ?thesis by (simp add: lessThan_atLeast0)
qed

lemma targets:
  assumes "trans_ok s"
  shows "fst ` set (log_copies s) \<subseteq> log_area (lg_start s)" "fst ` set (home_writes s) = home s ` {..<nat (lh_n s)}"
    "log_blk (lg_start s) 0 \<notin> fst ` set (home_writes s)" "log_blk (lg_start s) 0 \<notin> fst ` set (log_copies s)"
    "i < nat (lh_n s) \<Longrightarrow> log_blk (lg_start s) (Suc i) \<notin> fst ` set (home_writes s)"
proof -
  have "log_blk (lg_start s) (Suc j) \<in> log_area (lg_start s)" if "j < nat (lh_n s)" for j
    by (rule log_blk_in) (use assms that in \<open>auto simp: trans_ok_def\<close>)
  then show "fst ` set (log_copies s) \<subseteq> log_area (lg_start s)" by (auto simp: log_copies_def)
  show F: "fst ` set (home_writes s) = home s ` {..<nat (lh_n s)}"
    by (auto simp: home_writes_def image_image lessThan_atLeast0)
  show "log_blk (lg_start s) 0 \<notin> fst ` set (home_writes s)" unfolding F using trans_okD(6) [OF assms] by force
  show "log_blk (lg_start s) 0 \<notin> fst ` set (log_copies s)"
    using slots_distinct(1) [OF assms] by (force simp: log_copies_def)
  show "log_blk (lg_start s) (Suc i) \<notin> fst ` set (home_writes s)" if "i < nat (lh_n s)"
    unfolding F using trans_okD(4) [OF assms _ that] by force
qed

text \<open>Before the header is written: recovery finds the cleared header and changes nothing.\<close>

lemma recovered_before:
  assumes t: "trans_ok s" and clear: "head_count (lg_start s) m = 0" and b: "b \<notin> log_area (lg_start s)"
  shows "recovered (lg_start s) (apply_writes (take k (log_copies s)) m) b = m b"
    and "head_ok (lg_start s) (apply_writes (take k (log_copies s)) m)"
proof -
  let ?m = "apply_writes (take k (log_copies s)) m"
  have "?m (log_blk (lg_start s) 0) = m (log_blk (lg_start s) 0)"
    by (rule apply_writes_other) (rule set_take_other [OF targets(4) [OF t]])
  then have c: "head_count (lg_start s) ?m = 0" using clear by (simp add: head_count_def)
  then show "head_ok (lg_start s) ?m" using t by (simp add: head_ok_def trans_ok_def)
  have "b \<notin> fst ` set (log_copies s)" using targets(1) [OF t] b by blast
  then have "?m b = m b" by (intro apply_writes_other set_take_other)
  then show "recovered (lg_start s) ?m b = m b" by (simp add: recovered_def recovery_writes_def c)
qed

text \<open>After it, and before it is cleared: recovery installs the transaction's blocks.\<close>

lemma recovered_after:
  fixes k :: nat
  assumes t: "trans_ok s" and n: "0 < lh_n s" and l: "length (content (cview s) (log_blk (lg_start s) 0)) = BSIZE"
    and b: "b \<notin> log_area (lg_start s)"
  defines "m \<equiv> apply_writes (log_copies s @ (log_blk (lg_start s) 0, head_bytes s) # take k (home_writes s)) (medium (cview s))"
  shows "recovered (lg_start s) m b = committed s b" and "head_ok (lg_start s) m"
proof -
  let ?H = "log_blk (lg_start s) 0" and ?L = "\<lambda>i. log_blk (lg_start s) (Suc i)"
  note T = targets [OF t]
  have mm: "m = apply_writes (take k (home_writes s))
      ((apply_writes (log_copies s) (medium (cview s)))(?H := head_bytes s))" by (simp add: m_def)
  have mH: "m ?H = head_bytes s"
    unfolding mm using apply_writes_other [OF set_take_other [OF T(3)]] by simp
  have n0: "0 \<le> lh_n s" "lh_n s \<le> int LOGBLOCKS" using t by (simp_all add: trans_ok_def)
  have c: "head_count (lg_start s) m = lh_n s"
    using header_bytes_spec(2) [OF n0 l, of "lh_block s"] by (simp add: head_count_def mH head_bytes_def)
  have hh: "head_home (lg_start s) m i = home s i" if "i < nat (lh_n s)" for i
    using header_bytes_spec(3) [OF n0 l that, of "lh_block s"]
    by (simp add: head_home_def mH head_bytes_def home_def)
  show "head_ok (lg_start s) m" using t hh by (simp add: head_ok_def trans_ok_def c)
  have mL: "m (?L i) = content (cview s) (home s i)" if "i < nat (lh_n s)" for i
    unfolding mm using apply_writes_other [OF set_take_other [OF T(5) [OF that]]] slots_distinct(1) [OF t that]
      log_copies_slot [OF t that] by simp
  have rw: "recovery_writes (lg_start s) m = home_writes s @ [(?H, put_int 0 0 (head_bytes s))]"
    using n hh mL by (simp add: recovery_writes_def c mH home_writes_def)
  have bH: "b \<noteq> ?H" using b log_head_in by blast
  have "b \<notin> fst ` set (log_copies s)" using T(1) b by blast
  then have "m b = medium (cview s) b" if "b \<notin> home s ` {..<nat (lh_n s)}"
    unfolding mm using apply_writes_other [OF set_take_other, of b "home_writes s"] that bH T(2)
    by (simp add: apply_writes_other)
  then show "recovered (lg_start s) m b = committed s b"
    using bH by (simp add: recovered_def rw home_writes_apply committed_def)
qed

text \<open>At the end: the header is clear again and the blocks are installed.\<close>

lemma recovered_end:
  assumes t: "trans_ok s" and n: "0 < lh_n s" and l: "length (content (cview s) (log_blk (lg_start s) 0)) = BSIZE"
    and b: "b \<notin> log_area (lg_start s)"
  shows "recovered (lg_start s) (apply_writes (commit_writes s) (medium (cview s))) b = committed s b"
    and "head_ok (lg_start s) (apply_writes (commit_writes s) (medium (cview s)))"
proof -
  let ?H = "log_blk (lg_start s) 0" and ?m = "apply_writes (commit_writes s) (medium (cview s))"
  have "length (head_bytes s) = BSIZE"
    using header_bytes_spec(1) [of "lh_n s"] l t by (simp add: head_bytes_def trans_ok_def)
  then have "get_int (put_int 0 0 (head_bytes s)) 0 = 0"
    using get_put_int [of 0 "head_bytes s" 0] by (simp add: BSIZE_def)
  then have c: "head_count (lg_start s) ?m = 0" by (simp add: head_count_def commit_writes_def)
  then show "head_ok (lg_start s) ?m" using t by (simp add: head_ok_def trans_ok_def)
  have bH: "b \<noteq> ?H" using b log_head_in by blast
  have "b \<notin> fst ` set (log_copies s)" using targets(1) [OF t] b by blast
  then have "?m b = committed s b"
    using bH by (simp add: commit_writes_def home_writes_apply committed_def apply_writes_other)
  then show "recovered (lg_start s) ?m b = committed s b" by (simp add: recovered_def recovery_writes_def c)
qed

lemma crash_cases:
  assumes "trans_ok s"
  shows "take k (commit_writes s) =
    (if k \<le> nat (lh_n s) then take k (log_copies s)
     else if k \<le> 2 * nat (lh_n s) + 1
       then log_copies s @ (log_blk (lg_start s) 0, head_bytes s) # take (k - nat (lh_n s) - 1) (home_writes s)
     else commit_writes s)"
proof -
  have l: "length (log_copies s) = nat (lh_n s)" "length (home_writes s) = nat (lh_n s)"
    by (simp_all add: log_copies_def home_writes_def)
  consider "k \<le> nat (lh_n s)" | "nat (lh_n s) < k" "k \<le> 2 * nat (lh_n s) + 1" | "k > 2 * nat (lh_n s) + 1"
    by linarith
  then show ?thesis
  proof cases
    case 1
    then show ?thesis by (simp add: commit_writes_def l)
  next
    case 2
    then obtain j where "k = Suc (nat (lh_n s) + j)" using less_iff_Suc_add by blast
    then show ?thesis using 2 by (simp add: commit_writes_def l)
  next
    case 3
    then show ?thesis by (simp add: commit_writes_def l)
  qed
qed

text \<open>The medium after any prefix of a commit's writes, as recovery leaves it.\<close>

lemma recovered_prefix:
  assumes t: "trans_ok s" and n: "0 < lh_n s" and ok: "bc_ok s"
    and clear: "head_count (lg_start s) (medium (cview s)) = 0" and b: "b \<notin> log_area (lg_start s)"
  defines "m k \<equiv> apply_writes (take k (commit_writes s)) (medium (cview s))"
  shows "recovered (lg_start s) (m k) b = (if k \<le> nat (lh_n s) then medium (cview s) b else committed s b)"
    and "head_ok (lg_start s) (m k)"
proof -
  have "usable (log_blk (lg_start s) 0)" using t usable_log_blk by (simp add: trans_ok_def)
  then have l: "length (content (cview s) (log_blk (lg_start s) 0)) = BSIZE" by (rule content_length [OF ok])
  note L = recovered_before [OF t clear b] recovered_after [OF t n l b] recovered_end [OF t n l b]
  show "recovered (lg_start s) (m k) b = (if k \<le> nat (lh_n s) then medium (cview s) b else committed s b)"
    using L(1,3,5) unfolding m_def crash_cases [OF t] by simp
  show "head_ok (lg_start s) (m k)" using L(2,4,6) unfolding m_def crash_cases [OF t] by simp
qed

text \<open>A recovery that is itself cut short changes nothing of the next one's result.\<close>

lemma recovered_again:
  fixes k :: nat
  assumes h: "head_ok start m" and l: "length (m (log_blk start 0)) = BSIZE"
  defines "m' \<equiv> apply_writes (take k (recovery_writes start m)) m"
  shows "recovered start m' = recovered start m" and "head_ok start m'"
proof -
  let ?H = "log_blk start 0" and ?n = "nat (head_count start m)"
  let ?I = "map (\<lambda>i. (head_home start m i, m (log_blk start (Suc i)))) [0..<?n]"
  have a: "area_ok start" and hm: "head_home start m i \<notin> log_area start" if "i < ?n" for i
    using h that by (simp_all add: head_ok_def)
  have out: "x \<notin> fst ` set ?I" if "x \<in> log_area start" for x using that hm by force
  have "recovered start m' = recovered start m \<and> head_ok start m'"
  proof (cases "head_count start m > 0")
    case False
    then show ?thesis using h by (simp add: m'_def recovery_writes_def)
  next
    case pos: True
    have R: "recovery_writes start m = ?I @ [(?H, put_int 0 0 (m ?H))]" using pos by (simp add: recovery_writes_def)
    show ?thesis
    proof (cases "k \<le> ?n")
      case True
      then have m': "m' = apply_writes (take k ?I) m" by (simp add: m'_def R)
      have same: "m' x = m x" if "x \<in> log_area start" for x
        unfolding m' by (rule apply_writes_other) (rule set_take_other [OF out [OF that]])
      have H: "m' ?H = m ?H" by (rule same) auto
      then have c: "head_count start m' = head_count start m" "head_home start m' = head_home start m"
        by (simp_all add: head_count_def head_home_def fun_eq_iff)
      have "m' (log_blk start (Suc i)) = m (log_blk start (Suc i))" if "i < ?n" for i
        by (rule same) (use that h in \<open>auto simp: head_ok_def\<close>)
      then have "recovery_writes start m' = recovery_writes start m"
        using pos by (simp add: recovery_writes_def c H)
      moreover have "apply_writes (recovery_writes start m) m' = apply_writes (recovery_writes start m) m"
      proof (rule apply_writes_cong)
        fix x
        assume "x \<notin> fst ` set (recovery_writes start m)"
        then have "x \<notin> fst ` set ?I" by (simp add: R image_Un)
        then show "m' x = m x" unfolding m' by (intro apply_writes_other set_take_other)
      qed
      ultimately show ?thesis using h by (simp add: recovered_def head_ok_def c)
    next
      case False
      then have m': "m' = recovered start m" by (simp add: m'_def R recovered_def)
      have "m' ?H = put_int 0 0 (m ?H)" by (simp add: m' recovered_def R)
      then have c: "head_count start m' = 0"
        using get_put_int [of 0 "m ?H" 0] l by (simp add: head_count_def BSIZE_def)
      moreover have "area_ok start" using h by (simp add: head_ok_def)
      ultimately show ?thesis using m' by (simp add: recovered_def recovery_writes_def head_ok_def LOGBLOCKS_def)
    qed
  qed
  then show "recovered start m' = recovered start m" and "head_ok start m'" by simp_all
qed

end
