(* ===== verification/Trans.thy ===== *)
theory Trans
  imports Log
begin

text \<open>
  Transactions: what \<open>begin_op\<close>, \<open>log_write\<close> and \<open>end_op\<close> of log.c do together. The
  invariant \<open>log_inv\<close> ties the header in memory to the marks in the cache; the properties
  are atomicity of a commit under crashes, and the operations' behaviour on each path.
\<close>

section \<open>The invariant of the log\<close>

text \<open>
  The blocks of the header are exactly the blocks with changes pending; they are named
  once, and there are fewer of them than the log has slots.
\<close>

definition homes :: "'a logst_scheme \<Rightarrow> u32 set" where
  "homes s = home s ` {..<nat (lh_n s)}"

definition log_inv :: "'a logst_scheme \<Rightarrow> bool" where
  "log_inv s \<longleftrightarrow> bc_ok s \<and> trans_ok s \<and> lh_n s < lg_size s \<and> lg_size s \<le> int LOGBLOCKS \<and>
     inj_on (home s) {..<nat (lh_n s)} \<and> (\<forall>n. dirty (cview s) n \<longleftrightarrow> n \<in> homes s)"

lemma log_field_view [simp]:
  "cview (s\<lparr>lg_lock := a\<rparr>) = cview s" "bc_ok (s\<lparr>lg_lock := a\<rparr>) = bc_ok s" "holds (s\<lparr>lg_lock := a\<rparr>) = holds s"
  "cview (s\<lparr>lg_outstanding := x\<rparr>) = cview s" "bc_ok (s\<lparr>lg_outstanding := x\<rparr>) = bc_ok s"
  "holds (s\<lparr>lg_outstanding := x\<rparr>) = holds s"
  "cview (s\<lparr>lg_committing := c\<rparr>) = cview s" "bc_ok (s\<lparr>lg_committing := c\<rparr>) = bc_ok s"
  "cview (s\<lparr>procs := p\<rparr>) = cview s" "bc_ok (s\<lparr>procs := p\<rparr>) = bc_ok s"
  using same_cache [of "s\<lparr>lg_lock := a\<rparr>" s] same_cache [of "s\<lparr>lg_outstanding := x\<rparr>" s]
    same_cache [of "s\<lparr>lg_committing := c\<rparr>" s] same_cache [of "s\<lparr>procs := p\<rparr>" s] by simp_all

lemma log_inv_cong:
  assumes "bc_ok s' = bc_ok s" and "cview s' = cview s" and "lg_start s' = lg_start s" and "lg_size s' = lg_size s"
    and "lg_dev s' = lg_dev s" and "lh_n s' = lh_n s" and "lh_block s' = lh_block s"
  shows "log_inv s' = log_inv s" "trans_ok s' = trans_ok s" "homes s' = homes s" "home s' = home s"
proof -
  show h: "home s' = home s" by (rule ext) (simp add: home_def assms(7))
  then show "trans_ok s' = trans_ok s" "homes s' = homes s" by (simp_all add: trans_ok_def homes_def assms)
  then show "log_inv s' = log_inv s" by (simp add: log_inv_def assms h)
qed

lemma log_inv_fields [simp]:
  "log_inv (s\<lparr>lg_lock := a\<rparr>) = log_inv s" "log_inv (s\<lparr>lg_outstanding := x\<rparr>) = log_inv s"
  "log_inv (s\<lparr>lg_committing := c\<rparr>) = log_inv s" "log_inv (s\<lparr>procs := p\<rparr>) = log_inv s"
  "homes (s\<lparr>lg_lock := a\<rparr>) = homes s" "homes (s\<lparr>lg_outstanding := x\<rparr>) = homes s"
  by (rule log_inv_cong; simp)+

lemma homes_card: "log_inv s \<Longrightarrow> card (homes s) < LOGBLOCKS"
  using card_image [of "home s" "{..<nat (lh_n s)}"] by (auto simp: log_inv_def trans_ok_def homes_def nat_less_iff)

text \<open>Searching the header finds the slot of a block that is logged, and the end otherwise.\<close>

lemma log_index_spec:
  "log_index s n \<le> nat (lh_n s)" "log_index s n < nat (lh_n s) \<Longrightarrow> home s (log_index s n) = n"
  "n \<in> homes s \<longleftrightarrow> log_index s n < nat (lh_n s)"
proof -
  show 1: "log_index s n \<le> nat (lh_n s)" "log_index s n < nat (lh_n s) \<Longrightarrow> home s (log_index s n) = n"
    by (auto simp: log_index_def home_def find_None_iff find_Some_iff split: option.splits)
  have "log_index s n < nat (lh_n s)" if "n \<in> homes s"
    using that by (auto simp: log_index_def homes_def home_def find_None_iff find_Some_iff split: option.splits)
  then show "n \<in> homes s \<longleftrightarrow> log_index s n < nat (lh_n s)" using 1(2) by (force simp: homes_def)
qed

lemma log_index_lock [simp]: "log_index (s\<lparr>lg_lock := x\<rparr>) n = log_index s n"
  by (simp add: log_index_def cong: option.case_cong)

section \<open>log_write\<close>

lemma log_write_spec:
  assumes inv: "log_inv s" and h: "holds s b n" and out: "n \<notin> log_area (lg_start s)"
    and lock: "\<not> lg_lock s" and op: "1 \<le> lg_outstanding s" and room: "lh_n s < lg_size s - 1"
  shows "\<exists>s'. log_write b s = Inr ((), s') \<and> log_inv s' \<and> cview s' = c_mark n True (cview s) \<and>
    homes s' = insert n (homes s) \<and> lh_n s' = (if n \<in> homes s then lh_n s else lh_n s + 1) \<and>
    holds s' = holds s \<and> \<not> lg_lock s' \<and> lg_outstanding s' = lg_outstanding s \<and> lg_committing s' = lg_committing s \<and>
    lg_start s' = lg_start s \<and> lg_size s' = lg_size s"
proof -
  let ?i = "log_index s n"
  have ok: "bc_ok s" and T: "trans_ok s" and sz: "lg_size s \<le> int LOGBLOCKS"
    and inj: "inj_on (home s) {..<nat (lh_n s)}" and d: "\<And>n. dirty (cview s) n \<longleftrightarrow> n \<in> homes s"
    using inv by (auto simp: log_inv_def)
  have n0: "0 \<le> lh_n s" using T by (simp add: trans_ok_def)
  have us: "usable n" and bn: "b_blockno (bufs s b) = n" using holdsD [OF ok h] by auto
  define t where "t = (if int ?i = lh_n s then s\<lparr>lh_block := (lh_block s)(?i := sint n), lh_n := lh_n s + 1\<rparr> else s)"
  have i: "int ?i = lh_n s \<longleftrightarrow> n \<notin> homes s" using log_index_spec(1,3) [where s = s and n = n] n0 by auto
  have tv: "bc_ok t" "cview t = cview s" "holds t = holds s" "bufs t = bufs s" "lg_outstanding t = lg_outstanding s"
    "lg_committing t = lg_committing s" "lg_start t = lg_start s" "lg_size t = lg_size s" "lg_dev t = lg_dev s"
    using same_cache [of t s] ok by (auto simp: t_def)
  have lt: "lg_lock t = lg_lock s" by (simp add: t_def)
  have hn: "lh_n t = (if n \<in> homes s then lh_n s else lh_n s + 1)" using i by (simp add: t_def)
  have hm: "home t j = (if j = nat (lh_n s) \<and> n \<notin> homes s then n else home s j)" for j
    using i n0 by (auto simp: t_def home_def)
  have hs: "homes t = insert n (homes s)"
    using n0 by (auto simp: homes_def hn hm image_iff nat_add_distrib less_Suc_eq split: if_splits)
  have "inj_on (home t) {..<nat (lh_n t)}"
    using inj n0 by (auto simp: inj_on_def hm hn homes_def nat_add_distrib less_Suc_eq)
  moreover have "trans_ok t"
    using T room sz us out by (auto simp: trans_ok_def hm hn tv homes_def nat_add_distrib less_Suc_eq)
  ultimately have tinv: "trans_ok t" "inj_on (home t) {..<nat (lh_n t)}" by blast+
  let ?u = "set_buf_disk b True t"
  have ht: "holds t b n" using h tv(3) by simp
  note M = mark_spec [OF tv(1) ht, of True, folded set_buf_disk_def]
  note F = bc_frame_log [OF M(3)]
  have hu: "home ?u = home t" by (rule bc_frame_home [OF M(3)])
  have eu: "homes ?u = homes t" "trans_ok ?u = trans_ok t" by (simp_all add: homes_def trans_ok_def hu F)
  have "log_inv ?u"
    using M(1,2) tinv room sz d by (auto simp: log_inv_def eu hu F hn hs tv)
  moreover have "log_write b s = Inr ((), release_log ?u)"
  proof -
    have "\<not> (int ?i = lh_n s \<and> \<not> ?i < LOGBLOCKS)" using room sz by auto
    then show ?thesis
      using lock op room bn by (simp add: log_write_def acquire_log_def Let_def t_def ret_def release_log_def set_buf_disk_def upd_buf_def)
  qed
  moreover have "cview ?u = c_mark n True (cview s)" "homes ?u = insert n (homes s)"
    "lh_n ?u = (if n \<in> homes s then lh_n s else lh_n s + 1)" "holds ?u = holds s"
    "lg_outstanding ?u = lg_outstanding s" "lg_committing ?u = lg_committing s" "lg_start ?u = lg_start s"
    "lg_size ?u = lg_size s"
    using M(2,4) eu hs hn tv F by (simp_all add: fun_eq_iff)
  ultimately show ?thesis by (simp add: release_log_def)
qed

section \<open>end_op\<close>

lemma commit_writes_cong:
  assumes "cview s' = cview s" and "lg_start s' = lg_start s" and "lh_n s' = lh_n s" and "lh_block s' = lh_block s"
  shows "commit_writes s' = commit_writes s" "committed s' = committed s"
proof -
  have h: "home s' = home s" by (rule ext) (simp add: home_def assms(4))
  show "commit_writes s' = commit_writes s" "committed s' = committed s"
    by (simp_all add: commit_writes_def log_copies_def home_writes_def head_bytes_def committed_def fun_eq_iff assms h)
qed

lemma commit_content:
  assumes "trans_ok s" and "b \<notin> log_area (lg_start s)"
  shows "apply_writes (commit_writes s) (content (cview s)) b = content (cview s) b"
    and "apply_writes (commit_writes s) (medium (cview s)) b = committed s b"
proof -
  have bH: "b \<noteq> log_blk (lg_start s) 0" using assms(2) log_head_in by blast
  have "b \<notin> fst ` set (log_copies s)" using targets(1) [OF assms(1)] assms(2) by blast
  then have "apply_writes (commit_writes s) m b =
      (if b \<in> home s ` {..<nat (lh_n s)} then content (cview s) b else m b)" for m
    using bH by (simp add: commit_writes_def home_writes_apply apply_writes_other)
  then show "apply_writes (commit_writes s) (content (cview s)) b = content (cview s) b"
    "apply_writes (commit_writes s) (medium (cview s)) b = committed s b" by (simp_all add: committed_def)
qed

text \<open>What \<open>commit\<close> leaves, in both of its cases.\<close>

definition trans_writes :: "'a logst_scheme \<Rightarrow> (u32 \<times> u8 list) list" where
  "trans_writes s = (if 0 < lh_n s then commit_writes s else [])"

lemma commit_inv:
  assumes hw: "virtio_blk hw" and inv: "log_inv s" and r: "has_room s"
  shows "\<exists>s'. commit hw s = Inr ((), s') \<and> log_inv s' \<and> lh_n s' = 0 \<and> cview s' = c_writes (trans_writes s) (cview s) \<and>
    bc_frame (s\<lparr>lh_n := 0\<rparr>) s' \<and> (\<forall>n. \<not> dirty (cview s') n)"
proof -
  have T: "trans_ok s" and sz: "lh_n s < lg_size s" "lg_size s \<le> int LOGBLOCKS" and n0: "0 \<le> lh_n s"
    and d: "\<And>n. dirty (cview s) n \<longleftrightarrow> n \<in> homes s" using inv by (auto simp: log_inv_def trans_ok_def)
  show ?thesis
  proof (cases "0 < lh_n s")
    case False
    then have z: "lh_n s = 0" using n0 by simp
    have "commit hw s = Inr ((), s)" using False by (simp add: commit_def ret_def)
    moreover have "bc_frame (s\<lparr>lh_n := 0\<rparr>) s" using z by (cases s) (simp add: bc_frame_def)
    moreover have "\<not> dirty (cview s) n" for n using d z by (simp add: homes_def)
    ultimately show ?thesis using inv z by (simp add: trans_writes_def)
  next
    case True
    have h: "home s i \<in> pinned (cview s)" if "i < nat (lh_n s)" for i
      using that d by (auto simp: pinned_def homes_def)
    obtain s' where s': "commit hw s = Inr ((), s')" "after (commit_writes s) (s\<lparr>lh_n := 0\<rparr>) s'"
      using commit_spec [OF hw r T True h] by blast
    have A: "bc_ok s'" "cview s' = c_writes (commit_writes s) (cview s)" and F: "bc_frame (s\<lparr>lh_n := 0\<rparr>) s'"
      using s'(2) by (simp_all add: after_def)
    note f = bc_frame_log [OF F]
    have "homes s \<subseteq> fst ` set (commit_writes s)"
      using targets(2) [OF T] by (auto simp: commit_writes_def homes_def image_Un)
    then have clean: "\<not> dirty (cview s') n" for n using d by (auto simp: A(2))
    have "trans_ok s'" using T f by (simp add: trans_ok_def)
    then have "log_inv s'" using A(1) clean sz f n0 by (simp add: log_inv_def homes_def)
    moreover have "lh_n s' = 0" using f by simp
    moreover have "cview s' = c_writes (trans_writes s) (cview s)" using A(2) True by (simp add: trans_writes_def)
    ultimately show ?thesis using s'(1) F clean by blast
  qed
qed

lemma end_op_last_spec:
  assumes hw: "virtio_blk hw" and inv: "log_inv s" and r: "has_room s"
    and lock: "\<not> lg_lock s" and op: "lg_outstanding s = 1" and nc: "\<not> lg_committing s"
  shows "\<exists>s'. end_op hw s = Inr ((), s') \<and> log_inv s' \<and> lh_n s' = 0 \<and> lg_outstanding s' = 0 \<and>
    \<not> lg_committing s' \<and> \<not> lg_lock s' \<and> (\<forall>n. \<not> dirty (cview s') n) \<and> lg_start s' = lg_start s \<and>
    cview s' = c_writes (trans_writes s) (cview s)"
proof -
  let ?t = "s\<lparr>lg_outstanding := 0, lg_committing := True, lg_lock := False\<rparr>"
  have f: "bc_ok ?t = bc_ok s" "cview ?t = cview s" using same_cache [of ?t s] by simp_all
  have inv': "log_inv ?t" using log_inv_cong(1) [of ?t s] f inv by simp
  have r': "has_room ?t" using r f by (simp add: has_room_def)
  have tw: "trans_writes ?t = trans_writes s"
    using commit_writes_cong(1) [of ?t s] f by (simp add: trans_writes_def)
  obtain u where u: "commit hw ?t = Inr ((), u)" "log_inv u" "lh_n u = 0"
    "cview u = c_writes (trans_writes s) (cview s)" "bc_frame (?t\<lparr>lh_n := 0\<rparr>) u" "\<forall>n. \<not> dirty (cview u) n"
    using commit_inv [OF hw inv' r'] tw f by auto
  note F = bc_frame_log [OF u(5)]
  let ?v = "u\<lparr>lg_committing := False,
    procs := (\<lambda>i. if i < NPROC then woken LogChan (procs u i) else procs u i), lg_lock := False\<rparr>"
  have v: "bc_ok ?v = bc_ok u" "cview ?v = cview u" using same_cache [of ?v u] by simp_all
  have "end_op hw s = Inr ((), ?v)"
    using lock op nc F u(1)
    by (simp add: end_op_def acquire_log_def release_log_def Let_def wakeup_spec ret_def cong: if_cong)
  moreover have "log_inv ?v" using log_inv_cong(1) [of ?v u] v u(2) by simp
  ultimately show ?thesis using u v F by auto
qed

section \<open>begin_op\<close>

text \<open>Why a caller of \<open>begin_op\<close> has to wait.\<close>

definition log_busy :: "'a logst_scheme \<Rightarrow> bool" where
  "log_busy s \<longleftrightarrow> lg_committing s \<or> lh_n s + (lg_outstanding s + 1) * 5 > lg_size s - 5"

lemma begin_op_enters:
  assumes "\<not> lg_lock s" and "\<not> log_busy s"
  shows "begin_op s = Inr (Entered, s\<lparr>lg_lock := False, lg_outstanding := lg_outstanding s + 1\<rparr>)"
  using assms by (simp add: begin_op_def begin_op_iter_def acquire_log_def release_log_def log_busy_def ret_def)

lemma begin_op_waits:
  assumes "\<not> lg_lock s" and "log_busy s"
  shows "begin_op s = Inr (Asleep, sleep LogChan (s\<lparr>lg_lock := True\<rparr>))"
  using assms by (auto simp: begin_op_def begin_op_iter_def acquire_log_def log_busy_def ret_def)

section \<open>Initialisation\<close>

lemma init_log_spec:
  assumes hw: "virtio_blk hw" and ok: "bc_ok s" and clean: "pinned (cview s) = {}"
    and h: "head_ok (sint st) (medium (cview s))" and c: "0 \<le> head_count (sint st) (medium (cview s))"
    and size: "0 < sint nlog" "sint nlog \<le> int LOGBLOCKS"
  shows "\<exists>s'. init_log hw time 0 st nlog s = Inr ((), s') \<and> log_inv s' \<and> lh_n s' = 0 \<and> lg_start s' = sint st \<and>
    lg_size s' = sint nlog \<and> \<not> lg_lock s' \<and> lg_outstanding s' = lg_outstanding s \<and>
    lg_committing s' = lg_committing s \<and> pinned (cview s') = {} \<and>
    medium (cview s') = recovered (sint st) (medium (cview s)) \<and>
    logst.more s' = logst.more s \<and> kept s s'"
proof -
  let ?s = "s\<lparr>lg_start := sint st, lg_size := sint nlog, lg_dev := 0, lg_lock := False\<rparr>"
  have f: "bc_ok ?s = bc_ok s" "cview ?s = cview s" using same_cache [of ?s s] by simp_all
  obtain s1 where s1: "recover_from_log hw time ?s = Inr ((), s1)" "bc_ok s1" "log_frame ?s s1"
    "lh_n s1 = min 0 (head_count (sint st) (medium (cview s)))"
    "cview s1 = c_writes (recovery_writes (sint st) (medium (cview s))) (cview s)"
    using recover_spec [OF hw, of ?s time] ok clean h f by auto
  have t: "klog_text (cstr ''Log system initialized: dev=%d start=%d size=%d\<newline>'')
      [of_int_arg a, of_int_arg b, of_int_arg d] \<noteq> None" for a b d
    by (simp add: char_consts klog_conv_text.simps of_int_arg_def)
  have "LOG_INFO \<le> 3" by (simp add: LOG_INFO_def)
  from klog_text_total [OF t this] obtain s2 where k: "klog time LOG_INFO
      ''Log system initialized: dev=%d start=%d size=%d\<newline>''
      [of_int_arg 0, of_int_arg (lg_start s1), of_int_arg (lg_size s1)] s1 = Inr ((), s2)" and kf: "klog_frame s1 s2"
    by blast
  note K = klog_frame_cache [OF kf]
  have z: "lh_n s1 = 0" using s1(4) c by simp
  have pn: "pinned (cview s1) = {}" using pinned_c_writes s1(5) clean by fastforce
  have nd: "\<not> dirty (cview s1) n" for n using pn by (auto simp: pinned_def)
  have "\<not> 4 + 4 * LOGBLOCKS \<ge> BSIZE" by (simp add: LOGBLOCKS_def BSIZE_def)
  then have run: "init_log hw time 0 st nlog s = Inr ((), s2)"
    using s1(3) by (simp add: init_log_def Let_def s1(1) k [simplified])
  have "area_ok (sint st)" using h by (simp add: head_ok_def)
  then have "log_inv s2"
    using s1(2,3) z nd size by (simp add: log_inv_def K trans_ok_def homes_def log_frame_def)
  moreover have "kept s s2" using s1(3) klog_frame_kept [OF kf] by (simp add: log_frame_def kept_def)
  ultimately show ?thesis using run s1 z pn K by (auto simp: log_frame_def recovered_def)
qed

section \<open>A transaction on a small disk\<close>

definition logst_boot :: logst where
  "logst_boot = ptab.extend (ptab_boot\<lparr>img := \<lambda>_. 0\<rparr>)
     \<lparr>lg_start = 0, lg_size = 0, lg_outstanding = 0, lg_committing = False, lg_dev = 0, lh_n = 0,
      lh_block = (\<lambda>_. 0), lg_lock = False\<rparr>"

lemma logst_boot_fields [simp]:
  "vq logst_boot = vq_boot" "bufs logst_boot = (\<lambda>_. buf_boot)" "img logst_boot = (\<lambda>_. 0)" "written logst_boot = []"
  by (simp_all add: logst_boot_def ptab_boot_def bcache_boot_def vblk_boot_def vblk.defs klog.defs bcache.defs ptab.defs)

lemma zero_head: "head_count 2 (medium_of (\<lambda>_. 0)) = 0" "head_ok 2 (medium_of (\<lambda>_. 0))"
proof -
  have u: "usable (log_blk 2 0)" by (rule usable_log_blk) (simp_all add: area_ok_def)
  have "take 4 (disk_block (\<lambda>_. 0) (log_blk 2 0)) = replicate 4 0"
    by (auto simp: disk_block_def img_read_def BSIZE_def intro!: nth_equalityI)
  then show c: "head_count 2 (medium_of (\<lambda>_. 0)) = 0"
    by (simp add: head_count_def medium_of_def u get_int_def eval_nat_numeral)
  show "head_ok 2 (medium_of (\<lambda>_. 0))" by (simp add: head_ok_def c area_ok_def LOGBLOCKS_def)
qed

lemma booted_log:
  "\<exists>(s :: logst) s'. binit logst_boot = Inr ((), s) \<and> init_log prompt_device 0 0 2 30 s = Inr ((), s') \<and> log_inv s' \<and>
    lh_n s' = 0 \<and> lg_start s' = 2 \<and> lg_size s' = 30 \<and> \<not> lg_lock s' \<and> pinned (cview s') = {} \<and>
    medium (cview s') = medium_of (\<lambda>_. 0)"
proof -
  have z: "zero_bufs logst_boot" by (simp add: zero_bufs_def buf_boot_def)
  obtain s :: logst where s: "binit logst_boot = Inr ((), s)" "bc_ok s" "pinned (cview s) = {}"
    "medium (cview s) = medium_of (\<lambda>_. 0)"
    using binit_spec [OF z] vq_idle_boot by auto
  have two: "sint (2 :: u32) = 2" "sint (30 :: u32) = 30" by simp_all
  have h: "head_ok (sint (2 :: u32)) (medium (cview s))" "0 \<le> head_count (sint (2 :: u32)) (medium (cview s))"
    using zero_head s(4) two by simp_all
  have r: "recovered 2 (medium_of (\<lambda>_. 0)) = medium_of (\<lambda>_. 0)"
    by (simp add: recovered_def recovery_writes_def zero_head)
  from init_log_spec [OF virtio_blk_prompt s(2,3) h, of 30 0] obtain s' where
    "init_log prompt_device 0 0 2 30 s = Inr ((), s')" "log_inv s'" "lh_n s' = 0" "lg_start s' = 2" "lg_size s' = 30"
    "\<not> lg_lock s'" "pinned (cview s') = {}" "medium (cview s') = recovered 2 (medium (cview s))"
    by (auto simp: two LOGBLOCKS_def)
  then show ?thesis using s r by auto
qed

lemma pinned_c_set [simp]: "pinned (c_set n x v) = pinned v"
  by (simp add: pinned_def)

text \<open>Inside a transaction, with block 100 read and changed but not yet logged.\<close>

lemma changed_block:
  "\<exists>i (s :: logst). log_inv s \<and> holds s i 100 \<and> 100 \<notin> log_area (lg_start s) \<and> \<not> lg_lock s \<and> lg_outstanding s = 1 \<and>
    \<not> lg_committing s \<and> lh_n s = 0 \<and> lg_size s = 30 \<and> lg_start s = 2 \<and> pinned (cview s) = {100} \<and> refs (cview s) = (\<lambda>_. 0)(100 := 1) \<and>
    medium (cview s) = medium_of (\<lambda>_. 0) \<and> content (cview s) 100 = replicate BSIZE 7"
proof -
  obtain s0 :: logst where s0: "log_inv s0" "lh_n s0 = 0" "lg_start s0 = 2" "lg_size s0 = 30" "\<not> lg_lock s0"
    "pinned (cview s0) = {}" "medium (cview s0) = medium_of (\<lambda>_. 0)" using booted_log by blast
  let ?s = "s0\<lparr>lg_outstanding := 1, lg_committing := False\<rparr>"
  have f: "bc_ok ?s = bc_ok s0" "cview ?s = cview s0" using same_cache [of ?s s0] by simp_all
  have p: "refs (cview s0) = (\<lambda>_. 0)" "dirty (cview s0) n \<longleftrightarrow> False" for n
    using s0(6) by (auto simp: pinned_def fun_eq_iff)
  have us: "usable 100" by (simp add: usable_def small_block_def)
  have ok: "virtio_blk prompt_device \<and> bc_ok ?s" using s0(1) virtio_blk_prompt f by (simp add: log_inv_def)
  obtain i s1 where s1: "bc_ok s1" "holds s1 i 100" "cview s1 = c_ref 100 (cview s0)" "bc_frame ?s s1"
    using bc.bread_law [OF ok us] s0(6) p(1) f by (auto simp: NBUF_def)
  let ?s2 = "set_buf_data i (replicate BSIZE 7) s1"
  note S = set_data_spec [OF s1(1,2), of "replicate BSIZE 7", folded set_buf_data_def]
  have F: "bc_frame ?s ?s2" by (rule bc_frame_trans [OF s1(4) S(3)]) simp
  note F = bc_frame_log [OF F] bc_frame_home [OF F]
  have v2: "cview ?s2 = c_set 100 (replicate BSIZE 7) (c_ref 100 (cview s0))" and h2: "holds ?s2 i 100" and "bc_ok ?s2"
    using S s1 by simp_all
  moreover have "log_inv ?s2"
    using s0 F \<open>bc_ok ?s2\<close> v2 p(2) by (simp add: log_inv_def trans_ok_def homes_def)
  moreover have "100 \<notin> log_area 2"
  proof
    assume "100 \<in> log_area 2"
    then obtain j where j: "j < LOGBLOCKS" "100 = log_blk 2 j" by (auto simp: log_area_def)
    then have "unat (100 :: u32) = nat (2 + int j)" using log_blk_unat [of 2 j] by (simp add: area_ok_def)
    then show False using j(1) by (simp add: LOGBLOCKS_def)
  qed
  ultimately show ?thesis using s0 F p by (intro exI [of _ i] exI [of _ ?s2]) (simp add: fun_eq_iff)
qed

text \<open>The transaction with that block logged and released.\<close>

lemma logged_block:
  "\<exists>s :: logst. log_inv s \<and> has_room s \<and> \<not> lg_lock s \<and> lg_outstanding s = 1 \<and> \<not> lg_committing s \<and> lh_n s = 1 \<and>
    lg_size s = 30 \<and> lg_start s = 2 \<and> homes s = {100} \<and> medium (cview s) = medium_of (\<lambda>_. 0) \<and>
    content (cview s) 100 = replicate BSIZE 7"
proof -
  obtain i and s :: logst where s: "log_inv s" "holds s i 100" "100 \<notin> log_area (lg_start s)" "\<not> lg_lock s"
    "lg_outstanding s = 1" "\<not> lg_committing s" "lh_n s = 0" "lg_size s = 30" "lg_start s = 2"
    "refs (cview s) = (\<lambda>_. 0)(100 := 1)"
    "medium (cview s) = medium_of (\<lambda>_. 0)" "content (cview s) 100 = replicate BSIZE 7" using changed_block by blast
  have "1 \<le> lg_outstanding s" "lh_n s < lg_size s - 1" using s by simp_all
  from log_write_spec [OF s(1-4) this] obtain s' :: logst where s': "log_inv s'" "cview s' = c_mark 100 True (cview s)"
    "homes s' = insert 100 (homes s)" "lh_n s' = (if 100 \<in> homes s then lh_n s else lh_n s + 1)" "\<not> lg_lock s'"
    "lg_outstanding s' = lg_outstanding s" "lg_committing s' = lg_committing s" "lg_start s' = lg_start s"
    "lg_size s' = lg_size s" by blast
  have h0: "homes s = {}" using s(7) by (simp add: homes_def)
  have d: "\<not> dirty (cview s) n" for n using s(1) h0 by (simp add: log_inv_def)
  have "pinned (cview s') = {100}" using d s(10) by (auto simp: pinned_def s'(2))
  then have "has_room s'" using s'(1) s(10) by (simp add: has_room_def NBUF_def s'(2) log_inv_def)
  then show ?thesis using s' s h0 by auto
qed

text \<open>The machine started again on a medium.\<close>

lemma reboot:
  "\<exists>t :: logst. bc_ok t \<and> pinned (cview t) = {} \<and> lg_dev t = 0 \<and> lg_start t = 2 \<and> medium (cview t) = medium_of m"
proof -
  let ?b = "logst_boot\<lparr>img := m\<rparr>"
  have z: "zero_bufs ?b" by (simp add: zero_bufs_def buf_boot_def)
  obtain s :: logst where s: "bc_ok s" "pinned (cview s) = {}" "medium (cview s) = medium_of m"
    using binit_spec [OF z] vq_idle_boot by auto
  let ?t = "s\<lparr>lg_start := 2, lg_dev := 0\<rparr>"
  have "bc_ok ?t = bc_ok s" "cview ?t = cview s" using same_cache [of ?t s] by simp_all
  then show ?thesis using s by (intro exI [of _ ?t]) simp
qed

lemma medium_block_write:
  assumes "usable n" and "length d = BSIZE"
  shows "medium_of (block_write n d m) = (medium_of m)(n := d)"
proof
  fix k
  show "medium_of (block_write n d m) k = ((medium_of m)(n := d)) k"
    using assms disk_block_write_same [OF assms(2), of n m] disk_block_write_other [OF assms(2), of n k m]
    by (auto simp: medium_of_def usable_def)
qed

text \<open>A crash right after the header of a commit has been written.\<close>

lemma crash_after_header:
  "\<exists>(s :: logst) (t :: logst). log_inv s \<and> has_room s \<and> lh_n s = 1 \<and> lg_start s = 2 \<and> homes s = {100} \<and>
    head_count 2 (medium (cview s)) = 0 \<and> content (cview s) 100 = replicate BSIZE 7 \<and>
    bc_ok t \<and> pinned (cview t) = {} \<and> lg_dev t = 0 \<and> lg_start t = 2 \<and> head_count 2 (medium (cview t)) = 1 \<and>
    medium (cview t) = apply_writes (take 2 (commit_writes s)) (medium (cview s))"
proof -
  obtain s :: logst where s: "log_inv s" "has_room s" "lh_n s = 1" "lg_start s = 2" "homes s = {100}"
    "medium (cview s) = medium_of (\<lambda>_. 0)" "content (cview s) 100 = replicate BSIZE 7" using logged_block by blast
  have T: "trans_ok s" and d: "\<And>n. dirty (cview s) n \<longleftrightarrow> n \<in> homes s" using s(1) by (auto simp: log_inv_def)
  have h: "home s i \<in> pinned (cview s)" if "i < nat (lh_n s)" for i using d that by (auto simp: pinned_def homes_def)
  obtain s1 where s1: "write_log prompt_device s = Inr ((), s1)" "after (log_copies s) s s1"
    using write_log_spec [OF virtio_blk_prompt s(2) T h] by blast
  note A1 = afterD [OF s1(2)]
  have "has_room s1" "lg_dev s1 = 0" "area_ok (lg_start s1)" "0 \<le> lh_n s1" "lh_n s1 \<le> int LOGBLOCKS"
    using A1 s T by (simp_all add: trans_ok_def)
  from write_head_spec [OF virtio_blk_prompt this] obtain s2 where
    "after [(log_blk 2 0, head_bytes s)] s1 s2"
    using A1 s(4) log_copies_other(1) [OF T] by (auto simp: head_bytes_def)
  then have m2: "medium (cview s2) = apply_writes (log_copies s @ [(log_blk 2 0, head_bytes s)]) (medium (cview s))"
    using A1(2) by (simp add: after_def)
  have "length (content (cview s) (log_blk 2 0)) = BSIZE"
    using content_length usable_log_blk s(1,4) T by (fastforce simp: log_inv_def trans_ok_def)
  from header_bytes_spec(2) [OF _ _ this, of "lh_n s" "lh_block s"] have c: "head_count 2 (medium (cview s2)) = 1"
    by (simp add: m2 head_count_def head_bytes_def s(3,4) LOGBLOCKS_def)
  have m: "medium (cview s2) = medium_of (img s2)" by (simp add: cview_def)
  have "log_copies s @ [(log_blk 2 0, head_bytes s)] = take 2 (commit_writes s)"
    by (simp add: commit_writes_def log_copies_def s(3,4))
  with m2 m have w: "medium_of (img s2) = apply_writes (take 2 (commit_writes s)) (medium (cview s))" by metis
  obtain t :: logst where t: "bc_ok t" "pinned (cview t) = {}" "lg_dev t = 0" "lg_start t = 2"
    "medium (cview t) = medium_of (img s2)" using reboot by blast
  have "head_count 2 (medium (cview t)) = 1" using c t(5) m by metis
  moreover have "medium (cview t) = apply_writes (take 2 (commit_writes s)) (medium (cview s))" using t(5) w by metis
  moreover have "head_count 2 (medium (cview s)) = 0" using s(6) zero_head(1) by simp
  ultimately show ?thesis using s t(1-4) by blast
qed

section \<open>Properties\<close>

text \<open>
  C2. Atomic commit: if the machine stops after any number of the block writes of a commit, and the
  kernel started on that medium recovers, every block outside the log has its old content if the
  header had not been written, and its new content if it had.
\<close>

theorem commit_crash_atomic:
  assumes "virtio_blk hw" and "log_inv s" and "has_room s" and "0 < lh_n s"
    and "head_count (lg_start s) (medium (cview s)) = 0"
    and "virtio_blk hw'" and "bc_ok t" and "pinned (cview t) = {}" and "lg_dev t = 0" and "lg_start t = lg_start s"
    and "medium (cview t) = apply_writes (take k (commit_writes s)) (medium (cview s))"
  shows "\<exists>s' t'. commit hw s = Inr ((), s') \<and> writes (cview s') = writes (cview s) @ commit_writes s \<and>
    recover_from_log hw' time t = Inr ((), t') \<and>
    (\<forall>b. b \<notin> log_area (lg_start s) \<longrightarrow> medium (cview t') b =
      (if k \<le> nat (lh_n s) then medium (cview s) b else committed s b))"
proof -
  have T: "trans_ok s" and ok: "bc_ok s" using assms(2) by (simp_all add: log_inv_def)
  obtain s' where s': "commit hw s = Inr ((), s')" "cview s' = c_writes (trans_writes s) (cview s)"
    using commit_inv [OF assms(1-3)] by blast
  note R = recovered_prefix [OF T assms(4) ok assms(5), of _ k]
  have "b \<notin> log_area (lg_start s) \<Longrightarrow> head_ok (lg_start t) (medium (cview t))" for b
    using R(2) by (simp add: assms(10,11))
  moreover have "\<exists>b. b \<notin> log_area (lg_start s)"
    using T assms(4) by (intro exI [of _ "home s 0"]) (simp add: trans_ok_def)
  ultimately have "head_ok (lg_start t) (medium (cview t))" by blast
  from recover_spec [OF assms(6-9) this] obtain t' where t': "recover_from_log hw' time t = Inr ((), t')"
    "cview t' = c_writes (recovery_writes (lg_start t) (medium (cview t))) (cview t)" by blast
  have "medium (cview t') = recovered (lg_start s) (apply_writes (take k (commit_writes s)) (medium (cview s)))"
    by (simp add: t'(2) recovered_def assms(10,11))
  then show ?thesis using s' t'(1) R(1) assms(4) by (auto simp: trans_writes_def)
qed

theorem commit_crash_atomic_witness:
  "\<exists>(s :: logst) (t :: logst) t'. recover_from_log prompt_device 0 t = Inr ((), t') \<and>
    medium (cview t) = apply_writes (take 2 (commit_writes s)) (medium (cview s)) \<and>
    medium (cview t') 100 = replicate BSIZE 7"
proof -
  obtain s t :: logst where s: "log_inv s" "has_room s" "lh_n s = 1" "lg_start s = 2" "homes s = {100}"
    "head_count 2 (medium (cview s)) = 0" "content (cview s) 100 = replicate BSIZE 7"
    and t: "bc_ok t" "pinned (cview t) = {}" "lg_dev t = 0" "lg_start t = 2"
    "medium (cview t) = apply_writes (take 2 (commit_writes s)) (medium (cview s))" using crash_after_header by blast
  have h: "100 \<in> home s ` {..<nat (lh_n s)}" using s(5) by (simp add: homes_def)
  have out: "100 \<notin> log_area (lg_start s)" using h s(1) by (auto simp: log_inv_def trans_ok_def)
  have "0 < lh_n s" "head_count (lg_start s) (medium (cview s)) = 0" "lg_start t = lg_start s" using s t by simp_all
  from commit_crash_atomic [OF virtio_blk_prompt s(1,2) this(1,2) virtio_blk_prompt t(1-3) this(3) t(5), of 0]
  obtain t' where "recover_from_log prompt_device 0 t = Inr ((), t')"
    "\<forall>b. b \<notin> log_area (lg_start s) \<longrightarrow> medium (cview t') b = committed s b" using s(3) by auto
  then have "medium (cview t') 100 = replicate BSIZE 7" using out h s(7) by (simp add: committed_def)
  then show ?thesis using t(5) \<open>recover_from_log prompt_device 0 t = Inr ((), t')\<close> by blast
qed

text \<open>
  C3. Recovery may be cut short and started again: the second recovery leaves exactly the medium that
  the first would have left.
\<close>

theorem recovery_restartable:
  assumes "virtio_blk hw" and "bc_ok t" and "pinned (cview t) = {}" and "lg_dev t = 0"
    and "head_ok (lg_start t) (medium (cview t))"
    and "bc_ok u" and "pinned (cview u) = {}" and "lg_dev u = 0" and "lg_start u = lg_start t"
    and "medium (cview u) = apply_writes (take k (recovery_writes (lg_start t) (medium (cview t)))) (medium (cview t))"
  shows "\<exists>t' u'. recover_from_log hw time t = Inr ((), t') \<and>
    writes (cview t') = writes (cview t) @ recovery_writes (lg_start t) (medium (cview t)) \<and>
    recover_from_log hw time' u = Inr ((), u') \<and> medium (cview u') = medium (cview t')"
proof -
  have us: "usable (log_blk (lg_start t) 0)" using assms(5) usable_log_blk by (simp add: head_ok_def)
  have l: "length (medium (cview t) (log_blk (lg_start t) 0)) = BSIZE"
    using content_length [OF assms(2) us] clean_content [OF assms(2,3)] by simp
  note A = recovered_again [OF assms(5) l, of k, folded assms(10)]
  obtain t' where t': "recover_from_log hw time t = Inr ((), t')"
    "cview t' = c_writes (recovery_writes (lg_start t) (medium (cview t))) (cview t)"
    using recover_spec [OF assms(1-5)] by blast
  have h: "head_ok (lg_start u) (medium (cview u))" using A(2) by (simp add: assms(9))
  obtain u' where u': "recover_from_log hw time' u = Inr ((), u')"
    "cview u' = c_writes (recovery_writes (lg_start u) (medium (cview u))) (cview u)"
    using recover_spec [OF assms(1,6-8) h] by blast
  have "medium (cview u') = recovered (lg_start t) (medium (cview u))" by (simp add: u'(2) recovered_def assms(9))
  also have "\<dots> = medium (cview t')" using A(1) by (simp add: t'(2) recovered_def)
  finally show ?thesis using t' u'(1) by auto
qed

theorem recovery_restartable_witness:
  "\<exists>(t :: logst) (u :: logst) t' u'. recover_from_log prompt_device 0 t = Inr ((), t') \<and>
    medium (cview u) = apply_writes (take 1 (recovery_writes 2 (medium (cview t)))) (medium (cview t)) \<and>
    recovery_writes 2 (medium (cview t)) \<noteq> [] \<and>
    recover_from_log prompt_device 0 u = Inr ((), u') \<and> medium (cview u') = medium (cview t')"
proof -
  obtain s t :: logst where s: "log_inv s" "lh_n s = 1" "lg_start s = 2" "homes s = {100}"
    "head_count 2 (medium (cview s)) = 0" and t: "bc_ok t" "pinned (cview t) = {}" "lg_dev t = 0" "lg_start t = 2"
    "head_count 2 (medium (cview t)) = 1"
    "medium (cview t) = apply_writes (take 2 (commit_writes s)) (medium (cview s))" using crash_after_header by blast
  let ?m = "medium (cview t)" and ?d = "medium (cview t) (log_blk 2 1)"
  have T: "trans_ok s" "bc_ok s" "0 < lh_n s" using s by (simp_all add: log_inv_def)
  have "100 \<in> home s ` {..<nat (lh_n s)}" using s(4) by (simp add: homes_def)
  then have out: "100 \<notin> log_area (lg_start s)" using T(1) by (auto simp: trans_ok_def)
  have c: "head_count (lg_start s) (medium (cview s)) = 0" using s by simp
  have h: "head_ok (lg_start t) ?m" using recovered_prefix(2) [OF T(1,3,2) c out, of 2] s t by simp
  have rw: "recovery_writes 2 ?m = [(head_home 2 ?m 0, ?d), (log_blk 2 0, put_int 0 0 (?m (log_blk 2 0)))]"
    by (simp add: recovery_writes_def t(5))
  have us: "usable (head_home 2 ?m 0)" "usable (log_blk 2 1)"
    using h t usable_log_blk [of 2 1] by (simp_all add: head_ok_def LOGBLOCKS_def)
  have "length ?d = BSIZE" using content_length [OF t(1) us(2)] clean_content [OF t(1,2)] by simp
  from medium_block_write [OF us(1) this, of "img t"]
  have "medium_of (block_write (head_home 2 ?m 0) ?d (img t)) = ?m(head_home 2 ?m 0 := ?d)" by (simp add: cview_def)
  then obtain u :: logst where u: "bc_ok u" "pinned (cview u) = {}" "lg_dev u = 0" "lg_start u = 2"
    "medium (cview u) = apply_writes (take 1 (recovery_writes 2 ?m)) ?m"
    using reboot [of "block_write (head_home 2 ?m 0) ?d (img t)"] by (auto simp: rw)
  have "lg_start u = lg_start t" and "medium (cview u) = apply_writes (take 1 (recovery_writes (lg_start t) ?m)) ?m"
    using u t by simp_all
  from recovery_restartable [OF virtio_blk_prompt t(1-3) h u(1-3) this, of 0 0]
  have "\<exists>t' u'. recover_from_log prompt_device 0 t = Inr ((), t') \<and> recover_from_log prompt_device 0 u = Inr ((), u') \<and>
    medium (cview u') = medium (cview t')" by blast
  moreover have "recovery_writes 2 ?m \<noteq> []" by (simp add: rw)
  ultimately show ?thesis using u(5) by blast
qed

text \<open>
  C4. The last \<open>end_op\<close> of a transaction commits it: it returns, every block outside the log is on the
  medium as the cache has it, nothing stays pending, the log is empty and open again.
\<close>

theorem end_op_commits:
  assumes "virtio_blk hw" and "log_inv s" and "has_room s"
    and "\<not> lg_lock s" and "lg_outstanding s = 1" and "\<not> lg_committing s"
  shows "\<exists>s'. end_op hw s = Inr ((), s') \<and> log_inv s' \<and> lh_n s' = 0 \<and> lg_outstanding s' = 0 \<and>
    \<not> lg_committing s' \<and> \<not> lg_lock s' \<and> (\<forall>n. \<not> dirty (cview s') n) \<and>
    (\<forall>b. b \<notin> log_area (lg_start s) \<longrightarrow> content (cview s') b = content (cview s) b \<and>
      medium (cview s') b = committed s b)"
proof -
  obtain s' where s': "end_op hw s = Inr ((), s')" "log_inv s'" "lh_n s' = 0" "lg_outstanding s' = 0"
    "\<not> lg_committing s'" "\<not> lg_lock s'" "\<forall>n. \<not> dirty (cview s') n"
    "cview s' = c_writes (trans_writes s) (cview s)" using end_op_last_spec [OF assms] by blast
  have T: "trans_ok s" using assms(2) by (simp add: log_inv_def)
  have "content (cview s') b = content (cview s) b \<and> medium (cview s') b = committed s b"
    if "b \<notin> log_area (lg_start s)" for b
  proof (cases "0 < lh_n s")
    case True
    then show ?thesis using commit_content [OF T that] by (simp add: s'(8) trans_writes_def)
  next
    case False
    then show ?thesis by (simp add: s'(8) trans_writes_def committed_def)
  qed
  then show ?thesis using s' by blast
qed

theorem end_op_commits_witness:
  "\<exists>(s :: logst) s'. end_op prompt_device s = Inr ((), s') \<and> homes s = {100} \<and> medium (cview s') 100 = replicate BSIZE 7"
proof -
  obtain s :: logst where s: "log_inv s" "has_room s" "\<not> lg_lock s" "lg_outstanding s = 1" "\<not> lg_committing s"
    "lh_n s = 1" "homes s = {100}" "content (cview s) 100 = replicate BSIZE 7" using logged_block by blast
  have h: "100 \<in> home s ` {..<nat (lh_n s)}" using s(7) by (simp add: homes_def)
  then have out: "100 \<notin> log_area (lg_start s)" using s(1) by (auto simp: log_inv_def trans_ok_def)
  obtain s' where "end_op prompt_device s = Inr ((), s')" "medium (cview s') 100 = committed s 100"
    using end_op_commits [OF virtio_blk_prompt s(1-5)] out by blast
  then show ?thesis using s(7,8) h by (intro exI [of _ s] exI [of _ s']) (simp add: committed_def)
qed

text \<open>
  \<open>log_write\<close> puts the block in the transaction once, marks its buffer so that the cache keeps it,
  writes nothing, and keeps the invariant.
\<close>

theorem log_write_absorbs:
  assumes "log_inv s" and "holds s b n" and "n \<notin> log_area (lg_start s)"
    and "\<not> lg_lock s" and "1 \<le> lg_outstanding s" and "lh_n s < lg_size s - 1"
  shows "\<exists>s'. log_write b s = Inr ((), s') \<and> log_inv s' \<and> cview s' = c_mark n True (cview s) \<and>
    homes s' = insert n (homes s) \<and> lh_n s' = (if n \<in> homes s then lh_n s else lh_n s + 1)"
  using log_write_spec [OF assms] by blast

theorem log_write_absorbs_witness:
  "\<exists>i (s :: logst) s'. log_write i s = Inr ((), s') \<and> homes s = {} \<and> homes s' = {100}"
proof -
  obtain i and s :: logst where s: "log_inv s" "holds s i 100" "100 \<notin> log_area (lg_start s)" "\<not> lg_lock s"
    "lg_outstanding s = 1" "lh_n s = 0" "lg_size s = 30" using changed_block by blast
  have "homes s = {}" using s(6) by (simp add: homes_def)
  moreover have "1 \<le> lg_outstanding s" "lh_n s < lg_size s - 1" using s by simp_all
  ultimately show ?thesis using log_write_absorbs [OF s(1-4)] by fastforce
qed

text \<open>
  When \<open>log_write\<close> fails: the lock is never freed, the transaction is as big as the log, or no
  transaction is open. The header's array is never overrun.
\<close>

theorem log_write_errors:
  assumes "log_inv s"
  shows "log_write b s = Inl e \<longleftrightarrow>
    lg_lock s \<and> e = Hang \<or>
    \<not> lg_lock s \<and> lh_n s \<ge> lg_size s - 1 \<and> e = Panic ''log: too big'' \<or>
    \<not> lg_lock s \<and> lh_n s < lg_size s - 1 \<and> lg_outstanding s < 1 \<and> e = Panic ''log: outside of trans''"
proof -
  have "lg_size s \<le> int LOGBLOCKS" using assms by (simp add: log_inv_def)
  then show ?thesis by (auto simp: log_write_def acquire_log_def Let_def ret_def)
qed

theorem log_write_errors_witness:
  "\<exists>s :: logst. log_inv s \<and> \<not> lg_lock s \<and> log_write 0 (s\<lparr>lg_outstanding := 0\<rparr>) = Inl (Panic ''log: outside of trans'')"
proof -
  obtain s :: logst where s: "log_inv s" "\<not> lg_lock s" "lh_n s = 0" "lg_size s = 30" using booted_log by blast
  then have "log_inv (s\<lparr>lg_outstanding := 0\<rparr>)" by simp
  from log_write_errors [OF this, of 0] s show ?thesis by (intro exI [of _ s]) auto
qed

end
