(* ===== verification/Fs.thy ===== *)
theory Fs
  imports Trans
begin

text \<open>
  The file system's operations (fs.c, fs.h): superblock, block bitmap, inode table and its
  cache in memory, file contents, directories and paths. Blocks are read through the buffer
  cache and changed through the log. Pointers to cached inodes are indices into the table;
  \<open>short\<close> fields are 16-bit words; the C strings and names the functions get are functions
  from the offset to the byte there.
\<close>

section \<open>State\<close>

record superblock =
  sb_magic :: u32
  sb_size :: u32
  sb_nblocks :: u32
  sb_ninodes :: u32
  sb_nlog :: u32
  sb_logstart :: u32
  sb_inodestart :: u32
  sb_bmapstart :: u32

definition FSMAGIC :: u32 where "FSMAGIC = 0x10203040"
definition ROOTDEV :: u32 where "ROOTDEV = 0"
definition ROOTINO :: u32 where "ROOTINO = 1"
definition NDIRECT :: nat where "NDIRECT = 12"
definition NINDIRECT :: nat where "NINDIRECT = BSIZE div 4"
definition IPB :: nat where "IPB = BSIZE div 64"
definition BPB :: nat where "BPB = BSIZE * 8"
definition NINODE :: nat where "NINODE = 50"
definition DIRSIZ :: nat where "DIRSIZ = 14"
definition T_DIR :: u16 where "T_DIR = 1"
definition T_FILE :: u16 where "T_FILE = 2"

text \<open>The part of an inode that is kept on the medium.\<close>

record dinode =
  d_type :: u16
  d_major :: u16
  d_minor :: u16
  d_nlink :: u16
  d_size :: u32
  d_addrs :: "nat \<Rightarrow> u32"

record inode = dinode +
  i_dev :: u32
  i_inum :: u32
  i_ref :: int
  i_valid :: bool

record fsst = logst +
  fs_sb :: superblock
  icache :: "nat \<Rightarrow> inode"

definition upd_inode :: "nat \<Rightarrow> (inode \<Rightarrow> inode) \<Rightarrow> 'a fsst_scheme \<Rightarrow> 'a fsst_scheme" where
  "upd_inode i f s = s\<lparr>icache := (icache s)(i := f (icache s i))\<rparr>"

section \<open>Fields of blocks\<close>

text \<open>\<open>n\<close>-byte little-endian fields.\<close>

definition get_field :: "nat \<Rightarrow> nat \<Rightarrow> u8 list \<Rightarrow> 'w::len word" where
  "get_field n off d = le_word (take n (drop off d))"

definition put_field :: "nat \<Rightarrow> nat \<Rightarrow> 'w::len word \<Rightarrow> u8 list \<Rightarrow> u8 list" where
  "put_field n off v d = take off d @ le_bytes n v @ drop (off + n) d"

abbreviation get16 :: "nat \<Rightarrow> u8 list \<Rightarrow> u16" where "get16 \<equiv> get_field 2"
abbreviation get32 :: "nat \<Rightarrow> u8 list \<Rightarrow> u32" where "get32 \<equiv> get_field 4"
abbreviation put16 :: "nat \<Rightarrow> u16 \<Rightarrow> u8 list \<Rightarrow> u8 list" where "put16 \<equiv> put_field 2"
abbreviation put32 :: "nat \<Rightarrow> u32 \<Rightarrow> u8 list \<Rightarrow> u8 list" where "put32 \<equiv> put_field 4"

definition superblock_of :: "u8 list \<Rightarrow> superblock" where
  "superblock_of d = \<lparr>sb_magic = get32 0 d, sb_size = get32 4 d, sb_nblocks = get32 8 d, sb_ninodes = get32 12 d,
     sb_nlog = get32 16 d, sb_logstart = get32 20 d, sb_inodestart = get32 24 d, sb_bmapstart = get32 28 d\<rparr>"

text \<open>The disk inode at byte \<open>off\<close> of a block: 64 bytes.\<close>

definition dinode_at :: "nat \<Rightarrow> u8 list \<Rightarrow> dinode" where
  "dinode_at off d = \<lparr>d_type = get16 off d, d_major = get16 (off + 2) d, d_minor = get16 (off + 4) d,
     d_nlink = get16 (off + 6) d, d_size = get32 (off + 8) d, d_addrs = (\<lambda>i. get32 (off + 12 + 4 * i) d)\<rparr>"

definition put_dinode :: "nat \<Rightarrow> 'a dinode_scheme \<Rightarrow> u8 list \<Rightarrow> u8 list" where
  "put_dinode off ip d = fold (\<lambda>i. put32 (off + 12 + 4 * i) (d_addrs ip i)) [0..<NDIRECT + 1]
     (put32 (off + 8) (d_size ip) (put16 (off + 6) (d_nlink ip) (put16 (off + 4) (d_minor ip)
       (put16 (off + 2) (d_major ip) (put16 off (d_type ip) d)))))"

text \<open>The block of an inode and of a bitmap bit, and the place in it.\<close>

definition IBLOCK :: "u32 \<Rightarrow> superblock \<Rightarrow> u32" where
  "IBLOCK i sb = i div of_nat IPB + sb_inodestart sb"

definition ioff :: "u32 \<Rightarrow> nat" where
  "ioff inum = 64 * (unat inum mod IPB)"

definition BBLOCK :: "u32 \<Rightarrow> superblock \<Rightarrow> u32" where
  "BBLOCK b sb = b div of_nat BPB + sb_bmapstart sb"

definition bit_in_use :: "u8 list \<Rightarrow> nat \<Rightarrow> bool" where
  "bit_in_use d bi \<longleftrightarrow> d ! (bi div 8) AND push_bit (bi mod 8) 1 \<noteq> 0"

definition set_bit_in :: "nat \<Rightarrow> u8 list \<Rightarrow> u8 list" where
  "set_bit_in bi d = d[bi div 8 := d ! (bi div 8) OR push_bit (bi mod 8) 1]"

definition clear_bit_in :: "nat \<Rightarrow> u8 list \<Rightarrow> u8 list" where
  "clear_bit_in bi d = d[bi div 8 := d ! (bi div 8) AND NOT (push_bit (bi mod 8) 1)]"

section \<open>Mounting\<close>

definition readsb :: "('a fsst_scheme) device \<Rightarrow> int \<Rightarrow> 'a fsst_scheme \<Rightarrow> (unit, 'a fsst_scheme) outcome" where
  "readsb hw dev s = bnd (bread hw (blkno dev) 1 s) (\<lambda>b s.
     brelse b (s\<lparr>fs_sb := superblock_of (b_data (bufs s b))\<rparr>))"

definition fsinit :: "('a fsst_scheme) device \<Rightarrow> u64 \<Rightarrow> int \<Rightarrow> 'a fsst_scheme \<Rightarrow> (unit, 'a fsst_scheme) outcome" where
  "fsinit hw time dev s =
     bnd (readsb hw dev s) (\<lambda>_ s.
     if sb_magic (fs_sb s) \<noteq> FSMAGIC then
       bnd (klog time LOG_ERROR ''Invalid magic number %x (expected %x)\<newline>''
              [AVal (ucast (sb_magic (fs_sb s))), AVal (ucast FSMAGIC)] s) (\<lambda>_ s.
       Inl (Panic ''invalid fs magic''))
     else
       bnd (klog time LOG_INFO ''File system mounted: %d blocks, %d inodes\<newline>''
              [AVal (ucast (sb_size (fs_sb s))), AVal (ucast (sb_ninodes (fs_sb s)))] s) (\<lambda>_ s.
       bnd (init_log hw time dev (sb_logstart (fs_sb s)) (sb_nlog (fs_sb s)) s) (\<lambda>_ s.
       ret () (fold (\<lambda>i. upd_inode i (\<lambda>ip. ip\<lparr>i_ref := 0, i_valid := False\<rparr>)) [0..<NINODE] s))))"

section \<open>Block allocation\<close>

text \<open>The blocks \<open>b\<close>, \<open>b + 1\<close>, ... that one bitmap block describes, searched for a free one.\<close>

fun balloc_loop :: "('a fsst_scheme) device \<Rightarrow> u32 \<Rightarrow> nat list \<Rightarrow> 'a fsst_scheme \<Rightarrow> (u32, 'a fsst_scheme) outcome" where
  "balloc_loop hw dev [] s = Inl (Panic ''balloc: out of blocks'')"
| "balloc_loop hw dev (b # bs) s =
     bnd (bread hw dev (BBLOCK (of_nat b) (fs_sb s)) s) (\<lambda>bp s.
     case List.find (\<lambda>bi. \<not> bit_in_use (b_data (bufs s bp)) bi) [0..<min BPB (nat (sint (sb_size (fs_sb s))) - b)] of
       Some bi \<Rightarrow>
         bnd (log_write bp (set_buf_data bp (set_bit_in bi (b_data (bufs s bp))) s)) (\<lambda>_ s.
         bnd (brelse bp s) (\<lambda>_ s.
         bnd (bread hw dev (of_nat (b + bi)) s) (\<lambda>bp s.
         bnd (log_write bp (set_buf_data bp (replicate BSIZE 0) s)) (\<lambda>_ s.
         bnd (brelse bp s) (\<lambda>_. ret (of_nat (b + bi)))))))
     | None \<Rightarrow> bnd (brelse bp s) (\<lambda>_. balloc_loop hw dev bs))"

definition balloc :: "('a fsst_scheme) device \<Rightarrow> u32 \<Rightarrow> 'a fsst_scheme \<Rightarrow> (u32, 'a fsst_scheme) outcome" where
  "balloc hw dev s = balloc_loop hw dev (map (\<lambda>k. BPB * k) [0..<(nat (sint (sb_size (fs_sb s))) + BPB - 1) div BPB]) s"

definition bfree :: "('a fsst_scheme) device \<Rightarrow> u32 \<Rightarrow> u32 \<Rightarrow> 'a fsst_scheme \<Rightarrow> (unit, 'a fsst_scheme) outcome" where
  "bfree hw dev b s =
     bnd (bread hw dev (BBLOCK b (fs_sb s)) s) (\<lambda>bp s.
     let bi = unat b mod BPB; d = b_data (bufs s bp) in
     if \<not> bit_in_use d bi then Inl (Panic ''freeing free block'')
     else
       bnd (log_write bp (set_buf_data bp (clear_bit_in bi d) s)) (\<lambda>_ s. brelse bp s))"

section \<open>Inodes\<close>

definition iget :: "u32 \<Rightarrow> u32 \<Rightarrow> 'a fsst_scheme \<Rightarrow> (nat, 'a fsst_scheme) outcome" where
  "iget dev inum s =
     (case List.find (\<lambda>i. i_ref (icache s i) > 0 \<and> i_dev (icache s i) = dev \<and> i_inum (icache s i) = inum) [0..<NINODE] of
        Some i \<Rightarrow> ret i (upd_inode i (\<lambda>ip. ip\<lparr>i_ref := i_ref ip + 1\<rparr>) s)
      | None \<Rightarrow>
          (case List.find (\<lambda>i. i_ref (icache s i) = 0) [0..<NINODE] of
             None \<Rightarrow> Inl (Panic ''iget: no inodes'')
           | Some i \<Rightarrow> ret i (upd_inode i (\<lambda>ip. ip\<lparr>i_dev := dev, i_inum := inum, i_ref := 1, i_valid := False\<rparr>) s)))"

definition load_dinode :: "dinode \<Rightarrow> inode \<Rightarrow> inode" where
  "load_dinode d ip = ip\<lparr>d_type := d_type d, d_major := d_major d, d_minor := d_minor d, d_nlink := d_nlink d,
     d_size := d_size d, d_addrs := (\<lambda>i. if i < NDIRECT + 1 then d_addrs d i else d_addrs ip i)\<rparr>"

definition ilock :: "('a fsst_scheme) device \<Rightarrow> nat \<Rightarrow> 'a fsst_scheme \<Rightarrow> (unit, 'a fsst_scheme) outcome" where
  "ilock hw i s =
     (if i_ref (icache s i) < 1 then Inl (Panic ''ilock'')
      else if i_valid (icache s i) then ret () s
      else
        bnd (bread hw (i_dev (icache s i)) (IBLOCK (i_inum (icache s i)) (fs_sb s)) s) (\<lambda>bp s.
        let s = upd_inode i (load_dinode (dinode_at (ioff (i_inum (icache s i))) (b_data (bufs s bp)))) s in
        bnd (brelse bp s) (\<lambda>_ s.
        let s = upd_inode i (\<lambda>ip. ip\<lparr>i_valid := True\<rparr>) s in
        if d_type (icache s i) = 0 then Inl (Panic ''ilock: no type'') else ret () s)))"

definition iunlock :: "nat \<Rightarrow> 'a fsst_scheme \<Rightarrow> (unit, 'a fsst_scheme) outcome" where
  "iunlock i s = (if i_ref (icache s i) < 1 then Inl (Panic ''iunlock'') else ret () s)"

definition iupdate :: "('a fsst_scheme) device \<Rightarrow> nat \<Rightarrow> 'a fsst_scheme \<Rightarrow> (unit, 'a fsst_scheme) outcome" where
  "iupdate hw i s =
     bnd (bread hw (i_dev (icache s i)) (IBLOCK (i_inum (icache s i)) (fs_sb s)) s) (\<lambda>bp s.
     bnd (log_write bp (set_buf_data bp
            (put_dinode (ioff (i_inum (icache s i))) (icache s i) (b_data (bufs s bp))) s)) (\<lambda>_ s.
     brelse bp s))"

definition iput :: "('a fsst_scheme) device \<Rightarrow> nat \<Rightarrow> 'a fsst_scheme \<Rightarrow> (unit, 'a fsst_scheme) outcome" where
  "iput hw i s =
     (let ip = icache s i in
      bnd (if i_ref ip = 1 \<and> i_valid ip \<and> d_nlink ip = 0
           then bnd (iupdate hw i (upd_inode i (\<lambda>ip. ip\<lparr>d_type := 0\<rparr>) s)) (\<lambda>_ s.
                ret () (upd_inode i (\<lambda>ip. ip\<lparr>i_valid := False\<rparr>) s))
           else ret () s)
        (\<lambda>_ s. ret () (upd_inode i (\<lambda>ip. ip\<lparr>i_ref := i_ref ip - 1\<rparr>) s)))"

definition iunlockput :: "('a fsst_scheme) device \<Rightarrow> nat \<Rightarrow> 'a fsst_scheme \<Rightarrow> (unit, 'a fsst_scheme) outcome" where
  "iunlockput hw i s = bnd (iunlock i s) (\<lambda>_. iput hw i)"

fun ialloc_loop :: "('a fsst_scheme) device \<Rightarrow> u32 \<Rightarrow> u16 \<Rightarrow> nat list \<Rightarrow> 'a fsst_scheme \<Rightarrow> (nat, 'a fsst_scheme) outcome" where
  "ialloc_loop hw dev type [] s = Inl (Panic ''ialloc: no inodes'')"
| "ialloc_loop hw dev type (inum # inums) s =
     bnd (bread hw dev (IBLOCK (of_nat inum) (fs_sb s)) s) (\<lambda>bp s.
     let d = b_data (bufs s bp); off = ioff (of_nat inum) in
     if get16 off d = 0 then
       bnd (log_write bp (set_buf_data bp (put16 off type (take off d @ replicate 64 0 @ drop (off + 64) d)) s)) (\<lambda>_ s.
       bnd (brelse bp s) (\<lambda>_ s. iget dev (of_nat inum) s))
     else bnd (brelse bp s) (\<lambda>_. ialloc_loop hw dev type inums))"

definition ialloc :: "('a fsst_scheme) device \<Rightarrow> u32 \<Rightarrow> u16 \<Rightarrow> 'a fsst_scheme \<Rightarrow> (nat, 'a fsst_scheme) outcome" where
  "ialloc hw dev type s = ialloc_loop hw dev type [1..<nat (sint (sb_ninodes (fs_sb s)))] s"

section \<open>File contents\<close>

definition bmap :: "('a fsst_scheme) device \<Rightarrow> nat \<Rightarrow> u32 \<Rightarrow> bool \<Rightarrow> 'a fsst_scheme \<Rightarrow> (u32, 'a fsst_scheme) outcome" where
  "bmap hw i bn create s =
     (let new_addr = (\<lambda>k s. bnd (balloc hw (i_dev (icache s i)) s) (\<lambda>addr s.
            ret addr (upd_inode i (\<lambda>ip. ip\<lparr>d_addrs := (d_addrs ip)(k := addr)\<rparr>) s)));
          get = (\<lambda>k s. if d_addrs (icache s i) k = 0 then new_addr k s else ret (d_addrs (icache s i) k) s);
          n = unat bn; k = n - NDIRECT
      in if n < NDIRECT then
        (if d_addrs (icache s i) n = 0 \<and> \<not> create then ret 0 s else get n s)
      else if k < NINDIRECT then
        (if d_addrs (icache s i) NDIRECT = 0 \<and> \<not> create then ret 0 s
         else
           bnd (get NDIRECT s) (\<lambda>addr s.
           bnd (bread hw (i_dev (icache s i)) addr s) (\<lambda>bp s.
           bnd (if get32 (4 * k) (b_data (bufs s bp)) = 0 \<and> create then
                  bnd (balloc hw (i_dev (icache s i)) s) (\<lambda>addr s.
                  bnd (log_write bp (set_buf_data bp (put32 (4 * k) addr (b_data (bufs s bp))) s)) (\<lambda>_.
                  ret addr))
                else ret (get32 (4 * k) (b_data (bufs s bp))) s) (\<lambda>addr s.
           bnd (brelse bp s) (\<lambda>_. ret addr)))))
      else Inl (Panic ''bmap: out of range''))"

text \<open>
  The chunk of a transfer that lies in one block: \<open>m = min (BSIZE - off % BSIZE) (n - tot)\<close>.
  The bytes read are the result of \<open>readi\<close> (the caller says where they go), the bytes to
  write an argument of \<open>writei\<close>.
\<close>

definition fs_chunk :: "u32 \<Rightarrow> u32 \<Rightarrow> u32" where
  "fs_chunk off rest = (let m = of_nat BSIZE - off mod of_nat BSIZE in if m > rest then rest else m)"

lemma fs_chunk_bounds: "0 < rest \<Longrightarrow> 0 < fs_chunk off rest \<and> fs_chunk off rest \<le> rest"
proof -
  assume r: "0 < rest"
  have "off mod of_nat BSIZE < of_nat BSIZE" by (simp add: BSIZE_def word_less_nat_alt unat_mod_distrib)
  then have "0 < of_nat BSIZE - off mod (of_nat BSIZE :: u32)" by (simp add: word_less_nat_alt unat_sub_if_size word_size)
  then show ?thesis using r by (auto simp: fs_chunk_def Let_def)
qed

lemma fs_chunk_decreases: "tot < n \<Longrightarrow> unat (n - (tot + fs_chunk off (n - tot))) < unat (n - tot)"
proof -
  assume t: "tot < n"
  then have "0 < n - tot" by (simp add: word_gt_0)
  from fs_chunk_bounds [OF this, of off] have m: "0 < fs_chunk off (n - tot)" "fs_chunk off (n - tot) \<le> n - tot" by auto
  have eq: "n - (tot + fs_chunk off (n - tot)) = (n - tot) - fs_chunk off (n - tot)" by simp
  have "unat ((n - tot) - fs_chunk off (n - tot)) = unat (n - tot) - unat (fs_chunk off (n - tot))"
    using m(2) by (simp only: unat_sub)
  then show ?thesis using m unfolding eq by (simp add: word_le_nat_alt word_less_nat_alt)
qed

function readi_loop ::
  "('a fsst_scheme) device \<Rightarrow> nat \<Rightarrow> u32 \<Rightarrow> u32 \<Rightarrow> u32 \<Rightarrow> u8 list \<Rightarrow> 'a fsst_scheme \<Rightarrow> (u8 list, 'a fsst_scheme) outcome" where
  "readi_loop hw i tot off n dst s =
     (if tot < n then
        bnd (bmap hw i (off div of_nat BSIZE) False s) (\<lambda>addr s.
        let m = fs_chunk off (n - tot) in
        if addr = 0 then readi_loop hw i (tot + m) (off + m) n (dst @ replicate (unat m) 0) s
        else
          bnd (bread hw (i_dev (icache s i)) addr s) (\<lambda>bp s.
          let src = take (unat m) (drop (unat (off mod of_nat BSIZE)) (b_data (bufs s bp))) in
          bnd (brelse bp s) (\<lambda>_. readi_loop hw i (tot + m) (off + m) n (dst @ src))))
      else ret dst s)"
  by pat_completeness auto

termination readi_loop
  by (relation "measure (\<lambda>(hw, i, tot, off, n, dst, s). unat (n - tot))") (simp_all add: fs_chunk_decreases)

declare readi_loop.simps [simp del]

definition readi :: "('a fsst_scheme) device \<Rightarrow> nat \<Rightarrow> u32 \<Rightarrow> u32 \<Rightarrow> 'a fsst_scheme \<Rightarrow> (int \<times> u8 list, 'a fsst_scheme) outcome" where
  "readi hw i off n s =
     (let sz = d_size (icache s i) in
      if off > sz \<or> off + n < off then ret (-1, []) s
      else
        (let n = (if off + n > sz then sz - off else n) in
         bnd (readi_loop hw i 0 off n [] s) (\<lambda>dst. ret (sint n, dst))))"

text \<open>\<open>splice k bs d\<close>: the bytes \<open>bs\<close> stored at offset \<open>k\<close> of \<open>d\<close>.\<close>

definition splice :: "nat \<Rightarrow> u8 list \<Rightarrow> u8 list \<Rightarrow> u8 list" where
  "splice k bs d = take k d @ bs @ drop (k + length bs) d"

text \<open>The loop returns the offset it reached, or nothing where the code returns -1.\<close>

function writei_loop ::
  "('a fsst_scheme) device \<Rightarrow> nat \<Rightarrow> u32 \<Rightarrow> u32 \<Rightarrow> u32 \<Rightarrow> u8 list \<Rightarrow> 'a fsst_scheme \<Rightarrow> (u32 option, 'a fsst_scheme) outcome" where
  "writei_loop hw i tot off n src s =
     (if tot < n then
        bnd (bmap hw i (off div of_nat BSIZE) True s) (\<lambda>addr s.
        if addr = 0 then ret None s
        else
          bnd (bread hw (i_dev (icache s i)) addr s) (\<lambda>bp s.
          let m = fs_chunk off (n - tot);
              d = splice (unat (off mod of_nat BSIZE)) (take (unat m) src) (b_data (bufs s bp)) in
          bnd (log_write bp (set_buf_data bp d s)) (\<lambda>_ s.
          bnd (brelse bp s) (\<lambda>_. writei_loop hw i (tot + m) (off + m) n (drop (unat m) src)))))
      else ret (Some off) s)"
  by pat_completeness auto

termination writei_loop
  by (relation "measure (\<lambda>(hw, i, tot, off, n, src, s). unat (n - tot))") (simp_all add: fs_chunk_decreases)

declare writei_loop.simps [simp del]

definition writei :: "('a fsst_scheme) device \<Rightarrow> nat \<Rightarrow> u8 list \<Rightarrow> u32 \<Rightarrow> u32 \<Rightarrow> 'a fsst_scheme \<Rightarrow> (int, 'a fsst_scheme) outcome" where
  "writei hw i src off n s =
     (if off > d_size (icache s i) \<or> off + n < off then ret (-1) s
      else
        bnd (writei_loop hw i 0 off n src s) (\<lambda>r s.
        case r of None \<Rightarrow> ret (-1) s
        | Some off \<Rightarrow>
            if n > 0 then
              (let s = (if off > d_size (icache s i) then upd_inode i (\<lambda>ip. ip\<lparr>d_size := off\<rparr>) s else s)
               in bnd (iupdate hw i s) (\<lambda>_. ret (sint n)))
            else ret (sint n) s))"

fun itrunc_blocks :: "('a fsst_scheme) device \<Rightarrow> nat \<Rightarrow> nat list \<Rightarrow> 'a fsst_scheme \<Rightarrow> (unit, 'a fsst_scheme) outcome" where
  "itrunc_blocks hw i [] s = ret () s"
| "itrunc_blocks hw i (k # ks) s =
     (if d_addrs (icache s i) k = 0 then itrunc_blocks hw i ks s
      else
        bnd (bfree hw (i_dev (icache s i)) (d_addrs (icache s i) k) s) (\<lambda>_ s.
        itrunc_blocks hw i ks (upd_inode i (\<lambda>ip. ip\<lparr>d_addrs := (d_addrs ip)(k := 0)\<rparr>) s)))"

definition itrunc :: "('a fsst_scheme) device \<Rightarrow> nat \<Rightarrow> 'a fsst_scheme \<Rightarrow> (unit, 'a fsst_scheme) outcome" where
  "itrunc hw i s =
     bnd (itrunc_blocks hw i [0..<NDIRECT] s) (\<lambda>_ s.
     bnd (if d_addrs (icache s i) NDIRECT = 0 then ret () s
          else
            bnd (bread hw (i_dev (icache s i)) (d_addrs (icache s i) NDIRECT) s) (\<lambda>bp s.
            bnd (for_each [0..<NINDIRECT] (\<lambda>j s.
                   let a = get32 (4 * j) (b_data (bufs s bp)) in
                   if a = 0 then ret () s else bfree hw (i_dev (icache s i)) a s) s) (\<lambda>_ s.
            bnd (brelse bp s) (\<lambda>_ s.
            bnd (bfree hw (i_dev (icache s i)) (d_addrs (icache s i) NDIRECT) s) (\<lambda>_ s.
            ret () (upd_inode i (\<lambda>ip. ip\<lparr>d_addrs := (d_addrs ip)(NDIRECT := 0)\<rparr>) s)))))) (\<lambda>_ s.
     iupdate hw i (upd_inode i (\<lambda>ip. ip\<lparr>d_size := 0\<rparr>) s)))"

section \<open>Directories\<close>

text \<open>A directory entry is 16 bytes: the inode number and a name of up to 14 bytes.\<close>

type_synonym fname = "nat \<Rightarrow> u8"

definition de_inum :: "u8 list \<Rightarrow> u16" where
  "de_inum de = get16 0 de"

definition de_name :: "u8 list \<Rightarrow> fname" where
  "de_name de i = de ! (2 + i)"

text \<open>Equality up to the end of the string, as the comparison loop decides it.\<close>

fun name_match :: "fname \<Rightarrow> fname \<Rightarrow> nat list \<Rightarrow> bool" where
  "name_match a b [] = True"
| "name_match a b (i # is) = (if a i \<noteq> b i then False else if a i = 0 then True else name_match a b is)"

fun dirlookup_loop :: "('a fsst_scheme) device \<Rightarrow> nat \<Rightarrow> fname \<Rightarrow> nat list \<Rightarrow> 'a fsst_scheme \<Rightarrow>
    ((nat \<times> u32) option, 'a fsst_scheme) outcome" where
  "dirlookup_loop hw dp name [] s = ret None s"
| "dirlookup_loop hw dp name (off # offs) s =
     bnd (readi hw dp (of_nat off) 16 s) (\<lambda>(r, de) s.
     if r \<noteq> 16 then Inl (Panic ''dirlookup read'')
     else if de_inum de = 0 \<or> \<not> name_match name (de_name de) [0..<DIRSIZ] then dirlookup_loop hw dp name offs s
     else bnd (iget (i_dev (icache s dp)) (ucast (de_inum de)) s) (\<lambda>i. ret (Some (i, of_nat off))))"

text \<open>
  The offsets of the entries of a directory of the given size. The 32-bit \<open>off\<close> of the code cannot wrap around: the read
  at offset 274432, the end of the last block \<open>bmap\<close> can address, panics.
\<close>

definition entries :: "nat \<Rightarrow> nat list" where
  "entries sz = map (\<lambda>k. 16 * k) [0..<(sz + 15) div 16]"

definition dirlookup :: "('a fsst_scheme) device \<Rightarrow> nat \<Rightarrow> fname \<Rightarrow> 'a fsst_scheme \<Rightarrow>
    ((nat \<times> u32) option, 'a fsst_scheme) outcome" where
  "dirlookup hw dp name s =
     (if d_type (icache s dp) \<noteq> T_DIR then Inl (Panic ''dirlookup not DIR'')
      else dirlookup_loop hw dp name (entries (unat (d_size (icache s dp)))) s)"

text \<open>The free entry that \<open>dirlink\<close> takes: the first unused one, or the end of the directory.\<close>

fun dirlink_slot :: "('a fsst_scheme) device \<Rightarrow> nat \<Rightarrow> nat \<Rightarrow> nat list \<Rightarrow> 'a fsst_scheme \<Rightarrow> (nat, 'a fsst_scheme) outcome" where
  "dirlink_slot hw dp end_off [] s = ret end_off s"
| "dirlink_slot hw dp end_off (off # offs) s =
     bnd (readi hw dp (of_nat off) 16 s) (\<lambda>(r, de) s.
     if r \<noteq> 16 then Inl (Panic ''dirlink read'')
     else if de_inum de = 0 then ret off s
     else dirlink_slot hw dp end_off offs s)"

definition make_dirent :: "u16 \<Rightarrow> fname \<Rightarrow> u8 list" where
  "make_dirent inum name = le_bytes 2 inum @ map (\<lambda>i. if name i \<noteq> 0 then name i else 0) [0..<DIRSIZ]"

definition dirlink :: "('a fsst_scheme) device \<Rightarrow> nat \<Rightarrow> fname \<Rightarrow> u32 \<Rightarrow> 'a fsst_scheme \<Rightarrow> (int, 'a fsst_scheme) outcome" where
  "dirlink hw dp name inum s =
     bnd (dirlookup hw dp name s) (\<lambda>r s.
     case r of Some (i, _) \<Rightarrow> bnd (iput hw i s) (\<lambda>_. ret (-1))
     | None \<Rightarrow>
         (let offs = entries (nat (sint (d_size (icache s dp)))) in
          bnd (dirlink_slot hw dp (16 * length offs) offs s) (\<lambda>off s.
          bnd (writei hw dp (make_dirent (ucast inum) name) (of_nat off) 16 s) (\<lambda>r s.
          if r \<noteq> 16 then Inl (Panic ''dirlink'') else ret 0 s))))"

section \<open>Paths\<close>

text \<open>
  A path is the list of its bytes before the terminating NUL. \<open>skipelem\<close> gives the rest of
  the path and the name buffer, or nothing at the end of the path. An element of 14 bytes
  or more is cut and not terminated.
\<close>

definition slash :: u8 where "slash = ch CHR ''/''"

definition copy_name :: "u8 list \<Rightarrow> fname \<Rightarrow> fname" where
  "copy_name e name = (\<lambda>i. if i < length e \<and> i < DIRSIZ then e ! i
     else if i = length e \<and> i < DIRSIZ then 0 else name i)"

definition skipelem :: "u8 list \<Rightarrow> fname \<Rightarrow> (u8 list \<times> fname) option" where
  "skipelem path name =
     (let path = dropWhile (\<lambda>c. c = slash) path in
      if path = [] then None
      else
        (let e = takeWhile (\<lambda>c. c \<noteq> slash) path; rest = dropWhile (\<lambda>c. c \<noteq> slash) path
         in Some (dropWhile (\<lambda>c. c = slash) rest, copy_name e name)))"

lemma skipelem_shorter: "skipelem path name = Some (path', name') \<Longrightarrow> length path' < length path"
proof -
  assume k: "skipelem path name = Some (path', name')"
  let ?p = "dropWhile (\<lambda>c. c = slash) path"
  have ne: "?p \<noteq> []" and p': "path' = dropWhile (\<lambda>c. c = slash) (dropWhile (\<lambda>c. c \<noteq> slash) ?p)"
    using k by (auto simp: skipelem_def Let_def split: if_splits)
  have "hd ?p \<noteq> slash" using ne hd_dropWhile by blast
  then have "length (dropWhile (\<lambda>c. c \<noteq> slash) ?p) < length ?p"
    using ne by (cases ?p) (auto simp: length_dropWhile_le le_imp_less_Suc)
  then show ?thesis
    unfolding p' using length_dropWhile_le [of "\<lambda>c. c = slash"] by (meson le_less_trans less_le_trans)
qed

text \<open>\<open>parent\<close>: stop at the directory that holds the last element (\<open>nameiparent\<close>).\<close>

function namex_loop :: "('a fsst_scheme) device \<Rightarrow> bool \<Rightarrow> nat \<Rightarrow> u8 list \<Rightarrow> fname \<Rightarrow> 'a fsst_scheme \<Rightarrow>
    (nat option \<times> fname, 'a fsst_scheme) outcome" where
  "namex_loop hw parent i path name s =
     (case skipelem path name of
        None \<Rightarrow> if parent then bnd (iput hw i s) (\<lambda>_. ret (None, name)) else ret (Some i, name) s
      | Some (path, name) \<Rightarrow>
          bnd (ilock hw i s) (\<lambda>_ s.
          if d_type (icache s i) \<noteq> T_DIR then bnd (iunlockput hw i s) (\<lambda>_. ret (None, name))
          else if parent \<and> path = [] then bnd (iunlock i s) (\<lambda>_. ret (Some i, name))
          else
            bnd (dirlookup hw i name s) (\<lambda>r s.
            case r of None \<Rightarrow> bnd (iunlockput hw i s) (\<lambda>_. ret (None, name))
            | Some (nxt, _) \<Rightarrow> bnd (iunlockput hw i s) (\<lambda>_. namex_loop hw parent nxt path name))))"
  by pat_completeness auto

termination namex_loop
  by (relation "measure (\<lambda>(hw, parent, i, path, name, s). length path)") (auto dest: skipelem_shorter)

declare namex_loop.simps [simp del]

definition namex :: "('a fsst_scheme) device \<Rightarrow> u8 list \<Rightarrow> bool \<Rightarrow> fname \<Rightarrow> 'a fsst_scheme \<Rightarrow>
    (nat option \<times> fname, 'a fsst_scheme) outcome" where
  "namex hw path parent name s = bnd (iget ROOTDEV ROOTINO s) (\<lambda>i. namex_loop hw parent i path name)"

text \<open>The name buffer of \<open>namei\<close> is a local array: what it holds at first does not matter.\<close>

definition namei :: "('a fsst_scheme) device \<Rightarrow> u8 list \<Rightarrow> 'a fsst_scheme \<Rightarrow> (nat option, 'a fsst_scheme) outcome" where
  "namei hw path s = bnd (namex hw path False (\<lambda>_. 0) s) (\<lambda>(r, _). ret r)"

definition nameiparent :: "('a fsst_scheme) device \<Rightarrow> u8 list \<Rightarrow> fname \<Rightarrow> 'a fsst_scheme \<Rightarrow>
    (nat option \<times> fname, 'a fsst_scheme) outcome" where
  "nameiparent hw path name s = namex hw path True name s"

end
