(* ===== verification/File.thy ===== *)
theory File
  imports Fs
begin

text \<open>
  The system-wide table of open files (file.c). A file of type \<open>FD_INODE\<close> refers to a slot of
  the inode cache and has an offset of its own.
\<close>

section \<open>State\<close>

definition NFILE :: nat where "NFILE = 100"
definition NOFILE :: nat where "NOFILE = 16"

datatype fdtype = FD_NONE | FD_INODE | FD_DEVICE

record ofile =
  f_type :: fdtype
  f_ref :: int
  f_readable :: bool
  f_writable :: bool
  f_ip :: "nat option"
  f_off :: u32
  f_major :: u16

record filest = fsst +
  ftable :: "nat \<Rightarrow> ofile"

definition upd_file :: "nat \<Rightarrow> (ofile \<Rightarrow> ofile) \<Rightarrow> 'a filest_scheme \<Rightarrow> 'a filest_scheme" where
  "upd_file i f s = s\<lparr>ftable := (ftable s)(i := f (ftable s i))\<rparr>"

text \<open>Calls on the inode a file points to; the null pointer is what \<open>ilock\<close> and \<open>iunlock\<close> test for.\<close>

definition on_inode :: "string \<Rightarrow> nat option \<Rightarrow> (nat \<Rightarrow> 's \<Rightarrow> (unit, 's) outcome) \<Rightarrow> 's \<Rightarrow> (unit, 's) outcome" where
  "on_inode msg ip f s = (case ip of None \<Rightarrow> Inl (Panic msg) | Some i \<Rightarrow> f i s)"

section \<open>Operations\<close>

definition fileinit :: "'a filest_scheme \<Rightarrow> 'a filest_scheme" where
  "fileinit s = fold (\<lambda>i. upd_file i (\<lambda>f. f\<lparr>f_ref := 0, f_type := FD_NONE\<rparr>)) [0..<NFILE] s"

definition filealloc :: "'a filest_scheme \<Rightarrow> nat option \<times> 'a filest_scheme" where
  "filealloc s =
     (case List.find (\<lambda>i. f_ref (ftable s i) = 0) [0..<NFILE] of
        None \<Rightarrow> (None, s)
      | Some i \<Rightarrow> (Some i, upd_file i (\<lambda>f. f\<lparr>f_ref := 1\<rparr>) s))"

definition filedup :: "nat \<Rightarrow> 'a filest_scheme \<Rightarrow> (nat, 'a filest_scheme) outcome" where
  "filedup i s =
     (if f_ref (ftable s i) < 1 then Inl (Panic ''filedup'')
      else ret i (upd_file i (\<lambda>f. f\<lparr>f_ref := f_ref f + 1\<rparr>) s))"

definition fileclose :: "('a filest_scheme) device \<Rightarrow> nat \<Rightarrow> 'a filest_scheme \<Rightarrow> (unit, 'a filest_scheme) outcome" where
  "fileclose hw i s =
     (if f_ref (ftable s i) < 1 then Inl (Panic ''fileclose'')
      else
        (let s = upd_file i (\<lambda>f. f\<lparr>f_ref := f_ref f - 1\<rparr>) s in
         if f_ref (ftable s i) > 0 then ret () s
         else
           bnd (if f_type (ftable s i) = FD_INODE
                then (case f_ip (ftable s i) of None \<Rightarrow> Inl (Fault ''iput'') | Some ip \<Rightarrow> iput hw ip s)
                else ret () s) (\<lambda>_ s.
           ret () (upd_file i (\<lambda>f. f\<lparr>f_type := FD_NONE\<rparr>) s))))"

text \<open>Result code and the bytes stored at \<open>addr\<close>.\<close>

definition fileread :: "('a filest_scheme) device \<Rightarrow> nat \<Rightarrow> int \<Rightarrow> 'a filest_scheme \<Rightarrow> (int \<times> u8 list, 'a filest_scheme) outcome" where
  "fileread hw i n s =
     (if \<not> f_readable (ftable s i) then ret (-1, []) s
      else if f_type (ftable s i) = FD_INODE then
        bnd (on_inode ''ilock'' (f_ip (ftable s i)) (ilock hw) s) (\<lambda>_ s.
        bnd (readi hw (the (f_ip (ftable s i))) (f_off (ftable s i)) (of_int n) s) (\<lambda>(r, bs) s.
        let s = (if r > 0 then upd_file i (\<lambda>f. f\<lparr>f_off := f_off f + of_int r\<rparr>) s else s) in
        bnd (on_inode ''iunlock'' (f_ip (ftable s i)) iunlock s) (\<lambda>_. ret (r, bs))))
      else Inl (Panic ''fileread''))"

definition filewrite :: "('a filest_scheme) device \<Rightarrow> nat \<Rightarrow> u8 list \<Rightarrow> int \<Rightarrow> 'a filest_scheme \<Rightarrow> (int, 'a filest_scheme) outcome" where
  "filewrite hw i src n s =
     (if \<not> f_writable (ftable s i) then ret (-1) s
      else if f_type (ftable s i) = FD_INODE then
        bnd (on_inode ''ilock'' (f_ip (ftable s i)) (ilock hw) s) (\<lambda>_ s.
        bnd (writei hw (the (f_ip (ftable s i))) src (f_off (ftable s i)) (of_int n) s) (\<lambda>r s.
        let s = (if r > 0 then upd_file i (\<lambda>f. f\<lparr>f_off := f_off f + of_int r\<rparr>) s else s) in
        bnd (on_inode ''iunlock'' (f_ip (ftable s i)) iunlock s) (\<lambda>_. ret r)))
      else Inl (Panic ''filewrite''))"

end
