(* ===== verification/Fork.thy ===== *)
theory Fork
  imports Proc
begin

text \<open>
  Creation and growth of processes (proc.c): \<open>alloc_process\<close>, \<open>user_init\<close>, \<open>fork\<close> and
  \<open>sbrk\<close>. The addresses of the trampoline page and of \<open>usertrapret\<close>, and the embedded
  init program, are arguments. The two loops over an address range count with 64-bit
  addresses that may wrap around; they are partial functions, and a loop that does not end
  is \<open>Hang\<close>.
\<close>

section \<open>Operations\<close>

text \<open>The fields of a trap frame that the kernel writes, by their index in the structure.\<close>

definition tf_kernel_satp :: nat where "tf_kernel_satp = 0"
definition tf_kernel_sp :: nat where "tf_kernel_sp = 1"
definition tf_kernel_trap :: nat where "tf_kernel_trap = 2"
definition tf_epc :: nat where "tf_epc = 3"
definition tf_kernel_hartid :: nat where "tf_kernel_hartid = 4"
definition tf_sp :: nat where "tf_sp = 6"
definition tf_a :: "nat \<Rightarrow> nat" where "tf_a i = 14 + i"

text \<open>The byte loops: clearing a page, and \<open>dst[i] = src[i]\<close> for \<open>i < n\<close>.\<close>

definition clear_bytes :: "pmemory \<Rightarrow> u64 \<Rightarrow> pmemory" where
  "clear_bytes m p = fold (\<lambda>i m. m(p + of_nat i := 0)) [0..<4096] m"

definition copy_bytes :: "pmemory \<Rightarrow> u64 \<Rightarrow> u64 \<Rightarrow> nat \<Rightarrow> pmemory" where
  "copy_bytes m dst src n = fold (\<lambda>i m. m(dst + of_nat i := m (src + of_nat i))) [0..<n] m"

definition alloc_process :: "u64 \<Rightarrow> 'a ptab_scheme \<Rightarrow> (nat option, 'a ptab_scheme) outcome" where
  "alloc_process tramp s =
     (case List.find (\<lambda>i. p_state (procs s i) = UNUSED) [0..<NPROC] of
        None \<Rightarrow> ret None s
      | Some i \<Rightarrow>
          (let s = upd_proc i (\<lambda>p. p\<lparr>p_pid := nextpid s, p_state := USED\<rparr>) (s\<lparr>nextpid := i32 (nextpid s + 1)\<rparr>);
               (ks, s) = alloc_page s;
               s = upd_proc i (\<lambda>p. p\<lparr>p_kstack := ks\<rparr>) s
           in if ks = 0 then ret None s
           else
             bnd (create_pagetable s) (\<lambda>pt s.
             let s = upd_proc i (\<lambda>p. p\<lparr>p_pagetable := pt\<rparr>) s in
             if pt = 0 then bnd (free_page ks s) (\<lambda>_. ret None)
             else
               (let (tf, s) = alloc_page s;
                    s = upd_proc i (\<lambda>p. p\<lparr>p_trapframe := tf\<rparr>) s
                in if tf = 0 then ret None s
                else
                  bnd (map_page pt TRAMPOLINE tramp (PTE_R OR PTE_X) s) (\<lambda>_ s.
                  bnd (map_page pt TRAPFRAME tf (PTE_R OR PTE_W) s) (\<lambda>_ s.
                  ret (Some i) (upd_proc i (\<lambda>p. p\<lparr>p_sz := 0, p_sp := ks + PGSIZE, p_parent := None,
                    p_chan := NoChan\<rparr>) s)))))))"

text \<open>
  One page of the program: \<open>False\<close> when memory runs out. \<open>copy_len\<close> is computed as the code
  does, so the last page gets the rest.
\<close>

definition load_page :: "u8 list \<Rightarrow> u64 \<Rightarrow> nat \<Rightarrow> 'a ptab_scheme \<Rightarrow> (bool, 'a ptab_scheme) outcome" where
  "load_page prog pt i s =
     (let (pg, s) = alloc_page s in
      if pg = 0 then ret False s
      else
        (let s = s\<lparr>pmem := clear_bytes (pmem s) pg\<rparr>;
             s = s\<lparr>pmem := store_bytes (pmem s) pg (take (min 4096 (length prog - 4096 * i)) (drop (4096 * i) prog))\<rparr>
         in bnd (map_page pt (of_nat i * PGSIZE) pg (PTE_R OR PTE_W OR PTE_X OR PTE_U) s) (\<lambda>_. ret True)))"

fun load_pages :: "u8 list \<Rightarrow> u64 \<Rightarrow> nat list \<Rightarrow> 'a ptab_scheme \<Rightarrow> (bool, 'a ptab_scheme) outcome" where
  "load_pages prog pt [] s = ret True s"
| "load_pages prog pt (i # is) s =
     bnd (load_page prog pt i s) (\<lambda>ok s. if ok then load_pages prog pt is s else ret False s)"

definition user_init :: "u64 \<Rightarrow> u64 \<Rightarrow> u8 list \<Rightarrow> 'a ptab_scheme \<Rightarrow> (unit, 'a ptab_scheme) outcome" where
  "user_init tramp trapret prog s =
     bnd (alloc_process tramp s) (\<lambda>r s.
     case r of None \<Rightarrow> bnd (printf ''user_init: alloc_process failed!\<newline>'' [] s) (\<lambda>_. ret ())
     | Some i \<Rightarrow>
         (let s = upd_proc i (\<lambda>p. p\<lparr>p_parent := None, p_name := safestrcpy (p_name p) (cstr ''init'') 16\<rparr>) s in
          bnd (printf ''user_init: loading init program, size=%d bytes\<newline>''
                 [of_int_arg (sint (of_nat (length prog) :: u32))] s) (\<lambda>_ s.
          let num_pages = (length prog + 4095) div 4096; pt = p_pagetable (procs s i) in
          bnd (load_pages prog pt [0..<num_pages] s) (\<lambda>ok s.
          if \<not> ok then bnd (printf ''user_init: alloc_page failed!\<newline>'' [] s) (\<lambda>_. ret ())
          else
            (let s = upd_proc i (\<lambda>p. p\<lparr>p_sz := of_nat num_pages * PGSIZE\<rparr>) s;
                 (stack, s) = alloc_page s
             in if stack = 0 then bnd (printf ''user_init: alloc stack failed!\<newline>'' [] s) (\<lambda>_. ret ())
             else
               (let s = s\<lparr>pmem := clear_bytes (pmem s) stack\<rparr>; va = p_sz (procs s i) in
                bnd (map_page pt va stack (PTE_R OR PTE_W OR PTE_U) s) (\<lambda>_ s.
                let s = upd_proc i (\<lambda>p. p\<lparr>p_sz := p_sz p + PGSIZE\<rparr>) s;
                    tf = p_trapframe (procs s i);
                    s = s\<lparr>pmem := store64 (pmem s) (slot tf tf_epc) 0\<rparr>;
                    s = s\<lparr>pmem := store64 (pmem s) (slot tf tf_sp) (va + PGSIZE)\<rparr>;
                    s = upd_proc i (\<lambda>p. p\<lparr>p_state := RUNNABLE, p_ra := trapret, p_sp := p_kstack p + PGSIZE\<rparr>) s
                in bnd (printf ''user_init: init process created, pid=%d\<newline>''
                     [of_int_arg (p_pid (procs s i))] s) (\<lambda>_. ret ()))))))))"

text \<open>The body of the loop of \<open>fork\<close>: \<open>False\<close> where the code gives up.\<close>

definition fork_page :: "u64 \<Rightarrow> u64 \<Rightarrow> u64 \<Rightarrow> 'a ptab_scheme \<Rightarrow> (bool, 'a ptab_scheme) outcome" where
  "fork_page ppt npt va s =
     (let pte = walk_lookup (pmem s) ppt va in
      if pte \<noteq> 0 \<and> load64 (pmem s) pte AND PTE_V \<noteq> 0 then
        (let (pg, s) = alloc_page s in
         if pg = 0 then ret False s
         else
           (let pa = PTE_PA (load64 (pmem s) pte);
                s = s\<lparr>pmem := copy_bytes (pmem s) pg pa 4096\<rparr>
            in bnd (map_page npt va pg (PTE_R OR PTE_W OR PTE_X OR PTE_U) s) (\<lambda>r s.
               if r < 0 then bnd (free_page pg s) (\<lambda>_. ret False) else ret True s)))
      else ret True s)"

partial_function (option) fork_loop ::
  "u64 \<Rightarrow> u64 \<Rightarrow> u64 \<Rightarrow> u64 \<Rightarrow> 'a ptab_scheme \<Rightarrow> (bool, 'a ptab_scheme) outcome option" where
  "fork_loop ppt npt sz va s =
     (if va < sz then
        (case fork_page ppt npt va s of
           Inl e \<Rightarrow> Some (Inl e)
         | Inr (ok, s) \<Rightarrow> if ok then fork_loop ppt npt sz (va + PGSIZE) s else Some (Inr (False, s)))
      else Some (Inr (True, s)))"

definition fork :: "u64 \<Rightarrow> u64 \<Rightarrow> 'a ptab_scheme \<Rightarrow> (int, 'a ptab_scheme) outcome" where
  "fork tramp trapret s =
     (case myproc s of None \<Rightarrow> Inl (Fault ''fork'')
      | Some p \<Rightarrow>
          bnd (alloc_process tramp s) (\<lambda>r s.
          case r of None \<Rightarrow> ret (-1) s
          | Some i \<Rightarrow>
              (case fork_loop (p_pagetable (procs s p)) (p_pagetable (procs s i)) (p_sz (procs s p)) 0 s of
                 None \<Rightarrow> Inl Hang
               | Some r \<Rightarrow>
                   bnd r (\<lambda>ok s.
                   if \<not> ok then ret (-1) (upd_proc i (\<lambda>x. x\<lparr>p_state := UNUSED\<rparr>) s)
                   else
                     (let s = upd_proc i (\<lambda>x. x\<lparr>p_sz := p_sz (procs s p)\<rparr>) s;
                          tf = p_trapframe (procs s i);
                          s = s\<lparr>pmem := copy_bytes (pmem s) tf (p_trapframe (procs s p)) 4096\<rparr>;
                          s = s\<lparr>pmem := store64 (pmem s) (slot tf (tf_a 0)) 0\<rparr>;
                          s = upd_proc i (\<lambda>x. x\<lparr>p_parent := Some p,
                                p_name := safestrcpy (p_name x) (p_name (procs s p)) 16,
                                p_ra := trapret, p_sp := p_kstack x + PGSIZE, p_state := RUNNABLE\<rparr>) s
                      in ret (p_pid (procs s i)) s)))))"

text \<open>The loop that grows a process.\<close>

partial_function (option) sbrk_loop ::
  "u64 \<Rightarrow> u64 \<Rightarrow> u64 \<Rightarrow> 'a ptab_scheme \<Rightarrow> (bool, 'a ptab_scheme) outcome option" where
  "sbrk_loop pt newsz a s =
     (if a < newsz then
        (let (pg, s) = alloc_page s in
         if pg = 0 then Some (Inr (False, s))
         else
           (case map_page pt a pg (PTE_R OR PTE_W OR PTE_X OR PTE_U) (s\<lparr>pmem := clear_bytes (pmem s) pg\<rparr>) of
              Inl e \<Rightarrow> Some (Inl e)
            | Inr (r, s) \<Rightarrow>
                if r < 0 then
                  (case free_page pg s of Inl e \<Rightarrow> Some (Inl e) | Inr (_, s) \<Rightarrow> Some (Inr (False, s)))
                else sbrk_loop pt newsz (a + PGSIZE) s))
      else Some (Inr (True, s)))"

text \<open>
  The result and the sizes are unsigned: the test \<open>newsz < 0\<close> of the code is never true,
  and -1 is the largest value.
\<close>

definition sbrk :: "int \<Rightarrow> 'a ptab_scheme \<Rightarrow> (u64, 'a ptab_scheme) outcome" where
  "sbrk n s =
     (case myproc s of None \<Rightarrow> Inl (Fault ''sbrk'')
      | Some p \<Rightarrow>
          (let oldsz = p_sz (procs s p); newsz = oldsz + of_int n in
           if n > 0 then
             (case sbrk_loop (p_pagetable (procs s p)) newsz (PGGROUNDUP oldsz) s of
                None \<Rightarrow> Inl Hang
              | Some r \<Rightarrow> bnd r (\<lambda>ok s.
                  if ok then ret oldsz (upd_proc p (\<lambda>x. x\<lparr>p_sz := newsz\<rparr>) s) else ret (-1) s))
           else ret oldsz (upd_proc p (\<lambda>x. x\<lparr>p_sz := newsz\<rparr>) s)))"

section \<open>Frames\<close>

definition tab_frame :: "'a ptab_scheme \<Rightarrow> 'a ptab_scheme \<Rightarrow> bool" where
  "tab_frame s s' \<longleftrightarrow> procs s' = procs s \<and> current s' = current s \<and> nextpid s' = nextpid s \<and> ptab.more s' = ptab.more s"

lemma tab_frame_refl [simp]: "tab_frame s s"
  by (simp add: tab_frame_def)

lemma tab_frame_trans: "tab_frame s t \<Longrightarrow> tab_frame t u \<Longrightarrow> tab_frame s u"
  by (simp add: tab_frame_def)

lemma more_tab_frame: "mem.more s' = mem.more s \<Longrightarrow> tab_frame s s'"
  by (cases s; cases s'; simp add: tab_frame_def)

lemma pmem_tab_frame [simp]: "tab_frame s (s\<lparr>pmem := m\<rparr>)"
  by (simp add: tab_frame_def)

lemma alloc_page_more: "alloc_page s = (p, s') \<Longrightarrow> mem.more s' = mem.more s \<and> pmem s' = pmem s"
  by (auto simp: alloc_page_def split: if_splits)

lemma free_page_more: "free_page p s = Inr (u, s') \<Longrightarrow> mem.more s' = mem.more s"
  by (auto simp: free_page_def split: if_splits)

lemma walk_create_more: "walk_create_from va ls pt s = Inr (x, s') \<Longrightarrow> mem.more s' = mem.more s"
proof (induction va ls pt s rule: walk_create_from.induct)
  case (1 va pt s)
  then show ?case by auto
next
  case (2 va l ls pt s)
  show ?case
  proof (cases "load64 (pmem s) (slot pt (vpn va l)) AND PTE_V \<noteq> 0")
    case True
    then show ?thesis using 2 by (simp add: Let_def)
  next
    case False
    obtain n s1 where a: "alloc_page s = (n, s1)" by fastforce
    then have n: "n \<noteq> 0" using 2(3) False by (auto simp: Let_def split: if_splits)
    have "mem.more s' = mem.more s1"
      using 2(2) [OF refl refl False a [symmetric] refl n refl refl] 2(3) False n a by (simp add: Let_def)
    then show ?thesis using alloc_page_more [OF a] by simp
  qed
qed

lemma map_page_more: "map_page pt va pa perm s = Inr (x, s') \<Longrightarrow> mem.more s' = mem.more s"
  by (auto simp: map_page_def walk_create_def bnd_eq_Inr simp del: walk_create_from.simps
      dest!: walk_create_more split: if_splits)

lemma create_pagetable_more: "create_pagetable s = Inr (x, s') \<Longrightarrow> mem.more s' = mem.more s \<and> x \<noteq> 0"
  by (auto simp: create_pagetable_def dest!: alloc_page_more split: if_splits prod.splits)

lemmas mem_tab_frames =
  more_tab_frame [OF map_page_more] more_tab_frame [OF conjunct1 [OF create_pagetable_more]]
  more_tab_frame [OF conjunct1 [OF alloc_page_more]] more_tab_frame [OF free_page_more]

lemma printf_tab_frame: "printf fmt ap s = Inr (n, s') \<Longrightarrow> tab_frame s s'"
  by (cases s; cases s'; simp add: tab_frame_def printf_spec split: option.splits; force)

lemma fork_page_frame: "fork_page ppt npt va s = Inr (ok, s') \<Longrightarrow> tab_frame s s'"
proof -
  assume r: "fork_page ppt npt va s = Inr (ok, s')"
  show ?thesis
  proof (cases "walk_lookup (pmem s) ppt va \<noteq> 0 \<and> load64 (pmem s) (walk_lookup (pmem s) ppt va) AND PTE_V \<noteq> 0")
    case False
    then show ?thesis using r by (auto simp: fork_page_def Let_def)
  next
    case True
    obtain pg s1 where a: "alloc_page s = (pg, s1)" by fastforce
    have f: "tab_frame s (s1\<lparr>pmem := m\<rparr>)" for m using mem_tab_frames(3) [OF a] by (simp add: tab_frame_def)
    show ?thesis
    proof (cases "pg = 0")
      case True
      then show ?thesis using r a \<open>_ \<and> _\<close> mem_tab_frames(3) [OF a] by (simp add: fork_page_def Let_def)
    next
      case False
      then show ?thesis
        using r a \<open>_ \<and> _\<close> mem_tab_frames(3) [OF a]
        by (auto simp: fork_page_def Let_def bnd_eq_Inr tab_frame_def dest!: mem_tab_frames(1,4) split: if_splits)
    qed
  qed
qed

lemma fork_loop_frame: "fork_loop ppt npt sz va s = Some r \<Longrightarrow> r = Inr (ok, s') \<Longrightarrow> tab_frame s s'"
proof (induction arbitrary: ok s' rule: fork_loop.raw_induct [rotated, consumes 1, case_names 1])
  case (1 loop ppt npt sz va s r)
  show ?case
  proof (cases "va < sz")
    case False
    then show ?thesis using 1(2,3) by auto
  next
    case True
    then obtain ok1 s1 where f: "fork_page ppt npt va s = Inr (ok1, s1)"
      using 1(2,3) by (auto split: sum.splits prod.splits)
    show ?thesis
    proof (cases ok1)
      case False
      then show ?thesis using 1(2,3) True f fork_page_frame [OF f] by simp
    next
      case ok1: True
      have "loop ppt npt sz (va + PGSIZE) s1 = Some r" using 1(2) True f ok1 by simp
      then have "tab_frame s1 s'" using 1(3) by (rule 1(1))
      then show ?thesis using fork_page_frame [OF f] tab_frame_trans by blast
    qed
  qed
qed

lemma sbrk_loop_frame: "sbrk_loop pt newsz a s = Some r \<Longrightarrow> r = Inr (ok, s') \<Longrightarrow> tab_frame s s'"
proof (induction arbitrary: ok s' rule: sbrk_loop.raw_induct [rotated, consumes 1, case_names 1])
  case (1 loop pt newsz a s r)
  show ?case
  proof (cases "a < newsz")
    case False
    then show ?thesis using 1(2,3) by auto
  next
    case lt: True
    obtain pg s1 where a: "alloc_page s = (pg, s1)" by fastforce
    show ?thesis
    proof (cases "pg = 0")
      case True
      then show ?thesis using 1(2,3) lt a mem_tab_frames(3) [OF a] by simp
    next
      case pg: False
      let ?s1 = "s1\<lparr>pmem := clear_bytes (pmem s1) pg\<rparr>"
      obtain x s2 where m: "map_page pt a pg (PTE_R OR PTE_W OR PTE_X OR PTE_U) ?s1 = Inr (x, s2)"
        using 1(2,3) lt a pg by (auto split: sum.splits prod.splits)
      have f: "tab_frame s s2"
        using mem_tab_frames(3) [OF a] mem_tab_frames(1) [OF m] by (simp add: tab_frame_def)
      show ?thesis
      proof (cases "x < 0")
        case True
        then obtain s3 where "free_page pg s2 = Inr ((), s3)" "s' = s3"
          using 1(2,3) lt a pg m by (auto split: sum.splits prod.splits)
        then show ?thesis using f mem_tab_frames(4) tab_frame_trans by blast
      next
        case False
        then have "loop pt newsz (a + PGSIZE) s2 = Some r" using 1(2) lt a pg m by simp
        then have "tab_frame s2 s'" using 1(3) by (rule 1(1))
        then show ?thesis using f tab_frame_trans by blast
      qed
    qed
  qed
qed

text \<open>What \<open>alloc_process\<close> does to the table, when it finds a slot and when it does not.\<close>

lemma alloc_process_table:
  assumes "alloc_process tramp s = Inr (r, s')"
  shows "current s' = current s \<and> ptab.more s' = ptab.more s \<and>
    (case List.find (\<lambda>i. p_state (procs s i) = UNUSED) [0..<NPROC] of
       None \<Rightarrow> r = None \<and> procs s' = procs s \<and> nextpid s' = nextpid s
     | Some i \<Rightarrow> nextpid s' = i32 (nextpid s + 1) \<and> (\<forall>j. j \<noteq> i \<longrightarrow> procs s' j = procs s j) \<and>
         p_pid (procs s' i) = nextpid s \<and> p_state (procs s' i) = USED \<and>
         p_parent (procs s' i) = (if r = None then p_parent (procs s i) else None) \<and> (r = None \<or> r = Some i))"
proof (cases "List.find (\<lambda>i. p_state (procs s i) = UNUSED) [0..<NPROC]")
  case None
  then show ?thesis using assms by (simp add: alloc_process_def)
next
  case (Some i)
  let ?s0 = "upd_proc i (\<lambda>p. p\<lparr>p_pid := nextpid s, p_state := USED\<rparr>) (s\<lparr>nextpid := i32 (nextpid s + 1)\<rparr>)"
  obtain ks s1 where a: "alloc_page ?s0 = (ks, s1)" by fastforce
  note A = mem_tab_frames(3) [OF a, unfolded tab_frame_def]
  let ?s1 = "upd_proc i (\<lambda>p. p\<lparr>p_kstack := ks\<rparr>) s1"
  show ?thesis
  proof (cases "ks = 0")
    case True
    then show ?thesis using assms Some a A by (auto simp: alloc_process_def Let_def)
  next
    case ks: False
    obtain pt s2 where p: "create_pagetable ?s1 = Inr (pt, s2)"
      using assms Some a ks by (auto simp: alloc_process_def Let_def bnd_eq_Inr)
    note P = mem_tab_frames(2) [OF p, unfolded tab_frame_def]
    have pt: "pt \<noteq> 0" using create_pagetable_more [OF p] by simp
    let ?s2 = "upd_proc i (\<lambda>p. p\<lparr>p_pagetable := pt\<rparr>) s2"
    obtain tf s3 where t: "alloc_page ?s2 = (tf, s3)" by fastforce
    note T = mem_tab_frames(3) [OF t, unfolded tab_frame_def]
    let ?s3 = "upd_proc i (\<lambda>p. p\<lparr>p_trapframe := tf\<rparr>) s3"
    show ?thesis
    proof (cases "tf = 0")
      case True
      then show ?thesis using assms Some a A ks p P pt t T by (auto simp: alloc_process_def Let_def)
    next
      case False
      obtain x4 s4 x5 s5 where m: "map_page pt TRAMPOLINE tramp (PTE_R OR PTE_X) ?s3 = Inr (x4, s4)"
        "map_page pt TRAPFRAME tf (PTE_R OR PTE_W) s4 = Inr (x5, s5)"
        "r = Some i" "s' = upd_proc i (\<lambda>p. p\<lparr>p_sz := 0, p_sp := ks + PGSIZE, p_parent := None, p_chan := NoChan\<rparr>) s5"
        using assms Some a ks p pt t False by (auto simp: alloc_process_def Let_def bnd_eq_Inr)
      note M = mem_tab_frames(1) [OF m(1), unfolded tab_frame_def] mem_tab_frames(1) [OF m(2), unfolded tab_frame_def]
      show ?thesis using Some A P T M m(3,4) by simp
    qed
  qed
qed

text \<open>The table after \<open>fork\<close>: at most one slot changes, one that was unused.\<close>

lemma fork_table:
  assumes "fork tramp trapret s = Inr (r, s')" and "current s = Some p"
  shows "current s' = Some p \<and> ptab.more s' = ptab.more s \<and>
    (case List.find (\<lambda>i. p_state (procs s i) = UNUSED) [0..<NPROC] of
       None \<Rightarrow> r = -1 \<and> procs s' = procs s \<and> nextpid s' = nextpid s
     | Some i \<Rightarrow> nextpid s' = i32 (nextpid s + 1) \<and> (\<forall>j. j \<noteq> i \<longrightarrow> procs s' j = procs s j) \<and> p_pid (procs s' i) = nextpid s \<and>
         (r = -1 \<and> p_state (procs s' i) \<in> {USED, UNUSED} \<and> p_parent (procs s' i) \<in> {None, p_parent (procs s i)} \<or>
          r = nextpid s \<and> p_state (procs s' i) = RUNNABLE \<and> p_parent (procs s' i) = Some p))"
proof -
  obtain a s1 where a: "alloc_process tramp s = Inr (a, s1)"
    using assms by (auto simp: fork_def myproc_def bnd_eq_Inr)
  note A = alloc_process_table [OF a]
  show ?thesis
  proof (cases a)
    case None
    then have "r = -1" "s' = s1" using assms a by (simp_all add: fork_def myproc_def)
    then show ?thesis using A assms(2) None by (auto split: option.splits)
  next
    case (Some i)
    then have f: "List.find (\<lambda>i. p_state (procs s i) = UNUSED) [0..<NPROC] = Some i"
      using A by (auto split: option.splits)
    obtain ok s2 where l: "fork_loop (p_pagetable (procs s1 p)) (p_pagetable (procs s1 i)) (p_sz (procs s1 p)) 0 s1 =
        Some (Inr (ok, s2))"
      using assms a Some by (auto simp: fork_def myproc_def bnd_eq_Inr split: option.splits)
    have L: "procs s2 = procs s1" "current s2 = current s1" "nextpid s2 = nextpid s1" "ptab.more s2 = ptab.more s1"
      using fork_loop_frame [OF l refl] by (simp_all add: tab_frame_def)
    show ?thesis
    proof (cases ok)
      case True
      then show ?thesis using assms a Some l L A f by (auto simp: fork_def myproc_def Let_def)
    next
      case False
      then show ?thesis using assms a Some l L A f by (auto simp: fork_def myproc_def Let_def)
    qed
  qed
qed

lemma fork_current: "fork tramp trapret s = Inr (r, s') \<Longrightarrow> \<exists>p. current s = Some p"
  by (auto simp: fork_def myproc_def split: option.splits)

lemma sbrk_table:
  assumes "sbrk n s = Inr (v, s')"
  shows "\<exists>p. current s = Some p \<and> current s' = current s \<and> nextpid s' = nextpid s \<and> ptab.more s' = ptab.more s \<and>
    (\<exists>sz. procs s' = (procs s)(p := (procs s p)\<lparr>p_sz := sz\<rparr>))"
proof -
  obtain p where p: "current s = Some p" using assms by (auto simp: sbrk_def myproc_def split: option.splits)
  let ?new = "p_sz (procs s p) + of_int n"
  show ?thesis
  proof (cases "n > 0")
    case False
    then show ?thesis using assms p by (auto simp: sbrk_def myproc_def Let_def upd_proc_def)
  next
    case True
    obtain ok s1 where l: "sbrk_loop (p_pagetable (procs s p)) ?new (PGGROUNDUP (p_sz (procs s p))) s = Some (Inr (ok, s1))"
      using assms p True by (auto simp: sbrk_def myproc_def Let_def bnd_eq_Inr split: option.splits)
    note L = sbrk_loop_frame [OF l refl, unfolded tab_frame_def]
    show ?thesis
    proof (cases ok)
      case True
      then show ?thesis using assms p \<open>n > 0\<close> l L by (auto simp: sbrk_def myproc_def Let_def upd_proc_def)
    next
      case False
      then have "procs s' = procs s" "current s' = current s" "nextpid s' = nextpid s" "ptab.more s' = ptab.more s"
        using assms p True l L by (simp_all add: sbrk_def myproc_def Let_def)
      then show ?thesis using p by (intro exI [of _ p] conjI exI [of _ "p_sz (procs s p)"]) simp_all
    qed
  qed
qed

text \<open>The table after \<open>user_init\<close>, whether or not it gets as far as the first process.\<close>

lemma load_pages_frame: "load_pages prog pt is s = Inr (ok, s') \<Longrightarrow> tab_frame s s'"
proof (induction "is" arbitrary: s)
  case Nil
  then show ?case by simp
next
  case (Cons i "is")
  obtain b s1 where b: "load_page prog pt i s = Inr (b, s1)" using Cons.prems by (auto simp: bnd_eq_Inr)
  obtain pg s0 where a: "alloc_page s = (pg, s0)" by fastforce
  have f: "tab_frame s s1"
    using b a mem_tab_frames(3) [OF a]
    by (auto simp: load_page_def Let_def bnd_eq_Inr tab_frame_def dest!: mem_tab_frames(1) split: if_splits)
  show ?case
  proof (cases b)
    case True
    then show ?thesis using Cons b tab_frame_trans [OF f] by simp
  next
    case False
    then show ?thesis using Cons.prems b f by simp
  qed
qed

lemma user_init_table:
  assumes "user_init tramp trapret prog s = Inr ((), s')"
  shows "current s' = current s \<and> ptab.more s' = ptab.more s \<and>
    (case List.find (\<lambda>i. p_state (procs s i) = UNUSED) [0..<NPROC] of
       None \<Rightarrow> procs s' = procs s \<and> nextpid s' = nextpid s
     | Some i \<Rightarrow> nextpid s' = i32 (nextpid s + 1) \<and> (\<forall>j. j \<noteq> i \<longrightarrow> procs s' j = procs s j) \<and> p_pid (procs s' i) = nextpid s \<and>
         p_state (procs s' i) \<in> {USED, RUNNABLE} \<and> p_parent (procs s' i) \<in> {None, p_parent (procs s i)})"
proof -
  obtain a s1 where a: "alloc_process tramp s = Inr (a, s1)"
    using assms by (auto simp: user_init_def bnd_eq_Inr)
  note A = alloc_process_table [OF a]
  have pf: "printf fmt ap s = Inr (n, s') \<Longrightarrow> procs s' = procs s \<and> current s' = current s \<and> nextpid s' = nextpid s \<and> ptab.more s' = ptab.more s"
    for fmt ap n and s s' :: "'a ptab_scheme" using printf_tab_frame by (simp add: tab_frame_def)
  show ?thesis
  proof (cases a)
    case None
    then show ?thesis using assms a A by (auto simp: user_init_def bnd_eq_Inr dest!: pf split: option.splits)
  next
    case (Some i)
    then have f: "List.find (\<lambda>i. p_state (procs s i) = UNUSED) [0..<NPROC] = Some i"
      using A by (auto split: option.splits)
    let ?s1 = "upd_proc i (\<lambda>p. p\<lparr>p_parent := None, p_name := safestrcpy (p_name p) (cstr ''init'') 16\<rparr>) s1"
    obtain n s2 where p: "printf ''user_init: loading init program, size=%d bytes\<newline>''
        [of_int_arg (sint (of_nat (length prog) :: u32))] ?s1 = Inr (n, s2)"
      using assms a Some by (auto simp: user_init_def bnd_eq_Inr Let_def)
    note P = pf [OF p]
    obtain ok s3 where l: "load_pages prog (p_pagetable (procs s2 i)) [0..<(length prog + 4095) div 4096] s2 = Inr (ok, s3)"
      using assms a Some p by (auto simp: user_init_def bnd_eq_Inr Let_def)
    note L = load_pages_frame [OF l, unfolded tab_frame_def]
    show ?thesis
    proof (cases ok)
      case False
      then show ?thesis using assms a A f Some p P l L by (auto simp: user_init_def bnd_eq_Inr Let_def dest!: pf)
    next
      case True
      let ?s3 = "upd_proc i (\<lambda>p. p\<lparr>p_sz := of_nat ((length prog + 4095) div 4096) * PGSIZE\<rparr>) s3"
      obtain st s4 where al: "alloc_page ?s3 = (st, s4)" by fastforce
      note S = mem_tab_frames(3) [OF al, unfolded tab_frame_def]
      show ?thesis
      proof (cases "st = 0")
        case True
        then show ?thesis
          using assms a A f Some p P l L \<open>ok\<close> al S by (auto simp: user_init_def bnd_eq_Inr Let_def dest!: pf)
      next
        case False
        let ?s4 = "s4\<lparr>pmem := clear_bytes (pmem s4) st\<rparr>"
        obtain x s5 where m: "map_page (p_pagetable (procs s2 i)) (p_sz (procs ?s4 i)) st (PTE_R OR PTE_W OR PTE_U) ?s4 =
            Inr (x, s5)"
          using assms a Some p l \<open>ok\<close> al False by (auto simp: user_init_def bnd_eq_Inr Let_def)
        note M = mem_tab_frames(1) [OF m, unfolded tab_frame_def]
        show ?thesis
          using assms a A f Some p P l L \<open>ok\<close> al S False m M
          by (auto simp: user_init_def bnd_eq_Inr Let_def dest!: pf)
      qed
    qed
  qed
qed

end
