(* ===== verification/Syscall.thy ===== *)
theory Syscall
  imports File Fork
begin

text \<open>
  The system calls (syscall.c, sysproc.c, sysfile.c): fetching of arguments from the trap frame
  and from user memory, the handlers and the dispatch. A handler's result is its return value,
  or nothing when the call does not return: the caller has exited, or sleeps in
  \<open>begin_op\<close> or in \<open>wait_process\<close> (the state is then the one at the switch).
\<close>

section \<open>Arguments\<close>

definition cur_frame :: "'a ptab_scheme \<Rightarrow> u64 option" where
  "cur_frame s = map_option (\<lambda>p. p_trapframe (procs s p)) (myproc s)"

text \<open>The \<open>n\<close>-th argument register of the current process; there are six.\<close>

definition argaddr :: "nat \<Rightarrow> 'a ptab_scheme \<Rightarrow> u64 option" where
  "argaddr n s = (if n \<le> 5 then map_option (\<lambda>tf. load64 (pmem s) (slot tf (tf_a n))) (cur_frame s) else None)"

definition argint :: "nat \<Rightarrow> 'a ptab_scheme \<Rightarrow> int option" where
  "argint n s = map_option (\<lambda>w. sint (ucast w :: u32)) (argaddr n s)"

text \<open>The bytes of the buffer up to the NUL, when the string is there and fits.\<close>

definition argstr :: "nat \<Rightarrow> u64 \<Rightarrow> 'a ptab_scheme \<Rightarrow> u8 list option" where
  "argstr n maxlen s =
     (case argaddr n s of None \<Rightarrow> None
      | Some addr \<Rightarrow>
          (let (bs, r) = copyinstr (pmem s) (p_pagetable (procs s (the (myproc s)))) addr maxlen
           in if r < 0 then None else Some (takeWhile (\<lambda>c. c \<noteq> 0) bs)))"

definition cur_pt :: "'a ptab_scheme \<Rightarrow> u64" where
  "cur_pt s = p_pagetable (procs s (the (myproc s)))"

text \<open>Results of handlers, and the end of a handler's transaction.\<close>

type_synonym 's sysres = "(int option, 's) outcome"

definition done_with :: "int \<Rightarrow> 's \<Rightarrow> 's sysres" where
  "done_with r s = ret (Some r) s"

definition end_with :: "('a logst_scheme) device \<Rightarrow> int \<Rightarrow> 'a logst_scheme \<Rightarrow> ('a logst_scheme) sysres" where
  "end_with hw r s = bnd (end_op hw s) (\<lambda>_. done_with r)"

section \<open>Processes\<close>

definition sys_fork :: "u64 \<Rightarrow> u64 \<Rightarrow> 'a ptab_scheme \<Rightarrow> ('a ptab_scheme) sysres" where
  "sys_fork tramp trapret s = bnd (fork tramp trapret s) done_with"

definition sys_exit :: "u64 \<Rightarrow> 'a ptab_scheme \<Rightarrow> ('a ptab_scheme) sysres" where
  "sys_exit time s = bnd (exit_process time (the (argint 0 s)) s) (\<lambda>_. ret None)"

text \<open>
  The status is stored only when a child was reaped, at the physical address of a mapped user
  page; it is an \<open>int\<close> of four bytes.
\<close>

definition sys_wait :: "'a ptab_scheme \<Rightarrow> ('a ptab_scheme) sysres" where
  "sys_wait s =
     (case argaddr 0 s of None \<Rightarrow> done_with (-1) s
      | Some addr \<Rightarrow>
          bnd (wait_iter s) (\<lambda>w s.
          case w of
            Blocked \<Rightarrow> ret None s
          | NoChild \<Rightarrow> done_with (-1) s
          | Reaped pid status \<Rightarrow>
              (let s = (if pid > 0 \<and> addr \<noteq> 0 then
                    (case user_pte (pmem s) (cur_pt s) addr of None \<Rightarrow> s
                     | Some pte \<Rightarrow> s\<lparr>pmem := store_bytes (pmem s) (PTE_PA pte + (addr AND (PGSIZE - 1)))
                         (le_bytes 4 (of_int status :: u32))\<rparr>)
                  else s)
               in done_with pid s)))"

definition sys_kill :: "'a ptab_scheme \<Rightarrow> ('a ptab_scheme) sysres" where
  "sys_kill s =
     (case argint 0 s of None \<Rightarrow> done_with (-1) s
      | Some pid \<Rightarrow> (let (r, s) = kill pid s in done_with r s))"

definition sys_getpid :: "'a ptab_scheme \<Rightarrow> ('a ptab_scheme) sysres" where
  "sys_getpid s = (case myproc s of None \<Rightarrow> Inl (Fault ''sys_getpid'') | Some p \<Rightarrow> done_with (p_pid (procs s p)) s)"

definition sys_sbrk :: "'a ptab_scheme \<Rightarrow> ('a ptab_scheme) sysres" where
  "sys_sbrk s =
     (case argint 0 s of None \<Rightarrow> done_with (-1) s
      | Some n \<Rightarrow> bnd (sbrk n s) (\<lambda>r. done_with (sint (ucast r :: u32))))"

definition sys_uptime :: "u64 \<Rightarrow> 's \<Rightarrow> 's sysres" where
  "sys_uptime time s = done_with (sint (ucast time :: u32)) s"

definition sys_logdump :: "'a klog_scheme \<Rightarrow> ('a klog_scheme) sysres" where
  "sys_logdump s = bnd (log_dump s) (\<lambda>_. done_with 0)"

definition sys_logstat :: "'a klog_scheme \<Rightarrow> ('a klog_scheme) sysres" where
  "sys_logstat s = bnd (log_stats s) (\<lambda>_. done_with 0)"

section \<open>Files\<close>

definition cur_file :: "int \<Rightarrow> 'a ptab_scheme \<Rightarrow> nat option" where
  "cur_file fd s = (if fd < 0 \<or> fd \<ge> int NOFILE then None else p_ofile (procs s (the (myproc s))) (nat fd))"

definition set_ofile :: "nat \<Rightarrow> nat option \<Rightarrow> 'a ptab_scheme \<Rightarrow> 'a ptab_scheme" where
  "set_ofile fd f s = upd_proc (the (myproc s)) (\<lambda>p. p\<lparr>p_ofile := (p_ofile p)(fd := f)\<rparr>) s"

text \<open>Descriptors 0 to 2 are never allocated.\<close>

definition fdalloc :: "nat \<Rightarrow> 'a ptab_scheme \<Rightarrow> int \<times> 'a ptab_scheme" where
  "fdalloc f s =
     (case List.find (\<lambda>fd. p_ofile (procs s (the (myproc s))) fd = None) [3..<NOFILE] of
        None \<Rightarrow> (-1, s)
      | Some fd \<Rightarrow> (int fd, set_ofile fd (Some f) s))"

text \<open>The console part of \<open>sys_write\<close>: chunks of 128 bytes.\<close>

function write_console :: "u64 \<Rightarrow> u64 \<Rightarrow> int \<Rightarrow> int \<Rightarrow> 'a mem_scheme \<Rightarrow> int \<times> u8 list" where
  "write_console pt addr n tot s =
     (if n > 0 then
        (let len = min n 128; (buf, r) = copyin (pmem s) pt addr (of_int len) in
         if r < 0 then (-1, [])
         else (let (t, out) = write_console pt (addr + of_int len) (n - len) (tot + len) s in (t, buf @ out)))
      else (tot, []))"
  by pat_completeness auto

termination write_console
  by (relation "measure (\<lambda>(pt, addr, n, tot, s). nat n)") auto

declare write_console.simps [simp del]

text \<open>Chunks of at most 512 bytes, each in a transaction of its own.\<close>

function write_file :: "('a filest_scheme) device \<Rightarrow> nat \<Rightarrow> u64 \<Rightarrow> int \<Rightarrow> int \<Rightarrow> 'a filest_scheme \<Rightarrow> ('a filest_scheme) sysres" where
  "write_file hw f addr n tot s =
     (if n > 0 then
        (let m = min n 512 in
         bnd (begin_op s) (\<lambda>b s.
         case b of Asleep \<Rightarrow> ret None s
         | Entered \<Rightarrow>
             (let (buf, c) = copyin (pmem s) (cur_pt s) addr (of_int m) in
              if c < 0 then end_with hw (-1) s
              else
                bnd (filewrite hw f buf m s) (\<lambda>r s.
                bnd (end_op hw s) (\<lambda>_ s.
                if r \<le> 0 then done_with tot s
                else write_file hw f (addr + of_int r) (n - r) (tot + r) s)))))
      else done_with tot s)"
  by pat_completeness auto

termination write_file
  by (relation "measure (\<lambda>(hw, f, addr, n, tot, s). nat n)") auto

declare write_file.simps [simp del]

definition sys_write :: "('a filest_scheme) device \<Rightarrow> 'a filest_scheme \<Rightarrow> ('a filest_scheme) sysres" where
  "sys_write hw s =
     (let fd = the (argint 0 s); addr = the (argaddr 1 s); n = the (argint 2 s) in
      if n < 0 then done_with (-1) s
      else if fd = 1 \<or> fd = 2 then
        (let (t, out) = write_console (cur_pt s) addr n 0 s in done_with t (fold console_putc out s))
      else
        (case cur_file fd s of None \<Rightarrow> done_with (-1) s
         | Some f \<Rightarrow> write_file hw f addr n 0 s))"

text \<open>Shared by \<open>sys_read\<close> and \<open>sys_fread\<close>; the bytes of a chunk that cannot be delivered are lost.\<close>

function read_file :: "('a filest_scheme) device \<Rightarrow> nat \<Rightarrow> u64 \<Rightarrow> int \<Rightarrow> int \<Rightarrow> 'a filest_scheme \<Rightarrow> ('a filest_scheme) sysres" where
  "read_file hw f addr n tot s =
     (if n > 0 then
        (let m = min n 512 in
         bnd (fileread hw f m s) (\<lambda>(r, buf) s.
         if r \<le> 0 then done_with tot s
         else
           (let (c, mm) = copyout (cur_pt s) addr (take (nat r) buf) (of_int r) (pmem s); s = s\<lparr>pmem := mm\<rparr> in
            if c < 0 then done_with (-1) s
            else if r < m then done_with (tot + r) s
            else read_file hw f (addr + of_int r) (n - r) (tot + r) s)))
      else done_with tot s)"
  by pat_completeness auto

termination read_file
  by (relation "measure (\<lambda>(hw, f, addr, n, tot, s). nat n)") auto

declare read_file.simps [simp del]

definition sys_read :: "('a filest_scheme) device \<Rightarrow> 'a filest_scheme \<Rightarrow> ('a filest_scheme) sysres" where
  "sys_read hw s =
     (let fd = the (argint 0 s); addr = the (argaddr 1 s); n = the (argint 2 s) in
      if n < 0 then done_with (-1) s
      else if fd = 0 then done_with 0 s
      else
        (case cur_file fd s of None \<Rightarrow> done_with (-1) s
         | Some f \<Rightarrow> read_file hw f addr n 0 s))"

definition sys_close :: "('a filest_scheme) device \<Rightarrow> 'a filest_scheme \<Rightarrow> ('a filest_scheme) sysres" where
  "sys_close hw s =
     (let fd = the (argint 0 s) in
      case cur_file fd s of None \<Rightarrow> done_with (-1) s
      | Some f \<Rightarrow> bnd (fileclose hw f (set_ofile (nat fd) None s)) (\<lambda>_. done_with 0))"

text \<open>\<open>sys_fread\<close> and \<open>sys_fwrite\<close> are not in the dispatch table.\<close>

definition sys_fread :: "('a filest_scheme) device \<Rightarrow> 'a filest_scheme \<Rightarrow> ('a filest_scheme) sysres" where
  "sys_fread hw s =
     (case cur_file (the (argint 0 s)) s of None \<Rightarrow> done_with (-1) s
      | Some f \<Rightarrow> read_file hw f (the (argaddr 1 s)) (the (argint 2 s)) 0 s)"

function fwrite_file :: "('a filest_scheme) device \<Rightarrow> nat \<Rightarrow> u64 \<Rightarrow> int \<Rightarrow> int \<Rightarrow> 'a filest_scheme \<Rightarrow> ('a filest_scheme) sysres" where
  "fwrite_file hw f addr n tot s =
     (if n > 0 then
        (let m = min n 512 in
         bnd (begin_op s) (\<lambda>b s.
         case b of Asleep \<Rightarrow> ret None s
         | Entered \<Rightarrow>
             bnd (on_inode ''ilock'' (f_ip (ftable s f)) (ilock hw) s) (\<lambda>_ s.
             let (buf, c) = copyin (pmem s) (cur_pt s) addr (of_int m) in
             if c < 0 then bnd (on_inode ''iunlock'' (f_ip (ftable s f)) iunlock s) (\<lambda>_. end_with hw (-1))
             else
               bnd (filewrite hw f buf m s) (\<lambda>r s.
               bnd (on_inode ''iunlock'' (f_ip (ftable s f)) iunlock s) (\<lambda>_ s.
               bnd (end_op hw s) (\<lambda>_ s.
               if r \<le> 0 then done_with tot s
               else fwrite_file hw f (addr + of_int r) (n - r) (tot + r) s))))))
      else done_with tot s)"
  by pat_completeness auto

termination fwrite_file
  by (relation "measure (\<lambda>(hw, f, addr, n, tot, s). nat n)") auto

declare fwrite_file.simps [simp del]

definition sys_fwrite :: "('a filest_scheme) device \<Rightarrow> 'a filest_scheme \<Rightarrow> ('a filest_scheme) sysres" where
  "sys_fwrite hw s =
     (case cur_file (the (argint 0 s)) s of None \<Rightarrow> done_with (-1) s
      | Some f \<Rightarrow> fwrite_file hw f (the (argaddr 1 s)) (the (argint 2 s)) 0 s)"

subsection \<open>open and unlink\<close>

text \<open>The modes are tested bit by bit; \<open>omode & m\<close> is taken as a truth value.\<close>

definition O_WRONLY :: u32 where "O_WRONLY = 1"
definition O_RDWR :: u32 where "O_RDWR = 2"
definition O_CREATE :: u32 where "O_CREATE = 0x200"

definition has_mode :: "u32 \<Rightarrow> u32 \<Rightarrow> bool" where
  "has_mode omode m \<longleftrightarrow> omode AND m \<noteq> 0"

text \<open>Give up: release the inodes, end the transaction, return -1.\<close>

definition abandon :: "('a filest_scheme) device \<Rightarrow> nat list \<Rightarrow> 'a filest_scheme \<Rightarrow> ('a filest_scheme) sysres" where
  "abandon hw ips s = bnd (for_each ips (iunlockput hw) s) (\<lambda>_. end_with hw (-1))"

text \<open>The last part of \<open>sys_open\<close>: a file and a descriptor for the locked inode.\<close>

definition open_file :: "('a filest_scheme) device \<Rightarrow> u32 \<Rightarrow> nat \<Rightarrow> 'a filest_scheme \<Rightarrow> ('a filest_scheme) sysres" where
  "open_file hw omode ip s =
     (case filealloc s of
        (None, s) \<Rightarrow> abandon hw [ip] s
      | (Some f, s) \<Rightarrow>
          (let (fd, s) = fdalloc f s in
           if fd < 0 then bnd (fileclose hw f s) (\<lambda>_. abandon hw [ip])
           else
             (let s = upd_file f (\<lambda>x. x\<lparr>f_type := FD_INODE, f_ip := Some ip, f_off := 0,
                    f_readable := \<not> has_mode omode O_WRONLY,
                    f_writable := has_mode omode O_WRONLY \<or> has_mode omode O_RDWR\<rparr>) s
              in bnd (iunlock ip s) (\<lambda>_. end_with hw fd))))"

text \<open>
  Creation: the existing inode of that name, or a new one linked into the directory; \<open>Inl\<close> is
  the path of the code that gives up, with the inodes to release. \<open>ialloc\<close> never returns null.
\<close>

definition create_file :: "('a filest_scheme) device \<Rightarrow> u32 \<Rightarrow> nat \<Rightarrow> fname \<Rightarrow> 'a filest_scheme \<Rightarrow>
    (nat list + nat, 'a filest_scheme) outcome" where
  "create_file hw omode dp name s =
     bnd (ilock hw dp s) (\<lambda>_ s.
     bnd (dirlookup hw dp name s) (\<lambda>r s.
     case r of
       Some (ip, _) \<Rightarrow>
         bnd (iunlockput hw dp s) (\<lambda>_ s.
         bnd (ilock hw ip s) (\<lambda>_ s.
         if d_type (icache s ip) = T_DIR \<and> (has_mode omode O_RDWR \<or> has_mode omode O_WRONLY) then ret (Inl [ip]) s
         else ret (Inr ip) s))
     | None \<Rightarrow>
         bnd (ialloc hw (i_dev (icache s dp)) T_FILE s) (\<lambda>ip s.
         bnd (ilock hw ip s) (\<lambda>_ s.
         bnd (iupdate hw ip (upd_inode ip (\<lambda>x. x\<lparr>d_nlink := 1\<rparr>) s)) (\<lambda>_ s.
         bnd (dirlink hw dp name (i_inum (icache s ip)) s) (\<lambda>r s.
         if r < 0 then ret (Inl [ip, dp]) s
         else bnd (iunlockput hw dp s) (\<lambda>_. ret (Inr ip))))))))"

text \<open>\<open>junk\<close> is what the local array \<open>name\<close> holds before it is written.\<close>

definition sys_open :: "('a filest_scheme) device \<Rightarrow> fname \<Rightarrow> 'a filest_scheme \<Rightarrow> ('a filest_scheme) sysres" where
  "sys_open hw junk s =
     bnd (begin_op s) (\<lambda>b s.
     case b of Asleep \<Rightarrow> ret None s
     | Entered \<Rightarrow>
         (case argstr 0 128 s of None \<Rightarrow> end_with hw (-1) s
          | Some path \<Rightarrow>
              (let omode = of_int (the (argint 1 s)) in
               if has_mode omode O_CREATE then
                 bnd (nameiparent hw path junk s) (\<lambda>(dp, name) s.
                 case dp of None \<Rightarrow> end_with hw (-1) s
                 | Some dp \<Rightarrow>
                     bnd (create_file hw omode dp name s) (\<lambda>r s.
                     case r of Inl ips \<Rightarrow> abandon hw ips s | Inr ip \<Rightarrow> open_file hw omode ip s))
               else
                 bnd (namei hw path s) (\<lambda>ip s.
                 case ip of None \<Rightarrow> end_with hw (-1) s
                 | Some ip \<Rightarrow>
                     bnd (ilock hw ip s) (\<lambda>_ s.
                     if d_type (icache s ip) = T_DIR \<and> omode \<noteq> 0 then abandon hw [ip] s
                     else open_file hw omode ip s)))))"

text \<open>\<open>nlink\<close> is a signed 16-bit integer.\<close>

definition dot_name :: "fname \<Rightarrow> bool" where
  "dot_name name \<longleftrightarrow> name 0 = ch CHR ''.'' \<and> (name 1 = 0 \<or> name 1 = ch CHR ''.'' \<and> name 2 = 0)"

definition unlink_inode :: "('a filest_scheme) device \<Rightarrow> nat \<Rightarrow> nat \<Rightarrow> u32 \<Rightarrow> 'a filest_scheme \<Rightarrow> ('a filest_scheme) sysres" where
  "unlink_inode hw dp ip off s =
     bnd (ilock hw ip s) (\<lambda>_ s.
     if sint (d_nlink (icache s ip)) < 1 then Inl (Panic ''unlink: nlink < 1'')
     else if d_type (icache s ip) = T_DIR then abandon hw [ip, dp] s
     else
       bnd (writei hw dp (replicate 16 0) off 16 s) (\<lambda>r s.
       if r \<noteq> 16 then Inl (Panic ''unlink: writei'')
       else
         bnd (iupdate hw ip (upd_inode ip (\<lambda>x. x\<lparr>d_nlink := d_nlink x - 1\<rparr>) s)) (\<lambda>_ s.
         bnd (iunlockput hw dp s) (\<lambda>_ s.
         bnd (if d_nlink (icache s ip) = 0
              then bnd (itrunc hw ip s) (\<lambda>_ s. iupdate hw ip (upd_inode ip (\<lambda>x. x\<lparr>d_type := 0\<rparr>) s))
              else ret () s) (\<lambda>_ s.
         bnd (iunlockput hw ip s) (\<lambda>_. end_with hw 0))))))"

definition sys_unlink :: "('a filest_scheme) device \<Rightarrow> fname \<Rightarrow> 'a filest_scheme \<Rightarrow> ('a filest_scheme) sysres" where
  "sys_unlink hw junk s =
     bnd (begin_op s) (\<lambda>b s.
     case b of Asleep \<Rightarrow> ret None s
     | Entered \<Rightarrow>
         (case argstr 0 128 s of None \<Rightarrow> end_with hw (-1) s
          | Some path \<Rightarrow>
              bnd (nameiparent hw path junk s) (\<lambda>(dp, name) s.
              case dp of None \<Rightarrow> end_with hw (-1) s
              | Some dp \<Rightarrow>
                  bnd (ilock hw dp s) (\<lambda>_ s.
                  if dot_name name then abandon hw [dp] s
                  else
                    bnd (dirlookup hw dp name s) (\<lambda>r s.
                    case r of None \<Rightarrow> abandon hw [dp] s
                    | Some (ip, off) \<Rightarrow> unlink_inode hw dp ip off s)))))"

section \<open>Dispatch\<close>

text \<open>
  The table by number (the numbers of syscall.h that have no handler give nothing). The
  parameters: the device, the time, the trampoline, \<open>usertrapret\<close>, and stack contents.
\<close>

definition syscalls :: "('a filest_scheme) device \<Rightarrow> u64 \<Rightarrow> u64 \<Rightarrow> u64 \<Rightarrow> fname \<Rightarrow> int \<Rightarrow>
    ('a filest_scheme \<Rightarrow> ('a filest_scheme) sysres) option" where
  "syscalls hw time tramp trapret junk num =
     (if num = 1 then Some (sys_fork tramp trapret)
      else if num = 2 then Some (sys_exit time)
      else if num = 3 then Some sys_wait
      else if num = 5 then Some (sys_read hw)
      else if num = 6 then Some sys_kill
      else if num = 11 then Some sys_getpid
      else if num = 12 then Some sys_sbrk
      else if num = 14 then Some (sys_uptime time)
      else if num = 15 then Some (sys_open hw junk)
      else if num = 16 then Some (sys_write hw)
      else if num = 18 then Some (sys_unlink hw junk)
      else if num = 21 then Some (sys_close hw)
      else if num = 22 then Some sys_logdump
      else if num = 23 then Some sys_logstat
      else None)"

definition set_a0 :: "int \<Rightarrow> u64 \<Rightarrow> 'a mem_scheme \<Rightarrow> 'a mem_scheme" where
  "set_a0 r tf s = s\<lparr>pmem := store64 (pmem s) (slot tf (tf_a 0)) (of_int r)\<rparr>"

text \<open>The result is \<open>Returned\<close> with \<open>a0\<close> written, or the call did not return.\<close>

definition syscall :: "('a filest_scheme) device \<Rightarrow> u64 \<Rightarrow> u64 \<Rightarrow> u64 \<Rightarrow> fname \<Rightarrow> 'a filest_scheme \<Rightarrow>
    (bool, 'a filest_scheme) outcome" where
  "syscall hw time tramp trapret junk s =
     (case cur_frame s of None \<Rightarrow> Inl (Fault ''syscall'')
      | Some tf \<Rightarrow>
          (let num = sint (ucast (load64 (pmem s) (slot tf (tf_a 7))) :: u32) in
           case syscalls hw time tramp trapret junk num of
             Some f \<Rightarrow>
               bnd (f s) (\<lambda>r s. case r of None \<Rightarrow> ret False s | Some r \<Rightarrow> ret True (set_a0 r tf s))
           | None \<Rightarrow>
               bnd (printf ''Unknown syscall %d\<newline>'' [of_int_arg num] s) (\<lambda>_ s.
               ret True (set_a0 (-1) tf s))))"

end
