(* ===== verification/Trap.thy ===== *)
theory Trap
  imports Syscall
begin

text \<open>
  Traps (trap.c, exception.c, timer.c): the supervisor registers, entry from the user level and the way back,
  traps in the kernel, the timer. The registers keep what is written to them; reading one is reading the field. The
  save and restore of the user registers is assembly (trampoline.S): these functions start after it and end
  with the jump to it.
\<close>

section \<open>State\<close>

record trapst = filest +
  stvec :: u64
  sepc :: u64
  sstatus :: u64
  scause :: u64
  stval :: u64
  satp :: u64
  sie :: u64
  stimer :: u64

text \<open>The addresses the linker gives.\<close>

record symbols =
  sym_trampoline :: u64
  sym_uservec :: u64
  sym_userret :: u64
  sym_kernelvec :: u64
  sym_usertrap :: u64
  sym_usertrapret :: u64

definition w_stvec :: "u64 \<Rightarrow> 'a trapst_scheme \<Rightarrow> 'a trapst_scheme" where "w_stvec x s = s\<lparr>stvec := x\<rparr>"
definition w_sstatus :: "u64 \<Rightarrow> 'a trapst_scheme \<Rightarrow> 'a trapst_scheme" where "w_sstatus x s = s\<lparr>sstatus := x\<rparr>"
definition w_sepc :: "u64 \<Rightarrow> 'a trapst_scheme \<Rightarrow> 'a trapst_scheme" where "w_sepc x s = s\<lparr>sepc := x\<rparr>"

text \<open>\<open>csrs sstatus, 0x2\<close> and \<open>csrc sstatus, 0x2\<close>: the interrupt enable bit.\<close>

definition intr_on :: "'a trapst_scheme \<Rightarrow> 'a trapst_scheme" where "intr_on s = s\<lparr>sstatus := sstatus s OR 2\<rparr>"
definition intr_off :: "'a trapst_scheme \<Rightarrow> 'a trapst_scheme" where "intr_off s = s\<lparr>sstatus := sstatus s AND NOT 2\<rparr>"

section \<open>Timer\<close>

definition TIMER_INTERVAL :: u64 where "TIMER_INTERVAL = 1000000"

text \<open>The call to the firmware sets the time of the next interrupt.\<close>

definition sbi_set_timer :: "u64 \<Rightarrow> 'a trapst_scheme \<Rightarrow> 'a trapst_scheme" where
  "sbi_set_timer t s = s\<lparr>stimer := t\<rparr>"

definition timer_init :: "u64 \<Rightarrow> 'a trapst_scheme \<Rightarrow> 'a trapst_scheme" where
  "timer_init time s =
     (let s = sbi_set_timer (time + TIMER_INTERVAL) s;
          s = s\<lparr>sie := sie s OR push_bit 5 1\<rparr>
      in intr_on s)"

section \<open>Traps in the kernel\<close>

definition trap_init :: "symbols \<Rightarrow> 'a trapst_scheme \<Rightarrow> 'a trapst_scheme" where
  "trap_init sy s = w_stvec (sym_kernelvec sy) s"

definition timer_cause :: "u64 \<Rightarrow> bool" where
  "timer_cause c \<longleftrightarrow> c AND 0x8000000000000000 \<noteq> 0 \<and> c AND 0xff = 5"

definition kerneltrap :: "'a trapst_scheme \<Rightarrow> (unit, 'a trapst_scheme) outcome" where
  "kerneltrap s =
     (let pc = sepc s; st = sstatus s; cause = scause s in
      bnd (if timer_cause cause then ret () s
           else
             bnd (printf ''kerneltrap: scause %p sepc %p stval %p\<newline>'' [AVal cause, AVal pc, AVal (stval s)] s) (\<lambda>_ s.
             Inl (Panic ''kerneltrap'')))
        (\<lambda>_ s. ret () (w_sstatus st (w_sepc pc s))))"

text \<open>The report on an exception, after which the function waits for ever.\<close>

definition exception_report :: "'a trapst_scheme \<Rightarrow> (unit, 'a trapst_scheme) outcome" where
  "exception_report s =
     (let cause = scause s; pc = sepc s; val = stval s in
      bnd (printf ''[exception] scause=0x%x, sepc=0x%x, stval=0x%x\<newline>'' [AVal cause, AVal pc, AVal val] s) (\<lambda>_ s.
      bnd (if cause = 8 then printf ''[exception] Environment call from U-mode at sepc=0x%x\<newline>'' [AVal pc] s
           else if cause = 9 then printf ''[exception] Environment call from S-mode at sepc=0x%x\<newline>'' [AVal pc] s
           else if cause = 12 then printf ''[exception] Instruction page fault at va=0x%x\<newline>'' [AVal val] s
           else if cause = 13 then printf ''[exception] Load page fault at va=0x%x\<newline>'' [AVal val] s
           else if cause = 15 then printf ''[exception] Store/AMO page fault at va=0x%x\<newline>'' [AVal val] s
           else printf ''[exception] Unknown exception scause=0x%x at sepc=0x%x\<newline>'' [AVal cause, AVal pc] s) (\<lambda>_.
      ret ())))"

definition handle_exception :: "'a trapst_scheme \<Rightarrow> (unit, 'a trapst_scheme) outcome" where
  "handle_exception s = bnd (exception_report s) (\<lambda>_ _. Inl Hang)"

section \<open>Traps from the user level\<close>

text \<open>
  How a trap from the user level ends: with the jump to \<open>userret\<close> (its address and its two arguments), or
  with a switch to the scheduler.
\<close>

datatype trap_end = ToUser u64 u64 u64 | Switched

definition set_slot :: "nat \<Rightarrow> nat \<Rightarrow> u64 \<Rightarrow> 'a ptab_scheme \<Rightarrow> 'a ptab_scheme" where
  "set_slot p k v s = s\<lparr>pmem := store64 (pmem s) (slot (p_trapframe (procs s p)) k) v\<rparr>"

definition usertrapret :: "symbols \<Rightarrow> 'a trapst_scheme \<Rightarrow> (trap_end, 'a trapst_scheme) outcome" where
  "usertrapret sy s =
     (case myproc s of None \<Rightarrow> Inl (Fault ''usertrapret'')
      | Some p \<Rightarrow>
          (let s = intr_off s;
               s = w_stvec (TRAMPOLINE + (sym_uservec sy - sym_trampoline sy)) s;
               s = set_slot p tf_kernel_satp (satp s) s;
               s = set_slot p tf_kernel_sp (p_kstack (procs s p) + PGSIZE) s;
               s = set_slot p tf_kernel_trap (sym_usertrap sy) s;
               s = set_slot p tf_kernel_hartid 0 s;
               x = sstatus s;
               x = x AND - push_bit 8 1;
               x = x OR push_bit 5 1;
               s = w_sstatus x s;
               s = w_sepc (load64 (pmem s) (slot (p_trapframe (procs s p)) tf_epc)) s;
               satp = push_bit 60 8 OR drop_bit 12 (p_pagetable (procs s p));
               fn = TRAMPOLINE + (sym_userret sy - sym_trampoline sy)
           in ret (ToUser fn TRAPFRAME satp) s))"

text \<open>
  The end of \<open>usertrap\<close>; a process that gave the processor up in \<open>yield\<close> continues here when the scheduler
  has chosen it again.
\<close>

definition usertrap_end :: "symbols \<Rightarrow> u64 \<Rightarrow> nat \<Rightarrow> 'a trapst_scheme \<Rightarrow> (trap_end, 'a trapst_scheme) outcome" where
  "usertrap_end sy time p s =
     (if p_killed (procs s p) then bnd (exit_process time (-1) s) (\<lambda>_. ret Switched)
      else usertrapret sy s)"

definition usertrap :: "('a trapst_scheme) device \<Rightarrow> symbols \<Rightarrow> u64 \<Rightarrow> fname \<Rightarrow> 'a trapst_scheme \<Rightarrow> (trap_end, 'a trapst_scheme) outcome" where
  "usertrap hw sy time junk s =
     (if sstatus s AND 0x100 \<noteq> 0 then Inl (Panic ''usertrap: not from user mode'')
      else
        (case myproc s of None \<Rightarrow> Inl (Fault ''usertrap'')
         | Some p \<Rightarrow>
             (let s = w_stvec (sym_kernelvec sy) s;
                  s = set_slot p tf_epc (sepc s) s;
                  cause = scause s
              in if cause = 8 then
                   (if p_killed (procs s p) then bnd (exit_process time (-1) s) (\<lambda>_. ret Switched)
                    else
                      (let s = set_slot p tf_epc (load64 (pmem s) (slot (p_trapframe (procs s p)) tf_epc) + 4) s;
                           s = intr_on s
                       in bnd (syscall hw time (sym_trampoline sy) (sym_usertrapret sy) junk s) (\<lambda>returned s.
                          if returned then usertrap_end sy time p s else ret Switched s)))
                 else if timer_cause cause then ret Switched (yield s)
                 else
                   bnd (printf ''usertrap(): unexpected scause %p pid=%d\<newline>'' [AVal cause, of_int_arg (p_pid (procs s p))] s) (\<lambda>_ s.
                   bnd (printf ''            sepc=%p stval=%p\<newline>'' [AVal (sepc s), AVal (stval s)] s) (\<lambda>_ s.
                   usertrap_end sy time p (upd_proc p (\<lambda>x. x\<lparr>p_killed := True\<rparr>) s))))))"

end
