(* ===== verification/Journal.thy ===== *)
theory Journal
  imports Fs
begin

text \<open>
  What the file system relies on inside a transaction: reading a block, changing it in its buffer,
  logging it and releasing it. The locale \<open>journal\<close> states the laws once, for the model's buffer
  cache and log; its lemmas are the two patterns of fs.c, looking at a block and editing one.
\<close>

section \<open>The interface\<close>

locale journal =
  fixes bread :: "u32 \<Rightarrow> 's \<Rightarrow> (nat, 's) outcome"
    and log :: "nat \<Rightarrow> 's \<Rightarrow> (unit, 's) outcome"
    and brelse :: "nat \<Rightarrow> 's \<Rightarrow> (unit, 's) outcome"
    and get_data :: "nat \<Rightarrow> 's \<Rightarrow> u8 list"
    and set_data :: "nat \<Rightarrow> u8 list \<Rightarrow> 's \<Rightarrow> 's"
    and ok :: "'s \<Rightarrow> bool"
    and view :: "'s \<Rightarrow> cache"
    and holds :: "'s \<Rightarrow> nat \<Rightarrow> u32 \<Rightarrow> bool"
    and frame :: "'s \<Rightarrow> 's \<Rightarrow> bool"
    and loggable :: "'s \<Rightarrow> u32 \<Rightarrow> bool"
    and free_slots :: "'s \<Rightarrow> int"
  assumes frame_refl: "frame s s"
    and frame_trans: "frame s s' \<Longrightarrow> frame s' s'' \<Longrightarrow> frame s s''"
    and frame_loggable: "frame s s' \<Longrightarrow> loggable s' n = loggable s n"
    and coherent: "ok s \<Longrightarrow> refs (view s) n = 0 \<Longrightarrow> \<not> dirty (view s) n \<Longrightarrow> content (view s) n = medium (view s) n"
    and handle: "ok s \<Longrightarrow> holds s i n \<Longrightarrow> get_data i s = content (view s) n \<and> refs (view s) n \<noteq> 0"
    and data_len: "ok s \<Longrightarrow> usable n \<Longrightarrow> length (content (view s) n) = BSIZE"
    and read_law: "ok s \<Longrightarrow> usable n \<Longrightarrow> card (insert n (pinned (view s))) \<le> NBUF \<Longrightarrow> refs (view s) n + 1 < 2 ^ 32 \<Longrightarrow>
           \<exists>i s'. bread n s = Inr (i, s') \<and> ok s' \<and> holds s' i n \<and> view s' = c_ref n (view s) \<and>
             frame s s' \<and> free_slots s' = free_slots s \<and> (\<forall>j m. holds s j m \<longrightarrow> holds s' j m)"
    and set_law: "ok s \<Longrightarrow> holds s i n \<Longrightarrow> length d = BSIZE \<Longrightarrow>
           ok (set_data i d s) \<and> view (set_data i d s) = c_set n d (view s) \<and> frame s (set_data i d s) \<and>
           free_slots (set_data i d s) = free_slots s \<and> holds (set_data i d s) = holds s"
    and log_law: "ok s \<Longrightarrow> holds s i n \<Longrightarrow> loggable s n \<Longrightarrow> 0 < free_slots s \<Longrightarrow>
           \<exists>s'. log i s = Inr ((), s') \<and> ok s' \<and> view s' = c_mark n True (view s) \<and> frame s s' \<and>
             free_slots s - 1 \<le> free_slots s' \<and> holds s' = holds s"
    and release_law: "ok s \<Longrightarrow> holds s i n \<Longrightarrow>
           (refs (view s) n = 1 \<Longrightarrow> \<not> dirty (view s) n \<Longrightarrow> content (view s) n = medium (view s) n) \<Longrightarrow>
           \<exists>s'. brelse i s = Inr ((), s') \<and> ok s' \<and> view s' = c_unref n (view s) \<and> frame s s' \<and>
             free_slots s' = free_slots s \<and>
             (\<forall>j m. holds s' j m \<longleftrightarrow> holds s j m \<and> (m \<noteq> n \<or> refs (view s) n \<noteq> 1))"
begin

text \<open>Room for \<open>k\<close> more blocks, in the cache and in the log.\<close>

definition room :: "'s \<Rightarrow> nat \<Rightarrow> bool" where
  "room s k \<longleftrightarrow> card (pinned (view s)) + k \<le> NBUF \<and> int k \<le> free_slots s \<and> (\<forall>n. refs (view s) n + k < 2 ^ 32)"

lemma card_insert_room: "card P + 1 \<le> k \<Longrightarrow> card (insert n P) \<le> k" for P :: "u32 set"
  by (cases "finite P") (simp_all add: card_insert_if)

lemma room_le:
  assumes r: "room s k" and j: "j \<le> k"
  shows "room s j"
proof -
  have "refs (view s) n + j < 2 ^ 32" for n
  proof -
    have "refs (view s) n + k < 2 ^ 32" using r unfolding room_def by blast
    then show ?thesis using j by linarith
  qed
  then show ?thesis using r j by (simp add: room_def)
qed

lemma roomD: "room s (Suc k) \<Longrightarrow> card (insert n (pinned (view s))) + k \<le> NBUF \<and> refs (view s) n + 1 < 2 ^ 32"
proof -
  assume r: "room s (Suc k)"
  then have "card (pinned (view s)) + 1 \<le> NBUF - k" "NBUF - k + k = NBUF" by (auto simp: room_def)
  then have "card (insert n (pinned (view s))) + k \<le> NBUF"
    using card_insert_room [of "pinned (view s)" "NBUF - k" n] by simp
  moreover have "refs (view s) n + Suc k < 2 ^ 32" using r unfolding room_def by blast
  ultimately show ?thesis by simp
qed

text \<open>Looking at a block: it is read, and later released unchanged.\<close>

lemma look_read:
  assumes "ok s" and "usable n" and "room s (Suc k)"
  shows "\<exists>i s'. bread n s = Inr (i, s') \<and> ok s' \<and> holds s' i n \<and> get_data i s' = content (view s) n \<and>
    view s' = c_ref n (view s) \<and> frame s s' \<and> free_slots s' = free_slots s \<and> (\<forall>j m. holds s j m \<longrightarrow> holds s' j m)"
proof -
  have "card (insert n (pinned (view s))) \<le> NBUF" "refs (view s) n + 1 < 2 ^ 32"
    using roomD [OF assms(3), of n] by (auto dest: add_leD1)
  then obtain i s' where r: "bread n s = Inr (i, s')" "ok s'" "holds s' i n" "view s' = c_ref n (view s)" "frame s s'"
    "free_slots s' = free_slots s" "\<forall>j m. holds s j m \<longrightarrow> holds s' j m"
    using read_law [OF assms(1,2)] by blast
  then show ?thesis using handle [OF r(2,3)] by auto
qed

text \<open>The release, in a state \<open>t\<close> in which block \<open>n\<close> is held once more than in the view \<open>v\<close>.\<close>

lemma look_release:
  assumes t: "ok t" "holds t i n" "view t = c_ref n v"
    and cl: "refs v n = 0 \<Longrightarrow> \<not> dirty v n \<Longrightarrow> content v n = medium v n"
  shows "\<exists>u. brelse i t = Inr ((), u) \<and> ok u \<and> view u = v \<and> frame t u \<and> free_slots u = free_slots t \<and>
    (\<forall>j m. holds t j m \<and> (m \<noteq> n \<or> refs v n \<noteq> 0) \<longrightarrow> holds u j m)"
proof -
  have c: "content (view t) n = medium (view t) n" if "refs (view t) n = 1" "\<not> dirty (view t) n"
    using that cl by (simp add: t(3))
  obtain u where u: "brelse i t = Inr ((), u)" "ok u" "view u = c_unref n (view t)" "frame t u" "free_slots u = free_slots t"
    "\<forall>j m. holds u j m \<longleftrightarrow> holds t j m \<and> (m \<noteq> n \<or> refs (view t) n \<noteq> 1)"
    using release_law [OF t(1,2) c] by blast
  then show ?thesis by (simp add: t(3))
qed

lemma look:
  assumes ok: "ok s" and us: "usable n" and r: "room s (Suc k)"
  shows "\<exists>i s1 s2. bread n s = Inr (i, s1) \<and> get_data i s1 = content (view s) n \<and> frame s s1 \<and>
    brelse i s1 = Inr ((), s2) \<and> ok s2 \<and> view s2 = view s \<and> frame s s2 \<and> room s2 (Suc k) \<and>
    (\<forall>j m. holds s j m \<longrightarrow> holds s2 j m)"
proof -
  obtain i s1 where s1: "bread n s = Inr (i, s1)" "ok s1" "holds s1 i n" "get_data i s1 = content (view s) n"
    "view s1 = c_ref n (view s)" "frame s s1" "free_slots s1 = free_slots s" "\<forall>j m. holds s j m \<longrightarrow> holds s1 j m"
    using look_read [OF ok us r] by blast
  obtain s2 where s2: "brelse i s1 = Inr ((), s2)" "ok s2" "view s2 = view s" "frame s1 s2" "free_slots s2 = free_slots s1"
    "\<forall>j m. holds s1 j m \<and> (m \<noteq> n \<or> refs (view s) n \<noteq> 0) \<longrightarrow> holds s2 j m"
    using look_release [OF s1(2,3,5) coherent [OF ok]] by blast
  have "room s2 (Suc k)" using r s1(7) s2(3,5) by (simp add: room_def)
  moreover have "holds s2 j m" if "holds s j m" for j m
    using that handle [OF ok that] s1(8) s2(6) by auto
  ultimately show ?thesis using s1 s2 frame_trans by blast
qed

text \<open>Editing a block: read it, store \<open>d\<close> in its buffer, log it, release it.\<close>

lemma edit:
  assumes ok: "ok s" and us: "usable n" and r: "room s (Suc k)" and lg: "loggable s n" and d: "length d = BSIZE"
    and b: "bread n s = Inr (i, s1)"
  shows "get_data i s1 = content (view s) n \<and> frame s s1 \<and> (\<exists>s2 s3. log i (set_data i d s1) = Inr ((), s2) \<and> brelse i s2 = Inr ((), s3) \<and> ok s3 \<and>
    content (view s3) = (content (view s))(n := d) \<and> dirty (view s3) = (dirty (view s))(n := True) \<and>
    refs (view s3) = refs (view s) \<and> medium (view s3) = medium (view s) \<and> frame s s3 \<and> room s3 k \<and>
    (\<forall>j m. holds s j m \<longrightarrow> holds s3 j m))"
proof -
  obtain s1: "ok s1" "holds s1 i n" "get_data i s1 = content (view s) n" "view s1 = c_ref n (view s)" "frame s s1"
    "free_slots s1 = free_slots s" "\<forall>j m. holds s j m \<longrightarrow> holds s1 j m"
    using look_read [OF ok us r] b by auto
  let ?t = "set_data i d s1"
  note T = set_law [OF s1(1,2) d]
  have h: "holds ?t i n" using T s1(2) by simp
  have lg': "loggable ?t n" using lg frame_loggable frame_trans T s1(5) by metis
  have fs: "0 < free_slots ?t" using T s1(6) r by (simp add: room_def)
  obtain s2 where s2: "log i ?t = Inr ((), s2)" "ok s2" "view s2 = c_mark n True (view ?t)" "frame ?t s2"
    "free_slots ?t - 1 \<le> free_slots s2" "holds s2 = holds ?t"
    using log_law [OF conjunct1 [OF T] h lg' fs] by blast
  have v2: "view s2 = c_ref n (c_mark n True (c_set n d (view s)))" using s2(3) T s1(4) by (simp add: c_commute)
  have h2: "holds s2 i n" using s2(6) h by simp
  obtain s3 where s3: "brelse i s2 = Inr ((), s3)" "ok s3" "view s3 = c_mark n True (c_set n d (view s))" "frame s2 s3"
    "free_slots s3 = free_slots s2" "\<forall>j m. holds s2 j m \<and> (m \<noteq> n \<or> refs (c_mark n True (c_set n d (view s))) n \<noteq> 0) \<longrightarrow> holds s3 j m"
    using look_release [OF s2(2) h2 v2] by auto
  have f: "frame s s3" using s1(5) T s2(4) s3(4) frame_trans by blast
  have "pinned (view s3) = insert n (pinned (view s))" by (auto simp: s3(3) pinned_def)
  then have "card (pinned (view s3)) + k \<le> NBUF"
    using roomD [OF r] by simp
  moreover have "int k \<le> free_slots s3" using r s3(5) s2(5) T s1(6) by (simp add: room_def)
  moreover have "refs (view s3) m + k < 2 ^ 32" for m
  proof -
    have "refs (view s) m + Suc k < 2 ^ 32" using r unfolding room_def by blast
    then show ?thesis by (simp add: s3(3))
  qed
  ultimately have "room s3 k" unfolding room_def by blast
  moreover have "holds s3 j m" if "holds s j m" for j m
  proof -
    have "holds s2 j m" using that s1(7) T s2(6) by simp
    moreover have "refs (view s) m \<noteq> 0" using handle [OF ok that] by simp
    ultimately show ?thesis using s3(6) by auto
  qed
  ultimately show ?thesis using s1 s2(1) s3(1,2) f by (auto simp: s3(3))
qed

end

section \<open>The log as a journal\<close>

text \<open>Inside a transaction: the log is open and its invariant holds.\<close>

definition in_trans :: "'a logst_scheme \<Rightarrow> bool" where
  "in_trans s \<longleftrightarrow> log_inv s \<and> \<not> lg_lock s \<and> 1 \<le> lg_outstanding s"

text \<open>Everything but the cache, the queue, the medium and the header in memory is the same.\<close>

definition fs_frame :: "'a logst_scheme \<Rightarrow> 'a logst_scheme \<Rightarrow> bool" where
  "fs_frame s s' \<longleftrightarrow> s' = s\<lparr>bufs := bufs s', vq := vq s', img := img s', written := written s',
     bhead_prev := bhead_prev s', bhead_next := bhead_next s', lh_n := lh_n s', lh_block := lh_block s'\<rparr>"

lemma fs_frame_refl [simp]: "fs_frame s s"
  by (simp add: fs_frame_def)

lemma fs_frame_trans: "fs_frame s s' \<Longrightarrow> fs_frame s' s'' \<Longrightarrow> fs_frame s s''"
  by (cases s; cases s'; cases s''; simp add: fs_frame_def)

lemma bc_fs_frame: "bc_frame s s' \<Longrightarrow> fs_frame s s'"
  by (cases s; cases s'; simp add: fs_frame_def bc_frame_def)

lemma fs_frameD:
  assumes "fs_frame s s'"
  shows "lg_start s' = lg_start s" "lg_size s' = lg_size s" "lg_dev s' = lg_dev s" "lg_outstanding s' = lg_outstanding s"
    "lg_committing s' = lg_committing s" "lg_lock s' = lg_lock s" "procs s' = procs s" "current s' = current s"
    "pmem s' = pmem s" "logst.more s' = logst.more s"
  using assms by (cases s; cases s'; simp add: fs_frame_def)+

lemma log_write_frame: "log_write b s = Inr ((), s') \<Longrightarrow> \<not> lg_lock s \<Longrightarrow> fs_frame s s'"
  by (cases s; cases s')
    (auto simp: log_write_def acquire_log_def release_log_def set_buf_disk_def upd_buf_def Let_def fs_frame_def split: if_splits)

lemma in_trans_frame:
  assumes "in_trans s" and "bc_frame s s'" and "bc_ok s'" and "dirty (cview s') = dirty (cview s)"
  shows "in_trans s'"
proof -
  note F = bc_frame_log [OF assms(2)]
  have "home s' = home s" by (rule bc_frame_home [OF assms(2)])
  then show ?thesis using assms(1,3,4) by (simp add: in_trans_def log_inv_def trans_ok_def homes_def F)
qed

lemma in_trans_bc: "in_trans s \<Longrightarrow> bc_ok s"
  by (simp add: in_trans_def log_inv_def)

definition log_slots :: "'a logst_scheme \<Rightarrow> int" where
  "log_slots s = lg_size s - 1 - lh_n s"

lemma bc_frame_slots: "bc_frame s s' \<Longrightarrow> log_slots s' = log_slots s"
  by (simp add: log_slots_def bc_frame_log)

interpretation jr: journal "bread hw 0" log_write brelse "\<lambda>i s. b_data (bufs s i)" set_buf_data
    "\<lambda>s. virtio_blk hw \<and> in_trans s" cview holds fs_frame "\<lambda>s n. n \<notin> log_area (lg_start s)" log_slots
  for hw :: "nat \<Rightarrow> 'a logst_scheme \<Rightarrow> 'a logst_scheme"
proof (unfold_locales, goal_cases)
  case 1
  show ?case by simp
next
  case (2 s s' s'')
  then show ?case by (rule fs_frame_trans)
next
  case (3 s s' n)
  then show ?case by (simp add: fs_frameD)
next
  case (4 s n)
  then show ?case using view_coherent in_trans_bc by blast
next
  case (5 s i n)
  then have "bc_ok s" "holds s i n" using in_trans_bc by auto
  note H = holdsD [OF this]
  then show ?case by (simp add: unsigned_eq_0_iff)
next
  case (6 s n)
  then show ?case using content_length in_trans_bc by blast
next
  case (7 s n)
  then have ok: "virtio_blk hw" "bc_ok s" "in_trans s" "usable n" using in_trans_bc by auto
  obtain i s' where "bread hw 0 n s = Inr (i, s')" "bc_ok s'" "holds s' i n" "cview s' = c_ref n (cview s)" "bc_frame s s'"
    "\<forall>j m. holds s j m \<longrightarrow> holds s' j m"
    using bread_spec [OF ok(1,2,4) room_cases [OF 7(3)] 7(4)] by blast
  then show ?case using ok in_trans_frame [of s s'] bc_fs_frame [of s s'] bc_frame_slots [of s s'] by auto
next
  case (8 s i n d)
  then have ok: "bc_ok s" "holds s i n" "in_trans s" using in_trans_bc by auto
  note S = set_data_spec [OF ok(1,2) 8(3), folded set_buf_data_def]
  then show ?case
    using 8 in_trans_frame [OF ok(3) S(3,1)] bc_fs_frame [OF S(3)] bc_frame_slots [OF S(3)] by (simp add: fun_eq_iff)
next
  case (9 s i n)
  then have "log_inv s" "\<not> lg_lock s" "1 \<le> lg_outstanding s" "lh_n s < lg_size s - 1"
    by (simp_all add: in_trans_def log_slots_def)
  from log_write_spec [OF this(1) 9(2,3) this(2-4)] obtain s' where "log_write i s = Inr ((), s')" "log_inv s'"
    "cview s' = c_mark n True (cview s)" "lh_n s' = (if n \<in> homes s then lh_n s else lh_n s + 1)" "holds s' = holds s"
    "\<not> lg_lock s'" "lg_outstanding s' = lg_outstanding s" "lg_size s' = lg_size s" by blast
  then show ?case using 9 log_write_frame [of i s s'] by (auto simp: in_trans_def log_slots_def)
next
  case (10 s i n)
  then have ok: "bc_ok s" "in_trans s" using in_trans_bc by auto
  from brelse_spec [OF ok(1) 10(2,3)] obtain s' where "brelse i s = Inr ((), s')" "bc_ok s'" "cview s' = c_unref n (cview s)"
    "bc_frame s s'" "\<forall>j m. holds s' j m \<longleftrightarrow> holds s j m \<and> (m \<noteq> n \<or> refs (cview s) n \<noteq> 1)" by blast
  then show ?case using 10 ok in_trans_frame [of s s'] bc_fs_frame [of s s'] bc_frame_slots [of s s'] by auto
qed

end
