(* ===== verification/FsBlocks.thy ===== *)
theory FsBlocks
  imports Journal
begin

text \<open>
  The block bitmap: what \<open>balloc\<close> and \<open>bfree\<close> of fs.c do to the blocks as the buffer cache and the
  log present them. A block is in use when its bit in the bitmap is set.
\<close>

section \<open>Bits\<close>

lemma bit_in_use_iff: "bit_in_use d bi \<longleftrightarrow> bit (d ! (bi div 8)) (bi mod 8)"
proof -
  have "d ! (bi div 8) AND push_bit (bi mod 8) 1 \<noteq> 0 \<longleftrightarrow> bit (d ! (bi div 8)) (bi mod 8)"
    by (simp add: bit_iff_and_push_bit_not_eq_0)
  then show ?thesis by (simp add: bit_in_use_def)
qed

lemma bit_of_one_pushed: "m < 8 \<Longrightarrow> bit (2 ^ m :: u8) k \<longleftrightarrow> k = m"
  by (auto simp: bit_exp_iff)

lemma same_bit: "bi div 8 = bj div 8 \<Longrightarrow> bi mod 8 = bj mod 8 \<longleftrightarrow> bi = (bj :: nat)"
  by (metis div_mult_mod_eq)

lemma set_bit_spec:
  assumes "bi div 8 < length d"
  shows "bit_in_use (set_bit_in bi d) bj \<longleftrightarrow> bj = bi \<or> bit_in_use d bj"
    and "length (set_bit_in bi d) = length d"
  using assms same_bit [of bj bi]
  by (auto simp: bit_in_use_iff set_bit_in_def nth_list_update bit_or_iff bit_of_one_pushed)

lemma clear_bit_spec:
  assumes "bi div 8 < length d"
  shows "bit_in_use (clear_bit_in bi d) bj \<longleftrightarrow> bj \<noteq> bi \<and> bit_in_use d bj"
    and "length (clear_bit_in bi d) = length d"
  using assms same_bit [of bj bi]
  by (auto simp: bit_in_use_iff clear_bit_in_def nth_list_update bit_and_iff bit_not_iff bit_of_one_pushed)

section \<open>The bitmap of a mounted file system\<close>

abbreviation disk :: "'a fsst_scheme \<Rightarrow> u32 \<Rightarrow> u8 list" where
  "disk s \<equiv> content (cview s)"

definition fs_size :: "'a fsst_scheme \<Rightarrow> nat" where
  "fs_size s = nat (sint (sb_size (fs_sb s)))"

definition block_used :: "'a fsst_scheme \<Rightarrow> nat \<Rightarrow> bool" where
  "block_used s n \<longleftrightarrow> bit_in_use (disk s (BBLOCK (of_nat n) (fs_sb s))) (n mod BPB)"

text \<open>The bitmap blocks are blocks of the disk outside the log, and a free block is neither of the log nor of the bitmap.\<close>

definition fs_block :: "'a fsst_scheme \<Rightarrow> u32 \<Rightarrow> bool" where
  "fs_block s n \<longleftrightarrow> usable n \<and> n \<notin> log_area (lg_start s)"

definition bitmap_ok :: "'a fsst_scheme \<Rightarrow> bool" where
  "bitmap_ok s \<longleftrightarrow> (\<forall>n < fs_size s. fs_block s (BBLOCK (of_nat n) (fs_sb s)) \<and>
     (\<not> block_used s n \<longrightarrow> fs_block s (of_nat n) \<and> (\<forall>k < fs_size s. of_nat n \<noteq> BBLOCK (of_nat k) (fs_sb s))))"

lemma fs_frame_fs: "fs_frame s s' \<Longrightarrow> fs_sb s' = fs_sb s \<and> icache s' = icache s" for s s' :: "'a fsst_scheme"
  by (cases s; cases s'; simp add: fs_frame_def)

lemma fs_size_bound: "fs_size s < 2 ^ 31"
  using sint_lt [of "sb_size (fs_sb s)"] by (simp add: fs_size_def nat_less_iff)

lemma BBLOCK_group:
  assumes "n < 2 ^ 32"
  shows "BBLOCK (of_nat n) sb = BBLOCK (of_nat (BPB * (n div BPB))) sb" "unat (of_nat n :: u32) = n"
proof -
  have u: "unat (of_nat m :: u32) = m" if "m < 2 ^ 32" for m using that by (simp add: unat_of_nat_small)
  show "unat (of_nat n :: u32) = n" using assms u by simp
  have "BPB * (n div BPB) \<le> n" by simp
  then have l: "BPB * (n div BPB) < 2 ^ 32" using assms by linarith
  have "unat (of_nat n div of_nat BPB :: u32) = unat (of_nat (BPB * (n div BPB)) div of_nat BPB :: u32)"
    using u [OF assms] u [OF l] u [of BPB] by (simp add: unat_div_distrib BPB_def BSIZE_def)
  then show "BBLOCK (of_nat n) sb = BBLOCK (of_nat (BPB * (n div BPB))) sb"
    unfolding BBLOCK_def word_unat_eq_iff [symmetric] by simp
qed

lemma bit_position: "bi < BPB \<Longrightarrow> bi div 8 < BSIZE"
  by (simp add: BPB_def less_mult_imp_div_less)

section \<open>balloc\<close>

definition all_used_below :: "'a fsst_scheme \<Rightarrow> nat \<Rightarrow> bool" where
  "all_used_below s n \<longleftrightarrow> (\<forall>k < n. block_used s k)"

text \<open>The bits of one bitmap block, searched for a free one.\<close>

lemma free_bit_search:
  fixes s :: "'a fsst_scheme"
  assumes j: "BPB * j < fs_size s" and below: "all_used_below s (BPB * j)"
    and d: "d = disk s (BBLOCK (of_nat (BPB * j)) (fs_sb s))"
  shows "case List.find (\<lambda>bi. \<not> bit_in_use d bi) [0..<min BPB (fs_size s - BPB * j)] of
      None \<Rightarrow> all_used_below s (min (BPB * Suc j) (fs_size s))
    | Some bi \<Rightarrow> BPB * j + bi < fs_size s \<and> \<not> block_used s (BPB * j + bi) \<and> bi < BPB \<and>
        all_used_below s (BPB * j + bi) \<and> (BPB * j + bi) mod BPB = bi \<and>
        BBLOCK (of_nat (BPB * j + bi)) (fs_sb s) = BBLOCK (of_nat (BPB * j)) (fs_sb s)"
proof -
  have pos: "0 < BPB" by (simp add: BPB_def BSIZE_def)
  have used: "block_used s (BPB * j + bi) \<longleftrightarrow> bit_in_use d bi"
    and grp: "BBLOCK (of_nat (BPB * j + bi)) (fs_sb s) = BBLOCK (of_nat (BPB * j)) (fs_sb s)"
    and md: "(BPB * j + bi) mod BPB = bi"
    if "bi < BPB" "BPB * j + bi < fs_size s" for bi
  proof -
    have lt: "BPB * j + bi < 2 ^ 32" using that fs_size_bound [of s] by simp
    have dv: "(BPB * j + bi) div BPB = j" using that pos by simp
    show md: "(BPB * j + bi) mod BPB = bi" using that by simp
    show grp: "BBLOCK (of_nat (BPB * j + bi)) (fs_sb s) = BBLOCK (of_nat (BPB * j)) (fs_sb s)"
      using BBLOCK_group(1) [OF lt] unfolding dv .
    show "block_used s (BPB * j + bi) \<longleftrightarrow> bit_in_use d bi" unfolding block_used_def grp md d ..
  qed
  show ?thesis
  proof (cases "List.find (\<lambda>bi. \<not> bit_in_use d bi) [0..<min BPB (fs_size s - BPB * j)]")
    case None
    then have n: "bit_in_use d bi" if "bi < BPB" "BPB * j + bi < fs_size s" for bi
      using that by (auto simp: find_None_iff)
    have "block_used s i" if i: "i < min (BPB * Suc j) (fs_size s)" for i
    proof (cases "i < BPB * j")
      case True
      then show ?thesis using below by (simp add: all_used_below_def)
    next
      case False
      then have "i - BPB * j < BPB" using i by (simp add: less_diff_conv2)
      then show ?thesis using False used [of "i - BPB * j"] n [of "i - BPB * j"] i by simp
    qed
    then show ?thesis using None by (simp add: all_used_below_def)
  next
    case (Some bi)
    then have b: "bi < BPB" "BPB * j + bi < fs_size s" "\<not> bit_in_use d bi" and f: "\<And>i. i < bi \<Longrightarrow> bit_in_use d i"
      by (auto simp: find_Some_iff)
    have "block_used s i" if i: "i < BPB * j + bi" for i
    proof (cases "i < BPB * j")
      case True
      then show ?thesis using below by (simp add: all_used_below_def)
    next
      case False
      then show ?thesis using used [of "i - BPB * j"] f [of "i - BPB * j"] i b by simp
    qed
    then show ?thesis using Some b used grp md by (simp add: all_used_below_def)
  qed
qed

text \<open>The same as a relation between the state before and after an allocation.\<close>

definition allocated :: "'a fsst_scheme \<Rightarrow> nat \<Rightarrow> 'a fsst_scheme \<Rightarrow> bool" where
  "allocated s n s' \<longleftrightarrow> n < fs_size s \<and> \<not> block_used s n \<and> all_used_below s n \<and> in_trans s' \<and> fs_frame s s' \<and>
     refs (cview s') = refs (cview s) \<and> medium (cview s') = medium (cview s) \<and> (\<forall>i b. holds s i b \<longrightarrow> holds s' i b) \<and>
     disk s' = (disk s)(BBLOCK (of_nat n) (fs_sb s) := set_bit_in (n mod BPB) (disk s (BBLOCK (of_nat n) (fs_sb s))),
                        of_nat n := replicate BSIZE 0)"

lemma ceil_BPB: "n \<le> BPB * ((n + BPB - 1) div BPB)" "j < (n + BPB - 1) div BPB \<Longrightarrow> BPB * j < n"
  unfolding BPB_def BSIZE_def by simp_all

lemma balloc_loop_spec:
  fixes s :: "'a fsst_scheme"
  assumes hw: "virtio_blk hw" and m: "m = (fs_size s + BPB - 1) div BPB"
  shows "j \<le> m \<Longrightarrow> in_trans s \<Longrightarrow> bitmap_ok s \<Longrightarrow> jr.room s (Suc (Suc k)) \<Longrightarrow>
    all_used_below s (min (BPB * j) (fs_size s)) \<Longrightarrow>
    (if all_used_below s (fs_size s)
     then balloc_loop hw 0 (map ((*) BPB) [j..<m]) s = Inl (Panic ''balloc: out of blocks'')
     else \<exists>n s'. balloc_loop hw 0 (map ((*) BPB) [j..<m]) s = Inr (of_nat n, s') \<and> allocated s n s' \<and> jr.room s' k)"
  using m
proof (induction "m - j" arbitrary: j s)
  case 0
  have pos: "0 < BPB" by (simp add: BPB_def BSIZE_def)
  have "fs_size s \<le> BPB * m" unfolding "0.prems"(6) by (rule ceil_BPB)
  then have "all_used_below s (fs_size s)" using 0 by simp
  then show ?case using 0(1) by simp
next
  case (Suc d)
  then have jm: "j < m" by simp
  note tr = Suc.prems(2) and bok = Suc.prems(3) and rm = Suc.prems(4) and below = Suc.prems(5) and m = Suc.prems(6)
  have lst: "map ((*) BPB) [j..<m] = (BPB * j) # map ((*) BPB) [Suc j..<m]" using jm by (simp add: upt_conv_Cons)
  have pos: "0 < BPB" by (simp add: BPB_def BSIZE_def)
  have lt: "BPB * j < fs_size s" using ceil_BPB(2) jm unfolding m .
  let ?bb = "BBLOCK (of_nat (BPB * j)) (fs_sb s)"
  have ok: "virtio_blk hw \<and> in_trans s" using hw tr by simp
  have fb: "usable ?bb" "?bb \<notin> log_area (lg_start s)" using bok lt unfolding bitmap_ok_def fs_block_def by blast+
  obtain bp s1 s2 where rd: "bread hw 0 ?bb s = Inr (bp, s1)" "b_data (bufs s1 bp) = disk s ?bb" "fs_frame s s1"
    and rl: "brelse bp s1 = Inr ((), s2)" "in_trans s2" "cview s2 = cview s" "fs_frame s s2" "jr.room s2 (Suc (Suc k))"
    "\<forall>i b. holds s i b \<longrightarrow> holds s2 i b"
    using jr.look [OF ok fb(1) rm] by blast
  have s1: "fs_sb s1 = fs_sb s" using fs_frame_fs [OF rd(3)] by simp
  let ?find = "List.find (\<lambda>bi. \<not> bit_in_use (disk s ?bb) bi) [0..<min BPB (fs_size s - BPB * j)]"
  have find: "List.find (\<lambda>bi. \<not> bit_in_use (b_data (bufs s1 bp)) bi) [0..<min BPB (nat (sint (sb_size (fs_sb s1))) - BPB * j)] = ?find"
    by (simp add: rd s1 fs_size_def)
  have below': "all_used_below s (BPB * j)" using below lt by simp
  note F = free_bit_search [OF lt below' refl]
  show ?case
  proof (cases ?find)
    case None
    have s2: "fs_sb s2 = fs_sb s" "lg_start s2 = lg_start s" using fs_frame_fs [OF rl(4)] fs_frameD [OF rl(4)] by simp_all
    have eq: "bitmap_ok s2 = bitmap_ok s" "fs_size s2 = fs_size s" "all_used_below s2 x = all_used_below s x"
      "block_used s2 = block_used s" for x
      by (auto simp: bitmap_ok_def fs_size_def all_used_below_def block_used_def fs_block_def s2 rl(3) fun_eq_iff)
    have al: "allocated s n s'" if "allocated s2 n s'" for n s'
      using that rl fs_frame_trans [OF rl(4)] by (simp add: allocated_def eq s2)
    have "all_used_below s2 (min (BPB * Suc j) (fs_size s2))" using F None by (simp add: eq)
    moreover have "d = m - Suc j" "Suc j \<le> m" "m = (fs_size s2 + BPB - 1) div BPB" using Suc.hyps(2) jm m eq by simp_all
    ultimately have IH: "if all_used_below s2 (fs_size s2) then balloc_loop hw 0 (map ((*) BPB) [Suc j..<m]) s2 = Inl (Panic ''balloc: out of blocks'')
      else \<exists>n s'. balloc_loop hw 0 (map ((*) BPB) [Suc j..<m]) s2 = Inr (of_nat n, s') \<and> allocated s2 n s' \<and> jr.room s' k"
      using Suc.hyps(1) [of "Suc j" s2] rl(2,5) bok eq(1) by blast
    have step: "balloc_loop hw 0 (map ((*) BPB) [j..<m]) s = balloc_loop hw 0 (map ((*) BPB) [Suc j..<m]) s2"
      unfolding lst by (simp only: balloc_loop.simps rd(1) bnd_Inr find None option.case rl(1))
    show ?thesis using IH al unfolding step by (simp add: eq split: if_splits) blast
  next
    case (Some bi)
    let ?n = "BPB * j + bi"
    have n: "?n < fs_size s" "\<not> block_used s ?n" "bi < BPB" "all_used_below s ?n" "?n mod BPB = bi"
      "BBLOCK (of_nat ?n) (fs_sb s) = ?bb" using F Some by simp_all
    have fn: "usable (of_nat ?n)" "of_nat ?n \<notin> log_area (lg_start s)" "of_nat ?n \<noteq> ?bb"
      using bok n(1,2) lt unfolding bitmap_ok_def fs_block_def by blast+
    let ?d = "set_bit_in bi (disk s ?bb)"
    have ld: "length (disk s ?bb) = BSIZE" using content_length in_trans_bc [OF tr] fb(1) by blast
    then have len: "length ?d = BSIZE" by (simp add: set_bit_spec(2) bit_position [OF n(3)])
    from jr.edit [OF ok fb(1) rm fb(2) len rd(1)] obtain t1 t2 where
      e: "log_write bp (set_buf_data bp ?d s1) = Inr ((), t1)" "brelse bp t1 = Inr ((), t2)" "in_trans t2"
        "disk t2 = (disk s)(?bb := ?d)" "refs (cview t2) = refs (cview s)" "medium (cview t2) = medium (cview s)"
        "fs_frame s t2" "jr.room t2 (Suc k)" "\<forall>i b. holds s i b \<longrightarrow> holds t2 i b" by blast
    have ok2: "virtio_blk hw \<and> in_trans t2" using hw e(3) by simp
    have lg2: "of_nat ?n \<notin> log_area (lg_start t2)" using fn(2) fs_frameD(1) [OF e(7)] by simp
    obtain bq u1 where rd2: "bread hw 0 (of_nat ?n) t2 = Inr (bq, u1)" using jr.look [OF ok2 fn(1) e(8)] by blast
    have zl: "length (replicate BSIZE 0 :: u8 list) = BSIZE" by simp
    from jr.edit [OF ok2 fn(1) e(8) lg2 zl rd2] obtain u2 u3 where
      z: "log_write bq (set_buf_data bq (replicate BSIZE 0) u1) = Inr ((), u2)" "brelse bq u2 = Inr ((), u3)" "in_trans u3"
        "disk u3 = (disk t2)(of_nat ?n := replicate BSIZE 0)" "refs (cview u3) = refs (cview t2)"
        "medium (cview u3) = medium (cview t2)" "fs_frame t2 u3" "jr.room u3 k" "\<forall>i b. holds t2 i b \<longrightarrow> holds u3 i b" by blast
    have "balloc_loop hw 0 (map ((*) BPB) [j..<m]) s = Inr (of_nat ?n, u3)"
      unfolding lst
      by (simp only: balloc_loop.simps rd(1,2) bnd_Inr find [unfolded rd(2)] Some option.case e(1,2) rd2 z(1,2) ret_def)
    moreover have "allocated s ?n u3"
      using n z e fs_frame_trans [OF e(7) z(7)] by (simp add: allocated_def)
    ultimately have "\<exists>n s'. balloc_loop hw 0 (map ((*) BPB) [j..<m]) s = Inr (of_nat n, s') \<and> allocated s n s' \<and> jr.room s' k"
      using z(8) by blast
    moreover have "\<not> all_used_below s (fs_size s)" using n(1,2) by (auto simp: all_used_below_def)
    ultimately show ?thesis by (simp only: if_False)
  qed
qed

lemma BBLOCK_inj:
  assumes "BBLOCK (of_nat i) sb = BBLOCK (of_nat j) sb" and "i < 2 ^ 31" and "j < 2 ^ 31"
  shows "i div BPB = j div BPB"
proof -
  have u: "unat (of_nat m div of_nat BPB :: u32) = m div BPB" if "m < 2 ^ 31" for m
    using that by (simp add: unat_div_distrib unat_of_nat_small BPB_def BSIZE_def)
  have "of_nat i div of_nat BPB = (of_nat j div of_nat BPB :: u32)" using assms(1) by (simp add: BBLOCK_def)
  then show ?thesis using u [OF assms(2)] u [OF assms(3)] by metis
qed

text \<open>After an allocation exactly one block more is in use.\<close>

lemma allocated_used:
  assumes a: "allocated s n s'" and bok: "bitmap_ok s" and i: "i < fs_size s" and ok: "bc_ok s"
  shows "block_used s' i \<longleftrightarrow> i = n \<or> block_used s i"
proof -
  let ?bi = "BBLOCK (of_nat i) (fs_sb s)" and ?bn = "BBLOCK (of_nat n) (fs_sb s)"
  have n: "n < fs_size s" "\<not> block_used s n" and f: "fs_frame s s'"
    and D: "disk s' = (disk s)(?bn := set_bit_in (n mod BPB) (disk s ?bn), of_nat n := replicate BSIZE 0)"
    using a by (simp_all add: allocated_def)
  have sb: "fs_sb s' = fs_sb s" using fs_frame_fs [OF f] by simp
  have ne: "of_nat n \<noteq> ?bi" using bok n i by (simp add: bitmap_ok_def)
  have us: "usable ?bn" using bok n by (simp add: bitmap_ok_def fs_block_def)
  have "n mod BPB div 8 < BSIZE" by (rule bit_position) (simp add: BPB_def BSIZE_def)
  then have sp: "bit_in_use (set_bit_in (n mod BPB) (disk s ?bn)) x \<longleftrightarrow> x = n mod BPB \<or> bit_in_use (disk s ?bn) x" for x
    using set_bit_spec(1) content_length [OF ok us] by simp
  show ?thesis
  proof (cases "?bi = ?bn")
    case True
    have "i div BPB = n div BPB" using BBLOCK_inj [OF True] i n(1) fs_size_bound [of s] by simp
    then have "i mod BPB = n mod BPB \<longleftrightarrow> i = n" by (metis div_mult_mod_eq)
    then show ?thesis using ne True by (auto simp: block_used_def sb D sp)
  next
    case False
    then have "i \<noteq> n" by auto
    then show ?thesis using ne False by (simp add: block_used_def sb D)
  qed
qed

lemma balloc_spec:
  fixes s :: "'a fsst_scheme"
  assumes "virtio_blk hw" and "in_trans s" and "bitmap_ok s" and "jr.room s (Suc (Suc k))"
  shows "if all_used_below s (fs_size s) then balloc hw 0 s = Inl (Panic ''balloc: out of blocks'')
    else \<exists>n s'. balloc hw 0 s = Inr (of_nat n, s') \<and> allocated s n s' \<and> jr.room s' k"
proof -
  have "all_used_below s (min (BPB * 0) (fs_size s))" by (simp add: all_used_below_def)
  from balloc_loop_spec [OF assms(1) refl le0 assms(2-4) this] show ?thesis unfolding balloc_def fs_size_def [symmetric] .
qed

section \<open>bfree\<close>

lemma bfree_spec:
  fixes s :: "'a fsst_scheme"
  assumes hw: "virtio_blk hw" and tr: "in_trans s" and bok: "bitmap_ok s" and rm: "jr.room s (Suc k)" and b: "unat b < fs_size s"
  shows "if block_used s (unat b)
    then \<exists>s'. bfree hw 0 b s = Inr ((), s') \<and> in_trans s' \<and> fs_frame s s' \<and> jr.room s' k \<and> refs (cview s') = refs (cview s) \<and>
      medium (cview s') = medium (cview s) \<and> (\<forall>i n. holds s i n \<longrightarrow> holds s' i n) \<and>
      disk s' = (disk s)(BBLOCK b (fs_sb s) := clear_bit_in (unat b mod BPB) (disk s (BBLOCK b (fs_sb s))))
    else bfree hw 0 b s = Inl (Panic ''freeing free block'')"
proof -
  let ?bb = "BBLOCK b (fs_sb s)"
  have ok: "virtio_blk hw \<and> in_trans s" using hw tr by simp
  have bb: "BBLOCK (of_nat (unat b)) (fs_sb s) = ?bb" by simp
  then have fb: "usable ?bb" "?bb \<notin> log_area (lg_start s)" using bok b unfolding bitmap_ok_def fs_block_def by metis+
  have u: "block_used s (unat b) \<longleftrightarrow> bit_in_use (disk s ?bb) (unat b mod BPB)" by (simp add: block_used_def)
  obtain bp s1 where rd: "bread hw 0 ?bb s = Inr (bp, s1)" "b_data (bufs s1 bp) = disk s ?bb" "fs_frame s s1"
    using jr.look [OF ok fb(1) rm] by blast
  show ?thesis
  proof (cases "block_used s (unat b)")
    case False
    then show ?thesis using u rd by (simp add: bfree_def Let_def)
  next
    case True
    let ?d = "clear_bit_in (unat b mod BPB) (disk s ?bb)"
    have "unat b mod BPB div 8 < BSIZE" by (rule bit_position) (simp add: BPB_def BSIZE_def)
    then have len: "length ?d = BSIZE" using clear_bit_spec(2) content_length [OF in_trans_bc [OF tr] fb(1)] by simp
    from jr.edit [OF ok fb(1) rm fb(2) len rd(1)] True u rd(1,2) show ?thesis by (auto simp: bfree_def Let_def)
  qed
qed

lemma clear_set_bit:
  assumes "\<not> bit_in_use d bi" and "bi div 8 < length d"
  shows "clear_bit_in bi (set_bit_in bi d) = d"
proof -
  have "\<not> bit (d ! (bi div 8)) (bi mod 8)" using assms(1) by (simp add: bit_in_use_iff)
  then have "(d ! (bi div 8) OR push_bit (bi mod 8) 1) AND NOT (push_bit (bi mod 8) 1) = d ! (bi div 8)"
    by (intro bit_word_eqI) (auto simp: bit_and_iff bit_or_iff bit_not_iff bit_of_one_pushed)
  then show ?thesis using assms(2) by (simp add: clear_bit_in_def set_bit_in_def)
qed

lemma allocated_bitmap_ok:
  assumes a: "allocated s n s'" and bok: "bitmap_ok s" and ok: "bc_ok s"
  shows "bitmap_ok s'"
proof -
  have f: "fs_frame s s'" using a by (simp add: allocated_def)
  have eq: "fs_size s' = fs_size s" "fs_sb s' = fs_sb s" "fs_block s' b = fs_block s b" for b
    using fs_frame_fs [OF f] fs_frameD [OF f] by (simp_all add: fs_size_def fs_block_def)
  show ?thesis using bok allocated_used [OF a bok _ ok] by (simp add: bitmap_ok_def eq)
qed

section \<open>A small disk\<close>

lemma booted_image:
  assumes "head_count 2 (medium_of m) = 0" and "head_ok 2 (medium_of m)"
  shows "\<exists>s :: logst. log_inv s \<and> lh_n s = 0 \<and> lg_start s = 2 \<and> lg_size s = 30 \<and> \<not> lg_lock s \<and>
    pinned (cview s) = {} \<and> medium (cview s) = medium_of m"
proof -
  let ?b = "logst_boot\<lparr>img := m\<rparr>"
  have z: "zero_bufs ?b" by (simp add: zero_bufs_def buf_boot_def)
  obtain s :: logst where s: "binit ?b = Inr ((), s)" "bc_ok s" "pinned (cview s) = {}" "medium (cview s) = medium_of m"
    using binit_spec [OF z] vq_idle_boot by auto
  have two: "sint (2 :: u32) = 2" "sint (30 :: u32) = 30" by simp_all
  have h: "head_ok (sint (2 :: u32)) (medium (cview s))" "0 \<le> head_count (sint (2 :: u32)) (medium (cview s))"
    using assms s(4) two by simp_all
  have r: "recovered 2 (medium_of m) = medium_of m" by (simp add: recovered_def recovery_writes_def assms)
  from init_log_spec [OF virtio_blk_prompt s(2,3) h, of 30 0] obtain s' where
    "init_log prompt_device 0 0 2 30 s = Inr ((), s')" "log_inv s'" "lh_n s' = 0" "lg_start s' = 2" "lg_size s' = 30"
    "\<not> lg_lock s'" "pinned (cview s') = {}" "medium (cview s') = recovered 2 (medium (cview s))"
    by (auto simp: two LOGBLOCKS_def)
  then show ?thesis using s r by auto
qed

text \<open>A mounted file system inside a transaction, over any image with an empty log at block 2.\<close>

definition fsst_of :: "logst \<Rightarrow> superblock \<Rightarrow> (nat \<Rightarrow> inode) \<Rightarrow> 'a \<Rightarrow> 'a fsst_scheme" where
  "fsst_of s sb ic x = logst.extend s \<lparr>fs_sb = sb, icache = ic, \<dots> = x\<rparr>"

lemma mounted_image:
  assumes "head_count 2 (medium_of m) = 0" and "head_ok 2 (medium_of m)" and k: "k \<le> 29"
  shows "\<exists>s :: 'a fsst_scheme. in_trans s \<and> jr.room s k \<and> disk s = medium_of m \<and> fs_sb s = sb \<and> icache s = ic \<and> lg_start s = 2 \<and>
    lg_outstanding s = 1 \<and> lh_n s = 0 \<and> lg_size s = 30 \<and> \<not> lg_lock s"
proof -
  obtain s0 :: logst where s0: "log_inv s0" "lh_n s0 = 0" "lg_start s0 = 2" "lg_size s0 = 30" "\<not> lg_lock s0"
    "pinned (cview s0) = {}" "medium (cview s0) = medium_of m" using booted_image [OF assms(1,2)] by blast
  let ?s = "fsst_of (s0\<lparr>lg_outstanding := 1\<rparr>) sb ic undefined :: 'a fsst_scheme"
  have fld: "vq ?s = vq s0" "bufs ?s = bufs s0" "img ?s = img s0" "written ?s = written s0" "bhead_prev ?s = bhead_prev s0"
    "bhead_next ?s = bhead_next s0" "lg_start ?s = lg_start s0" "lg_size ?s = lg_size s0" "lg_dev ?s = lg_dev s0"
    "lh_n ?s = lh_n s0" "lh_block ?s = lh_block s0" "lg_outstanding ?s = 1" "lg_lock ?s = lg_lock s0" "fs_sb ?s = sb" "icache ?s = ic"
    by (cases s0; simp add: fsst_of_def logst.defs)+
  have c: "bc_ok ?s = bc_ok s0" "cview ?s = cview s0" using same_cache [of ?s s0] fld by simp_all
  have "log_inv ?s" using log_inv_cong(1) [of ?s s0] c fld s0(1) by simp
  then have tr: "in_trans ?s" using fld s0(5) by (simp add: in_trans_def)
  have p: "refs (cview s0) n = 0" "\<not> dirty (cview s0) n" for n using s0(6) by (auto simp: pinned_def)
  have "bc_ok s0" using s0(1) by (simp add: log_inv_def)
  then have "content (cview s0) = medium (cview s0)" using view_coherent p by blast
  moreover have "jr.room ?s k" using k by (simp add: jr.room_def c s0(2,4,6) fld log_slots_def p NBUF_def)
  ultimately show ?thesis using tr c s0(2-5,7) fld by (intro exI [of _ ?s]) simp
qed

text \<open>An image of zeros but for the bitmap, block 60, in which blocks 0 to 63 are in use.\<close>

definition small_image :: "nat \<Rightarrow> u8" where
  "small_image x = (if x div 1024 = 60 \<and> x mod 1024 < 8 then 0xFF else 0)"

definition small_sb :: superblock where
  "small_sb = \<lparr>sb_magic = FSMAGIC, sb_size = 1000, sb_nblocks = 936, sb_ninodes = 160, sb_nlog = 30, sb_logstart = 2,
     sb_inodestart = 34, sb_bmapstart = 60\<rparr>"

lemma small_bitmap_block: "n < 1000 \<Longrightarrow> BBLOCK (of_nat n) small_sb = 60"
proof -
  assume "n < 1000"
  then have "of_nat n div of_nat BPB = (0 :: u32)"
    by (simp add: BPB_def BSIZE_def word_unat_eq_iff unat_div_distrib unat_of_nat_small)
  then show ?thesis by (simp add: BBLOCK_def small_sb_def)
qed

lemma medium_byte: "usable n \<Longrightarrow> i < BSIZE \<Longrightarrow> medium_of m n ! i = m (1024 * unat n + i)"
  by (simp add: medium_of_def disk_block_def img_read_def usable_def block_offset)

lemma medium_length: "usable n \<Longrightarrow> length (medium_of m n) = BSIZE"
  by (simp add: medium_of_def disk_block_def img_read_def)

lemma small_image_byte:
  "usable n \<Longrightarrow> i < BSIZE \<Longrightarrow> medium_of small_image n ! i = (if n = 60 \<and> i < 8 then 0xFF else 0)"
proof -
  assume n: "usable n" and i: "i < BSIZE"
  have "(1024 * unat n + i) div 1024 = unat n" "(1024 * unat n + i) mod 1024 = i" using i by (simp_all add: BSIZE_def)
  moreover have "unat n = 60 \<longleftrightarrow> n = 60" by (simp add: word_unat_eq_iff)
  ultimately show ?thesis by (simp add: medium_byte [OF n i] small_image_def)
qed

lemma empty_head:
  assumes "\<forall>i < 4. m (2048 + i) = 0"
  shows "head_count 2 (medium_of m) = 0" "head_ok 2 (medium_of m)"
proof -
  have n: "log_blk 2 0 = 2" by (simp add: log_blk_def blkno_def)
  have u: "usable 2" by (simp add: usable_def small_block_def)
  have "medium_of m 2 ! i = 0" if "i < 4" for i using medium_byte [OF u, of i] that assms by (simp add: BSIZE_def)
  then have "take 4 (medium_of m 2) = replicate 4 0"
    using medium_length [OF u] by (intro nth_equalityI) (simp_all add: BSIZE_def)
  then show c: "head_count 2 (medium_of m) = 0" by (simp add: head_count_def n get_int_def eval_nat_numeral)
  show "head_ok 2 (medium_of m)" by (simp add: head_ok_def c area_ok_def LOGBLOCKS_def)
qed

lemma log_area_2: "n \<in> log_area 2 \<longleftrightarrow> 2 \<le> unat n \<and> unat n \<le> 31"
proof -
  have "log_area 2 = (\<lambda>i. blkno (2 + int i)) ` {..<30}" by (simp add: log_area_def log_blk_def LOGBLOCKS_def)
  moreover have "unat (blkno (2 + int i)) = 2 + i" if "i < 30" for i using that by (simp add: unat_blkno nat_add_distrib)
  ultimately have *: "n \<in> log_area 2 \<longleftrightarrow> (\<exists>i < 30. unat n = 2 + i)" by (auto simp: word_unat_eq_iff image_iff)
  show ?thesis
  proof
    assume "2 \<le> unat n \<and> unat n \<le> 31"
    then have "unat n = 2 + (unat n - 2) \<and> unat n - 2 < 30" by linarith
    then show "n \<in> log_area 2" using * by blast
  qed (use * in auto)
qed

lemma small_fs:
  "\<exists>s :: 'a fsst_scheme. in_trans s \<and> jr.room s 29 \<and> bitmap_ok s \<and> disk s = medium_of small_image \<and> fs_sb s = small_sb \<and>
    icache s = ic \<and> lg_start s = 2 \<and> lg_outstanding s = 1 \<and> fs_size s = 1000 \<and> (\<forall>n < 1000. block_used s n \<longleftrightarrow> n < 64)"
proof -
  have "(2048 + i) div 1024 = 2" if "i < 4" for i :: nat by (rule div_nat_eqI) (use that in simp_all)
  then have "\<forall>i < 4. small_image (2048 + i) = 0" by (simp add: small_image_def)
  from mounted_image [OF empty_head [OF this], of 29 small_sb ic] obtain s :: "'a fsst_scheme" where
    s: "in_trans s" "jr.room s 29" "disk s = medium_of small_image" "fs_sb s = small_sb" "icache s = ic" "lg_start s = 2"
      "lg_outstanding s = 1" by auto
  have sz: "fs_size s = 1000" by (simp add: fs_size_def s(4) small_sb_def)
  have bb: "BBLOCK (of_nat n) (fs_sb s) = 60" if "n < 1000" for n using small_bitmap_block [OF that] by (simp add: s(4))
  have u60: "usable 60" by (simp add: usable_def small_block_def)
  have used: "block_used s n \<longleftrightarrow> n < 64" if n: "n < 1000" for n
  proof -
    have md: "n mod BPB = n" using n by (simp add: BPB_def BSIZE_def)
    have "disk s 60 ! (n div 8) = (if n div 8 < 8 then 0xFF else 0)"
      using small_image_byte [OF u60, of "n div 8"] n by (simp add: s(3) BSIZE_def)
    moreover have "bit (0xFF :: u8) k" if "k < 8" for k
      using that by (simp add: bit_iff_odd less_Suc_eq eval_nat_numeral) auto
    ultimately show ?thesis by (auto simp: block_used_def bb [OF n] md bit_in_use_iff)
  qed
  have "bitmap_ok s"
    unfolding bitmap_ok_def
  proof (intro allI impI conjI)
    fix n assume n: "n < fs_size s"
    then have n': "n < 1000" by (simp add: sz)
    show "fs_block s (BBLOCK (of_nat n) (fs_sb s))"
      using u60 by (simp add: bb [OF n'] fs_block_def s(6) log_area_2)
    assume "\<not> block_used s n"
    then have g: "64 \<le> n" using used n' by simp
    have un: "unat (of_nat n :: u32) = n" using n' by (simp add: unat_of_nat_small)
    show "fs_block s (of_nat n)"
      using g n' un by (auto simp: fs_block_def s(6) log_area_2 usable_def small_block_def word_unat_eq_iff)
    fix k assume "k < fs_size s"
    then have "BBLOCK (of_nat k) (fs_sb s) = 60" using bb sz by simp
    then show "of_nat n \<noteq> BBLOCK (of_nat k) (fs_sb s)" using g un by (auto simp: word_unat_eq_iff)
  qed
  then show ?thesis using s sz used by blast
qed

section \<open>Properties\<close>

text \<open>
  C7. Inside a transaction with room for two blocks, \<open>balloc\<close> panics when every block is in use, and
  otherwise returns the first free block: it is then in use and all zeros, no other block changes its
  status, and no block but it and its bitmap block changes its content.
\<close>

theorem balloc_allocates:
  fixes s :: "'a fsst_scheme"
  assumes "virtio_blk hw" and "in_trans s" and "bitmap_ok s" and "jr.room s 2"
  shows "if \<forall>i < fs_size s. block_used s i then balloc hw 0 s = Inl (Panic ''balloc: out of blocks'')
    else \<exists>n s'. balloc hw 0 s = Inr (of_nat n, s') \<and> n < fs_size s \<and> \<not> block_used s n \<and> (\<forall>i < n. block_used s i) \<and>
      (\<forall>i < fs_size s. block_used s' i \<longleftrightarrow> i = n \<or> block_used s i) \<and> disk s' (of_nat n) = replicate BSIZE 0 \<and>
      (\<forall>b. b \<noteq> of_nat n \<longrightarrow> b \<noteq> BBLOCK (of_nat n) (fs_sb s) \<longrightarrow> disk s' b = disk s b) \<and> in_trans s' \<and> fs_frame s s'"
proof -
  have rm: "jr.room s (Suc (Suc 0))" using assms(4) by (simp add: numeral_2_eq_2)
  show ?thesis
  proof (cases "all_used_below s (fs_size s)")
    case True
    then show ?thesis using balloc_spec [OF assms(1-3) rm] by (simp add: all_used_below_def)
  next
    case False
    then obtain n s' where n: "balloc hw 0 s = Inr (of_nat n, s')" "allocated s n s'"
      using balloc_spec [OF assms(1-3) rm] by auto
    have "block_used s' i \<longleftrightarrow> i = n \<or> block_used s i" if "i < fs_size s" for i
      using allocated_used [OF n(2) assms(3) that in_trans_bc [OF assms(2)]] .
    then show ?thesis using n False by (auto simp: allocated_def all_used_below_def)
  qed
qed

theorem balloc_allocates_witness:
  "\<exists>(s :: fsst) s'. balloc prompt_device 0 s = Inr (64, s') \<and> \<not> block_used s 64 \<and> block_used s' 64 \<and>
    disk s' 64 = replicate BSIZE 0"
proof -
  obtain s :: fsst where s: "in_trans s" "jr.room s 29" "bitmap_ok s" "fs_size s = 1000" "\<forall>n < 1000. block_used s n \<longleftrightarrow> n < 64"
    using small_fs by blast
  have r: "jr.room s 2" by (rule jr.room_le [OF s(2)]) simp
  have "\<not> block_used s 64" "64 < fs_size s" using s(4,5) by simp_all
  then have some: "\<not> (\<forall>i < fs_size s. block_used s i)" by blast
  from balloc_allocates [OF virtio_blk_prompt s(1,3) r, unfolded if_not_P [OF some]] obtain n s' where
    n: "balloc prompt_device 0 s = Inr (of_nat n, s')" "n < 1000" "\<not> block_used s n" "\<forall>i < n. block_used s i"
      "block_used s' n" "disk s' (of_nat n) = replicate BSIZE 0" unfolding s(4) by blast
  have "\<not> n < 64" "\<not> 64 < n" using n(2-4) s(5) \<open>\<not> block_used s 64\<close> by blast+
  then have "n = 64" by simp
  then show ?thesis using n by (intro exI [of _ s] exI [of _ s']) simp
qed

text \<open>
  C8. \<open>bfree\<close> undoes \<open>balloc\<close>: freeing the block just allocated succeeds and restores the bitmap, so that
  no block but the allocated one has changed; freeing it once more is detected and panics.
\<close>

theorem balloc_bfree_roundtrip:
  fixes s :: "'a fsst_scheme"
  assumes hw: "virtio_blk hw" and tr: "in_trans s" and bok: "bitmap_ok s" and rm: "jr.room s 4"
    and free: "i < fs_size s" "\<not> block_used s i"
  shows "\<exists>b s1 s2. balloc hw 0 s = Inr (b, s1) \<and> bfree hw 0 b s1 = Inr ((), s2) \<and>
    disk s2 = (disk s)(b := replicate BSIZE 0) \<and> (\<forall>k < fs_size s. block_used s2 k = block_used s k) \<and>
    bfree hw 0 b s2 = Inl (Panic ''freeing free block'')"
proof -
  have rm': "jr.room s (Suc (Suc 2))" using rm by (simp add: numeral_eq_Suc)
  have "\<not> all_used_below s (fs_size s)" using free by (auto simp: all_used_below_def)
  then obtain n s1 where n: "balloc hw 0 s = Inr (of_nat n, s1)" "allocated s n s1" "jr.room s1 2"
    using balloc_spec [OF hw tr bok rm'] by auto
  have a: "n < fs_size s" "\<not> block_used s n" "in_trans s1" "fs_frame s s1"
    "disk s1 = (disk s)(BBLOCK (of_nat n) (fs_sb s) := set_bit_in (n mod BPB) (disk s (BBLOCK (of_nat n) (fs_sb s))),
       of_nat n := replicate BSIZE 0)" using n(2) by (simp_all add: allocated_def)
  let ?b = "of_nat n :: u32" and ?bb = "BBLOCK (of_nat n) (fs_sb s)"
  have bc: "bc_ok s" by (rule in_trans_bc [OF tr])
  have bok1: "bitmap_ok s1" by (rule allocated_bitmap_ok [OF n(2) bok bc])
  have sb1: "fs_sb s1 = fs_sb s" "fs_size s1 = fs_size s" using fs_frame_fs [OF a(4)] by (simp_all add: fs_size_def)
  have un: "unat ?b = n" using a(1) fs_size_bound [of s] by (simp add: unat_of_nat_small)
  have ne: "?b \<noteq> BBLOCK (of_nat k) (fs_sb s)" if "k < fs_size s" for k using bok a(1,2) that by (simp add: bitmap_ok_def)
  have us: "usable ?bb" using bok a(1) by (simp add: bitmap_ok_def fs_block_def)
  have p: "n mod BPB div 8 < length (disk s ?bb)"
    using bit_position [of "n mod BPB"] content_length [OF bc us] by (simp add: BPB_def BSIZE_def)
  have u1: "block_used s1 (unat ?b)" "unat ?b < fs_size s1"
    using allocated_used [OF n(2) bok a(1) bc] a(1) by (simp_all add: un sb1)
  have nb: "\<not> bit_in_use (disk s ?bb) (n mod BPB)" using a(2) by (simp add: block_used_def)
  have r2: "jr.room s1 (Suc 1)" using n(3) by (simp add: numeral_2_eq_2)
  obtain s2 where f: "bfree hw 0 ?b s1 = Inr ((), s2)" "in_trans s2" "fs_frame s1 s2" "jr.room s2 1"
    "disk s2 = (disk s1)(?bb := clear_bit_in (n mod BPB) (disk s1 ?bb))"
    using bfree_spec [OF hw a(3) bok1 r2 u1(2)] u1(1) by (auto simp: un sb1)
  have D: "disk s2 = (disk s)(?b := replicate BSIZE 0)"
    using ne [OF a(1)] clear_set_bit [OF nb p] by (auto simp: f(5) a(5) fun_eq_iff)
  have sb2: "fs_sb s2 = fs_sb s" "fs_size s2 = fs_size s" "lg_start s2 = lg_start s"
    using fs_frame_fs [OF f(3)] sb1 fs_frameD(1) [OF f(3)] fs_frameD(1) [OF a(4)] by (simp_all add: fs_size_def)
  have same: "block_used s2 k = block_used s k" if "k < fs_size s" for k
    using ne [OF that] by (simp add: block_used_def D sb2)
  have "bitmap_ok s2" using bok same by (simp add: bitmap_ok_def sb2 fs_block_def)
  moreover have "\<not> block_used s2 (unat ?b)" "unat ?b < fs_size s2" using same [OF a(1)] a(1,2) by (simp_all add: un sb2)
  moreover have "jr.room s2 (Suc 0)" using f(4) by simp
  ultimately have "bfree hw 0 ?b s2 = Inl (Panic ''freeing free block'')" using bfree_spec [OF hw f(2)] by metis
  then show ?thesis using n(1) f(1) D same by blast
qed

theorem balloc_bfree_roundtrip_witness:
  "\<exists>(s :: fsst) b s1 s2. balloc prompt_device 0 s = Inr (b, s1) \<and> bfree prompt_device 0 b s1 = Inr ((), s2) \<and>
    bfree prompt_device 0 b s2 = Inl (Panic ''freeing free block'')"
proof -
  obtain s :: fsst where s: "in_trans s" "jr.room s 29" "bitmap_ok s" "fs_size s = 1000" "\<forall>n < 1000. block_used s n \<longleftrightarrow> n < 64"
    using small_fs by blast
  have r: "jr.room s 4" by (rule jr.room_le [OF s(2)]) simp
  have "70 < fs_size s" "\<not> block_used s 70" using s(4,5) by simp_all
  from balloc_bfree_roundtrip [OF virtio_blk_prompt s(1,3) r this] show ?thesis by blast
qed

end
