(* ===== verification/FsInode.thy ===== *)
theory FsInode
  imports FsBlocks
begin

text \<open>
  Inodes: the 64-byte disk inode and its encoding, \<open>iupdate\<close> and \<open>ilock\<close> as writing and reading of the
  inode table, and the cache of inodes with its reference counts (\<open>iget\<close>, \<open>iput\<close>).
\<close>

section \<open>Fields of blocks\<close>

lemma length_put_field [simp]: "off + n \<le> length d \<Longrightarrow> length (put_field n off v d) = length d"
  by (simp add: put_field_def)

lemma get_put_field:
  fixes v :: "'w::len word"
  assumes "off + n \<le> length d" and "LENGTH('w) \<le> 8 * n"
  shows "get_field n off (put_field n off v d) = v"
  using assms by (simp add: get_field_def put_field_def le_word_le_bytes)

lemma get_put_field_other:
  assumes "off + n \<le> length d" and "off' + n' \<le> off \<or> off + n \<le> off'"
  shows "get_field n' off' (put_field n off v d) = get_field n' off' d"
proof -
  have "take n' (drop off' (put_field n off v d)) = take n' (drop off' d)"
    using assms by (auto intro!: nth_equalityI simp: put_field_def nth_append)
  then show ?thesis by (simp add: get_field_def)
qed

lemma get_field_zeros: "off + n \<le> k \<Longrightarrow> get_field n off (replicate k 0) = (0 :: 'w::len word)"
proof -
  have "le_word (replicate m (0 :: u8)) = (0 :: 'w::len word)" for m by (induction m) simp_all
  then show "off + n \<le> k \<Longrightarrow> get_field n off (replicate k 0) = (0 :: 'w::len word)"
    by (simp add: get_field_def min_def)
qed

section \<open>The disk inode\<close>

text \<open>Equality of what is kept on the medium: there are 13 addresses.\<close>

definition same_dinode :: "'a dinode_scheme \<Rightarrow> 'b dinode_scheme \<Rightarrow> bool" where
  "same_dinode a b \<longleftrightarrow> d_type a = d_type b \<and> d_major a = d_major b \<and> d_minor a = d_minor b \<and>
     d_nlink a = d_nlink b \<and> d_size a = d_size b \<and> (\<forall>k < NDIRECT + 1. d_addrs a k = d_addrs b k)"

lemma put_addrs_length:
  "off + 64 \<le> length d \<Longrightarrow> k \<le> 13 \<Longrightarrow> length (fold (\<lambda>i. put32 (off + 12 + 4 * i) (a i)) [0..<k] d) = length d"
  by (induction k) simp_all

lemma put_addrs_other:
  assumes "off + 64 \<le> length d" and "off' + n' \<le> off + 12 \<or> off + 64 \<le> off'"
  shows "k \<le> 13 \<Longrightarrow> get_field n' off' (fold (\<lambda>i. put32 (off + 12 + 4 * i) (a i)) [0..<k] d) = get_field n' off' d"
proof (induction k)
  case 0
  then show ?case by simp
next
  case (Suc k)
  let ?h = "fold (\<lambda>i. put32 (off + 12 + 4 * i) (a i)) [0..<k] d"
  have l: "off + 12 + 4 * k + 4 \<le> length ?h" using assms(1) Suc.prems put_addrs_length [OF assms(1), of k a] by simp
  have "off' + n' \<le> off + 12 + 4 * k \<or> off + 12 + 4 * k + 4 \<le> off'" using assms(2) Suc.prems by auto
  then show ?case using Suc by (simp add: get_put_field_other [OF l])
qed

lemma put_addrs_get:
  assumes "off + 64 \<le> length d"
  shows "k \<le> 13 \<Longrightarrow> i < k \<Longrightarrow> get32 (off + 12 + 4 * i) (fold (\<lambda>i. put32 (off + 12 + 4 * i) (a i)) [0..<k] d) = a i"
proof (induction k)
  case 0
  then show ?case by simp
next
  case (Suc k)
  let ?h = "fold (\<lambda>i. put32 (off + 12 + 4 * i) (a i)) [0..<k] d"
  have l: "off + 12 + 4 * k + 4 \<le> length ?h" using assms Suc.prems put_addrs_length [OF assms, of k a] by simp
  show ?case
  proof (cases "i = k")
    case True
    then show ?thesis using get_put_field [OF l, of "a k"] by simp
  next
    case False
    then show ?thesis using Suc by (simp add: get_put_field_other [OF l])
  qed
qed

lemma put_dinode_spec:
  assumes l: "off + 64 \<le> length d"
  shows "length (put_dinode off ip d) = length d" and "same_dinode (dinode_at off (put_dinode off ip d)) ip"
    and "off' + 64 \<le> off \<or> off + 64 \<le> off' \<Longrightarrow> same_dinode (dinode_at off' (put_dinode off ip d)) (dinode_at off' d)"
proof -
  define d1 where "d1 = put16 off (d_type ip) d"
  define d2 where "d2 = put16 (off + 2) (d_major ip) d1"
  define d3 where "d3 = put16 (off + 4) (d_minor ip) d2"
  define d4 where "d4 = put16 (off + 6) (d_nlink ip) d3"
  define d5 where "d5 = put32 (off + 8) (d_size ip) d4"
  have len: "length d1 = length d" "length d2 = length d" "length d3 = length d" "length d4 = length d" "length d5 = length d"
    using l by (simp_all add: d1_def d2_def d3_def d4_def d5_def)
  let ?h = "put_dinode off ip d"
  have h: "?h = fold (\<lambda>i. put32 (off + 12 + 4 * i) (d_addrs ip i)) [0..<13] d5"
    by (simp add: put_dinode_def NDIRECT_def d1_def d2_def d3_def d4_def d5_def eval_nat_numeral)
  have l5: "off + 64 \<le> length d5" using l len by simp
  have outer: "(get_field n' off' ?h :: 'w::len word) = get_field n' off' d5" if "off' + n' \<le> off + 12 \<or> off + 64 \<le> off'" for n' off'
    unfolding h by (rule put_addrs_other [OF l5 that]) simp
  have addrs: "get32 (off + 12 + 4 * i) ?h = d_addrs ip i" if "i < 13" for i
    unfolding h by (rule put_addrs_get [OF l5 _ that]) simp
  show "length ?h = length d" unfolding h by (subst put_addrs_length [OF l5]) (simp_all add: len)
  have o: "get_field n' off' d1 = (get_field n' off' d :: 'w::len word)" if "off' + n' \<le> off \<or> off + 2 \<le> off'" for n' off'
    unfolding d1_def by (rule get_put_field_other) (use l that in auto)
  have o2: "get_field n' off' d2 = (get_field n' off' d1 :: 'w::len word)" if "off' + n' \<le> off + 2 \<or> off + 4 \<le> off'" for n' off'
    unfolding d2_def by (rule get_put_field_other) (use l len that in auto)
  have o3: "get_field n' off' d3 = (get_field n' off' d2 :: 'w::len word)" if "off' + n' \<le> off + 4 \<or> off + 6 \<le> off'" for n' off'
    unfolding d3_def by (rule get_put_field_other) (use l len that in auto)
  have o4: "get_field n' off' d4 = (get_field n' off' d3 :: 'w::len word)" if "off' + n' \<le> off + 6 \<or> off + 8 \<le> off'" for n' off'
    unfolding d4_def by (rule get_put_field_other) (use l len that in auto)
  have o5: "get_field n' off' d5 = (get_field n' off' d4 :: 'w::len word)" if "off' + n' \<le> off + 8 \<or> off + 12 \<le> off'" for n' off'
    unfolding d5_def by (rule get_put_field_other) (use l len that in auto)
  have f: "get16 off d1 = d_type ip" "get16 (off + 2) d2 = d_major ip" "get16 (off + 4) d3 = d_minor ip"
    "get16 (off + 6) d4 = d_nlink ip" "get32 (off + 8) d5 = d_size ip"
    unfolding d1_def d2_def d3_def d4_def d5_def using l len by (simp_all add: get_put_field)
  show "same_dinode (dinode_at off ?h) ip"
    using f addrs by (simp add: same_dinode_def dinode_at_def outer o o2 o3 o4 o5 NDIRECT_def)
  show "same_dinode (dinode_at off' ?h) (dinode_at off' d)" if t: "off' + 64 \<le> off \<or> off + 64 \<le> off'"
  proof -
    have "(get_field n (off' + k) ?h :: 'w::len word) = get_field n (off' + k) d" if "k + n \<le> 64" for n k
      using t that by (auto simp: outer o o2 o3 o4 o5)
    note same = this
    have "get16 (off' + k) ?h = get16 (off' + k) d" if "k + 2 \<le> 64" for k by (rule same) (use that in simp)
    from this [of 0] this [of 2] this [of 4] this [of 6]
    have a16: "get16 off' ?h = get16 off' d" "get16 (off' + 2) ?h = get16 (off' + 2) d" "get16 (off' + 4) ?h = get16 (off' + 4) d"
      "get16 (off' + 6) ?h = get16 (off' + 6) d" by simp_all
    have a32: "get32 (off' + k) ?h = get32 (off' + k) d" if "k + 4 \<le> 64" for k by (rule same) (use that in simp)
    have "get32 (off' + 12 + 4 * i) ?h = get32 (off' + 12 + 4 * i) d" if "i < 13" for i
      using a32 [of "12 + 4 * i"] that by (simp add: add.assoc)
    then show ?thesis using a16 a32 [of 8] by (simp add: same_dinode_def dinode_at_def NDIRECT_def)
  qed
qed

section \<open>The inode table on the medium\<close>

lemma upd_inode_simps [simp]:
  "icache (upd_inode i f s) j = (if j = i then f (icache s i) else icache s j)" "fs_sb (upd_inode i f s) = fs_sb s"
  "bufs (upd_inode i f s) = bufs s" "lg_start (upd_inode i f s) = lg_start s" "lg_outstanding (upd_inode i f s) = lg_outstanding s"
  by (simp_all add: upd_inode_def)

text \<open>What the cache, the log and their room are for is seen in these fields only.\<close>

lemma same_trans:
  fixes s t :: "'a logst_scheme"
  assumes c: "vq t = vq s" "bufs t = bufs s" "img t = img s" "written t = written s" "bhead_prev t = bhead_prev s"
      "bhead_next t = bhead_next s"
    and l: "lg_size t = lg_size s" "lg_dev t = lg_dev s" "lh_n t = lh_n s" "lh_block t = lh_block s" "lg_lock t = lg_lock s"
      "lg_start t = lg_start s" "lg_outstanding t = lg_outstanding s"
  shows "cview t = cview s" "holds t = holds s" "bc_ok t = bc_ok s" "in_trans t = in_trans s" "log_slots t = log_slots s"
    "jr.room t k = jr.room s k"
proof -
  show V: "cview t = cview s" "holds t = holds s" "bc_ok t = bc_ok s" using same_cache [OF c] by simp_all
  show "in_trans t = in_trans s" using log_inv_cong(1) [of t s] V l by (simp add: in_trans_def)
  show sl: "log_slots t = log_slots s" by (simp add: log_slots_def l)
  show "jr.room t k = jr.room s k" by (simp add: jr.room_def V sl)
qed

lemma upd_inode_view [simp]:
  "cview (upd_inode i f s) = cview s" "holds (upd_inode i f s) = holds s" "bc_ok (upd_inode i f s) = bc_ok s"
  "in_trans (upd_inode i f s) = in_trans s" "log_slots (upd_inode i f s) = log_slots s" "jr.room (upd_inode i f s) k = jr.room s k"
  by (rule same_trans; simp add: upd_inode_def)+

text \<open>The disk inode \<open>inum\<close>, where \<open>iupdate\<close> and \<open>ilock\<close> find it.\<close>

definition disk_inode :: "'a fsst_scheme \<Rightarrow> u32 \<Rightarrow> dinode" where
  "disk_inode s inum = dinode_at (ioff inum) (disk s (IBLOCK inum (fs_sb s)))"

lemma ioff_bound: "ioff inum + 64 \<le> BSIZE"
proof -
  have "unat inum mod IPB < 16" by (simp add: IPB_def BSIZE_def)
  then show ?thesis by (simp add: ioff_def BSIZE_def)
qed

lemma inode_place:
  assumes "IBLOCK i sb = IBLOCK j sb" and "i \<noteq> j"
  shows "ioff j + 64 \<le> ioff i \<or> ioff i + 64 \<le> ioff j"
proof -
  have "i div of_nat IPB = j div of_nat IPB" using assms(1) by (simp add: IBLOCK_def)
  then have "unat (i div of_nat IPB) = unat (j div of_nat IPB)" by simp
  then have d: "unat i div IPB = unat j div IPB" by (simp add: unat_div_distrib IPB_def BSIZE_def)
  have "unat i \<noteq> unat j" using assms(2) by (simp add: word_unat_eq_iff)
  then have "unat i mod IPB \<noteq> unat j mod IPB" using d by (metis div_mult_mod_eq)
  then show ?thesis by (simp add: ioff_def) linarith
qed

lemma iupdate_spec:
  fixes s :: "'a fsst_scheme"
  assumes hw: "virtio_blk hw" and tr: "in_trans s" and rm: "jr.room s (Suc k)" and dev: "i_dev (icache s i) = 0"
    and fb: "fs_block s (IBLOCK (i_inum (icache s i)) (fs_sb s))"
  shows "\<exists>s'. iupdate hw i s = Inr ((), s') \<and> in_trans s' \<and> fs_frame s s' \<and> jr.room s' k \<and> refs (cview s') = refs (cview s) \<and>
    medium (cview s') = medium (cview s) \<and> (\<forall>j n. holds s j n \<longrightarrow> holds s' j n) \<and>
    disk s' = (disk s)(IBLOCK (i_inum (icache s i)) (fs_sb s) :=
      put_dinode (ioff (i_inum (icache s i))) (icache s i) (disk s (IBLOCK (i_inum (icache s i)) (fs_sb s))))"
proof -
  let ?n = "i_inum (icache s i)" let ?b = "IBLOCK ?n (fs_sb s)"
  let ?d = "put_dinode (ioff ?n) (icache s i) (disk s ?b)"
  have ok: "virtio_blk hw \<and> in_trans s" using hw tr by simp
  have us: "usable ?b" and lg: "?b \<notin> log_area (lg_start s)" using fb by (simp_all add: fs_block_def)
  obtain bp s1 where rd: "bread hw 0 ?b s = Inr (bp, s1)" "b_data (bufs s1 bp) = disk s ?b" "fs_frame s s1"
    using jr.look [OF ok us rm] by blast
  have len: "length ?d = BSIZE"
    using put_dinode_spec(1) [of "ioff ?n" "disk s ?b" "icache s i"] ioff_bound [of ?n]
      content_length [OF in_trans_bc [OF tr] us] by simp
  have ic: "icache s1 = icache s" using fs_frame_fs [OF rd(3)] by simp
  from jr.edit [OF ok us rm lg len rd(1)] rd(1,2) show ?thesis by (auto simp: iupdate_def dev ic)
qed

lemma ilock_spec:
  fixes s :: "'a fsst_scheme"
  assumes hw: "virtio_blk hw" and tr: "in_trans s" and rm: "jr.room s (Suc k)" and dev: "i_dev (icache s i) = 0"
    and ref: "1 \<le> i_ref (icache s i)" and inv: "\<not> i_valid (icache s i)"
    and us: "usable (IBLOCK (i_inum (icache s i)) (fs_sb s))"
  shows "\<exists>s'. ilock hw i s = (if d_type (disk_inode s (i_inum (icache s i))) = 0 then Inl (Panic ''ilock: no type'') else Inr ((), s')) \<and>
    in_trans s' \<and> cview s' = cview s \<and> jr.room s' (Suc k) \<and> fs_sb s' = fs_sb s \<and> lg_start s' = lg_start s \<and>
    icache s' = (icache s)(i := (load_dinode (disk_inode s (i_inum (icache s i))) (icache s i))\<lparr>i_valid := True\<rparr>)"
proof -
  let ?n = "i_inum (icache s i)" let ?b = "IBLOCK ?n (fs_sb s)"
  have ok: "virtio_blk hw \<and> in_trans s" using hw tr by simp
  obtain bp s1 where rd: "bread hw 0 ?b s = Inr (bp, s1)" "in_trans s1" "holds s1 bp ?b" "b_data (bufs s1 bp) = disk s ?b"
    "cview s1 = c_ref ?b (cview s)" "fs_frame s s1" "log_slots s1 = log_slots s"
    using jr.look_read [OF ok us rm] by blast
  let ?f = "load_dinode (dinode_at (ioff ?n) (disk s ?b))"
  let ?t = "upd_inode i ?f s1"
  have t: "virtio_blk hw \<and> in_trans ?t" "holds ?t bp ?b" "cview ?t = c_ref ?b (cview s)" using hw rd by simp_all
  obtain u where u: "brelse bp ?t = Inr ((), u)" "in_trans u" "cview u = cview s" "fs_frame ?t u" "log_slots u = log_slots ?t"
    using jr.look_release [OF t jr.coherent [OF ok]] by blast
  let ?u = "upd_inode i (\<lambda>ip. ip\<lparr>i_valid := True\<rparr>) u"
  have ic: "icache u = icache ?t" "fs_sb u = fs_sb s" "icache s1 = icache s"
    using fs_frame_fs [OF u(4)] fs_frame_fs [OF rd(6)] by simp_all
  have "jr.room ?u (Suc k)" using rm u(3,5) rd(7) by (simp add: jr.room_def)
  moreover have "lg_start ?u = lg_start s" using fs_frameD(1) [OF u(4)] fs_frameD(1) [OF rd(6)] by simp
  moreover have "icache ?u = (icache s)(i := (load_dinode (disk_inode s ?n) (icache s i))\<lparr>i_valid := True\<rparr>)"
    by (auto simp: ic disk_inode_def)
  moreover have "ilock hw i s = (if d_type (disk_inode s ?n) = 0 then Inl (Panic ''ilock: no type'') else Inr ((), ?u))"
    using ref inv dev rd(1,4) u(1) by (simp add: ilock_def ic disk_inode_def load_dinode_def ret_def)
  moreover have "in_trans ?u \<and> cview ?u = cview s \<and> fs_sb ?u = fs_sb s" using u ic by simp
  ultimately show ?thesis by blast
qed

section \<open>The cache of inodes\<close>

text \<open>At most one slot in use for an inode, and no count is negative.\<close>

definition icache_ok :: "(nat \<Rightarrow> inode) \<Rightarrow> bool" where
  "icache_ok ic \<longleftrightarrow> (\<forall>i < NINODE. 0 \<le> i_ref (ic i)) \<and>
     (\<forall>i < NINODE. \<forall>j < NINODE. 0 < i_ref (ic i) \<longrightarrow> 0 < i_ref (ic j) \<longrightarrow> i_dev (ic i) = i_dev (ic j) \<longrightarrow>
        i_inum (ic i) = i_inum (ic j) \<longrightarrow> i = j)"

text \<open>The references to an inode: those of the slot that has it, or none.\<close>

definition iref_count :: "(nat \<Rightarrow> inode) \<Rightarrow> u32 \<Rightarrow> u32 \<Rightarrow> int" where
  "iref_count ic dev n =
     (case List.find (\<lambda>i. 0 < i_ref (ic i) \<and> i_dev (ic i) = dev \<and> i_inum (ic i) = n) [0..<NINODE] of
        Some i \<Rightarrow> i_ref (ic i) | None \<Rightarrow> 0)"

lemma find_upt:
  "List.find P [0..<n] = Some i \<Longrightarrow> i < n \<and> P i \<and> (\<forall>j < i. \<not> P j)"
  "List.find P [0..<n] = None \<Longrightarrow> i < n \<Longrightarrow> \<not> P i"
  by (auto simp: find_Some_iff find_None_iff)

lemma iref_count_slot:
  assumes "icache_ok ic" and "i < NINODE" and "0 < i_ref (ic i)"
  shows "iref_count ic (i_dev (ic i)) (i_inum (ic i)) = i_ref (ic i)"
proof -
  let ?P = "\<lambda>j. 0 < i_ref (ic j) \<and> i_dev (ic j) = i_dev (ic i) \<and> i_inum (ic j) = i_inum (ic i)"
  have "List.find ?P [0..<NINODE] \<noteq> None" using assms(2,3) by (auto simp: find_None_iff)
  then obtain j where j: "List.find ?P [0..<NINODE] = Some j" by blast
  then have "j = i" using find_upt(1) [OF j] assms unfolding icache_ok_def by metis
  then show ?thesis using j by (simp add: iref_count_def)
qed

lemma iref_count_none:
  "(\<And>i. i < NINODE \<Longrightarrow> 0 < i_ref (ic i) \<Longrightarrow> i_dev (ic i) = dev \<Longrightarrow> i_inum (ic i) \<noteq> n) \<Longrightarrow> iref_count ic dev n = 0"
  by (auto simp: iref_count_def split: option.split dest!: find_upt(1))

lemma iref_count_pos:
  assumes "0 < iref_count ic dev n"
  shows "\<exists>i < NINODE. 0 < i_ref (ic i) \<and> i_dev (ic i) = dev \<and> i_inum (ic i) = n"
  using assms by (auto simp: iref_count_def split: option.splits dest!: find_upt(1))

text \<open>Counts depend only on the slots in use.\<close>

lemma iref_count_eqI:
  assumes ok: "icache_ok ic" "icache_ok ic'"
    and slots: "\<And>i. i < NINODE \<Longrightarrow> 0 < i_ref (ic i) \<or> 0 < i_ref (ic' i) \<Longrightarrow>
      i_dev (ic i) = dev \<and> i_inum (ic i) = n \<or> i_dev (ic' i) = dev \<and> i_inum (ic' i) = n \<Longrightarrow>
      i_ref (ic i) = i_ref (ic' i) \<and> i_dev (ic i) = i_dev (ic' i) \<and> i_inum (ic i) = i_inum (ic' i)"
  shows "iref_count ic dev n = iref_count ic' dev n"
proof (cases "\<exists>i < NINODE. 0 < i_ref (ic i) \<and> i_dev (ic i) = dev \<and> i_inum (ic i) = n")
  case True
  then obtain i where i: "i < NINODE" "0 < i_ref (ic i)" "i_dev (ic i) = dev" "i_inum (ic i) = n" by blast
  then have e: "i_ref (ic' i) = i_ref (ic i)" "i_dev (ic' i) = dev" "i_inum (ic' i) = n" using slots [OF i(1)] by simp_all
  then have "iref_count ic' dev n = i_ref (ic i)" using iref_count_slot [OF ok(2) i(1)] i(2) by simp
  then show ?thesis using iref_count_slot [OF ok(1) i(1,2)] i by simp
next
  case False
  have "\<not> (0 < i_ref (ic' i) \<and> i_dev (ic' i) = dev \<and> i_inum (ic' i) = n)" if "i < NINODE" for i
    using slots [OF that] False that by metis
  then have "iref_count ic' dev n = 0" by (intro iref_count_none) blast
  moreover have "iref_count ic dev n = 0" using False by (intro iref_count_none) blast
  ultimately show ?thesis by simp
qed

lemma iget_spec:
  assumes ok: "icache_ok (icache s)"
  shows "if iref_count (icache s) dev n = 0 \<and> (\<forall>i < NINODE. i_ref (icache s i) \<noteq> 0)
    then iget dev n s = Inl (Panic ''iget: no inodes'')
    else \<exists>i s'. iget dev n s = Inr (i, s') \<and> i < NINODE \<and> i_dev (icache s' i) = dev \<and> i_inum (icache s' i) = n \<and>
      i_ref (icache s' i) = iref_count (icache s) dev n + 1 \<and> (iref_count (icache s) dev n = 0 \<longrightarrow> \<not> i_valid (icache s' i)) \<and>
      icache_ok (icache s') \<and> (\<forall>j. j \<noteq> i \<longrightarrow> icache s' j = icache s j) \<and> (0 < i_ref (icache s i) \<longrightarrow>
        icache s' i = (icache s i)\<lparr>i_ref := i_ref (icache s i) + 1\<rparr>)"
proof -
  let ?ic = "icache s"
  let ?P = "\<lambda>i. 0 < i_ref (?ic i) \<and> i_dev (?ic i) = dev \<and> i_inum (?ic i) = n"
  show ?thesis
  proof (cases "List.find ?P [0..<NINODE]")
    case (Some i)
    note F = find_upt(1) [OF Some]
    have g: "iget dev n s = Inr (i, upd_inode i (\<lambda>ip. ip\<lparr>i_ref := i_ref ip + 1\<rparr>) s)" by (simp add: iget_def Some ret_def)
    have c: "iref_count ?ic dev n = i_ref (?ic i)" by (simp add: iref_count_def Some)
    have "icache_ok (icache (upd_inode i (\<lambda>ip. ip\<lparr>i_ref := i_ref ip + 1\<rparr>) s))"
      using ok F by (auto simp: icache_ok_def)
    then show ?thesis using F c g by auto
  next
    case None
    have no: "\<not> ?P i" if "i < NINODE" for i using find_upt(2) [OF None that] .
    have c: "iref_count ?ic dev n = 0" by (simp add: iref_count_def None)
    show ?thesis
    proof (cases "List.find (\<lambda>i. i_ref (?ic i) = 0) [0..<NINODE]")
      case N: None
      then have "\<forall>i < NINODE. i_ref (?ic i) \<noteq> 0" using find_upt(2) [OF N] by blast
      then show ?thesis using c by (simp add: iget_def None N)
    next
      case S: (Some i)
      note F = find_upt(1) [OF S]
      let ?s = "upd_inode i (\<lambda>ip. ip\<lparr>i_dev := dev, i_inum := n, i_ref := 1, i_valid := False\<rparr>) s"
      have g: "iget dev n s = Inr (i, ?s)" by (simp add: iget_def None S ret_def)
      have "icache_ok (icache ?s)" using ok F no by (auto simp: icache_ok_def)
      then show ?thesis using F c g by auto
    qed
  qed
qed

lemma count_after_change:
  assumes ok: "icache_ok ic" "icache_ok ic'" and i: "i < NINODE" and same: "\<forall>j. j \<noteq> i \<longrightarrow> ic' j = ic j"
    and id: "i_dev (ic' i) = dev" "i_inum (ic' i) = n"
    and before: "0 < i_ref (ic i) \<longrightarrow> i_dev (ic i) = dev \<and> i_inum (ic i) = n"
    and other: "dev' \<noteq> dev \<or> n' \<noteq> n"
  shows "iref_count ic' dev' n' = iref_count ic dev' n'"
proof -
  have "(List.find (\<lambda>j. 0 < i_ref (ic' j) \<and> i_dev (ic' j) = dev' \<and> i_inum (ic' j) = n') [0..<NINODE]) =
    List.find (\<lambda>j. 0 < i_ref (ic j) \<and> i_dev (ic j) = dev' \<and> i_inum (ic j) = n') [0..<NINODE]"
  proof (rule find_cong [OF refl])
    fix j
    show "(0 < i_ref (ic' j) \<and> i_dev (ic' j) = dev' \<and> i_inum (ic' j) = n') =
      (0 < i_ref (ic j) \<and> i_dev (ic j) = dev' \<and> i_inum (ic j) = n')"
      using same id before other by (cases "j = i") auto
  qed
  moreover have "i_ref (ic' j) = i_ref (ic j)" if "0 < i_ref (ic j)" "i_dev (ic j) = dev'" "i_inum (ic j) = n'" for j
    using that same before other by (cases "j = i") auto
  ultimately show ?thesis
    by (auto simp: iref_count_def split: option.splits dest!: find_upt(1))
qed

text \<open>The counts after \<open>iget\<close> and after \<open>iput\<close>, as functions of the device and the inode number.\<close>

definition add_ref :: "int \<Rightarrow> u32 \<Rightarrow> u32 \<Rightarrow> (u32 \<Rightarrow> u32 \<Rightarrow> int) \<Rightarrow> u32 \<Rightarrow> u32 \<Rightarrow> int" where
  "add_ref k dev n c = (\<lambda>d m. if d = dev \<and> m = n then c d m + k else c d m)"

lemma add_ref_undo [simp]: "add_ref (-1) dev n (add_ref 1 dev n c) = c"
  by (simp add: add_ref_def fun_eq_iff)

lemma iget_upd: "iget dev n s = Inr (i, s') \<Longrightarrow> \<exists>f. s' = upd_inode i f s"
  by (auto simp: iget_def ret_def split: option.splits)

lemma iget_counts:
  assumes ok: "icache_ok (icache s)" and room: "\<not> (iref_count (icache s) dev n = 0 \<and> (\<forall>i < NINODE. i_ref (icache s i) \<noteq> 0))"
  shows "\<exists>i s1. iget dev n s = Inr (i, s1) \<and> i < NINODE \<and> i_dev (icache s1 i) = dev \<and> i_inum (icache s1 i) = n \<and>
    icache_ok (icache s1) \<and> 0 < i_ref (icache s1 i) \<and> (\<forall>j. j \<noteq> i \<longrightarrow> icache s1 j = icache s j) \<and>
    iref_count (icache s1) = add_ref 1 dev n (iref_count (icache s)) \<and>
    (0 < iref_count (icache s) dev n \<longrightarrow> 0 < i_ref (icache s i) \<and> icache s1 i = (icache s i)\<lparr>i_ref := i_ref (icache s i) + 1\<rparr>) \<and>
    (iref_count (icache s) dev n = 0 \<longrightarrow> \<not> i_valid (icache s1 i) \<and> i_ref (icache s1 i) = 1 \<and> i_ref (icache s i) = 0)"
proof -
  obtain i s1 where g: "iget dev n s = Inr (i, s1)" "i < NINODE" "i_dev (icache s1 i) = dev" "i_inum (icache s1 i) = n"
    "i_ref (icache s1 i) = iref_count (icache s) dev n + 1" "iref_count (icache s) dev n = 0 \<longrightarrow> \<not> i_valid (icache s1 i)"
    "icache_ok (icache s1)" "\<forall>j. j \<noteq> i \<longrightarrow> icache s1 j = icache s j"
    "0 < i_ref (icache s i) \<longrightarrow> icache s1 i = (icache s i)\<lparr>i_ref := i_ref (icache s i) + 1\<rparr>"
    using iget_spec [OF ok, of dev n, unfolded if_not_P [OF room]] by blast
  have nn: "0 \<le> iref_count (icache s) dev n"
    by (auto simp: iref_count_def split: option.split dest!: find_upt(1))
  have r1: "0 < i_ref (icache s1 i)" using g(5) nn by simp
  have before: "0 < i_ref (icache s i) \<longrightarrow> i_dev (icache s i) = dev \<and> i_inum (icache s i) = n"
  proof
    assume "0 < i_ref (icache s i)"
    with g(9) have "icache s1 i = (icache s i)\<lparr>i_ref := i_ref (icache s i) + 1\<rparr>" by blast
    then show "i_dev (icache s i) = dev \<and> i_inum (icache s i) = n" using g(3,4) by simp
  qed
  have "iref_count (icache s1) dev n = iref_count (icache s) dev n + 1" using iref_count_slot [OF g(7,2) r1] g(3-5) by simp
  moreover have "iref_count (icache s1) d m = iref_count (icache s) d m" if "d \<noteq> dev \<or> m \<noteq> n" for d m
    by (rule count_after_change [OF ok g(7,2,8,3,4) before that])
  ultimately have "iref_count (icache s1) = add_ref 1 dev n (iref_count (icache s))" by (auto simp: add_ref_def fun_eq_iff)
  moreover have "0 < i_ref (icache s i)" if pos: "0 < iref_count (icache s) dev n"
  proof -
    obtain j where j: "j < NINODE" "0 < i_ref (icache s j)" "i_dev (icache s j) = dev" "i_inum (icache s j) = n"
      using iref_count_pos [OF pos] by blast
    have "j = i"
    proof (rule ccontr)
      assume ne: "j \<noteq> i"
      then have "icache s1 j = icache s j" using g(8) by blast
      then show False using j g(2-4,7) r1 ne unfolding icache_ok_def by metis
    qed
    then show ?thesis using j(2) by blast
  qed
  moreover have "i_ref (icache s1 i) = 1 \<and> i_ref (icache s i) = 0" if "iref_count (icache s) dev n = 0"
  proof -
    have "0 \<le> i_ref (icache s i)" using ok g(2) by (simp add: icache_ok_def)
    then show ?thesis using that g(5,9) by (cases "0 < i_ref (icache s i)") auto
  qed
  ultimately show ?thesis using g(1-4,6-9) r1 by blast
qed

lemma iput_counts:
  assumes ok: "icache_ok (icache s)" and i: "i < NINODE" "0 < i_ref (icache s i)"
    and keep: "i_ref (icache s i) \<noteq> 1 \<or> \<not> i_valid (icache s i) \<or> d_nlink (icache s i) \<noteq> 0"
  defines "s' \<equiv> upd_inode i (\<lambda>ip. ip\<lparr>i_ref := i_ref ip - 1\<rparr>) s"
  shows "iput hw i s = Inr ((), s')" "icache_ok (icache s')"
    "iref_count (icache s') = add_ref (-1) (i_dev (icache s i)) (i_inum (icache s i)) (iref_count (icache s))"
proof -
  let ?d = "i_dev (icache s i)" and ?n = "i_inum (icache s i)"
  have "\<not> (i_ref (icache s i) = 1 \<and> i_valid (icache s i) \<and> d_nlink (icache s i) = 0)" using keep by blast
  then show "iput hw i s = Inr ((), s')" by (auto simp: iput_def ret_def s'_def)
  show ok': "icache_ok (icache s')" using ok i by (auto simp: icache_ok_def s'_def)
  have c: "iref_count (icache s) ?d ?n = i_ref (icache s i)" by (rule iref_count_slot [OF ok i])
  have "iref_count (icache s') ?d ?n = i_ref (icache s i) - 1"
  proof (cases "i_ref (icache s i) = 1")
    case True
    have "\<not> (0 < i_ref (icache s' j) \<and> i_dev (icache s' j) = ?d \<and> i_inum (icache s' j) = ?n)" if "j < NINODE" for j
    proof (cases "j = i")
      case True
      then show ?thesis using \<open>i_ref (icache s i) = 1\<close> by (simp add: s'_def)
    next
      case False
      then show ?thesis using ok i that unfolding icache_ok_def by (auto simp: s'_def)
    qed
    then have "iref_count (icache s') ?d ?n = 0" by (intro iref_count_none) blast
    then show ?thesis using True by simp
  next
    case False
    then have r: "0 < i_ref (icache s' i)" using i(2) by (simp add: s'_def)
    have f: "i_dev (icache s' i) = ?d" "i_inum (icache s' i) = ?n" "i_ref (icache s' i) = i_ref (icache s i) - 1"
      by (simp_all add: s'_def)
    from iref_count_slot [OF ok' i(1) r, unfolded f] show ?thesis .
  qed
  moreover have "iref_count (icache s') d m = iref_count (icache s) d m" if "d \<noteq> ?d \<or> m \<noteq> ?n" for d m
    by (rule count_after_change [OF ok ok' i(1) _ _ _ _ that]) (simp_all add: s'_def)
  ultimately show "iref_count (icache s') = add_ref (-1) ?d ?n (iref_count (icache s))"
    using c by (auto simp: add_ref_def fun_eq_iff)
qed

text \<open>
  C10. In a cache of inodes with at most one slot in use per inode, \<open>iget\<close> panics exactly when the inode is
  not cached and all 50 slots are in use. Otherwise it returns the slot of that inode, with one reference more
  and what was cached of it kept; the references to every other inode are the same, and at most one slot per
  inode is in use again. Giving the reference up at once (\<open>iput\<close>) succeeds and restores all the counts.
\<close>

theorem iget_iput_counts:
  fixes s :: "'a fsst_scheme"
  assumes ok: "icache_ok (icache s)"
  shows "if iref_count (icache s) dev n = 0 \<and> (\<forall>i < NINODE. i_ref (icache s i) \<noteq> 0)
    then iget dev n s = Inl (Panic ''iget: no inodes'')
    else \<exists>i s1 s2. iget dev n s = Inr (i, s1) \<and> i_dev (icache s1 i) = dev \<and> i_inum (icache s1 i) = n \<and> icache_ok (icache s1) \<and>
      iref_count (icache s1) dev n = iref_count (icache s) dev n + 1 \<and>
      (\<forall>dev' n'. dev' \<noteq> dev \<or> n' \<noteq> n \<longrightarrow> iref_count (icache s1) dev' n' = iref_count (icache s) dev' n') \<and>
      (0 < iref_count (icache s) dev n \<longrightarrow> icache s1 i = (icache s i)\<lparr>i_ref := i_ref (icache s i) + 1\<rparr>) \<and>
      (iref_count (icache s) dev n = 0 \<longrightarrow> \<not> i_valid (icache s1 i)) \<and>
      iput hw i s1 = Inr ((), s2) \<and> icache_ok (icache s2) \<and> iref_count (icache s2) = iref_count (icache s)"
proof (cases "iref_count (icache s) dev n = 0 \<and> (\<forall>i < NINODE. i_ref (icache s i) \<noteq> 0)")
  case True
  then show ?thesis using iget_spec [OF ok, of dev n] by simp
next
  case False
  obtain i s1 where g: "iget dev n s = Inr (i, s1)" "i < NINODE" "i_dev (icache s1 i) = dev" "i_inum (icache s1 i) = n"
    "icache_ok (icache s1)" "0 < i_ref (icache s1 i)" "iref_count (icache s1) = add_ref 1 dev n (iref_count (icache s))"
    "0 < iref_count (icache s) dev n \<longrightarrow> 0 < i_ref (icache s i) \<and> icache s1 i = (icache s i)\<lparr>i_ref := i_ref (icache s i) + 1\<rparr>"
    "iref_count (icache s) dev n = 0 \<longrightarrow> \<not> i_valid (icache s1 i) \<and> i_ref (icache s1 i) = 1 \<and> i_ref (icache s i) = 0"
    using iget_counts [OF ok False] by blast
  have "0 \<le> iref_count (icache s) dev n"
    by (auto simp: iref_count_def split: option.split dest!: find_upt(1))
  then have "i_ref (icache s1 i) \<noteq> 1 \<or> \<not> i_valid (icache s1 i) \<or> d_nlink (icache s1 i) \<noteq> 0"
    using g(8,9) by (cases "iref_count (icache s) dev n = 0") auto
  note P = iput_counts [OF g(5,2,6) this, unfolded g(3,4,7) add_ref_undo]
  have "iref_count (icache s1) dev n = iref_count (icache s) dev n + 1"
    "\<forall>dev' n'. dev' \<noteq> dev \<or> n' \<noteq> n \<longrightarrow> iref_count (icache s1) dev' n' = iref_count (icache s) dev' n'"
    by (auto simp: g(7) add_ref_def)
  then show ?thesis unfolding if_not_P [OF False] using g(1,3-5,8,9) P by blast
qed

text \<open>A cache of 50 referenced inodes: inode 3 is there, inode 60 finds no slot.\<close>

definition full_icache :: "nat \<Rightarrow> inode" where
  "full_icache i = \<lparr>d_type = T_FILE, d_major = 0, d_minor = 0, d_nlink = 1, d_size = 0, d_addrs = (\<lambda>_. 0),
     i_dev = 0, i_inum = of_nat (i mod NINODE), i_ref = 1, i_valid = True\<rparr>"

theorem iget_iput_counts_witness:
  "\<exists>(s :: fsst) i s1 s2. iget 0 3 s = Inr (i, s1) \<and> iref_count (icache s1) 0 3 = 2 \<and> iput prompt_device i s1 = Inr ((), s2) \<and>
    iref_count (icache s2) 0 3 = 1 \<and> iget 0 60 s = Inl (Panic ''iget: no inodes'')"
proof -
  obtain s :: fsst where s: "icache s = full_icache" using small_fs [of full_icache] by blast
  have inum: "unat (of_nat i :: u32) = i" if "i < NINODE" for i using that by (simp add: NINODE_def unat_of_nat_small)
  have ok: "icache_ok (icache s)"
    using inum by (auto simp: icache_ok_def s full_icache_def) (metis)
  have c3: "iref_count (icache s) 0 3 = 1"
    using iref_count_slot [OF ok, of 3] by (simp add: s full_icache_def NINODE_def)
  have c60: "iref_count (icache s) 0 60 = 0"
  proof (rule iref_count_none)
    fix i assume i: "i < NINODE"
    show "i_inum (icache s i) \<noteq> 60"
    proof
      assume "i_inum (icache s i) = 60"
      then have "unat (of_nat i :: u32) = 60" using i by (simp add: s full_icache_def)
      then show False using inum [OF i] i by (simp add: NINODE_def)
    qed
  qed
  have "\<forall>i < NINODE. i_ref (icache s i) \<noteq> 0" by (simp add: s full_icache_def)
  then have "iget 0 60 s = Inl (Panic ''iget: no inodes'')" using iget_iput_counts [OF ok, of 0 60] c60 by simp
  moreover have "\<not> (iref_count (icache s) 0 3 = 0 \<and> (\<forall>i < NINODE. i_ref (icache s i) \<noteq> 0))" using c3 by simp
  note iget_iput_counts [OF ok, of 0 3, unfolded if_not_P [OF this]]
  ultimately show ?thesis using c3 by (metis one_add_one)
qed

section \<open>Writing and reading inodes\<close>

lemma same_dinode_trans: "same_dinode a b \<Longrightarrow> same_dinode b c \<Longrightarrow> same_dinode a c"
  by (simp add: same_dinode_def)

lemma same_dinode_valid [simp]: "same_dinode (ip\<lparr>i_valid := v\<rparr>) d = same_dinode ip d"
  by (simp add: same_dinode_def)

lemma same_dinode_load [simp]: "same_dinode (load_dinode d ip) d"
  by (simp add: same_dinode_def load_dinode_def)

text \<open>
  C9. What \<open>iupdate\<close> stores \<open>ilock\<close> reads back. Inside a transaction with room for two blocks, \<open>iupdate\<close>
  succeeds, the inode table then holds the cached inode, and every other inode of the table is what it was;
  whatever has become of the inode cache since, \<open>ilock\<close> of any referenced slot for the inode that is not valid loads the
  same contents and marks the slot valid, or panics when the inode is of type 0, and changes no block.
\<close>

theorem iupdate_ilock_roundtrip:
  fixes s :: "'a fsst_scheme"
  assumes hw: "virtio_blk hw" and tr: "in_trans s" and rm: "jr.room s 2"
    and i: "i_dev (icache s i) = 0" and fb: "fs_block s (IBLOCK (i_inum (icache s i)) (fs_sb s))"
  shows "\<exists>s1. iupdate hw i s = Inr ((), s1) \<and> icache s1 = icache s \<and>
    same_dinode (disk_inode s1 (i_inum (icache s i))) (icache s i) \<and>
    (\<forall>n. n \<noteq> i_inum (icache s i) \<longrightarrow> same_dinode (disk_inode s1 n) (disk_inode s n)) \<and>
    (\<forall>ic j. i_dev (ic j) = 0 \<longrightarrow> i_inum (ic j) = i_inum (icache s i) \<longrightarrow> 1 \<le> i_ref (ic j) \<longrightarrow> \<not> i_valid (ic j) \<longrightarrow>
      (\<exists>s2. ilock hw j (s1\<lparr>icache := ic\<rparr>) = (if d_type (icache s i) = 0 then Inl (Panic ''ilock: no type'') else Inr ((), s2)) \<and>
        same_dinode (icache s2 j) (icache s i) \<and> i_valid (icache s2 j) \<and> disk s2 = disk s1 \<and> (\<forall>k. k \<noteq> j \<longrightarrow> icache s2 k = ic k)))"
proof -
  let ?n = "i_inum (icache s i)" let ?b = "IBLOCK ?n (fs_sb s)"
  have r2: "jr.room s (Suc 1)" using rm by (simp add: numeral_2_eq_2)
  obtain s1 where u: "iupdate hw i s = Inr ((), s1)" "in_trans s1" "fs_frame s s1" "jr.room s1 1"
    "disk s1 = (disk s)(?b := put_dinode (ioff ?n) (icache s i) (disk s ?b))"
    using iupdate_spec [OF hw tr r2 i fb] by blast
  have sb: "fs_sb s1 = fs_sb s" "icache s1 = icache s" using fs_frame_fs [OF u(3)] by simp_all
  have us: "usable ?b" using fb by (simp add: fs_block_def)
  have l: "ioff ?n + 64 \<le> length (disk s ?b)"
    using ioff_bound [of ?n] content_length [OF in_trans_bc [OF tr] us] by simp
  have same: "same_dinode (disk_inode s1 ?n) (icache s i)"
    using put_dinode_spec(2) [OF l, of "icache s i"] by (simp add: disk_inode_def u(5) sb)
  have other: "same_dinode (disk_inode s1 n) (disk_inode s n)" if ne: "n \<noteq> ?n" for n
  proof (cases "IBLOCK n (fs_sb s) = ?b")
    case True
    then have "ioff n + 64 \<le> ioff ?n \<or> ioff ?n + 64 \<le> ioff n" using inode_place [of ?n "fs_sb s" n] ne by metis
    then show ?thesis using put_dinode_spec(3) [OF l, of "ioff n" "icache s i"] True by (simp add: disk_inode_def u(5) sb)
  qed (simp add: disk_inode_def u(5) sb same_dinode_def)
  have "\<exists>s2. ilock hw j (s1\<lparr>icache := ic\<rparr>) = (if d_type (icache s i) = 0 then Inl (Panic ''ilock: no type'') else Inr ((), s2)) \<and>
      same_dinode (icache s2 j) (icache s i) \<and> i_valid (icache s2 j) \<and> disk s2 = disk s1 \<and> (\<forall>k. k \<noteq> j \<longrightarrow> icache s2 k = ic k)"
    if j: "i_dev (ic j) = 0" "i_inum (ic j) = ?n" "1 \<le> i_ref (ic j)" "\<not> i_valid (ic j)" for ic j
  proof -
    let ?t = "s1\<lparr>icache := ic\<rparr>"
    have V: "cview ?t = cview s1" "in_trans ?t = in_trans s1" "jr.room ?t (Suc 0) = jr.room s1 (Suc 0)" by (rule same_trans; simp)+
    then have t: "in_trans ?t" "jr.room ?t (Suc 0)" using u(2,4) by simp_all
    have di: "disk_inode ?t ?n = disk_inode s1 ?n" by (simp add: disk_inode_def V(1))
    have jn: "i_dev (icache ?t j) = 0" "1 \<le> i_ref (icache ?t j)" "\<not> i_valid (icache ?t j)"
      "usable (IBLOCK (i_inum (icache ?t j)) (fs_sb ?t))" using j us by (simp_all add: sb)
    obtain s2 where k: "ilock hw j ?t = (if d_type (disk_inode s1 ?n) = 0 then Inl (Panic ''ilock: no type'') else Inr ((), s2))"
      "cview s2 = cview ?t" "icache s2 = ic(j := (load_dinode (disk_inode s1 ?n) (ic j))\<lparr>i_valid := True\<rparr>)"
      using ilock_spec [OF hw t jn] j(2) di by auto
    have ty: "d_type (disk_inode s1 ?n) = d_type (icache s i)" using same by (simp add: same_dinode_def)
    have ic: "icache s2 j = (load_dinode (disk_inode s1 ?n) (ic j))\<lparr>i_valid := True\<rparr>" by (simp only: k(3) fun_upd_same)
    have "same_dinode (icache s2 j) (disk_inode s1 ?n)" unfolding ic same_dinode_valid by (rule same_dinode_load)
    from same_dinode_trans [OF this same] have "same_dinode (icache s2 j) (icache s i)" .
    moreover have "i_valid (icache s2 j)" unfolding ic by simp
    moreover have "disk s2 = disk s1" by (simp only: k(2) V(1))
    moreover have "\<forall>m. m \<noteq> j \<longrightarrow> icache s2 m = ic m" by (simp add: k(3))
    ultimately show ?thesis using k(1) [unfolded ty] by blast
  qed
  then show ?thesis using u(1) sb(2) same other by blast
qed

text \<open>Slot 0 has inode 3, valid; the slot is recycled and has to be read again.\<close>

definition one_icache :: "nat \<Rightarrow> inode" where
  "one_icache i = \<lparr>d_type = T_FILE, d_major = 0, d_minor = 0, d_nlink = 1, d_size = 5, d_addrs = (\<lambda>_. 70),
     i_dev = 0, i_inum = 3, i_ref = (if i = 0 then 1 else 0), i_valid = (i = 0)\<rparr>"

theorem iupdate_ilock_roundtrip_witness:
  "\<exists>(s :: fsst) s1 s2. icache_ok (icache s) \<and> i_valid (icache s 0) \<and> iupdate prompt_device 0 s = Inr ((), s1) \<and>
    ilock prompt_device 0 (s1\<lparr>icache := one_icache(0 := (one_icache 0)\<lparr>d_size := 0, i_valid := False\<rparr>)\<rparr>) = Inr ((), s2) \<and>
    i_valid (icache s2 0) \<and> d_size (icache s2 0) = 5"
proof -
  obtain s :: fsst where s: "in_trans s" "jr.room s 29" "fs_sb s = small_sb" "icache s = one_icache" "lg_start s = 2"
    using small_fs [of one_icache] by blast
  have r: "jr.room s 2" by (rule jr.room_le [OF s(2)]) simp
  have "IBLOCK 3 small_sb = 34" by (simp add: IBLOCK_def small_sb_def IPB_def BSIZE_def)
  moreover have "usable 34" by (simp add: usable_def small_block_def)
  ultimately have fb: "fs_block s (IBLOCK (i_inum (icache s 0)) (fs_sb s))"
    by (simp add: s(3-5) one_icache_def fs_block_def log_area_2)
  let ?ic = "one_icache(0 := (one_icache 0)\<lparr>d_size := 0, i_valid := False\<rparr>)"
  have i: "i_dev (icache s 0) = 0" "d_type (icache s 0) \<noteq> 0" "d_size (icache s 0) = 5" "i_valid (icache s 0)"
    and ic: "i_dev (?ic 0) = 0" "i_inum (?ic 0) = i_inum (icache s 0)" "1 \<le> i_ref (?ic 0)" "\<not> i_valid (?ic 0)"
    by (simp_all add: s(4) one_icache_def T_FILE_def)
  have ok: "icache_ok (icache s)" by (simp add: s(4) one_icache_def icache_ok_def)
  from iupdate_ilock_roundtrip [OF virtio_blk_prompt s(1) r i(1) fb, unfolded if_not_P [OF i(2)]] obtain s1 where
    u: "iupdate prompt_device 0 s = Inr ((), s1)" and L: "\<forall>ic j. i_dev (ic j) = 0 \<longrightarrow> i_inum (ic j) = i_inum (icache s 0) \<longrightarrow>
      1 \<le> i_ref (ic j) \<longrightarrow> \<not> i_valid (ic j) \<longrightarrow> (\<exists>s2. ilock prompt_device j (s1\<lparr>icache := ic\<rparr>) = Inr ((), s2) \<and>
        same_dinode (icache s2 j) (icache s 0) \<and> i_valid (icache s2 j) \<and> disk s2 = disk s1 \<and> (\<forall>k. k \<noteq> j \<longrightarrow> icache s2 k = ic k))" by blast
  from L [THEN spec, of ?ic, THEN spec, of 0, THEN mp, OF ic(1), THEN mp, OF ic(2), THEN mp, OF ic(3), THEN mp, OF ic(4)] obtain s2 where "ilock prompt_device 0 (s1\<lparr>icache := ?ic\<rparr>) = Inr ((), s2)"
    "same_dinode (icache s2 0) (icache s 0)" "i_valid (icache s2 0)" by blast
  then show ?thesis using u ok i(3,4) by (auto simp: same_dinode_def)
qed

end
