(* ===== verification/FsFile.thy ===== *)
theory FsFile
  imports FsInode
begin

text \<open>
  The contents of a file as a function from positions to bytes, over direct and indirect blocks and holes:
  \<open>bmap\<close> without allocation, and \<open>readi\<close>.
\<close>

section \<open>The bytes of a file\<close>

text \<open>The block of the \<open>k\<close>-th kilobyte of a file, 0 for a hole, and the byte at a position.\<close>

definition file_addr :: "'a fsst_scheme \<Rightarrow> nat \<Rightarrow> nat \<Rightarrow> u32" where
  "file_addr s i k = (let a = d_addrs (icache s i) in
     if k < NDIRECT then a k
     else if a NDIRECT = 0 then 0 else get32 (4 * (k - NDIRECT)) (disk s (a NDIRECT)))"

definition file_byte :: "'a fsst_scheme \<Rightarrow> nat \<Rightarrow> nat \<Rightarrow> u8" where
  "file_byte s i p = (let a = file_addr s i (p div BSIZE) in if a = 0 then 0 else disk s a ! (p mod BSIZE))"

text \<open>The blocks of a file are blocks of the disk, and its size is within what \<open>bmap\<close> can address.\<close>

definition file_ok :: "'a fsst_scheme \<Rightarrow> nat \<Rightarrow> bool" where
  "file_ok s i \<longleftrightarrow> i_dev (icache s i) = 0 \<and> (d_addrs (icache s i) NDIRECT \<noteq> 0 \<longrightarrow> usable (d_addrs (icache s i) NDIRECT)) \<and>
     (\<forall>k < NDIRECT + NINDIRECT. file_addr s i k \<noteq> 0 \<longrightarrow> usable (file_addr s i k)) \<and>
     unat (d_size (icache s i)) \<le> (NDIRECT + NINDIRECT) * BSIZE"

text \<open>What looking at blocks leaves behind: the same contents, and as much room.\<close>

definition looked :: "nat \<Rightarrow> 'a fsst_scheme \<Rightarrow> 'a fsst_scheme \<Rightarrow> bool" where
  "looked k s s' \<longleftrightarrow> in_trans s' \<and> cview s' = cview s \<and> fs_frame s s' \<and> jr.room s' (Suc k)"

lemma looked_refl: "in_trans s \<Longrightarrow> jr.room s (Suc k) \<Longrightarrow> looked k s s"
  by (simp add: looked_def)

lemma looked_trans: "looked k s s' \<Longrightarrow> looked k s' s'' \<Longrightarrow> looked k s s''"
  unfolding looked_def using fs_frame_trans by metis

lemma lookedD:
  fixes s s' :: "'a fsst_scheme"
  assumes "looked k s s'"
  shows "in_trans s'" "jr.room s' (Suc k)" "icache s' = icache s" "fs_sb s' = fs_sb s" "disk s' = disk s"
    "file_addr s' i = file_addr s i" "file_byte s' i = file_byte s i" "file_ok s' i = file_ok s i"
proof -
  note F = assms [unfolded looked_def]
  show "in_trans s'" "jr.room s' (Suc k)" using F by blast+
  show ic: "icache s' = icache s" and "fs_sb s' = fs_sb s" using fs_frame_fs F by blast+
  show d: "disk s' = disk s" using F by simp
  show a: "file_addr s' i = file_addr s i" by (simp add: file_addr_def Let_def ic d fun_eq_iff)
  show "file_byte s' i = file_byte s i" by (simp add: file_byte_def Let_def a d fun_eq_iff)
  show "file_ok s' i = file_ok s i" by (simp add: file_ok_def a ic)
qed

lemma look_block:
  fixes s :: "'a fsst_scheme"
  assumes "virtio_blk hw" and "in_trans s" and "jr.room s (Suc k)" and "usable n"
  shows "\<exists>b s1 s2. bread hw 0 n s = Inr (b, s1) \<and> b_data (bufs s1 b) = disk s n \<and> brelse b s1 = Inr ((), s2) \<and> looked k s s2"
proof -
  have "virtio_blk hw \<and> in_trans s" using assms by simp
  from jr.look [OF this assms(4,3)] show ?thesis by (auto simp: looked_def)
qed

lemma bmap_finds:
  fixes s :: "'a fsst_scheme"
  assumes hw: "virtio_blk hw" and tr: "in_trans s" and rm: "jr.room s (Suc k)" and fok: "file_ok s i"
    and n: "unat bn < NDIRECT + NINDIRECT"
  shows "\<exists>s'. bmap hw i bn False s = Inr (file_addr s i (unat bn), s') \<and> looked k s s'"
proof -
  let ?a = "d_addrs (icache s i)"
  note L = looked_refl [OF tr rm]
  show ?thesis
  proof (cases "unat bn < NDIRECT \<or> ?a NDIRECT = 0")
    case True
    then show ?thesis using n L by (auto simp: bmap_def Let_def ret_def file_addr_def)
  next
    case False
    have us: "usable (?a NDIRECT)" and dev: "i_dev (icache s i) = 0" using fok False by (simp_all add: file_ok_def)
    obtain b s1 s2 where r: "bread hw 0 (?a NDIRECT) s = Inr (b, s1)" "b_data (bufs s1 b) = disk s (?a NDIRECT)"
      "brelse b s1 = Inr ((), s2)" "looked k s s2" using look_block [OF hw tr rm us] by blast
    have "unat bn - NDIRECT < NINDIRECT" using n False by linarith
    then show ?thesis using False r by (auto simp: bmap_def Let_def ret_def file_addr_def dev)
  qed
qed

section \<open>Reading\<close>

lemma unat_fs_chunk: "unat (fs_chunk off rest) = min (BSIZE - unat off mod BSIZE) (unat rest)"
proof -
  have o: "unat (off mod of_nat BSIZE) = unat off mod BSIZE" by (simp add: unat_mod_distrib BSIZE_def)
  have "unat off mod BSIZE < BSIZE" by (simp add: BSIZE_def)
  then have "off mod of_nat BSIZE \<le> of_nat BSIZE" by (simp add: word_le_nat_alt o) (simp add: BSIZE_def)
  then have "unat (of_nat BSIZE - off mod of_nat BSIZE) = unat (of_nat BSIZE :: u32) - unat (off mod of_nat BSIZE)"
    by (rule unat_sub)
  then have "unat (of_nat BSIZE - off mod of_nat BSIZE) = BSIZE - unat off mod BSIZE" unfolding o by (simp add: BSIZE_def)
  then show ?thesis by (simp add: fs_chunk_def Let_def word_less_nat_alt min_def)
qed

lemma div_add_within: "p mod n + k < n \<Longrightarrow> (p + k) div n = p div n" for p :: nat
proof (rule div_nat_eqI)
  assume "p mod n + k < n"
  then show "n * (p div n) \<le> p + k" "p + k < n * Suc (p div n)"
    using mult_div_mod_eq [of n p] unfolding mult_Suc_right by linarith+
qed

lemma chunk_bytes:
  assumes m: "m \<le> BSIZE - p mod BSIZE" and l: "a \<noteq> 0 \<longrightarrow> length (disk s a) = BSIZE" and a: "file_addr s i (p div BSIZE) = a"
  shows "map (file_byte s i) [p..<p + m] = (if a = 0 then replicate m 0 else take m (drop (p mod BSIZE) (disk s a)))"
proof (rule nth_equalityI)
  have "p mod BSIZE < BSIZE" by (simp add: BSIZE_def)
  then have pb: "p mod BSIZE + m \<le> BSIZE" using m by simp
  then show "length (map (file_byte s i) [p..<p + m]) =
    length (if a = 0 then replicate m 0 else take m (drop (p mod BSIZE) (disk s a)))" using l by simp
  fix k assume "k < length (map (file_byte s i) [p..<p + m])"
  then have k: "k < m" by simp
  have lt: "p mod BSIZE + k < BSIZE" using pb k by simp
  have d: "(p + k) div BSIZE = p div BSIZE" by (rule div_add_within [OF lt])
  have "(p + k) mod BSIZE = p mod BSIZE + k"
    using mult_div_mod_eq [of BSIZE "p + k"] mult_div_mod_eq [of BSIZE p] unfolding d by linarith
  then show "map (file_byte s i) [p..<p + m] ! k = (if a = 0 then replicate m 0 else take m (drop (p mod BSIZE) (disk s a))) ! k"
    using k a l pb d by (simp add: file_byte_def Let_def)
qed

lemma chunk_step:
  fixes off n tot :: u32
  assumes t: "tot < n" and b: "unat off + unat (n - tot) < 2 ^ 32"
  defines "m \<equiv> fs_chunk off (n - tot)"
  shows "unat m \<le> BSIZE - unat off mod BSIZE" "unat m \<le> unat (n - tot)" "0 < unat m" "unat (off + m) = unat off + unat m"
    "unat (n - (tot + m)) = unat (n - tot) - unat m" "tot + m \<le> n" "unat (off mod of_nat BSIZE) = unat off mod BSIZE"
    "unat (off div of_nat BSIZE) = unat off div BSIZE" "unat m < unat (n - tot) \<Longrightarrow> unat off mod BSIZE + unat m = BSIZE"
proof -
  show "unat (off mod of_nat BSIZE) = unat off mod BSIZE" by (simp add: unat_mod_distrib BSIZE_def)
  show "unat (off div of_nat BSIZE) = unat off div BSIZE" by (simp add: unat_div_distrib BSIZE_def)
  have u: "unat m = min (BSIZE - unat off mod BSIZE) (unat (n - tot))" by (simp add: m_def unat_fs_chunk)
  have lt: "unat off mod BSIZE < BSIZE" by (simp add: BSIZE_def)
  show m: "unat m \<le> BSIZE - unat off mod BSIZE" "unat m \<le> unat (n - tot)" using u by simp_all
  show "unat m < unat (n - tot) \<Longrightarrow> unat off mod BSIZE + unat m = BSIZE" using u lt by (simp add: min_def split: if_splits)
  have d: "unat (n - tot) = unat n - unat tot" and tn: "unat tot < unat n" using t unat_sub [of tot n]
    by (simp_all add: word_less_nat_alt word_le_nat_alt)
  then show "0 < unat m" using u lt by simp
  show "unat (off + m) = unat off + unat m" by (rule unat_add_lem [THEN iffD1]) (use b m(2) in simp)
  have nb: "unat n < 2 ^ 32" using unsigned_less [of n] by simp
  have a: "unat (tot + m) = unat tot + unat m" by (rule unat_add_lem [THEN iffD1]) (use m(2) d tn nb in simp)
  show c: "tot + m \<le> n" using a m(2) d tn by (simp add: word_le_nat_alt)
  show "unat (n - (tot + m)) = unat (n - tot) - unat m" using unat_sub [OF c] a d by simp
qed

lemma readi_loop_spec:
  fixes s :: "'a fsst_scheme"
  assumes "virtio_blk hw" and "in_trans s" and "jr.room s (Suc k)" and "file_ok s i" and "tot \<le> n"
    and "unat off + unat (n - tot) \<le> (NDIRECT + NINDIRECT) * BSIZE"
  shows "\<exists>s'. readi_loop hw i tot off n dst s =
    Inr (dst @ map (file_byte s i) [unat off..<unat off + unat (n - tot)], s') \<and> looked k s s'"
  using assms
proof (induction "unat (n - tot)" arbitrary: tot off dst s rule: less_induct)
  case less
  note hw = less.prems(1) and tr = less.prems(2) and rm = less.prems(3) and fok = less.prems(4)
  show ?case
  proof (cases "tot < n")
    case False
    then have "tot = n" using less.prems(5) by simp
    then show ?thesis using looked_refl [OF tr rm] by (subst readi_loop.simps) (simp add: ret_def)
  next
    case True
    let ?m = "fs_chunk off (n - tot)" and ?bn = "off div of_nat BSIZE :: u32"
    have ob: "unat off + unat (n - tot) < 2 ^ 32" using less.prems(6) by (simp add: NDIRECT_def NINDIRECT_def BSIZE_def)
    note M = chunk_step [OF True ob]
    note om = M(7) and bn = M(8)
    have rest: "0 < unat (n - tot)" using M(2,3) by simp
    have bb: "unat ?bn < NDIRECT + NINDIRECT"
      unfolding bn using less.prems(6) rest by (intro less_mult_imp_div_less) linarith
    obtain s1 where b: "bmap hw i ?bn False s = Inr (file_addr s i (unat ?bn), s1)" "looked k s s1"
      using bmap_finds [OF hw tr rm fok bb] by blast
    note L1 = lookedD [OF b(2)]
    define a where "a = file_addr s i (unat ?bn)"
    have fa: "file_addr s i (unat off div BSIZE) = a" by (simp only: a_def bn)
    have bytes: "map (file_byte s i) [unat off..<unat off + unat ?m] =
      (if a = 0 then replicate (unat ?m) 0 else take (unat ?m) (drop (unat (off mod of_nat BSIZE)) (disk s a)))"
      if "a \<noteq> 0 \<longrightarrow> length (disk s a) = BSIZE"
      unfolding om by (rule chunk_bytes [OF M(1) that fa])
    have split: "[unat off..<unat off + unat (n - tot)] =
      [unat off..<unat off + unat ?m] @ [unat (off + ?m)..<unat (off + ?m) + unat (n - (tot + ?m))]"
      using upt_add_eq_append [of "unat off" "unat off + unat ?m" "unat (n - tot) - unat ?m"] M(2) by (simp add: M(4,5))
    have room: "unat (off + ?m) + unat (n - (tot + ?m)) \<le> (NDIRECT + NINDIRECT) * BSIZE"
      using less.prems(6) M(2) by (simp add: M(4,5))
    note IH = less.hyps [OF fs_chunk_decreases [OF True] hw _ _ _ M(6) room]
    show ?thesis
    proof (cases "a = 0")
      case z: True
      obtain s' where s': "readi_loop hw i (tot + ?m) (off + ?m) n (dst @ replicate (unat ?m) 0) s1 =
        Inr ((dst @ replicate (unat ?m) 0) @ map (file_byte s1 i) [unat (off + ?m)..<unat (off + ?m) + unat (n - (tot + ?m))], s')"
        "looked k s1 s'"
        using IH [OF L1(1,2) L1(8) [THEN iffD2, OF fok]] by blast
      have "readi_loop hw i tot off n dst s = readi_loop hw i (tot + ?m) (off + ?m) n (dst @ replicate (unat ?m) 0) s1"
        using True z b(1) by (subst readi_loop.simps) (simp add: a_def Let_def)
      then show ?thesis
        using s' bytes z looked_trans [OF b(2) s'(2)] unfolding split by (simp add: L1(7))
    next
      case nz: False
      have us: "usable a" using fok nz bb by (simp add: file_ok_def a_def)
      obtain bp s2 s3 where r: "bread hw 0 a s1 = Inr (bp, s2)" "b_data (bufs s2 bp) = disk s1 a" "brelse bp s2 = Inr ((), s3)"
        "looked k s1 s3" using look_block [OF hw L1(1,2) us] by blast
      note L3 = lookedD [OF r(4)]
      let ?src = "take (unat ?m) (drop (unat (off mod of_nat BSIZE)) (disk s a))"
      obtain s' where s': "readi_loop hw i (tot + ?m) (off + ?m) n (dst @ ?src) s3 =
        Inr ((dst @ ?src) @ map (file_byte s3 i) [unat (off + ?m)..<unat (off + ?m) + unat (n - (tot + ?m))], s')" "looked k s3 s'"
        using IH [OF L3(1,2) L3(8) [THEN iffD2, OF L1(8) [THEN iffD2, OF fok]]] by blast
      have dev: "i_dev (icache s1 i) = 0" using fok by (simp add: file_ok_def L1(3))
      have step: "readi_loop hw i tot off n dst s = readi_loop hw i (tot + ?m) (off + ?m) n (dst @ ?src) s3"
        using True nz b(1) r by (subst readi_loop.simps) (simp add: a_def Let_def dev L1(5))
      have "length (disk s a) = BSIZE" by (rule content_length [OF in_trans_bc [OF tr] us])
      then show ?thesis
        using step s' bytes nz looked_trans [OF b(2) looked_trans [OF r(4) s'(2)]] unfolding split by (simp add: L1(7) L3(7))
    qed
  qed
qed

text \<open>What \<open>readi\<close> answers: -1 outside the file, or the bytes from the offset up to the end of the file.\<close>

definition read_result :: "'a fsst_scheme \<Rightarrow> nat \<Rightarrow> nat \<Rightarrow> nat \<Rightarrow> int \<times> u8 list" where
  "read_result s i off n = (let sz = unat (d_size (icache s i)) in
     if off > sz \<or> off + n \<ge> 2 ^ 32 then (-1, [])
     else (int (min n (sz - off)), map (file_byte s i) [off..<off + min n (sz - off)]))"

lemma add_overflows: "off + n < off \<longleftrightarrow> unat off + unat n \<ge> 2 ^ 32" for off n :: u32
proof (cases "unat off + unat n < 2 ^ 32")
  case True
  then have "unat (off + n) = unat off + unat n" by (simp add: unat_add_lem [THEN iffD1])
  then show ?thesis using True by (simp add: word_less_nat_alt)
next
  case False
  have b: "unat off < 2 ^ 32" "unat n < 2 ^ 32" using unsigned_less [of off] unsigned_less [of n] by simp_all
  have "unat (off + n) = (unat off + unat n) mod 2 ^ 32" by (simp add: unat_word_ariths)
  also have "\<dots> = unat off + unat n - 2 ^ 32" using False b by (subst le_mod_geq) simp_all
  finally show ?thesis using False b by (simp add: word_less_nat_alt)
qed

lemma sint_nonneg: "unat n < 2 ^ 31 \<Longrightarrow> sint n = int (unat n)" for n :: u32
proof -
  assume "unat n < 2 ^ 31"
  then have "int (unat n) < int (2 ^ 31)" by (simp only: of_nat_less_iff)
  then have u: "uint n < 2 ^ 31" by simp
  have "- (2 ^ 31) \<le> uint n" by (rule order_trans [of _ 0]) simp_all
  from signed_take_bit_int_eq_self [OF this u] have "signed_take_bit 31 (uint n) = uint n" .
  then show ?thesis by (simp add: sint_uint)
qed

lemma readi_spec:
  fixes s :: "'a fsst_scheme"
  assumes hw: "virtio_blk hw" and tr: "in_trans s" and rm: "jr.room s (Suc k)" and fok: "file_ok s i"
  shows "\<exists>s'. readi hw i off n s = Inr (read_result s i (unat off) (unat n), s') \<and> looked k s s'"
proof -
  let ?sz = "d_size (icache s i)"
  have sz: "unat ?sz \<le> (NDIRECT + NINDIRECT) * BSIZE" using fok by (simp add: file_ok_def)
  have out: "off > ?sz \<or> off + n < off \<longleftrightarrow> unat off > unat ?sz \<or> unat off + unat n \<ge> 2 ^ 32"
    unfolding add_overflows by (simp add: word_less_nat_alt)
  show ?thesis
  proof (cases "off > ?sz \<or> off + n < off")
    case True
    then have "readi hw i off n s = Inr ((-1, []), s)" by (simp add: readi_def Let_def ret_def)
    moreover have "read_result s i (unat off) (unat n) = (-1, [])" using True unfolding out by (simp add: read_result_def Let_def)
    ultimately show ?thesis using looked_refl [OF tr rm] by auto
  next
    case False
    define m where "m = (if off + n > ?sz then ?sz - off else n)"
    have o: "off \<le> ?sz" "unat off + unat n < 2 ^ 32" using False unfolding add_overflows by (simp_all add: not_less)
    have "unat (off + n) = unat off + unat n" using o(2) by (simp add: unat_add_lem [THEN iffD1])
    then have m: "unat m = min (unat n) (unat ?sz - unat off)"
      using o(1) by (auto simp: m_def word_less_nat_alt unat_sub word_le_nat_alt min_def)
    have mb: "unat off + unat (m - 0) \<le> (NDIRECT + NINDIRECT) * BSIZE" using m sz o(1) by (simp add: word_le_nat_alt)
    have "unat m < 2 ^ 31" using mb by (simp add: NDIRECT_def NINDIRECT_def BSIZE_def)
    then have sm: "sint m = int (unat m)" by (rule sint_nonneg)
    obtain s' where s': "readi_loop hw i 0 off m [] s = Inr ([] @ map (file_byte s i) [unat off..<unat off + unat (m - 0)], s')"
      "looked k s s'" using readi_loop_spec [OF hw tr rm fok word_zero_le mb] by blast
    have "readi hw i off n s = Inr ((int (unat m), map (file_byte s i) [unat off..<unat off + unat m]), s')"
      using False s'(1) sm by (simp add: readi_def Let_def ret_def m_def [symmetric])
    moreover have "read_result s i (unat off) (unat n) = (int (unat m), map (file_byte s i) [unat off..<unat off + unat m])"
      using o by (simp add: read_result_def Let_def m word_le_nat_alt)
    ultimately show ?thesis using s'(2) by auto
  qed
qed

text \<open>
  C21. Reading a file, by direct and indirect blocks and over holes, chunk by chunk, gives exactly the bytes of
  the file in the range asked for, cut at its end, and -1 when the range starts behind the end or wraps
  around; no block and no cached inode changes.
\<close>

theorem readi_reads_file:
  fixes s :: "'a fsst_scheme"
  assumes "virtio_blk hw" and "in_trans s" and "jr.room s 1" and "file_ok s i"
  shows "\<exists>s'. readi hw i off n s = Inr (read_result s i (unat off) (unat n), s') \<and> disk s' = disk s \<and> icache s' = icache s \<and>
    in_trans s'"
proof -
  have "jr.room s (Suc 0)" using assms(3) by simp
  then obtain s' where s': "readi hw i off n s = Inr (read_result s i (unat off) (unat n), s')" "looked 0 s s'"
    using readi_spec [OF assms(1,2) _ assms(4)] by blast
  then show ?thesis using lookedD(1,3,5) [OF s'(2)] by blast
qed

text \<open>A file of 2060 bytes whose first block is block 70 (zeros), its second a hole, its third block 60, the bitmap.\<close>

definition holed_icache :: "nat \<Rightarrow> inode" where
  "holed_icache i = \<lparr>d_type = T_FILE, d_major = 0, d_minor = 0, d_nlink = 1, d_size = 2060,
     d_addrs = (\<lambda>k. if k = 0 then 70 else if k = 2 then 60 else 0), i_dev = 0, i_inum = 3, i_ref = 1, i_valid = True\<rparr>"

theorem readi_reads_file_witness:
  "\<exists>(s :: fsst) s'. readi prompt_device 0 2046 100 s = Inr ((14, [0, 0, 0xFF, 0xFF, 0xFF, 0xFF, 0xFF, 0xFF, 0xFF, 0xFF, 0, 0, 0, 0]), s') \<and> disk s' = disk s"
proof -
  obtain s :: fsst where s: "in_trans s" "jr.room s 29" "icache s = holed_icache" "disk s = medium_of small_image"
    using small_fs [of holed_icache] by blast
  have r: "jr.room s 1" by (rule jr.room_le [OF s(2)]) simp
  have a: "file_addr s 0 k = (if k = 0 then 70 else if k = 2 then 60 else 0)" for k
    by (simp add: file_addr_def s(3) holed_icache_def NDIRECT_def)
  have u: "usable 60" "usable 70" by (simp_all add: usable_def small_block_def)
  have fok: "file_ok s 0"
    using u by (simp add: file_ok_def a) (simp add: s(3) holed_icache_def NDIRECT_def NINDIRECT_def BSIZE_def)
  have b: "file_byte s 0 p = (if p div 1024 = 2 \<and> p mod 1024 < 8 then 0xFF else 0)" if "p div 1024 = 1 \<or> p div 1024 = 2" for p
    using that small_image_byte [OF u(1), of "p mod 1024"] by (auto simp: file_byte_def a s(4) BSIZE_def)
  have n: "unat (2046 :: u32) = 2046" "unat (100 :: u32) = 100" "unat (d_size (icache s 0)) = 2060"
    by (simp_all add: s(3) holed_icache_def)
  have l: "[2046..<2060] = [2046 :: nat, 2047, 2048, 2049, 2050, 2051, 2052, 2053, 2054, 2055, 2056, 2057, 2058, 2059]"
    by (simp add: upt_rec)
  have "read_result s 0 (unat (2046 :: u32)) (unat (100 :: u32)) = (14, map (file_byte s 0) [2046..<2060])"
    by (simp add: read_result_def n)
  also have "map (file_byte s 0) [2046..<2060] = [0, 0, 0xFF, 0xFF, 0xFF, 0xFF, 0xFF, 0xFF, 0xFF, 0xFF, 0, 0, 0, 0]"
    unfolding l by (simp add: b)
  finally show ?thesis using readi_reads_file [OF virtio_blk_prompt s(1) r fok, of 2046 100] by auto
qed

end
