(* ===== verification/Mkfs.thy ===== *)
theory Mkfs
  imports FsFile
begin

text \<open>
  The image builder (mkfs.c): a program of the host that writes the disk image the kernel mounts. The host
  file is its bytes, its length, the file offset and the space the host has for it; the program's own
  superblock, bitmap and counters are the rest of the state. Messages to the terminal are left out.
\<close>

section \<open>The host file\<close>

record hfile =
  f_img :: "nat \<Rightarrow> u8"
  f_len :: nat
  f_pos :: nat
  f_cap :: nat

record mkst = hfile +
  mk_sb :: superblock
  freeinode :: u32
  freeblock :: u32
  mk_bitmap :: "u8 list"

definition FSSIZE :: nat where "FSSIZE = 1000"

definition host_seek :: "nat \<Rightarrow> 'a hfile_scheme \<Rightarrow> 'a hfile_scheme" where
  "host_seek off s = s\<lparr>f_pos := off\<rparr>"

text \<open>The bytes written and read at the offset, and whether there were as many as asked for.\<close>

definition host_write :: "u8 list \<Rightarrow> 'a hfile_scheme \<Rightarrow> bool \<times> 'a hfile_scheme" where
  "host_write bs s =
     (if f_pos s + length bs \<le> f_cap s
      then (True, s\<lparr>f_img := img_write (f_pos s) bs (f_img s), f_len := max (f_len s) (f_pos s + length bs),
              f_pos := f_pos s + length bs\<rparr>)
      else (False, s))"

definition host_read :: "nat \<Rightarrow> 'a hfile_scheme \<Rightarrow> u8 list \<times> 'a hfile_scheme" where
  "host_read n s =
     (if f_pos s + n \<le> f_len s then (img_read (f_img s) (f_pos s) n, s\<lparr>f_pos := f_pos s + n\<rparr>) else ([], s))"

section \<open>Sectors, inodes and blocks\<close>

definition wsect :: "u32 \<Rightarrow> u8 list \<Rightarrow> 'a hfile_scheme \<Rightarrow> (unit, 'a hfile_scheme) outcome" where
  "wsect sec buf s =
     (let (ok, s) = host_write buf (host_seek (unat (sec * of_nat BSIZE)) s)
      in if \<not> ok then Inl (Exit 1) else ret () s)"

definition rsect :: "u32 \<Rightarrow> 'a hfile_scheme \<Rightarrow> (u8 list, 'a hfile_scheme) outcome" where
  "rsect sec s =
     (let (buf, s) = host_read BSIZE (host_seek (unat (sec * of_nat BSIZE)) s)
      in if length buf \<noteq> BSIZE then Inl (Exit 1) else ret buf s)"

definition winode :: "u32 \<Rightarrow> dinode \<Rightarrow> mkst \<Rightarrow> (unit, mkst) outcome" where
  "winode inum ip s =
     (let bn = IBLOCK inum (mk_sb s)
      in bnd (rsect bn s) (\<lambda>buf. wsect bn (put_dinode (ioff inum) ip buf)))"

definition rinode :: "u32 \<Rightarrow> mkst \<Rightarrow> (dinode, mkst) outcome" where
  "rinode inum s = bnd (rsect (IBLOCK inum (mk_sb s)) s) (\<lambda>buf. ret (dinode_at (ioff inum) buf))"

definition mk_ialloc :: "u16 \<Rightarrow> mkst \<Rightarrow> (u32, mkst) outcome" where
  "mk_ialloc type s =
     (let inum = freeinode s
      in bnd (winode inum \<lparr>d_type = type, d_major = 0, d_minor = 0, d_nlink = 1, d_size = 0, d_addrs = (\<lambda>_. 0)\<rparr>
                (s\<lparr>freeinode := inum + 1\<rparr>)) (\<lambda>_. ret inum))"

text \<open>The bitmap has one byte more than 1000 bits need.\<close>

definition balloc_mark :: "u32 \<Rightarrow> mkst \<Rightarrow> (unit, mkst) outcome" where
  "balloc_mark b s =
     (if \<not> unat b div 8 < FSSIZE div 8 + 1 then Inl (Fault ''bitmap'')
      else ret () (s\<lparr>mk_bitmap := set_bit_in (unat b) (mk_bitmap s)\<rparr>))"

definition mk_balloc :: "mkst \<Rightarrow> (u32, mkst) outcome" where
  "mk_balloc s =
     (let b = freeblock s
      in bnd (balloc_mark b (s\<lparr>freeblock := b + 1\<rparr>)) (\<lambda>_. ret b))"

function iappend_loop :: "dinode \<Rightarrow> u32 \<Rightarrow> u8 list \<Rightarrow> mkst \<Rightarrow> (dinode \<times> u32, mkst) outcome" where
  "iappend_loop din off data s =
     (if data \<noteq> [] then
        (let bn = unat (off div of_nat BSIZE) in
         if bn \<ge> NDIRECT then Inl (Exit 1)
         else
           bnd (if d_addrs din bn = 0
                then bnd (mk_balloc s) (\<lambda>b. ret (din\<lparr>d_addrs := (d_addrs din)(bn := b)\<rparr>))
                else ret din s) (\<lambda>din s.
           bnd (rsect (d_addrs din bn) s) (\<lambda>buf s.
           let o' = unat (off mod of_nat BSIZE); m = min (BSIZE - o') (length data) in
           bnd (wsect (d_addrs din bn) (splice o' (take m data) buf) s) (\<lambda>_ s.
           iappend_loop din (off + of_nat m) (drop m data) s))))
      else ret (din, off) s)"
  by pat_completeness auto

termination iappend_loop
proof (relation "measure (\<lambda>(din, off, data, s). length data)", goal_cases)
  case (2 din off data)
  have "unat (off mod of_nat BSIZE) < BSIZE" by (simp add: unat_mod_distrib BSIZE_def)
  then show ?case using 2 by (auto simp: min_def not_le)
qed simp

declare iappend_loop.simps [simp del]

definition iappend :: "u32 \<Rightarrow> u8 list \<Rightarrow> mkst \<Rightarrow> (unit, mkst) outcome" where
  "iappend inum data s =
     bnd (rinode inum s) (\<lambda>din s.
     bnd (iappend_loop din (d_size din) data s) (\<lambda>(din, off) s.
     winode inum (din\<lparr>d_size := off\<rparr>) s))"

definition write_bitmap :: "mkst \<Rightarrow> (unit, mkst) outcome" where
  "write_bitmap s =
     for_each [0..<FSSIZE div BPB + 1] (\<lambda>i s.
       let start = i * BSIZE; stop = min (start + BSIZE) (FSSIZE div 8 + 1);
           buf = map (\<lambda>j. if start + j < stop then mk_bitmap s ! (start + j) else 0) [0..<BSIZE]
       in wsect (sb_bmapstart (mk_sb s) + of_nat i) buf s) s"

section \<open>The program\<close>

definition sb_bytes :: "superblock \<Rightarrow> u8 list" where
  "sb_bytes sb = le_bytes 4 (sb_magic sb) @ le_bytes 4 (sb_size sb) @ le_bytes 4 (sb_nblocks sb) @
     le_bytes 4 (sb_ninodes sb) @ le_bytes 4 (sb_nlog sb) @ le_bytes 4 (sb_logstart sb) @
     le_bytes 4 (sb_inodestart sb) @ le_bytes 4 (sb_bmapstart sb)"

definition mk_dirent :: "u32 \<Rightarrow> string \<Rightarrow> u8 list" where
  "mk_dirent inum name = le_bytes 2 (ucast inum :: u16) @ cstr name @ replicate (DIRSIZ - length name) 0"

definition mk_layout :: "mkst \<Rightarrow> mkst" where
  "mk_layout s =
     (let inodestart = 2 + 30;
          bmapstart = inodestart + (of_nat (200 div IPB + 1));
          fb = bmapstart + of_nat (FSSIZE div BPB + 1)
      in s\<lparr>freeblock := fb,
           mk_sb := \<lparr>sb_magic = FSMAGIC, sb_size = of_nat FSSIZE, sb_nblocks = of_nat FSSIZE - fb, sb_ninodes = 200,
             sb_nlog = 30, sb_logstart = 2, sb_inodestart = inodestart, sb_bmapstart = bmapstart\<rparr>\<rparr>)"

text \<open>\<open>argc\<close> is the number of arguments, \<open>opened\<close> whether the host could open (and truncate) the file.\<close>

definition mkfs_main :: "nat \<Rightarrow> bool \<Rightarrow> mkst \<Rightarrow> (unit, mkst) outcome" where
  "mkfs_main argc opened s =
     (if argc < 2 then Inl (Exit 1)
      else if \<not> opened then Inl (Exit 1)
      else
        bnd (for_each [0..<FSSIZE] (\<lambda>i s.
               let (ok, s) = host_write (replicate BSIZE 0) s in if \<not> ok then Inl (Exit 1) else ret () s)
             (s\<lparr>f_img := (\<lambda>_. 0), f_len := 0, f_pos := 0\<rparr>)) (\<lambda>_ s.
        let s = mk_layout ((host_seek 0 s)\<lparr>mk_bitmap := replicate (FSSIZE div 8 + 1) 0\<rparr>) in
        bnd (for_each [0..<unat (freeblock s)] (\<lambda>i. balloc_mark (of_nat i)) s) (\<lambda>_ s.
        bnd (wsect 1 (sb_bytes (mk_sb s) @ replicate (BSIZE - 32) 0) s) (\<lambda>_ s.
        bnd (mk_ialloc T_DIR s) (\<lambda>rootino s.
        bnd (iappend rootino (mk_dirent rootino ''.'') s) (\<lambda>_ s.
        bnd (iappend rootino (mk_dirent rootino ''..'') s) (\<lambda>_ s.
        write_bitmap s)))))))"

section \<open>Sectors of the image\<close>

definition sectors :: "'a hfile_scheme \<Rightarrow> nat \<Rightarrow> u8 list" where
  "sectors s n = img_read (f_img s) (BSIZE * n) BSIZE"

definition io_frame :: "'a hfile_scheme \<Rightarrow> 'a hfile_scheme \<Rightarrow> bool" where
  "io_frame s s' \<longleftrightarrow> s' = s\<lparr>f_img := f_img s', f_pos := f_pos s'\<rparr>"

definition ready :: "'a hfile_scheme \<Rightarrow> bool" where
  "ready s \<longleftrightarrow> f_len s = BSIZE * FSSIZE \<and> BSIZE * FSSIZE \<le> f_cap s"

lemma io_frame_refl [simp]: "io_frame s s"
  by (simp add: io_frame_def)

lemma io_frame_trans: "io_frame s s' \<Longrightarrow> io_frame s' s'' \<Longrightarrow> io_frame s s''"
  by (cases s; cases s'; cases s''; simp add: io_frame_def)

lemma io_frameD:
  fixes s s' :: mkst
  assumes "io_frame s s'"
  shows "mk_sb s' = mk_sb s" "freeinode s' = freeinode s" "freeblock s' = freeblock s" "mk_bitmap s' = mk_bitmap s"
  using assms by (cases s; cases s'; simp add: io_frame_def)+

lemma io_frame_ready: "io_frame s s' \<Longrightarrow> ready s' = ready s"
  by (cases s; cases s'; simp add: io_frame_def ready_def)

lemma length_sectors [simp]: "length (sectors s n) = BSIZE"
  by (simp add: sectors_def img_read_def)

lemma img_read_write:
  assumes "length d = BSIZE"
  shows "img_read (img_write (BSIZE * k) d m) (BSIZE * n) BSIZE = (if n = k then d else img_read m (BSIZE * n) BSIZE)"
proof (rule nth_equalityI)
  show "length (img_read (img_write (BSIZE * k) d m) (BSIZE * n) BSIZE) = length (if n = k then d else img_read m (BSIZE * n) BSIZE)"
    using assms by (simp add: img_read_def)
  fix i assume "i < length (img_read (img_write (BSIZE * k) d m) (BSIZE * n) BSIZE)"
  then have i: "i < BSIZE" by (simp add: img_read_def)
  have "n = k" if "BSIZE * k \<le> BSIZE * n + i" "BSIZE * n + i < BSIZE * k + BSIZE"
  proof -
    have "(BSIZE * n + i) div BSIZE = n" using i by simp
    moreover have "(BSIZE * n + i) div BSIZE = k" by (rule div_nat_eqI) (use that in simp_all)
    ultimately show ?thesis by simp
  qed
  then show "img_read (img_write (BSIZE * k) d m) (BSIZE * n) BSIZE ! i = (if n = k then d else img_read m (BSIZE * n) BSIZE) ! i"
    using i assms by (auto simp: img_read_def img_write_def)
qed

lemma sector_offset: "unat k < FSSIZE \<Longrightarrow> unat (k * of_nat BSIZE :: u32) = BSIZE * unat k"
  by (simp add: unat_word_ariths FSSIZE_def BSIZE_def mult.commute)

lemma sector_end: "n < FSSIZE \<Longrightarrow> BSIZE * n + BSIZE \<le> BSIZE * FSSIZE"
  by (simp add: FSSIZE_def BSIZE_def)

lemma wsect_spec:
  assumes "ready s" and "unat k < FSSIZE" and "length buf = BSIZE"
  shows "\<exists>s'. wsect k buf s = Inr ((), s') \<and> io_frame s s' \<and> sectors s' = (sectors s)(unat k := buf)"
proof -
  let ?o = "BSIZE * unat k"
  let ?s = "s\<lparr>f_img := img_write ?o buf (f_img s), f_pos := ?o + BSIZE\<rparr>"
  have "?o + BSIZE \<le> f_len s" "?o + BSIZE \<le> f_cap s"
    using assms(1) sector_end [OF assms(2)] by (simp_all add: ready_def)
  then have "wsect k buf s = Inr ((), ?s)"
    using assms(3) by (cases s) (simp add: wsect_def host_write_def host_seek_def Let_def sector_offset [OF assms(2)] ret_def)
  moreover have "io_frame s ?s" by (simp add: io_frame_def)
  moreover have "sectors ?s = (sectors s)(unat k := buf)"
    by (rule ext) (simp add: sectors_def img_read_write [OF assms(3)])
  ultimately show ?thesis by blast
qed

lemma rsect_spec:
  assumes "ready s" and "unat k < FSSIZE"
  shows "\<exists>s'. rsect k s = Inr (sectors s (unat k), s') \<and> io_frame s s' \<and> sectors s' = sectors s"
proof -
  let ?o = "BSIZE * unat k" let ?s = "s\<lparr>f_pos := ?o + BSIZE\<rparr>"
  have "?o + BSIZE \<le> f_len s" using assms(1) sector_end [OF assms(2)] by (simp add: ready_def)
  then have "rsect k s = Inr (sectors s (unat k), ?s)"
    by (simp add: rsect_def host_read_def host_seek_def Let_def sector_offset [OF assms(2)] ret_def sectors_def img_read_def)
  moreover have "io_frame s ?s" by (cases s) (simp add: io_frame_def)
  moreover have "sectors ?s = sectors s" by (rule ext) (simp add: sectors_def)
  ultimately show ?thesis by blast
qed

lemma winode_spec:
  fixes s :: mkst
  assumes "ready s" and b: "unat (IBLOCK inum (mk_sb s)) < FSSIZE"
  shows "\<exists>s'. winode inum ip s = Inr ((), s') \<and> io_frame s s' \<and> sectors s' = (sectors s)(unat (IBLOCK inum (mk_sb s)) :=
    put_dinode (ioff inum) ip (sectors s (unat (IBLOCK inum (mk_sb s)))))"
proof -
  let ?b = "IBLOCK inum (mk_sb s)" let ?d = "put_dinode (ioff inum) ip (sectors s (unat ?b))"
  obtain s1 where r: "rsect ?b s = Inr (sectors s (unat ?b), s1)" "io_frame s s1" "sectors s1 = sectors s"
    using rsect_spec [OF assms] by blast
  have l: "length ?d = BSIZE" using put_dinode_spec(1) [of "ioff inum" "sectors s (unat ?b)" ip] ioff_bound [of inum] by simp
  have "ready s1" using assms(1) io_frame_ready [OF r(2)] by simp
  from wsect_spec [OF this b l] obtain s2 where "wsect ?b ?d s1 = Inr ((), s2)" "io_frame s1 s2" "sectors s2 = (sectors s)(unat ?b := ?d)"
    using r(3) by auto
  then show ?thesis using r io_frame_trans [OF r(2)] by (auto simp: winode_def Let_def)
qed

lemma rinode_spec:
  fixes s :: mkst
  assumes "ready s" and "unat (IBLOCK inum (mk_sb s)) < FSSIZE"
  shows "\<exists>s'. rinode inum s = Inr (dinode_at (ioff inum) (sectors s (unat (IBLOCK inum (mk_sb s)))), s') \<and>
    io_frame s s' \<and> sectors s' = sectors s"
  using rsect_spec [OF assms] by (auto simp: rinode_def ret_def)

lemma zero_loop:
  "n * BSIZE \<le> f_cap s \<Longrightarrow> f_img s = (\<lambda>_. 0) \<Longrightarrow> f_len s = 0 \<Longrightarrow> f_pos s = 0 \<Longrightarrow>
    for_each [0..<n] (\<lambda>i s. let (ok, s) = host_write (replicate BSIZE 0) s in if \<not> ok then Inl (Exit 1) else ret () s) s =
    Inr ((), s\<lparr>f_len := n * BSIZE, f_pos := n * BSIZE\<rparr>)"
proof (induction n)
  case 0
  then show ?case by (cases s) (simp add: ret_def)
next
  case (Suc n)
  have "img_write (n * BSIZE) (replicate BSIZE 0) (\<lambda>_. 0) = (\<lambda>_. 0)" by (auto simp: img_write_def fun_eq_iff)
  then show ?case using Suc by (cases s) (simp add: for_each_append host_write_def ret_def algebra_simps)
qed

lemma mark_loop:
  fixes s :: mkst
  assumes "length (mk_bitmap s) = FSSIZE div 8 + 1"
  shows "n \<le> FSSIZE \<Longrightarrow> \<exists>bm. for_each [0..<n] (\<lambda>i. balloc_mark (of_nat i)) s = Inr ((), s\<lparr>mk_bitmap := bm\<rparr>) \<and>
    length bm = FSSIZE div 8 + 1 \<and> (\<forall>b. bit_in_use bm b \<longleftrightarrow> b < n \<or> bit_in_use (mk_bitmap s) b)"
proof (induction n)
  case 0
  then show ?case using assms by (intro exI [of _ "mk_bitmap s"]) (simp add: ret_def)
next
  case (Suc n)
  then obtain bm where bm: "for_each [0..<n] (\<lambda>i. balloc_mark (of_nat i)) s = Inr ((), s\<lparr>mk_bitmap := bm\<rparr>)"
    "length bm = FSSIZE div 8 + 1" "\<forall>b. bit_in_use bm b \<longleftrightarrow> b < n \<or> bit_in_use (mk_bitmap s) b" by auto
  have n: "n < FSSIZE" using Suc.prems by simp
  have u: "unat (of_nat n :: u32) = n" using n by (simp add: unat_of_nat_small FSSIZE_def)
  have d: "n div 8 < length bm" using n bm(2) by (simp add: FSSIZE_def)
  note B = set_bit_spec [OF d]
  have step: "balloc_mark (of_nat n) (s\<lparr>mk_bitmap := bm\<rparr>) = Inr ((), s\<lparr>mk_bitmap := set_bit_in n bm\<rparr>)"
    using d bm(2) u by (simp add: balloc_mark_def ret_def)
  show ?case using bm B
    by (intro exI [of _ "set_bit_in n bm"]) (auto simp: for_each_append bm(1) step ret_def)
qed

text \<open>Appending data that ends in the block where the file ends.\<close>

lemma alloc_step:
  fixes s :: mkst
  assumes "length (mk_bitmap s) = FSSIZE div 8 + 1" and "unat (freeblock s) < FSSIZE"
  shows "mk_balloc s = Inr (freeblock s, s\<lparr>freeblock := freeblock s + 1, mk_bitmap := set_bit_in (unat (freeblock s)) (mk_bitmap s)\<rparr>)"
  using assms by (simp add: mk_balloc_def balloc_mark_def Let_def ret_def FSSIZE_def)

lemma iappend_within:
  fixes s :: mkst
  defines "ib \<equiv> \<lambda>inum. unat (IBLOCK inum (mk_sb s))"
  assumes rd: "ready s" and ib: "ib inum < FSSIZE" and bm: "length (mk_bitmap s) = FSSIZE div 8 + 1"
    and din: "din = dinode_at (ioff inum) (sectors s (ib inum))"
    and sz: "unat (d_size din) = BSIZE * bn + o'" and bn: "bn < NDIRECT" and ne: "data \<noteq> []" and fits: "o' + length data \<le> BSIZE"
    and a: "a = (if d_addrs din bn = 0 then freeblock s else d_addrs din bn)" and ab: "unat a < FSSIZE" "unat a \<noteq> ib inum"
  shows "\<exists>s'. iappend inum data s = Inr ((), s') \<and> ready s' \<and> mk_sb s' = mk_sb s \<and> freeinode s' = freeinode s \<and>
    freeblock s' = (if d_addrs din bn = 0 then freeblock s + 1 else freeblock s) \<and>
    mk_bitmap s' = (if d_addrs din bn = 0 then set_bit_in (unat a) (mk_bitmap s) else mk_bitmap s) \<and>
    sectors s' = (sectors s)(unat a := splice o' data (sectors s (unat a)), ib inum := put_dinode (ioff inum)
      (din\<lparr>d_size := d_size din + of_nat (length data), d_addrs := (d_addrs din)(bn := a)\<rparr>) (sectors s (ib inum)))"
proof -
  have ib': "unat (IBLOCK inum (mk_sb s)) < FSSIZE" using ib by (simp add: ib_def)
  obtain s1 where s1: "rinode inum s = Inr (din, s1)" "io_frame s s1" "sectors s1 = sectors s"
    using rinode_spec [OF rd ib'] by (auto simp: din ib_def)
  note F1 = io_frameD [OF s1(2)]
  have rd1: "ready s1" using rd io_frame_ready [OF s1(2)] by simp
  let ?e = "din\<lparr>d_addrs := (d_addrs din)(bn := a)\<rparr>"
  obtain s2 where s2: "(if d_addrs din bn = 0 then bnd (mk_balloc s1) (\<lambda>b. ret (din\<lparr>d_addrs := (d_addrs din)(bn := b)\<rparr>)) else ret din s1) =
      Inr (?e, s2)" "ready s2" "sectors s2 = sectors s" "mk_sb s2 = mk_sb s" "freeinode s2 = freeinode s"
    "freeblock s2 = (if d_addrs din bn = 0 then freeblock s + 1 else freeblock s)"
    "mk_bitmap s2 = (if d_addrs din bn = 0 then set_bit_in (unat a) (mk_bitmap s) else mk_bitmap s)"
  proof (cases "d_addrs din bn = 0")
    case True
    let ?s2 = "s1\<lparr>freeblock := freeblock s1 + 1, mk_bitmap := set_bit_in (unat (freeblock s1)) (mk_bitmap s1)\<rparr>"
    have m: "mk_balloc s1 = Inr (freeblock s1, ?s2)" by (rule alloc_step) (use bm ab a True in \<open>simp_all add: F1\<close>)
    have "ready ?s2" "sectors ?s2 = sectors s" using rd1 s1(3) by (simp_all add: ready_def sectors_def fun_eq_iff)
    with True m a show ?thesis by (intro that [of ?s2]) (simp_all add: F1 ret_def)
  next
    case False
    then have "?e = din" using a by (cases din) simp
    then show ?thesis using that [of s1] False rd1 s1(3) F1 by (simp add: ret_def)
  qed
  have od: "unat (d_size din div of_nat BSIZE) = bn" "unat (d_size din mod of_nat BSIZE) = o'"
  proof -
    have "o' < BSIZE" using fits ne by (cases data) simp_all
    then have "(BSIZE * bn + o') div BSIZE = bn" "(BSIZE * bn + o') mod BSIZE = o'" by simp_all
    then show "unat (d_size din div of_nat BSIZE) = bn" "unat (d_size din mod of_nat BSIZE) = o'"
      using sz by (simp_all add: unat_div_distrib unat_mod_distrib) (simp_all add: BSIZE_def)
  qed
  obtain s3 where s3: "rsect a s2 = Inr (sectors s2 (unat a), s3)" "io_frame s2 s3" "sectors s3 = sectors s2"
    using rsect_spec [OF s2(2) ab(1)] by blast
  let ?d = "splice o' data (sectors s (unat a))"
  have l: "length ?d = BSIZE" using fits by (simp add: splice_def)
  have rd3: "ready s3" using s2(2) io_frame_ready [OF s3(2)] by simp
  obtain s4 where s4: "wsect a ?d s3 = Inr ((), s4)" "io_frame s3 s4" "sectors s4 = (sectors s)(unat a := ?d)"
    using wsect_spec [OF rd3 ab(1) l] s3(3) s2(3) by auto
  have m: "min (BSIZE - o') (length data) = length data" using fits by simp
  have nn: "\<not> NDIRECT \<le> bn" using bn by simp
  let ?off = "d_size din + of_nat (length data)"
  have "iappend_loop din (d_size din) data s1 = iappend_loop ?e ?off [] s4"
    by (subst iappend_loop.simps) (simp add: ne od nn s2(1) s3(1) s4(1) s2(3) m Let_def del: fun_upd_apply, simp add: s3(1) s4(1) s2(3))
  then have loop: "iappend_loop din (d_size din) data s1 = Inr ((?e, ?off), s4)" by (simp add: iappend_loop.simps ret_def)
  note F4 = io_frameD [OF io_frame_trans [OF s3(2) s4(2)]]
  have rd4: "ready s4" using rd3 io_frame_ready [OF s4(2)] by simp
  have ib4: "unat (IBLOCK inum (mk_sb s4)) < FSSIZE" using ib' by (simp add: F4 s2(4))
  obtain s5 where s5: "winode inum (?e\<lparr>d_size := ?off\<rparr>) s4 = Inr ((), s5)" "io_frame s4 s5"
    "sectors s5 = (sectors s4)(ib inum := put_dinode (ioff inum) (?e\<lparr>d_size := ?off\<rparr>) (sectors s4 (ib inum)))"
    using winode_spec [OF rd4 ib4] by (auto simp: F4 s2(4) ib_def)
  have e: "?e\<lparr>d_size := ?off\<rparr> = din\<lparr>d_size := ?off, d_addrs := (d_addrs din)(bn := a)\<rparr>" by simp
  have "iappend inum data s = Inr ((), s5)" using s1(1) loop s5(1) by (simp add: iappend_def)
  moreover have "sectors s5 = (sectors s)(unat a := ?d, ib inum := put_dinode (ioff inum)
      (din\<lparr>d_size := ?off, d_addrs := (d_addrs din)(bn := a)\<rparr>) (sectors s (ib inum)))"
    unfolding s5(3) e s4(3) using ab(2) by simp
  moreover have "ready s5" using rd4 io_frame_ready [OF s5(2)] by simp
  ultimately show ?thesis using io_frameD [OF s5(2)] F4 s2(4-7) by (intro exI [of _ s5]) simp
qed

lemma zero_loop_full:
  "f_cap s < n * BSIZE \<Longrightarrow> f_img s = (\<lambda>_. 0) \<Longrightarrow> f_len s = 0 \<Longrightarrow> f_pos s = 0 \<Longrightarrow>
    for_each [0..<n] (\<lambda>i s. let (ok, s) = host_write (replicate BSIZE 0) s in if \<not> ok then Inl (Exit 1) else ret () s) s = Inl (Exit 1)"
proof (induction n)
  case 0
  then show ?case by simp
next
  case (Suc n)
  show ?case
  proof (cases "f_cap s < n * BSIZE")
    case True
    then show ?thesis using Suc by (simp add: for_each_append)
  next
    case False
    then show ?thesis using Suc zero_loop [of n s] by (simp add: for_each_append host_write_def algebra_simps)
  qed
qed

section \<open>The image\<close>

text \<open>The layout: log in blocks 2 to 31, inodes in 32 to 44, bitmap in 45, data from 46.\<close>

definition mkfs_sb :: superblock where
  "mkfs_sb = \<lparr>sb_magic = FSMAGIC, sb_size = 1000, sb_nblocks = 954, sb_ninodes = 200, sb_nlog = 30, sb_logstart = 2,
     sb_inodestart = 32, sb_bmapstart = 45\<rparr>"

lemma mk_layout_eq: "mk_layout s = s\<lparr>freeblock := 46, mk_sb := mkfs_sb\<rparr>"
  by (simp add: mk_layout_def mkfs_sb_def IPB_def BPB_def BSIZE_def FSSIZE_def)

lemma superblock_of_bytes: "superblock_of (sb_bytes sb @ d) = sb"
  by (cases sb) (simp add: superblock_of_def sb_bytes_def get_field_def le_word_le_bytes)

definition root_dinode :: dinode where
  "root_dinode = \<lparr>d_type = T_DIR, d_major = 0, d_minor = 0, d_nlink = 1, d_size = 32, d_addrs = (\<lambda>_. 0)(0 := 46)\<rparr>"

definition root_entries :: "u8 list" where
  "root_entries = mk_dirent 1 ''.'' @ mk_dirent 1 ''..''"

lemma length_mk_dirent: "length name \<le> DIRSIZ \<Longrightarrow> length (mk_dirent inum name) = 16"
  by (simp add: mk_dirent_def cstr_def DIRSIZ_def)

lemma bitmap_sector:
  assumes "b < BPB" and "length bm = FSSIZE div 8 + 1"
  shows "bit_in_use (map (\<lambda>j. if j < FSSIZE div 8 + 1 then bm ! j else 0) [0..<BSIZE]) b \<longleftrightarrow>
    b div 8 < FSSIZE div 8 + 1 \<and> bit_in_use bm b"
proof -
  have "b div 8 < BSIZE" using bit_position assms(1) .
  then show ?thesis by (auto simp: bit_in_use_iff)
qed

text \<open>What the program leaves, sector by sector.\<close>

definition image_ok :: "(nat \<Rightarrow> u8 list) \<Rightarrow> bool" where
  "image_ok sec \<longleftrightarrow> superblock_of (sec 1) = mkfs_sb \<and> (\<forall>b < BPB. bit_in_use (sec 45) b \<longleftrightarrow> b < 47) \<and>
     same_dinode (dinode_at 64 (sec 32)) root_dinode \<and>
     (\<forall>i < 16. i \<noteq> 1 \<longrightarrow> d_type (dinode_at (64 * i) (sec 32)) = 0) \<and>
     sec 46 = root_entries @ replicate (BSIZE - 32) 0 \<and>
     (\<forall>k < FSSIZE. k \<notin> {1, 32, 45, 46} \<longrightarrow> sec k = replicate BSIZE 0)"

lemma small_div: "b div 8 < 126 \<longleftrightarrow> b < 1008" for b :: nat
  by auto

lemma zero_bits: "b < 1008 \<Longrightarrow> \<not> bit_in_use (replicate 126 0) b"
  by (simp add: bit_in_use_def)

abbreviation zeros :: "u8 list" where "zeros \<equiv> replicate BSIZE 0"

definition new_dir :: dinode where
  "new_dir = \<lparr>d_type = T_DIR, d_major = 0, d_minor = 0, d_nlink = 1, d_size = 0, d_addrs = (\<lambda>_. 0)\<rparr>"

lemma inode_1: "IBLOCK 1 mkfs_sb = 32" "ioff 1 = 64"
  by (simp_all add: IBLOCK_def mkfs_sb_def IPB_def BSIZE_def ioff_def)

lemma image_numbers: "FSSIZE div 8 + 1 = 126" "[0..<FSSIZE div BPB + 1] = [0]"
  by (simp_all add: FSSIZE_def BPB_def BSIZE_def)

text \<open>The state in which the program starts to fill the root directory.\<close>

definition rooted :: "u8 list \<Rightarrow> mkst \<Rightarrow> bool" where
  "rooted bm s \<longleftrightarrow> ready s \<and> mk_sb s = mkfs_sb \<and> freeblock s = 46 \<and> mk_bitmap s = bm \<and> length bm = 126 \<and>
     (\<forall>b < 1008. bit_in_use bm b \<longleftrightarrow> b < 46) \<and>
     sectors s = (\<lambda>_. zeros)(1 := sb_bytes mkfs_sb @ replicate (BSIZE - 32) 0, 32 := put_dinode 64 new_dir zeros)"

lemma mkfs_start:
  fixes s :: mkst
  assumes cap: "BSIZE * FSSIZE \<le> f_cap s" and fi: "freeinode s = 1" and argc: "2 \<le> argc"
  shows "\<exists>bm s5. rooted bm s5 \<and> mkfs_main argc True s = bnd (iappend 1 (mk_dirent 1 ''.'') s5) (\<lambda>_ s.
    bnd (iappend 1 (mk_dirent 1 ''..'') s) (\<lambda>_ s. write_bitmap s))"
proof -
  note F = image_numbers
  let ?s0 = "s\<lparr>f_img := (\<lambda>_. 0), f_len := 0, f_pos := 0\<rparr>"
  let ?s1 = "?s0\<lparr>f_len := FSSIZE * BSIZE, f_pos := FSSIZE * BSIZE\<rparr>"
  have l0: "for_each [0..<FSSIZE] (\<lambda>i s. let (ok, s) = host_write zeros s in if \<not> ok then Inl (Exit 1) else ret () s) ?s0 =
    Inr ((), ?s1)" by (rule zero_loop) (use cap in \<open>simp_all add: mult.commute\<close>)
  define t where "t = mk_layout ((host_seek 0 ?s1)\<lparr>mk_bitmap := replicate (FSSIZE div 8 + 1) 0\<rparr>)"
  have t: "ready t" "mk_sb t = mkfs_sb" "freeblock t = 46" "freeinode t = 1" "sectors t = (\<lambda>_. zeros)"
    using cap fi by (simp_all add: t_def mk_layout_eq ready_def host_seek_def sectors_def fun_eq_iff img_read_def map_replicate_const)
  have bt: "mk_bitmap t = replicate 126 0" unfolding t_def F(1) by (simp add: mk_layout_eq)
  have fb: "unat (freeblock t) = 46" by (simp only: t(3)) simp
  have lb: "length (mk_bitmap t) = FSSIZE div 8 + 1" unfolding F(1) bt by simp
  have "46 \<le> FSSIZE" by (simp add: FSSIZE_def)
  from mark_loop [OF lb this, unfolded F(1) bt] obtain bm where
    bm: "for_each [0..<46] (\<lambda>i. balloc_mark (of_nat i)) t = Inr ((), t\<lparr>mk_bitmap := bm\<rparr>)"
    "length bm = 126" "\<forall>b. bit_in_use bm b \<longleftrightarrow> b < 46 \<or> bit_in_use (replicate 126 0) b" by blast
  let ?s3 = "t\<lparr>mk_bitmap := bm\<rparr>"
  have s3: "ready ?s3" "mk_sb ?s3 = mkfs_sb" "freeblock ?s3 = 46" "freeinode ?s3 = 1" "mk_bitmap ?s3 = bm" "sectors ?s3 = (\<lambda>_. zeros)"
    using t by (simp_all add: ready_def sectors_def fun_eq_iff)
  let ?sb = "sb_bytes mkfs_sb @ replicate (BSIZE - 32) 0"
  have lsb: "length ?sb = BSIZE" by (simp add: sb_bytes_def BSIZE_def)
  have u1: "unat (1 :: u32) < FSSIZE" by (simp add: FSSIZE_def)
  from wsect_spec [OF s3(1) u1 lsb] obtain s4 where w4: "wsect 1 ?sb ?s3 = Inr ((), s4)"
    "io_frame ?s3 s4" "sectors s4 = (\<lambda>_. zeros)(1 := ?sb)" unfolding s3(6) by auto
  have s4: "ready s4" "mk_sb s4 = mkfs_sb" "freeblock s4 = 46" "freeinode s4 = 1" "mk_bitmap s4 = bm"
    using s3 io_frameD [OF w4(2)] io_frame_ready [OF w4(2)] by simp_all
  let ?s4 = "s4\<lparr>freeinode := 2\<rparr>"
  have rs4: "ready ?s4" "unat (IBLOCK 1 (mk_sb ?s4)) < FSSIZE" "sectors ?s4 = sectors s4"
    using s4 inode_1 by (simp_all add: ready_def FSSIZE_def sectors_def fun_eq_iff)
  from winode_spec [OF rs4(1,2), of new_dir] obtain s5 where w5: "winode 1 new_dir ?s4 = Inr ((), s5)" "io_frame ?s4 s5"
    "sectors s5 = (sectors s4)(32 := put_dinode 64 new_dir zeros)" using s4(2) w4(3) inode_1 rs4(3) by auto
  have "rooted bm s5" using s4 rs4(1) io_frameD [OF w5(2)] io_frame_ready [OF w5(2)] bm(2,3) zero_bits w5(3) w4(3)
    by (simp add: rooted_def)
  moreover have "mk_ialloc T_DIR s4 = Inr (1, s5)" using w5(1) s4(4) by (simp add: mk_ialloc_def Let_def ret_def new_dir_def)
  moreover have "mkfs_main argc True s = bnd (for_each [0..<unat (freeblock t)] (\<lambda>i. balloc_mark (of_nat i)) t) (\<lambda>_ s.
        bnd (wsect 1 (sb_bytes (mk_sb s) @ replicate (BSIZE - 32) 0) s) (\<lambda>_ s.
        bnd (mk_ialloc T_DIR s) (\<lambda>rootino s.
        bnd (iappend rootino (mk_dirent rootino ''.'') s) (\<lambda>_ s.
        bnd (iappend rootino (mk_dirent rootino ''..'') s) (\<lambda>_ s.
        write_bitmap s)))))"
    using argc unfolding mkfs_main_def l0 bnd_Inr by (simp add: Let_def t_def)
  ultimately show ?thesis using bm(1) w4(1) s3(2) by (intro exI [of _ bm] exI [of _ s5]) (simp add: fb)
qed

lemma put_new_dir:
  assumes d: "d = dinode_at 64 (put_dinode 64 new_dir zeros)"
  shows "d_size d = 0" "d_addrs d 0 = 0" "same_dinode d new_dir"
proof -
  have "64 + 64 \<le> length zeros" by (simp add: BSIZE_def)
  then show S: "same_dinode d new_dir" unfolding d by (rule put_dinode_spec(2))
  show "d_size d = 0" "d_addrs d 0 = 0" using S by (simp_all add: same_dinode_def new_dir_def)
qed

text \<open>Appending one directory entry to the root, whose block is block 46.\<close>

lemma append_entry:
  fixes s :: mkst
  assumes s: "ready s" "mk_sb s = mkfs_sb" "length (mk_bitmap s) = 126" "freeblock s = (if first then 46 else 47)"
    and din: "din = dinode_at 64 (sectors s 32)" and sz: "d_size din = of_nat o'" "o' = (if first then 0 else 16)"
    and a: "d_addrs din 0 = (if first then 0 else 46)" and l: "length e = 16"
  shows "\<exists>s'. iappend 1 e s = Inr ((), s') \<and> ready s' \<and> mk_sb s' = mkfs_sb \<and> freeblock s' = 47 \<and>
    mk_bitmap s' = (if first then set_bit_in 46 (mk_bitmap s) else mk_bitmap s) \<and>
    sectors s' = (sectors s)(46 := splice o' e (sectors s 46), 32 := put_dinode 64
      (din\<lparr>d_size := of_nat (o' + 16), d_addrs := (d_addrs din)(0 := 46)\<rparr>) (sectors s 32))"
proof -
  have ib: "unat (IBLOCK 1 (mk_sb s)) = 32" by (simp add: s(2) inode_1)
  have 1: "unat (IBLOCK 1 (mk_sb s)) < FSSIZE" "length (mk_bitmap s) = FSSIZE div 8 + 1"
    "din = dinode_at (ioff 1) (sectors s (unat (IBLOCK 1 (mk_sb s))))" "unat (d_size din) = BSIZE * 0 + o'"
    using s(3) din sz by (simp_all add: ib inode_1 FSSIZE_def)
  have 2: "0 < NDIRECT" "e \<noteq> []" "o' + length e \<le> BSIZE" using l sz(2) by (auto simp: NDIRECT_def BSIZE_def)
  have 3: "(46 :: u32) = (if d_addrs din 0 = 0 then freeblock s else d_addrs din 0)" using s(4) a by simp
  have 4: "unat (46 :: u32) < FSSIZE" "unat (46 :: u32) \<noteq> unat (IBLOCK 1 (mk_sb s))" by (simp add: FSSIZE_def) (simp add: ib)
  have n: "d_size din + of_nat (length e) = of_nat (o' + 16)" by (simp add: sz(1) l)
  show ?thesis using iappend_within [OF s(1) 1 2 3 4, unfolded n ib inode_1] s(2,4) a by (cases first) auto
qed

text \<open>The bitmap is written as the blocks it marks.\<close>

lemma write_bitmap_spec:
  assumes "ready s" and "mk_sb s = mkfs_sb" and "length (mk_bitmap s) = 126"
  shows "\<exists>s'. write_bitmap s = Inr ((), s') \<and> ready s' \<and>
    sectors s' = (sectors s)(45 := map (\<lambda>j. if j < 126 then mk_bitmap s ! j else 0) [0..<BSIZE])"
proof -
  let ?d = "map (\<lambda>j. if j < 126 then mk_bitmap s ! j else 0) [0..<BSIZE]"
  have b: "unat (45 :: u32) < FSSIZE" by (simp add: FSSIZE_def)
  obtain s' where w: "wsect 45 ?d s = Inr ((), s')" "io_frame s s'" "sectors s' = (sectors s)(45 := ?d)"
    using wsect_spec [OF assms(1) b, of ?d] by auto
  have "min BSIZE 126 = 126" by (simp add: BSIZE_def)
  then have "write_bitmap s = Inr ((), s')"
    unfolding write_bitmap_def image_numbers using w(1) assms(2) by (simp add: mkfs_sb_def ret_def cong: if_cong)
  then show ?thesis using w assms(1) io_frame_ready [OF w(2)] by auto
qed

lemma splice_entries:
  assumes "length e1 = 16" and "length e2 = 16"
  shows "splice 16 e2 (splice 0 e1 zeros) = e1 @ e2 @ replicate (BSIZE - 32) 0"
  using assms by (simp add: splice_def BSIZE_def)

lemma same_dinode_upd:
  "same_dinode a b \<Longrightarrow> same_dinode (a\<lparr>d_size := n, d_addrs := (d_addrs a)(k := x)\<rparr>) (b\<lparr>d_size := n, d_addrs := (d_addrs b)(k := x)\<rparr>)"
  by (simp add: same_dinode_def)

lemma same_dinode_sym: "same_dinode a b \<Longrightarrow> same_dinode b a"
  by (simp add: same_dinode_def)

lemma same_dinode_refl [simp]: "same_dinode a a"
  by (simp add: same_dinode_def)

lemma root_filled:
  assumes "rooted bm s"
  shows "\<exists>s'. bnd (iappend 1 (mk_dirent 1 ''.'') s) (\<lambda>_ s. bnd (iappend 1 (mk_dirent 1 ''..'') s) (\<lambda>_ s. write_bitmap s)) = Inr ((), s') \<and>
    ready s' \<and> image_ok (sectors s')"
proof -
  note R = assms [unfolded rooted_def]
  let ?e1 = "mk_dirent 1 ''.''" and ?e2 = "mk_dirent 1 ''..''"
  have le: "length ?e1 = 16" "length ?e2 = 16" by (simp_all add: length_mk_dirent DIRSIZ_def)
  let ?z1 = "put_dinode 64 new_dir zeros"
  define d5 where "d5 = dinode_at 64 ?z1"
  note D5 = put_new_dir [OF d5_def]
  have sec: "sectors s 32 = ?z1" "sectors s 46 = zeros" using R by simp_all
  have l1: "64 + 64 \<le> length ?z1" "length ?z1 = BSIZE"
    using put_dinode_spec(1) [of 64 zeros new_dir] by (simp_all add: BSIZE_def)
  obtain s6 where s6: "iappend 1 ?e1 s = Inr ((), s6)" "ready s6" "mk_sb s6 = mkfs_sb" "freeblock s6 = 47"
    "mk_bitmap s6 = set_bit_in 46 bm" "sectors s6 = (sectors s)(46 := splice 0 ?e1 zeros,
       32 := put_dinode 64 (d5\<lparr>d_size := 16, d_addrs := (d_addrs d5)(0 := 46)\<rparr>) ?z1)"
    using append_entry [of s True d5 0 ?e1] R D5 le sec by (auto simp: d5_def)
  let ?d5 = "d5\<lparr>d_size := 16, d_addrs := (d_addrs d5)(0 := 46)\<rparr>" let ?z2 = "put_dinode 64 ?d5 ?z1"
  have l2: "64 + 64 \<le> length ?z2" using put_dinode_spec(1) [OF l1(1), of ?d5] l1 by simp
  define d6 where "d6 = dinode_at 64 ?z2"
  have D6: "same_dinode d6 ?d5" unfolding d6_def by (rule put_dinode_spec(2) [OF l1(1)])
  have lb: "length (mk_bitmap s6) = 126" using R by (simp add: s6(5) set_bit_in_def)
  have sec6: "sectors s6 32 = ?z2" "sectors s6 46 = splice 0 ?e1 zeros" by (simp_all add: s6(6))
  have D6': "d_size d6 = 16" "d_addrs d6 0 = 46" using D6 by (simp_all add: same_dinode_def)
  obtain s7 where s7: "iappend 1 ?e2 s6 = Inr ((), s7)" "ready s7" "mk_sb s7 = mkfs_sb" "mk_bitmap s7 = mk_bitmap s6"
    "sectors s7 = (sectors s6)(46 := splice 16 ?e2 (splice 0 ?e1 zeros),
       32 := put_dinode 64 (d6\<lparr>d_size := 32, d_addrs := (d_addrs d6)(0 := 46)\<rparr>) ?z2)"
    using append_entry [of s6 False d6 16 ?e2] s6(2-4) lb D6' le sec6 by (auto simp: d6_def)
  let ?d6 = "d6\<lparr>d_size := 32, d_addrs := (d_addrs d6)(0 := 46)\<rparr>"
  obtain s8 where s8: "write_bitmap s7 = Inr ((), s8)" "ready s8"
    "sectors s8 = (sectors s7)(45 := map (\<lambda>j. if j < 126 then mk_bitmap s7 ! j else 0) [0..<BSIZE])"
    using write_bitmap_spec [OF s7(2,3)] lb s7(4) by auto
  have root: "same_dinode (dinode_at 64 (sectors s8 32)) root_dinode"
  proof -
    have "sectors s8 32 = put_dinode 64 ?d6 ?z2" by (simp add: s8(3) s7(5))
    then have "same_dinode (dinode_at 64 (sectors s8 32)) ?d6" using put_dinode_spec(2) [OF l2, of ?d6] by simp
    moreover have "same_dinode ?d6 root_dinode"
      using D6 D5(3) by (simp add: same_dinode_def root_dinode_def new_dir_def)
    ultimately show ?thesis by (rule same_dinode_trans)
  qed
  have others: "d_type (dinode_at (64 * i) (sectors s8 32)) = 0" if i: "i < 16" "i \<noteq> 1" for i
  proof -
    have o: "64 * i + 64 \<le> (64 :: nat) \<or> (64 :: nat) + 64 \<le> 64 * i" using i by linarith
    have z: "64 + 64 \<le> length zeros" by (simp add: BSIZE_def)
    have "same_dinode (dinode_at (64 * i) (sectors s8 32)) (dinode_at (64 * i) zeros)"
      using put_dinode_spec(3) [OF l2 o, of ?d6] put_dinode_spec(3) [OF l1(1) o, of ?d5] put_dinode_spec(3) [OF z o, of new_dir]
      by (simp add: s8(3) s7(5)) (blast intro: same_dinode_trans)
    moreover have "d_type (dinode_at (64 * i) zeros) = 0" using i by (simp add: dinode_at_def get_field_zeros BSIZE_def)
    ultimately show ?thesis by (simp add: same_dinode_def)
  qed
  have bits: "bit_in_use (sectors s8 45) b \<longleftrightarrow> b < 47" if b: "b < BPB" for b
  proof -
    have p: "46 div 8 < length bm" using R by simp
    have "bit_in_use (sectors s8 45) b \<longleftrightarrow> b div 8 < 126 \<and> bit_in_use (set_bit_in 46 bm) b"
      using bitmap_sector [OF b, unfolded image_numbers, of "mk_bitmap s7"] lb by (simp add: s8(3) s7(4) s6(5))
    then show ?thesis using R set_bit_spec(1) [OF p, of b] by (auto simp: small_div)
  qed
  have "image_ok (sectors s8)"
    using root others bits le R by (auto simp: image_ok_def superblock_of_bytes root_entries_def splice_entries s8(3) s7(5) s6(6))
  then show ?thesis using s6(1) s7(1) s8(1,2) by auto
qed

lemma mkfs_spec:
  assumes "freeinode s = 1"
  shows "if argc < 2 \<or> \<not> opened \<or> f_cap s < BSIZE * FSSIZE then mkfs_main argc opened s = Inl (Exit 1)
    else \<exists>s'. mkfs_main argc opened s = Inr ((), s') \<and> f_len s' = BSIZE * FSSIZE \<and> image_ok (sectors s')"
proof (cases "argc < 2 \<or> \<not> opened \<or> f_cap s < BSIZE * FSSIZE")
  case True
  then show ?thesis using zero_loop_full [of "s\<lparr>f_img := (\<lambda>_. 0), f_len := 0, f_pos := 0\<rparr>" FSSIZE]
    by (auto simp: mkfs_main_def mult.commute)
next
  case False
  then obtain bm s5 where r: "rooted bm s5" "mkfs_main argc opened s = bnd (iappend 1 (mk_dirent 1 ''.'') s5) (\<lambda>_ s.
    bnd (iappend 1 (mk_dirent 1 ''..'') s) (\<lambda>_ s. write_bitmap s))"
    using mkfs_start [of s argc] assms by auto
  then show ?thesis using root_filled [OF r(1)] False by (auto simp: ready_def)
qed

text \<open>
  C22. Given room for 1000 blocks, \<open>mkfs\<close> succeeds and the image is a file system of 1000 blocks: superblock with
  the log in blocks 2 to 31, the inode table from block 32 and the bitmap in block 45; blocks 0 to 46 marked in
  use; inode 1 a directory of two entries, "." and "..", in block 46; every other inode free, every other block zero.
  With less room, or without its argument, it stops with exit code 1.
\<close>

theorem mkfs_writes_image:
  assumes "freeinode s = 1"
  shows "if argc < 2 \<or> \<not> opened \<or> f_cap s < BSIZE * FSSIZE then mkfs_main argc opened s = Inl (Exit 1)
    else \<exists>s'. mkfs_main argc opened s = Inr ((), s') \<and> f_len s' = BSIZE * FSSIZE \<and> image_ok (sectors s')"
  by (rule mkfs_spec [OF assms])

definition host_boot :: mkst where
  "host_boot = \<lparr>f_img = (\<lambda>_. 0), f_len = 0, f_pos = 0, f_cap = 2000000, mk_sb = mkfs_sb, freeinode = 1, freeblock = 0, mk_bitmap = []\<rparr>"

theorem mkfs_writes_image_witness:
  "\<exists>s'. mkfs_main 2 True host_boot = Inr ((), s') \<and> image_ok (sectors s')"
  using mkfs_writes_image [of host_boot 2 True] by (auto simp: host_boot_def BSIZE_def FSSIZE_def)

end
