(* ===== verification/FsMount.thy ===== *)
theory FsMount
  imports Mkfs
begin

text \<open>
  Mounting: \<open>fsinit\<close> reads the superblock, checks it, recovers the log and clears the cache of inodes. On the
  image that mkfs.c writes the kernel gets a file system that satisfies everything the theorems on blocks,
  inodes and files ask of it.
\<close>

section \<open>What the steps of mounting leave alone\<close>

lemma bcache_more [simp]:
  "bcache.more (set_next p q s) = bcache.more s" "bcache.more (set_prev p q s) = bcache.more s"
  "bcache.more (link_front b s) = bcache.more s" "bcache.more (upd_buf b f s) = bcache.more s"
  "bcache.more (binit_step b s) = bcache.more s"
proof -
  show n: "bcache.more (set_next p q s) = bcache.more s" for p q and s :: "'x bcache_scheme" by (cases p) (simp_all add: set_next.simps)
  show p: "bcache.more (set_prev p q s) = bcache.more s" for p q and s :: "'x bcache_scheme" by (cases p) (simp_all add: set_prev.simps)
  show l: "bcache.more (link_front b s) = bcache.more s" for b and s :: "'x bcache_scheme" by (simp add: link_front_def Let_def n p)
  show u: "bcache.more (upd_buf b f s) = bcache.more s" for b f and s :: "'x bcache_scheme" by (simp add: upd_buf_def)
  show "bcache.more (binit_step b s) = bcache.more s" by (simp add: binit_step_def l u)
qed

lemma binit_more: "binit s = Inr ((), s') \<Longrightarrow> bcache.more s' = bcache.more s"
proof -
  have f: "bcache.more (fold binit_step xs t) = bcache.more t" for xs and t :: "'a bcache_scheme"
    by (induction xs arbitrary: t) simp_all
  show "binit s = Inr ((), s') \<Longrightarrow> bcache.more s' = bcache.more s"
    by (auto simp: binit_def Let_def printf_spec f bnd_eq_Inr split: option.splits)
qed

lemma bcache_moreD:
  fixes s s' :: "'a fsst_scheme"
  assumes "bcache.more s' = bcache.more s"
  shows "lg_outstanding s' = lg_outstanding s" "lg_committing s' = lg_committing s"
  using assms by (cases s; cases s'; simp)+

lemma logst_moreD:
  fixes s s' :: "'a fsst_scheme"
  assumes "logst.more s' = logst.more s"
  shows "fs_sb s' = fs_sb s" "icache s' = icache s" "fsst.more s' = fsst.more s"
  using assms by (cases s; cases s'; simp)+

lemma bc_frame_fs:
  fixes s s' :: "'a fsst_scheme"
  assumes "bc_frame s s'"
  shows "fs_sb s' = fs_sb s" "icache s' = icache s" and bc_frame_more: "fsst.more s' = fsst.more s"
  using logst_moreD [OF bc_frame_log(11) [OF assms]] by simp_all

section \<open>The superblock\<close>

lemma fs_sb_view [simp]:
  fixes s :: "'a fsst_scheme"
  shows "bc_ok (s\<lparr>fs_sb := x\<rparr>) = bc_ok s" "cview (s\<lparr>fs_sb := x\<rparr>) = cview s" "holds (s\<lparr>fs_sb := x\<rparr>) = holds s"
  using same_cache [of "s\<lparr>fs_sb := x\<rparr>" s] by simp_all

lemma readsb_spec:
  fixes s :: "'a fsst_scheme"
  assumes hw: "virtio_blk hw" and ok: "bc_ok s" and clean: "pinned (cview s) = {}"
  shows "\<exists>s'. readsb hw 0 s = Inr ((), s') \<and> bc_ok s' \<and> cview s' = cview s \<and>
    fs_sb s' = superblock_of (medium (cview s) 1) \<and> lg_outstanding s' = lg_outstanding s \<and> lg_committing s' = lg_committing s \<and>
    fsst.more s' = fsst.more s \<and> kept s s'"
proof -
  let ?d = "medium (cview s) 1" and ?g = "\<lambda>d s :: 'a fsst_scheme. s\<lparr>fs_sb := superblock_of d\<rparr>"
  have okh: "virtio_blk hw \<and> bc_ok s" using hw ok ..
  have us: "usable 1" by (simp add: usable_def small_block_def)
  note R = clean_room [OF ok clean]
  have g: "(virtio_blk hw \<and> bc_ok (?g ?d t)) \<and> cview (?g ?d t) = cview t \<and> holds (?g ?d t) = holds t"
    if "virtio_blk hw \<and> bc_ok t" for t :: "'a fsst_scheme" using that by simp
  have d: "?d = content (cview s) 1" by (simp add: clean_content [OF ok clean])
  note P = bc.peek_spec [OF okh us has_roomD(2,3) [OF R], of ?g ?d, OF g d]
  obtain s1 s' where p: "bc.peek hw 1 ?g s = Inr ((), s')" "virtio_blk hw \<and> bc_ok s'" "cview s' = cview s" "bc_frame s s1"
    "bc_frame (?g ?d s1) s'" using P by (elim meta_impE) auto
  have "blkno 0 = 0" by (simp add: blkno_def)
  then have "readsb hw 0 s = Inr ((), s')" using p(1) by (simp add: readsb_def bc.peek_def)
  moreover have "fsst.more s' = fsst.more s" using bc_frame_more [OF p(5)] bc_frame_more [OF p(4)] by simp
  moreover have "kept s s'" using bc_frame_kept [OF p(5)] bc_frame_kept [OF p(4)] by (simp add: kept_def)
  ultimately show ?thesis
    using p bc_frame_fs [OF p(5)] bc_frame_log [OF p(5)] bc_frame_log [OF p(4)] by (intro exI [of _ s']) simp
qed

lemma clear_inodes:
  fixes s :: "'a fsst_scheme"
  defines "f \<equiv> \<lambda>i. upd_inode i (\<lambda>ip. ip\<lparr>i_ref := 0, i_valid := False\<rparr>)"
  shows "fold f [0..<n] s = s\<lparr>icache := (\<lambda>i. if i < n then (icache s i)\<lparr>i_ref := 0, i_valid := False\<rparr> else icache s i)\<rparr>"
proof (induction n)
  case 0
  then show ?case by simp
next
  case (Suc n)
  then show ?case by (auto simp: f_def upd_inode_def fun_eq_iff intro!: fsst.fold_congs)
qed

lemma fsst_icache_view:
  fixes s :: "'a fsst_scheme"
  shows "bc_ok (s\<lparr>icache := x\<rparr>) = bc_ok s" "cview (s\<lparr>icache := x\<rparr>) = cview s" "log_inv (s\<lparr>icache := x\<rparr>) = log_inv s"
proof -
  show c: "bc_ok (s\<lparr>icache := x\<rparr>) = bc_ok s" "cview (s\<lparr>icache := x\<rparr>) = cview s"
    using same_cache [of "s\<lparr>icache := x\<rparr>" s] by simp_all
  show "log_inv (s\<lparr>icache := x\<rparr>) = log_inv s" using log_inv_cong(1) [of "s\<lparr>icache := x\<rparr>" s] c by simp
qed

section \<open>Mounting\<close>

text \<open>A mounted file system: the log is open and empty, no transaction is running, no inode is cached.\<close>

definition mounted :: "superblock \<Rightarrow> (u32 \<Rightarrow> u8 list) \<Rightarrow> 'a fsst_scheme \<Rightarrow> bool" where
  "mounted sb m s \<longleftrightarrow> fs_sb s = sb \<and> log_inv s \<and> lh_n s = 0 \<and> lg_start s = sint (sb_logstart sb) \<and>
     lg_size s = sint (sb_nlog sb) \<and> \<not> lg_lock s \<and> lg_outstanding s = 0 \<and> \<not> lg_committing s \<and>
     pinned (cview s) = {} \<and> medium (cview s) = m \<and> (\<forall>i < NINODE. i_ref (icache s i) = 0 \<and> \<not> i_valid (icache s i))"

lemma fsinit_spec:
  fixes s :: "'a fsst_scheme"
  assumes hw: "virtio_blk hw" and ok: "bc_ok s" and clean: "pinned (cview s) = {}"
    and idle: "lg_outstanding s = 0" "\<not> lg_committing s"
    and sb: "sb = superblock_of (medium (cview s) 1)"
    and good: "sb_magic sb = FSMAGIC \<longrightarrow> head_ok (sint (sb_logstart sb)) (medium (cview s)) \<and>
      0 \<le> head_count (sint (sb_logstart sb)) (medium (cview s)) \<and> 0 < sint (sb_nlog sb) \<and> sint (sb_nlog sb) \<le> int LOGBLOCKS"
  shows "if sb_magic sb \<noteq> FSMAGIC then fsinit hw time 0 s = Inl (Panic ''invalid fs magic'')
    else \<exists>s'. fsinit hw time 0 s = Inr ((), s') \<and> mounted sb (recovered (sint (sb_logstart sb)) (medium (cview s))) s' \<and>
      fsst.more s' = fsst.more s \<and> kept s s'"
proof -
  obtain s1 where s1: "readsb hw 0 s = Inr ((), s1)" "bc_ok s1" "cview s1 = cview s" "fs_sb s1 = sb"
    "lg_outstanding s1 = 0" "\<not> lg_committing s1" "fsst.more s1 = fsst.more s" "kept s s1"
    using readsb_spec [OF hw ok clean] idle sb by auto
  have t: "klog_text (cstr ''Invalid magic number %x (expected %x)\<newline>'') [AVal a, AVal b] \<noteq> None"
    "klog_text (cstr ''File system mounted: %d blocks, %d inodes\<newline>'') [AVal a, AVal b] \<noteq> None" for a b
    by (simp_all add: char_consts klog_conv_text.simps)
  have l: "LOG_INFO \<le> 3" "LOG_ERROR \<le> 3" by (simp_all add: LOG_INFO_def LOG_ERROR_def)
  show ?thesis
  proof (cases "sb_magic sb = FSMAGIC")
    case False
    obtain s2 where "klog time LOG_ERROR ''Invalid magic number %x (expected %x)\<newline>''
        [AVal (ucast (sb_magic sb)), AVal (ucast FSMAGIC)] s1 = Inr ((), s2)"
      using klog_text_total [OF t(1) l(2)] by blast
    then show ?thesis using False s1 by (simp add: fsinit_def)
  next
    case True
    then have h: "head_ok (sint (sb_logstart sb)) (medium (cview s))" "0 \<le> head_count (sint (sb_logstart sb)) (medium (cview s))"
      and size: "0 < sint (sb_nlog sb)" "sint (sb_nlog sb) \<le> int LOGBLOCKS" using good by blast+
    obtain s2 where k: "klog time LOG_INFO ''File system mounted: %d blocks, %d inodes\<newline>''
        [AVal (ucast (sb_size sb)), AVal (ucast (sb_ninodes sb))] s1 = Inr ((), s2)" "klog_frame s1 s2"
      using klog_text_total [OF t(2) l(1)] by blast
    note K = klog_frame_cache [OF k(2)]
    have s2: "bc_ok s2" "pinned (cview s2) = {}" "cview s2 = cview s" "fs_sb s2 = sb" "lg_outstanding s2 = 0" "\<not> lg_committing s2"
      using K s1 clean logst_moreD [OF K(11)] by simp_all
    have h2: "head_ok (sint (sb_logstart sb)) (medium (cview s2))" "0 \<le> head_count (sint (sb_logstart sb)) (medium (cview s2))"
      using h s2(3) by simp_all
    obtain s3 where s3: "init_log hw time 0 (sb_logstart sb) (sb_nlog sb) s2 = Inr ((), s3)" "log_inv s3" "lh_n s3 = 0"
      "lg_start s3 = sint (sb_logstart sb)" "lg_size s3 = sint (sb_nlog sb)" "\<not> lg_lock s3" "lg_outstanding s3 = 0"
      "\<not> lg_committing s3" "pinned (cview s3) = {}" "medium (cview s3) = recovered (sint (sb_logstart sb)) (medium (cview s2))"
      "logst.more s3 = logst.more s2" "kept s2 s3" using init_log_spec [OF hw s2(1,2) h2 size] s2(5,6) by auto
    let ?t = "s3\<lparr>icache := (\<lambda>i. if i < NINODE then (icache s3 i)\<lparr>i_ref := 0, i_valid := False\<rparr> else icache s3 i)\<rparr>"
    have "fsinit hw time 0 s = Inr ((), ?t)"
      using True s1(1,4) k(1) s2(4) s3(1) by (simp add: fsinit_def clear_inodes ret_def)
    moreover have "mounted sb (recovered (sint (sb_logstart sb)) (medium (cview s))) ?t"
      using s3 s2(3,4) logst_moreD [OF s3(11)] fsst_icache_view [where s = s3] by (simp add: mounted_def)
    moreover have "fsst.more ?t = fsst.more s"
      using s1(7) logst_moreD [OF K(11)] logst_moreD [OF s3(11)] by simp
    moreover have "kept s ?t" using s1(8) klog_frame_kept [OF k(2)] s3(12) by (simp add: kept_def)
    ultimately show ?thesis using True by auto
  qed
qed

text \<open>Entering the first transaction of a mounted file system.\<close>

lemma first_transaction:
  fixes s :: "'a fsst_scheme"
  assumes m: "mounted sb m s" and size: "15 \<le> sint (sb_nlog sb)" and k: "k + 1 \<le> nat (sint (sb_nlog sb))" "k \<le> NBUF"
  shows "\<exists>s'. begin_op s = Inr (Entered, s') \<and> in_trans s' \<and> jr.room s' k \<and> fs_sb s' = sb \<and> lg_start s' = sint (sb_logstart sb) \<and>
    disk s' = m \<and> medium (cview s') = m \<and> icache s' = icache s \<and> lg_outstanding s' = 1 \<and> pinned (cview s') = {}"
proof -
  note M = m [unfolded mounted_def]
  let ?s = "release_log (s\<lparr>lg_lock := True, lg_outstanding := 1\<rparr>)"
  have e: "release_log (s\<lparr>lg_lock := True, lg_outstanding := lg_outstanding s + 1\<rparr>) = ?s" using M by simp
  have b: "begin_op s = Inr (Entered, ?s)"
    using M size e by (simp add: begin_op_def begin_op_iter_def acquire_log_def ret_def)
  have f: "bc_ok ?s = bc_ok s" "cview ?s = cview s" using same_cache [of ?s s] by (simp_all add: release_log_def)
  have li: "log_inv ?s = log_inv s" using log_inv_cong(1) [of ?s s] f by (simp add: release_log_def)
  have pn: "refs (cview s) n = 0" "\<not> dirty (cview s) n" for n using M by (auto simp: pinned_def)
  have ok: "bc_ok s" using M by (simp add: log_inv_def)
  have "content (cview s) = m" using clean_content [OF ok] M by simp
  moreover have "in_trans ?s" using M li by (simp add: in_trans_def release_log_def)
  moreover have "jr.room ?s k"
    using M k f by (auto simp: jr.room_def pn log_slots_def release_log_def NBUF_def)
  ultimately show ?thesis using b M f by (intro exI [of _ ?s]) (simp add: release_log_def)
qed

section \<open>The image of mkfs\<close>

lemma medium_sector: "usable n \<Longrightarrow> medium_of (f_img h) n = sectors h (unat n)"
  by (simp add: medium_of_def disk_block_def sectors_def usable_def block_offset BSIZE_def)

lemma sectors_nth: "i < BSIZE \<Longrightarrow> sectors h n ! i = f_img h (BSIZE * n + i)"
  by (simp add: sectors_def img_read_def)

lemma mkfs_image_head:
  assumes "image_ok (sectors h)"
  shows "medium_of (f_img h) 1 = sectors h 1" "head_count 2 (medium_of (f_img h)) = 0" "head_ok 2 (medium_of (f_img h))"
proof -
  show "medium_of (f_img h) 1 = sectors h 1" by (simp add: medium_sector usable_def small_block_def)
  have z: "sectors h 2 = zeros" using assms by (simp add: image_ok_def FSSIZE_def)
  have "f_img h (2048 + i) = 0" if "i < 4" for i
  proof -
    have i: "i < BSIZE" "BSIZE * 2 + i = 2048 + i" using that by (simp_all add: BSIZE_def)
    show ?thesis using sectors_nth [OF i(1), of h 2] i by (simp add: z)
  qed
  then have "\<forall>i < 4. f_img h (2048 + i) = 0" by blast
  from empty_head [OF this] show "head_count 2 (medium_of (f_img h)) = 0" "head_ok 2 (medium_of (f_img h))" .
qed

text \<open>What the kernel relies on, of a file system with the image's superblock and blocks.\<close>

definition fresh_fs :: "'a fsst_scheme \<Rightarrow> bool" where
  "fresh_fs s \<longleftrightarrow> in_trans s \<and> jr.room s 29 \<and> fs_size s = 1000 \<and> bitmap_ok s \<and> (\<forall>n < 1000. block_used s n \<longleftrightarrow> n < 47) \<and>
     (\<forall>inum. unat inum < 200 \<longrightarrow> fs_block s (IBLOCK inum (fs_sb s))) \<and> (\<forall>i < NINODE. i_ref (icache s i) = 0) \<and>
     same_dinode (disk_inode s 1) root_dinode \<and> (\<forall>i < 16. i \<noteq> 1 \<longrightarrow> d_type (disk_inode s (of_nat i)) = 0) \<and>
     disk s 46 = root_entries @ replicate (BSIZE - 32) 0 \<and> fs_sb s = mkfs_sb \<and> lg_start s = 2"

lemma IBLOCK_mkfs: "unat inum < 200 \<Longrightarrow> unat (IBLOCK inum mkfs_sb) = unat inum div 16 + 32"
  by (simp add: IBLOCK_def mkfs_sb_def IPB_def BSIZE_def unat_word_ariths unat_div_distrib)

lemma mkfs_fresh:
  fixes s :: "'a fsst_scheme"
  assumes img: "image_ok (sectors h)" and tr: "in_trans s" and rm: "jr.room s 29" and sb: "fs_sb s = mkfs_sb" and st: "lg_start s = 2"
    and d: "disk s = medium_of (f_img h)" and ic: "\<forall>i < NINODE. i_ref (icache s i) = 0"
  shows "fresh_fs s"
proof -
  have us: "usable (of_nat n)" if "0 < n" "n < 1000" for n
    using that by (simp add: usable_def small_block_def unat_of_nat_small word_unat_eq_iff)
  have un: "unat (of_nat n :: u32) = n" if "n < 1000" for n using that by (simp add: unat_of_nat_small)
  have dk: "disk s (of_nat n) = sectors h n" if "0 < n" "n < 1000" for n
    unfolding d using medium_sector [OF us [OF that]] un that by simp
  have sz: "fs_size s = 1000" by (simp add: fs_size_def sb mkfs_sb_def)
  have fb: "fs_block s (of_nat n)" if "32 \<le> n" "n < 1000" for n
    using us [of n] un [of n] that by (simp add: fs_block_def st log_area_2)
  have bb: "BBLOCK (of_nat n) (fs_sb s) = 45" if "n < 1000" for n
    using that by (simp add: BBLOCK_def sb mkfs_sb_def BPB_def BSIZE_def word_unat_eq_iff unat_div_distrib unat_of_nat_small unat_word_ariths)
  have d45: "disk s 45 = sectors h 45" "disk s 46 = sectors h 46" "disk s 32 = sectors h 32" using dk [of 45] dk [of 46] dk [of 32] by simp_all
  have used: "block_used s n \<longleftrightarrow> n < 47" if n: "n < 1000" for n
    using img n by (simp add: block_used_def bb [OF n] d45 image_ok_def BPB_def BSIZE_def)
  have bok: "bitmap_ok s"
    unfolding bitmap_ok_def sz
  proof (intro allI impI conjI)
    fix n :: nat assume n: "n < 1000"
    show "fs_block s (BBLOCK (of_nat n) (fs_sb s))" unfolding bb [OF n] using fb [of 45] by simp
    assume "\<not> block_used s n"
    then have g: "47 \<le> n" using used [OF n] by simp
    then show "fs_block s (of_nat n)" using fb n by simp
    fix k :: nat assume "k < 1000"
    then show "of_nat n \<noteq> BBLOCK (of_nat k) (fs_sb s)" using g un [OF n] by (auto simp: bb word_unat_eq_iff)
  qed
  have ib: "fs_block s (IBLOCK inum (fs_sb s))" if "unat inum < 200" for inum
  proof -
    have "unat (IBLOCK inum mkfs_sb) = unat inum div 16 + 32" by (rule IBLOCK_mkfs [OF that])
    then have "IBLOCK inum mkfs_sb = of_nat (unat inum div 16 + 32)"
      using that by (simp only: word_unat_eq_iff) (simp add: unat_of_nat_small del: of_nat_add)
    then show ?thesis using fb [of "unat inum div 16 + 32"] that by (simp add: sb)
  qed
  have lo: "disk_inode s (of_nat i) = dinode_at (64 * i) (sectors h 32)" if i: "i < 16" for i
  proof -
    have "unat (IBLOCK (of_nat i) mkfs_sb) = 32" using IBLOCK_mkfs [of "of_nat i"] i by (simp add: unat_of_nat_small)
    then have "IBLOCK (of_nat i) mkfs_sb = 32" by (simp add: word_unat_eq_iff)
    moreover have "ioff (of_nat i) = 64 * i" using i by (simp add: ioff_def IPB_def BSIZE_def unat_of_nat_small)
    ultimately show ?thesis by (simp add: disk_inode_def sb d45)
  qed
  have "same_dinode (disk_inode s 1) root_dinode" using lo [of 1] img by (simp add: image_ok_def)
  moreover have "\<forall>i < 16. i \<noteq> 1 \<longrightarrow> d_type (disk_inode s (of_nat i)) = 0" using lo img by (simp add: image_ok_def)
  moreover have "disk s 46 = root_entries @ replicate (BSIZE - 32) 0" using d45 img by (simp add: image_ok_def)
  ultimately show ?thesis using tr rm sz bok used ib ic sb st by (simp add: fresh_fs_def)
qed

lemma mkfs_fsinit:
  fixes s0 :: "'a fsst_scheme"
  assumes hw: "virtio_blk hw" and s0: "bc_ok s0" "pinned (cview s0) = {}" "medium (cview s0) = medium_of (f_img h)"
    and lg: "lg_outstanding s0 = 0" "\<not> lg_committing s0" and img: "image_ok (sectors h)"
  shows "\<exists>s1. fsinit hw time 0 s0 = Inr ((), s1) \<and> mounted mkfs_sb (medium_of (f_img h)) s1 \<and> fsst.more s1 = fsst.more s0 \<and> kept s0 s1"
proof -
  note H = mkfs_image_head [OF img]
  have "superblock_of (sectors h 1) = mkfs_sb" using img by (simp add: image_ok_def)
  then have sb: "mkfs_sb = superblock_of (medium (cview s0) 1)" using H(1) s0(3) by simp
  have n: "sint (sb_logstart mkfs_sb) = 2" "sint (sb_nlog mkfs_sb) = 30" "sb_magic mkfs_sb = FSMAGIC" by (simp_all add: mkfs_sb_def)
  have hd: "sb_magic mkfs_sb = FSMAGIC \<longrightarrow> head_ok (sint (sb_logstart mkfs_sb)) (medium (cview s0)) \<and>
    0 \<le> head_count (sint (sb_logstart mkfs_sb)) (medium (cview s0)) \<and>
    0 < sint (sb_nlog mkfs_sb) \<and> sint (sb_nlog mkfs_sb) \<le> int LOGBLOCKS" using H n s0(3) by (simp_all add: LOGBLOCKS_def)
  have "recovered 2 (medium_of (f_img h)) = medium_of (f_img h)" by (simp add: recovered_def recovery_writes_def H)
  then show ?thesis using fsinit_spec [OF hw s0(1,2) lg sb hd, of time] n s0(3) by auto
qed

lemma mkfs_mounts:
  fixes b :: "'a fsst_scheme"
  assumes hw: "virtio_blk hw" and b: "zero_bufs b" "vq_idle (vq b)" "lg_outstanding b = 0" "\<not> lg_committing b"
    and img: "img b = f_img h" "image_ok (sectors h)"
  shows "\<exists>s0 s1 s2. binit b = Inr ((), s0) \<and> fsinit hw time 0 s0 = Inr ((), s1) \<and> begin_op s1 = Inr (Entered, s2) \<and> fresh_fs s2"
proof -
  obtain s0 where s0: "binit b = Inr ((), s0)" "bc_ok s0" "pinned (cview s0) = {}" "medium (cview s0) = medium_of (f_img h)"
    using binit_spec [OF b(1,2)] img(1) by auto
  note B = bcache_moreD [OF binit_more [OF s0(1)]]
  have "lg_outstanding s0 = 0" "\<not> lg_committing s0" using B b by simp_all
  from mkfs_fsinit [OF hw s0(2-4) this img(2), of time] obtain s1 where
    s1: "fsinit hw time 0 s0 = Inr ((), s1)" "mounted mkfs_sb (medium_of (f_img h)) s1" by blast
  have n: "sint (sb_logstart mkfs_sb) = 2" "sint (sb_nlog mkfs_sb) = 30" by (simp_all add: mkfs_sb_def)
  have m: "15 \<le> sint (sb_nlog mkfs_sb)" "29 + 1 \<le> nat (sint (sb_nlog mkfs_sb))" "29 \<le> NBUF" using n by (simp_all add: NBUF_def)
  obtain s2 where s2: "begin_op s1 = Inr (Entered, s2)" "in_trans s2" "jr.room s2 29" "fs_sb s2 = mkfs_sb"
    "lg_start s2 = 2" "disk s2 = medium_of (f_img h)" "icache s2 = icache s1"
    using first_transaction [OF s1(2) m] n by auto
  have "\<forall>i < NINODE. i_ref (icache s2 i) = 0" using s1(2) s2(7) by (simp add: mounted_def)
  from mkfs_fresh [OF img(2) s2(2-6) this] show ?thesis using s0(1) s1(1) s2(1) by blast
qed

text \<open>A kernel before \<open>main\<close>, with a disk in the drive.\<close>

definition fsst_boot :: "(nat \<Rightarrow> u8) \<Rightarrow> fsst" where
  "fsst_boot m = fsst_of (logst_boot\<lparr>img := m\<rparr>) mkfs_sb (\<lambda>_. \<lparr>d_type = 0, d_major = 0, d_minor = 0, d_nlink = 0, d_size = 0,
     d_addrs = (\<lambda>_. 0), i_dev = 0, i_inum = 0, i_ref = 0, i_valid = False\<rparr>) ()"

lemma fsst_boot_ok:
  "zero_bufs (fsst_boot m)" "vq_idle (vq (fsst_boot m))" "lg_outstanding (fsst_boot m) = 0" "\<not> lg_committing (fsst_boot m)"
  "img (fsst_boot m) = m"
proof -
  have f: "bufs (fsst_boot m) = bufs logst_boot" "vq (fsst_boot m) = vq logst_boot" "img (fsst_boot m) = m"
    "lg_outstanding (fsst_boot m) = lg_outstanding logst_boot" "lg_committing (fsst_boot m) = lg_committing logst_boot"
    by (cases logst_boot; simp add: fsst_boot_def fsst_of_def logst.defs)+
  show "zero_bufs (fsst_boot m)" by (simp add: zero_bufs_def f buf_boot_def)
  show "vq_idle (vq (fsst_boot m))" using vq_idle_boot by (simp add: f)
  show "img (fsst_boot m) = m" by (rule f(3))
  show "lg_outstanding (fsst_boot m) = 0" "\<not> lg_committing (fsst_boot m)" by (simp_all add: f)
      (simp_all add: logst_boot_def ptab_boot_def bcache_boot_def vblk_boot_def vblk.defs klog.defs bcache.defs ptab.defs)
qed

section \<open>Properties\<close>

text \<open>
  C23. \<open>fsinit\<close> on a freshly initialised cache panics when block 1 of the disk lacks the magic number. Otherwise, if
  the superblock names a log area with a header in order, it succeeds: the superblock in memory is that of the disk,
  every committed block the header names is in its home block, the log is empty and open, and no inode is cached.
\<close>

theorem fsinit_mounts:
  fixes s :: "'a fsst_scheme"
  assumes hw: "virtio_blk hw" and ok: "bc_ok s" and clean: "pinned (cview s) = {}"
    and idle: "lg_outstanding s = 0" "\<not> lg_committing s"
    and sb: "sb = superblock_of (medium (cview s) 1)"
    and good: "sb_magic sb = FSMAGIC \<longrightarrow> head_ok (sint (sb_logstart sb)) (medium (cview s)) \<and>
      0 \<le> head_count (sint (sb_logstart sb)) (medium (cview s)) \<and> 0 < sint (sb_nlog sb) \<and> sint (sb_nlog sb) \<le> int LOGBLOCKS"
  shows "if sb_magic sb \<noteq> FSMAGIC then fsinit hw time 0 s = Inl (Panic ''invalid fs magic'')
    else \<exists>s'. fsinit hw time 0 s = Inr ((), s') \<and> mounted sb (recovered (sint (sb_logstart sb)) (medium (cview s))) s'"
  using fsinit_spec [OF assms, of time] by (auto split: if_splits)

theorem fsinit_mounts_witness:
  "\<exists>(s0 :: fsst). bc_ok s0 \<and> fsinit prompt_device 0 0 s0 = Inl (Panic ''invalid fs magic'')"
proof -
  obtain s0 :: fsst where s0: "binit (fsst_boot (\<lambda>_. 0)) = Inr ((), s0)" "bc_ok s0" "pinned (cview s0) = {}"
    "medium (cview s0) = medium_of (\<lambda>_. 0)" using binit_spec [OF fsst_boot_ok(1,2)] fsst_boot_ok(5) by metis
  note B = bcache_moreD [OF binit_more [OF s0(1)]]
  have o: "lg_outstanding s0 = 0" "\<not> lg_committing s0" using B fsst_boot_ok(3,4) by simp_all
  have u: "usable 1" by (simp add: usable_def small_block_def)
  have "medium_of (\<lambda>_. 0) 1 = (replicate BSIZE 0 :: u8 list)"
    using medium_length [OF u] by (intro nth_equalityI) (simp_all add: medium_byte [OF u])
  then have "sb_magic (superblock_of (medium (cview s0) 1)) \<noteq> FSMAGIC"
    unfolding s0(4) by (simp add: superblock_of_def get_field_zeros BSIZE_def FSMAGIC_def)
  then show ?thesis using fsinit_mounts [OF virtio_blk_prompt s0(2,3) o refl, of 0] s0(2) by auto
qed

text \<open>
  C14. The kernel can mount what mkfs builds. When the disk holds an image that \<open>mkfs\<close> wrote, initialising the
  cache, mounting and starting a transaction succeed, and the file system is consistent: exactly the blocks below 47
  are in use, the bitmap and the inode table lie on blocks that may be logged, no inode is cached, inode 1 is the
  root directory and the other inodes of its block are free; the transaction has room for 29 blocks.
\<close>

theorem mkfs_image_mounts:
  fixes b :: "'a fsst_scheme"
  assumes "mkfs_main argc opened h0 = Inr ((), h)" and "freeinode h0 = 1"
    and "virtio_blk hw" and "zero_bufs b" and "vq_idle (vq b)" and "lg_outstanding b = 0" and "\<not> lg_committing b" and "img b = f_img h"
  shows "\<exists>s0 s1 s2. binit b = Inr ((), s0) \<and> fsinit hw time 0 s0 = Inr ((), s1) \<and> begin_op s1 = Inr (Entered, s2) \<and> fresh_fs s2"
proof -
  have "image_ok (sectors h)" using mkfs_spec [OF assms(2), of argc opened] assms(1) by (auto split: if_splits)
  then show ?thesis using mkfs_mounts [OF assms(3-8)] by blast
qed

theorem mkfs_image_mounts_witness:
  "\<exists>h (s0 :: fsst) s1 s2. mkfs_main 2 True host_boot = Inr ((), h) \<and> binit (fsst_boot (f_img h)) = Inr ((), s0) \<and>
    fsinit prompt_device 0 0 s0 = Inr ((), s1) \<and> begin_op s1 = Inr (Entered, s2) \<and> fresh_fs s2"
proof -
  have f: "freeinode host_boot = 1" "\<not> f_cap host_boot < BSIZE * FSSIZE" by (simp_all add: host_boot_def BSIZE_def FSSIZE_def)
  obtain h where h: "mkfs_main 2 True host_boot = Inr ((), h)" using mkfs_spec [OF f(1), of 2 True] f(2) by auto
  from mkfs_image_mounts [OF h f(1) virtio_blk_prompt fsst_boot_ok [of "f_img h"], of 0] show ?thesis using h by blast
qed

end
