(* ===== verification/ProcMem.thy ===== *)
theory ProcMem
  imports Fork
begin

text \<open>
  The memory of a new process: \<open>alloc_process\<close> gives it a kernel stack, an empty address space with
  the trampoline and the trap frame, and \<open>fork\<close> copies the parent's pages into fresh frames. The free
  list always says which pages the allocator may still hand out; every page outside it and outside
  the new page tables keeps its content.
\<close>

section \<open>Byte loops\<close>

lemma offset_iff: "n < 2 ^ 64 \<Longrightarrow> x = p + of_nat n \<longleftrightarrow> unat (x - p :: u64) = n"
proof -
  assume n: "n < 2 ^ 64"
  then have u: "unat (of_nat n :: u64) = n" by (simp add: unat_of_nat_small)
  show ?thesis
  proof
    assume "unat (x - p) = n"
    then have "x - p = of_nat n" using u by (simp add: word_unat_eq_iff)
    then show "x = p + of_nat n" by (simp add: algebra_simps)
  qed (simp add: u)
qed

lemma clear_bytes_eq: "clear_bytes m p x = (if in_page p x then 0 else m x)"
proof -
  have "n \<le> 4096 \<Longrightarrow> fold (\<lambda>i m. m(p + of_nat i := 0)) [0..<n] m x = (if unat (x - p) < n then 0 else m x)" for n
  proof (induction n)
    case 0
    then show ?case by simp
  next
    case (Suc n)
    then show ?case using offset_iff [of n x p] by auto
  qed
  then show ?thesis by (simp add: clear_bytes_def in_page_def)
qed

lemma copy_bytes_eq:
  assumes "page_aligned dst" and "page_aligned src"
  shows "copy_bytes m dst src 4096 x = (if in_page dst x then m (src + (x - dst)) else m x)"
proof -
  have "n \<le> 4096 \<Longrightarrow> fold (\<lambda>i m. m(dst + of_nat i := m (src + of_nat i))) [0..<n] m x =
      (if unat (x - dst) < n then m (src + (x - dst)) else m x)" for n x
  proof (induction n arbitrary: x)
    case 0
    then show ?case by simp
  next
    case (Suc n)
    define m1 where "m1 = fold (\<lambda>i m. m(dst + of_nat i := m (src + of_nat i))) [0..<n] m"
    have IH: "m1 y = (if unat (y - dst) < n then m (src + (y - dst)) else m y)" for y
      unfolding m1_def by (rule Suc.IH) (use Suc.prems in simp)
    have "m1 (src + of_nat n) = m (src + of_nat n)"
    proof (cases "src = dst")
      case True
      then show ?thesis by (simp add: IH)
    next
      case False
      have "in_page src (src + of_nat n)" using Suc.prems by (simp add: in_page_offset)
      then have "\<not> in_page dst (src + of_nat n)" using in_page_disjoint [OF assms] False by blast
      then have "\<not> unat (src + of_nat n - dst) < n" using Suc.prems by (simp add: in_page_def)
      then show ?thesis by (simp add: IH)
    qed
    then have "(m1(dst + of_nat n := m1 (src + of_nat n))) x =
        (if x = dst + of_nat n then m (src + of_nat n) else m1 x)" by simp
    also have "\<dots> = (if unat (x - dst) < Suc n then m (src + (x - dst)) else m x)"
      using offset_iff [of n x dst] Suc.prems by (auto simp: IH)
    finally show ?case by (simp add: m1_def del: fun_upd_apply)
  qed
  then show ?thesis by (simp add: copy_bytes_def in_page_def)
qed

section \<open>Address spaces and memory outside them\<close>

lemma same_tables_xlate:
  assumes S: "same_tables m r m'"
  shows "xlate m' r va = xlate m r va"
proof -
  have r: "child m' r (vpn va 2) = child m r (vpn va 2)"
    by (rule same_tables_child [OF S uppers_tables [OF root_uppers] VPN_MASK_less])
  show ?thesis
  proof (cases "child m r (vpn va 2)")
    case None
    then show ?thesis by (simp add: xlate_def r)
  next
    case (Some a)
    have au: "a \<in> uppers m r" by (rule child_uppers [OF Some VPN_MASK_less])
    have c: "child m' a (vpn va 1) = child m a (vpn va 1)"
      by (rule same_tables_child [OF S uppers_tables [OF au] VPN_MASK_less])
    show ?thesis
    proof (cases "child m a (vpn va 1)")
      case None
      then show ?thesis unfolding xlate_def r Some option.case c by simp
    next
      case b: (Some b)
      have "load64 m' (slot b (vpn va 0)) = load64 m (slot b (vpn va 0))"
        by (rule same_tables_entry [OF S child_tables [OF au b VPN_MASK_less] VPN_MASK_less])
      then show ?thesis unfolding xlate_def r Some option.case c b by simp
    qed
  qed
qed

text \<open>\<open>outside m X m'\<close>: the two memories agree except in the pages \<open>X\<close>.\<close>

definition outside :: "pmemory \<Rightarrow> u64 set \<Rightarrow> pmemory \<Rightarrow> bool" where
  "outside m X m' \<longleftrightarrow> (\<forall>x. (\<forall>q \<in> X. \<not> in_page q x) \<longrightarrow> m' x = m x)"

lemma outside_refl [simp]: "outside m X m"
  by (simp add: outside_def)

lemma outside_trans: "outside m X m1 \<Longrightarrow> outside m1 Y m2 \<Longrightarrow> X \<subseteq> Z \<Longrightarrow> Y \<subseteq> Z \<Longrightarrow> outside m Z m2"
  unfolding outside_def by (metis subset_iff)

lemma outside_page:
  assumes "outside m X m'" and "\<forall>q \<in> X. page_aligned q" and "page_aligned p" and "p \<notin> X" and "in_page p x"
  shows "m' x = m x"
  using assms in_page_disjoint [OF _ assms(3)] unfolding outside_def by blast

lemma outside_load:
  assumes "outside m X m'" and "\<forall>q \<in> X. page_aligned q" and "page_aligned p" and "p \<notin> X"
  shows "load_bytes m' p 4096 = load_bytes m p 4096"
  using outside_page [OF assms] in_page_offset by (auto simp: load_bytes_def)

lemma outside_tables:
  assumes "outside m X m'" and "\<forall>q \<in> X. page_aligned q" and "pt_ok m r" and "tables m r \<inter> X = {}"
  shows "same_tables m r m'"
  using outside_page [OF assms(1,2) tables_aligned [OF assms(3)]] assms(4) unfolding same_tables_def by blast

lemma free_pages_aligned: "free_pages s ps \<Longrightarrow> p \<in> set ps \<Longrightarrow> page_aligned p \<and> p \<noteq> 0"
  by (auto simp: free_pages_def dest: chain_aligned)

lemma outside_free:
  assumes "outside (pmem s) X m" and "\<forall>q \<in> X. page_aligned q" and "free_pages s ps" and "set ps \<inter> X = {}"
  shows "free_pages (s\<lparr>pmem := m\<rparr>) ps"
proof -
  have "load64 m x = load64 (pmem s) x" if x: "x \<in> set ps" for x
  proof -
    have "m (x + of_nat i) = pmem s (x + of_nat i)" if "i < 8" for i
    proof (rule outside_page [OF assms(1,2)])
      show "page_aligned x" using free_pages_aligned [OF assms(3) x] by simp
      show "x \<notin> X" using x assms(4) by blast
      show "in_page x (x + of_nat i)" by (rule in_page_offset) (use that in simp)
    qed
    then show ?thesis by (auto simp: load64_def load_bytes_def intro!: arg_cong [of _ _ le_word])
  qed
  then show ?thesis using assms(3) chain_cong [of ps m "pmem s"] by (simp add: free_pages_def)
qed

lemma outside_space:
  assumes "outside (pmem s) X m" and "\<forall>q \<in> X. page_aligned q" and "space_ok r s ps"
    and "(tables (pmem s) r \<union> set ps) \<inter> X = {}"
  shows "space_ok r (s\<lparr>pmem := m\<rparr>) ps \<and> tables m r = tables (pmem s) r \<and> (\<forall>va. xlate m r va = xlate (pmem s) r va)"
proof -
  have S: "same_tables (pmem s) r m"
    using outside_tables [OF assms(1,2)] assms(3,4) by (auto simp: space_ok_def)
  then show ?thesis
    using outside_free [OF assms(1,2)] assms(3,4) same_tables_pt_ok [OF S] same_tables_tables [OF S] same_tables_xlate [OF S]
    by (auto simp: space_ok_def)
qed

lemma outside_clear: "outside m {p} (clear_bytes m p)"
  by (simp add: outside_def clear_bytes_eq)

lemma outside_copy: "page_aligned p \<Longrightarrow> page_aligned q \<Longrightarrow> outside m {p} (copy_bytes m p q 4096)"
  by (simp add: outside_def copy_bytes_eq)

lemma outside_store64: "i < 512 \<Longrightarrow> outside m {p} (store64 m (slot p i) v)"
  by (simp add: outside_def store64_outside_page)

section \<open>alloc_process\<close>

lemma upd_proc_mem [simp]:
  "pmem (upd_proc i f s) = pmem s" "freelist (upd_proc i f s) = freelist s" "free_pages (upd_proc i f s) ps = free_pages s ps"
  "space_ok r (upd_proc i f s) ps = space_ok r s ps"
  by (simp_all add: upd_proc_def free_pages_def space_ok_def)

lemma map_one:
  fixes s :: "'a ptab_scheme"
  assumes "space_ok r s ps" and "2 \<le> length ps"
  shows "\<exists>s' ps'. map_page r va pa perm s = Inr (0, s') \<and> space_ok r s' ps' \<and> set ps' \<subseteq> set ps \<and>
    length ps \<le> length ps' + 2 \<and> tables (pmem s') r \<subseteq> tables (pmem s) r \<union> set ps \<and>
    (\<forall>va'. xlate (pmem s') r va' =
       (if same_page va va' then Some (PA_PTE pa OR perm OR PTE_V) else xlate (pmem s) r va')) \<and>
    outside (pmem s) (tables (pmem s) r \<union> set ps) (pmem s') \<and> tab_frame s s'"
proof -
  from map_page_spec [OF affordable_single [OF assms] singletonI, of va pa perm] obtain s' ps' where
    m: "map_page r va pa perm s = Inr (0, s')" "affordable r {va} s' ps'" "set ps' \<subseteq> set ps"
      "tables (pmem s') r \<subseteq> tables (pmem s) r \<union> set ps" "length ps \<le> length ps' + 2"
      "mem.more s' = mem.more s"
    and x: "\<forall>va'. xlate (pmem s') r va' =
       (if same_page va va' then Some (PA_PTE pa OR perm OR PTE_V) else xlate (pmem s) r va')"
    and o: "\<forall>x. (\<forall>q \<in> tables (pmem s') r. \<not> in_page q x) \<longrightarrow> pmem s' x = pmem s x" by blast
  have "outside (pmem s) (tables (pmem s) r \<union> set ps) (pmem s')"
    using o m(4) unfolding outside_def by blast
  moreover have "space_ok r s' ps'" using m(2) by (simp add: affordable_def)
  ultimately show ?thesis using m x more_tab_frame [OF m(6)] by blast
qed

lemma alloc_process_spec:
  fixes s :: "'a ptab_scheme"
  assumes fp: "free_pages s (ks # pt # tf # qs)" and l: "4 \<le> length qs"
    and i: "List.find (\<lambda>i. p_state (procs s i) = UNUSED) [0..<NPROC] = Some i"
  shows "\<exists>s' qs'. alloc_process tramp s = Inr (Some i, s') \<and> space_ok pt s' qs' \<and> set qs' \<subseteq> set qs \<and>
    length qs \<le> length qs' + 4 \<and> tables (pmem s') pt \<subseteq> insert pt (set qs) \<and>
    (\<forall>va. xlate (pmem s') pt va = (if same_page TRAPFRAME va then Some (PA_PTE tf OR (PTE_R OR PTE_W) OR PTE_V)
       else if same_page TRAMPOLINE va then Some (PA_PTE tramp OR (PTE_R OR PTE_X) OR PTE_V) else None)) \<and>
    outside (pmem s) (insert pt (set qs)) (pmem s') \<and>
    procs s' = (procs s)(i := (procs s i)\<lparr>p_pid := nextpid s, p_state := USED, p_kstack := ks, p_pagetable := pt,
      p_trapframe := tf, p_sz := 0, p_sp := ks + PGSIZE, p_parent := None, p_chan := NoChan\<rparr>) \<and>
    current s' = current s \<and> nextpid s' = i32 (nextpid s + 1)"
proof -
  have nz: "ks \<noteq> 0" "pt \<noteq> 0" "tf \<noteq> 0" using free_pages_aligned [OF fp] by auto
  let ?s0 = "upd_proc i (\<lambda>p. p\<lparr>p_pid := nextpid s, p_state := USED\<rparr>) (s\<lparr>nextpid := i32 (nextpid s + 1)\<rparr>)"
  have "free_pages ?s0 (ks # pt # tf # qs)" using fp by (simp add: free_pages_def)
  from pmm.alloc_cons [OF this] obtain s1 where a: "alloc_page ?s0 = (ks, s1)" and f1: "free_pages s1 (pt # tf # qs)"
    by blast
  note A = mem_tab_frames(3) [OF a, unfolded tab_frame_def] and A' = alloc_page_more [OF a]
  let ?s1 = "upd_proc i (\<lambda>p. p\<lparr>p_kstack := ks\<rparr>) s1"
  have "free_pages ?s1 (pt # tf # qs)" using f1 by simp
  from create_pagetable_spec [OF this] obtain s2 where p: "create_pagetable ?s1 = Inr (pt, s2)"
    and ok2: "space_ok pt s2 (tf # qs)" and t2: "tables (pmem s2) pt = {pt}"
    and x2: "\<forall>va. xlate (pmem s2) pt va = None" and o2: "outside (pmem ?s1) {pt} (pmem s2)" "mem.more s2 = mem.more ?s1"
    unfolding outside_def by blast
  note P = more_tab_frame [OF o2(2), unfolded tab_frame_def]
  let ?s2 = "upd_proc i (\<lambda>p. p\<lparr>p_pagetable := pt\<rparr>) s2"
  have "free_pages ?s2 (tf # qs)" using ok2 by (simp add: space_ok_def)
  from pmm.alloc_cons [OF this] obtain s3 where t: "alloc_page ?s2 = (tf, s3)" and f3: "free_pages s3 qs" by blast
  note T = mem_tab_frames(3) [OF t, unfolded tab_frame_def] and T' = alloc_page_more [OF t]
  let ?s3 = "upd_proc i (\<lambda>p. p\<lparr>p_trapframe := tf\<rparr>) s3"
  have ok3: "space_ok pt ?s3 qs" using ok2 f3 T' by (simp add: space_ok_def)
  have l3: "2 \<le> length qs" using l by simp
  from map_one [OF ok3 l3] obtain s4 qs4 where m4: "map_page pt TRAMPOLINE tramp (PTE_R OR PTE_X) ?s3 = Inr (0, s4)"
    and ok4: "space_ok pt s4 qs4" and s4: "set qs4 \<subseteq> set qs" "length qs \<le> length qs4 + 2"
      "tables (pmem s4) pt \<subseteq> tables (pmem ?s3) pt \<union> set qs"
    and x4: "\<forall>va. xlate (pmem s4) pt va = (if same_page TRAMPOLINE va then Some (PA_PTE tramp OR (PTE_R OR PTE_X) OR PTE_V)
       else xlate (pmem ?s3) pt va)"
    and o4: "outside (pmem ?s3) (tables (pmem ?s3) pt \<union> set qs) (pmem s4)" "tab_frame ?s3 s4" by blast
  have "2 \<le> length qs4" using l s4 by simp
  from map_one [OF ok4 this] obtain s5 qs5 where m5: "map_page pt TRAPFRAME tf (PTE_R OR PTE_W) s4 = Inr (0, s5)"
    and ok5: "space_ok pt s5 qs5" and s5: "set qs5 \<subseteq> set qs4" "length qs4 \<le> length qs5 + 2"
      "tables (pmem s5) pt \<subseteq> tables (pmem s4) pt \<union> set qs4"
    and x5: "\<forall>va. xlate (pmem s5) pt va = (if same_page TRAPFRAME va then Some (PA_PTE tf OR (PTE_R OR PTE_W) OR PTE_V)
       else xlate (pmem s4) pt va)"
    and o5: "outside (pmem s4) (tables (pmem s4) pt \<union> set qs4) (pmem s5)" "tab_frame s4 s5" by blast
  have m3: "pmem ?s3 = pmem s2" using T' by simp
  let ?s' = "upd_proc i (\<lambda>p. p\<lparr>p_sz := 0, p_sp := ks + PGSIZE, p_parent := None, p_chan := NoChan\<rparr>) s5"
  have r: "alloc_process tramp s = Inr (Some i, ?s')"
    using i a nz p t m4 m5 by (simp add: alloc_process_def Let_def ret_def)
  have tb: "tables (pmem s4) pt \<union> set qs4 \<subseteq> insert pt (set qs)" using s4 t2 m3 by auto
  have "outside (pmem s2) (insert pt (set qs)) (pmem s5)"
    using outside_trans [OF o4(1) [unfolded m3] o5(1) _ tb] t2 by auto
  moreover have "outside (pmem s) {pt} (pmem s2)" using o2(1) A' by simp
  ultimately have o: "outside (pmem s) (insert pt (set qs)) (pmem s5)"
    using outside_trans [of "pmem s" "{pt}" "pmem s2"] by blast
  have pr: "procs s5 = procs ?s3" "current s5 = current ?s3" "nextpid s5 = nextpid ?s3"
    using o4(2) o5(2) by (simp_all add: tab_frame_def)
  have "procs ?s' = (procs s)(i := (procs s i)\<lparr>p_pid := nextpid s, p_state := USED, p_kstack := ks, p_pagetable := pt,
      p_trapframe := tf, p_sz := 0, p_sp := ks + PGSIZE, p_parent := None, p_chan := NoChan\<rparr>)"
    using A P T by (simp add: fun_eq_iff pr)
  moreover have "current ?s' = current s" "nextpid ?s' = i32 (nextpid s + 1)" using A P T by (simp_all add: pr)
  ultimately show ?thesis using r ok5 s4 s5 tb x2 x4 x5 o m3
    by (intro exI [of _ ?s'] exI [of _ qs5]) (auto simp del: fun_upd_apply)
qed

section \<open>New pages\<close>

text \<open>The next free frame is filled and mapped: only the tables of the address space change besides.\<close>

lemma fill_and_map:
  fixes s :: "'a ptab_scheme"
  assumes ok: "space_ok npt s (f # qs)" and l: "2 \<le> length qs" and m: "outside (pmem s) {f} m"
  shows "\<exists>s1 s2 qs2. alloc_page s = (f, s1) \<and> f \<noteq> 0 \<and> page_aligned f \<and> pmem s1 = pmem s \<and> mem.more s1 = mem.more s \<and>
    map_page npt va f perm (s1\<lparr>pmem := m\<rparr>) = Inr (0, s2) \<and> space_ok npt s2 qs2 \<and> set qs2 \<subseteq> set qs \<and>
    length qs \<le> length qs2 + 2 \<and> tables (pmem s2) npt \<subseteq> tables (pmem s) npt \<union> set qs \<and>
    (\<forall>va'. xlate (pmem s2) npt va' =
       (if same_page va va' then Some (PA_PTE f OR perm OR PTE_V) else xlate (pmem s) npt va')) \<and>
    outside (pmem s) (insert f (tables (pmem s) npt \<union> set qs)) (pmem s2) \<and>
    load_bytes (pmem s2) f 4096 = load_bytes m f 4096 \<and> tab_frame s s2"
proof -
  have fp: "free_pages s (f # qs)" and d: "set (f # qs) \<inter> tables (pmem s) npt = {}" and pok: "pt_ok (pmem s) npt"
    using ok by (simp_all add: space_ok_def)
  have f: "f \<noteq> 0" "page_aligned f" "f \<notin> set qs" "f \<notin> tables (pmem s) npt"
    using free_pages_aligned [OF fp] d fp by (auto simp: free_pages_def)
  obtain s1 where a: "alloc_page s = (f, s1)" and f1: "free_pages s1 qs" using pmm.alloc_cons [OF fp] by blast
  note A = alloc_page_more [OF a]
  let ?s1 = "s1\<lparr>pmem := m\<rparr>"
  have "space_ok npt s1 qs" using ok f1 A by (auto simp: space_ok_def)
  then have ok1: "space_ok npt ?s1 qs" and t1: "tables m npt = tables (pmem s) npt"
    and x1: "\<forall>va. xlate m npt va = xlate (pmem s) npt va"
    using outside_space [of s1 "{f}" m npt qs] m f d by (auto simp: A)
  from map_one [OF ok1 l] obtain s2 qs2 where g: "map_page npt va f perm ?s1 = Inr (0, s2)"
    "space_ok npt s2 qs2" "set qs2 \<subseteq> set qs" "length qs \<le> length qs2 + 2"
    "tables (pmem s2) npt \<subseteq> tables (pmem s) npt \<union> set qs"
    and x2: "\<forall>va'. xlate (pmem s2) npt va' =
       (if same_page va va' then Some (PA_PTE f OR perm OR PTE_V) else xlate (pmem ?s1) npt va')"
    and o2: "outside m (tables (pmem s) npt \<union> set qs) (pmem s2)" and tf: "tab_frame ?s1 s2" using t1 by fastforce
  have al: "\<forall>q \<in> tables (pmem s) npt \<union> set qs. page_aligned q"
    using tables_aligned [OF pok] free_pages_aligned [OF f1] by auto
  have "load_bytes (pmem s2) f 4096 = load_bytes m f 4096"
    by (rule outside_load [OF o2 al f(2)]) (use f in simp)
  moreover have "outside (pmem s) (insert f (tables (pmem s) npt \<union> set qs)) (pmem s2)"
    by (rule outside_trans [OF m o2]) auto
  moreover have "tab_frame s s2"
    using tab_frame_trans [OF tab_frame_trans [OF more_tab_frame pmem_tab_frame] tf] A by blast
  ultimately show ?thesis using a A f g x1 x2 by (intro exI [of _ s1] exI [of _ s2] exI [of _ qs2]) simp
qed

section \<open>fork\<close>

abbreviation user_rwx :: u64 where "user_rwx \<equiv> PTE_R OR PTE_W OR PTE_X OR PTE_U"

lemma fork_page_none:
  "pt_ok (pmem s) ppt \<Longrightarrow> xlate (pmem s) ppt va = None \<Longrightarrow> fork_page ppt npt va s = Inr (True, s)"
  by (auto simp: fork_page_def xlate_walk_lookup Let_def ret_def split: if_splits)

text \<open>A page of the parent is copied into the next free frame, and only the child's tables change besides.\<close>

lemma fork_page_some:
  fixes s :: "'a ptab_scheme"
  assumes ok: "space_ok npt s (f # qs)" and l: "2 \<le> length qs"
    and ppt: "pt_ok (pmem s) ppt" and e: "xlate (pmem s) ppt va = Some e"
  shows "\<exists>s' qs'. fork_page ppt npt va s = Inr (True, s') \<and> space_ok npt s' qs' \<and> set qs' \<subseteq> set qs \<and>
    length qs \<le> length qs' + 2 \<and> tables (pmem s') npt \<subseteq> tables (pmem s) npt \<union> set qs \<and>
    (\<forall>va'. xlate (pmem s') npt va' =
       (if same_page va va' then Some (PA_PTE f OR user_rwx OR PTE_V) else xlate (pmem s) npt va')) \<and>
    outside (pmem s) (insert f (tables (pmem s) npt \<union> set qs)) (pmem s') \<and>
    load_bytes (pmem s') f 4096 = load_bytes (pmem s) (PTE_PA e) 4096"
proof -
  have "free_pages s (f # qs)" using ok by (simp add: space_ok_def)
  then have f: "page_aligned f" using free_pages_aligned [of s "f # qs" f] by simp
  let ?pte = "walk_lookup (pmem s) ppt va" and ?m = "copy_bytes (pmem s) f (PTE_PA e) 4096"
  have pte: "?pte \<noteq> 0" "load64 (pmem s) ?pte = e" "e AND PTE_V \<noteq> 0"
    using e by (auto simp: xlate_walk_lookup [OF ppt] Let_def split: if_splits)
  from fill_and_map [OF ok l outside_copy [OF f page_aligned_PTE_PA], of va user_rwx e] obtain s1 s2 qs2 where
    a: "alloc_page s = (f, s1)" "f \<noteq> 0" "pmem s1 = pmem s" "map_page npt va f user_rwx (s1\<lparr>pmem := ?m\<rparr>) = Inr (0, s2)"
    and r: "space_ok npt s2 qs2" "set qs2 \<subseteq> set qs" "length qs \<le> length qs2 + 2"
    "tables (pmem s2) npt \<subseteq> tables (pmem s) npt \<union> set qs"
    "\<forall>va'. xlate (pmem s2) npt va' = (if same_page va va' then Some (PA_PTE f OR user_rwx OR PTE_V) else xlate (pmem s) npt va')"
    "outside (pmem s) (insert f (tables (pmem s) npt \<union> set qs)) (pmem s2)" "load_bytes (pmem s2) f 4096 = load_bytes ?m f 4096"
    by blast
  have "fork_page ppt npt va s = Inr (True, s2)"
    using pte a by (simp add: fork_page_def ret_def)
  moreover have "load_bytes ?m f 4096 = load_bytes (pmem s) (PTE_PA e) 4096"
    using in_page_offset by (auto simp: load_bytes_def copy_bytes_eq [OF f page_aligned_PTE_PA])
  ultimately show ?thesis using r by (intro exI [of _ s2] exI [of _ qs2]) simp
qed

text \<open>The pages of an address space that starts at 0.\<close>

definition page_at :: "nat \<Rightarrow> u64" where
  "page_at j = of_nat (4096 * j)"

definition pages_of :: "u64 \<Rightarrow> nat" where
  "pages_of sz = (unat sz + 4095) div 4096"

lemma unat_page_at: "j < 2 ^ 52 \<Longrightarrow> unat (page_at j) = 4096 * j"
  unfolding page_at_def by (rule unat_of_nat_small) simp

lemma page_at_Suc: "page_at j + PGSIZE = page_at (Suc j)"
  by (simp add: page_at_def PGSIZE_def)

lemma page_at_aligned: "j < 2 ^ 52 \<Longrightarrow> page_aligned (page_at j)"
  by (simp add: page_aligned_def unat_page_at)

lemma page_at_less: "j < 2 ^ 51 \<Longrightarrow> page_at j < sz \<longleftrightarrow> j < pages_of sz"
  unfolding word_less_nat_alt pages_of_def by (subst unat_page_at) auto

lemma same_page_at: "i < 2 ^ 27 \<Longrightarrow> j < 2 ^ 27 \<Longrightarrow> same_page (page_at i) (page_at j) \<longleftrightarrow> i = j"
  by (auto simp: same_page_eq unat_page_at page_at_aligned word_unat_eq_iff unat_PGGROUNDDOWN)

text \<open>
  The first \<open>k\<close> pages of an address space: page \<open>j\<close> is not mapped, or mapped to the frame \<open>F j\<close> with the bytes \<open>W j\<close>.
\<close>

definition space_image :: "(nat \<Rightarrow> u8 list option) \<Rightarrow> pmemory \<Rightarrow> u64 \<Rightarrow> (nat \<Rightarrow> u64) \<Rightarrow> nat \<Rightarrow> bool" where
  "space_image W m npt F k \<longleftrightarrow> (\<forall>j < k. case W j of
       None \<Rightarrow> xlate m npt (page_at j) = None
     | Some bs \<Rightarrow> xlate m npt (page_at j) = Some (PA_PTE (F j) OR user_rwx OR PTE_V) \<and> load_bytes m (F j) 4096 = bs)"

lemma space_image_cong:
  assumes "space_image W m npt F k" and "\<And>j. j < k \<Longrightarrow> xlate m' npt (page_at j) = xlate m npt (page_at j)"
    and "\<And>j bs. j < k \<Longrightarrow> W j = Some bs \<Longrightarrow> load_bytes m' (F j) 4096 = load_bytes m (F j) 4096"
  shows "space_image W m' npt F k"
  unfolding space_image_def
proof (intro allI impI)
  fix j assume "j < k"
  then show "case W j of None \<Rightarrow> xlate m' npt (page_at j) = None
     | Some bs \<Rightarrow> xlate m' npt (page_at j) = Some (PA_PTE (F j) OR user_rwx OR PTE_V) \<and> load_bytes m' (F j) 4096 = bs"
    using assms(1) [unfolded space_image_def, rule_format, of j] assms(2,3) by (cases "W j") simp_all
qed

definition present :: "(nat \<Rightarrow> u8 list option) \<Rightarrow> nat \<Rightarrow> nat set" where
  "present W k = {j. j < k \<and> W j \<noteq> None}"

lemma present_Suc: "present W (Suc k) = (if W k = None then present W k else insert k (present W k))"
  by (auto simp: present_def less_Suc_eq)

text \<open>
  What holds after a loop has built \<open>k\<close> of \<open>n\<close> pages out of the frames \<open>X\<close>; \<open>T\<close> are the translations of
  the pages before the loop.
\<close>

definition img_inv :: "pmemory \<Rightarrow> (nat \<Rightarrow> u8 list option) \<Rightarrow> u64 \<Rightarrow> u64 set \<Rightarrow> (nat \<Rightarrow> u64 option) \<Rightarrow> nat \<Rightarrow> nat \<Rightarrow>
    (nat \<Rightarrow> u64) \<Rightarrow> 'a ptab_scheme \<Rightarrow> u64 list \<Rightarrow> bool" where
  "img_inv m0 W npt X T n k F s qs \<longleftrightarrow> space_ok npt s qs \<and> outside m0 X (pmem s) \<and>
     tables (pmem s) npt \<union> set qs \<subseteq> X \<and> 3 * (n - k) \<le> length qs \<and> space_image W (pmem s) npt F k \<and>
     (\<forall>j. k \<le> j \<and> j < 2 ^ 26 \<longrightarrow> xlate (pmem s) npt (page_at j) = T j) \<and>
     inj_on F (present W k) \<and> F ` present W k \<subseteq> X - (tables (pmem s) npt \<union> set qs)"

lemma img_inv_skip:
  assumes "img_inv m0 W npt X T n k F s qs" and "W k = None" and "T k = None" and "k < n" and "n \<le> 2 ^ 26"
  shows "img_inv m0 W npt X T n (Suc k) F s qs"
  using assms by (auto simp: img_inv_def space_image_def present_Suc less_Suc_eq)

lemma img_inv_add:
  fixes s s1 :: "'a ptab_scheme"
  assumes J: "img_inv m0 W npt X T n k F s (f # ql)" and k: "k < n" "n \<le> 2 ^ 26" and al: "\<forall>q \<in> X. page_aligned q"
    and W: "W k = Some (load_bytes (pmem s1) f 4096)"
    and s1: "space_ok npt s1 qs1" "set qs1 \<subseteq> set ql" "length ql \<le> length qs1 + 2" "tables (pmem s1) npt \<subseteq> tables (pmem s) npt \<union> set ql"
    and x1: "\<forall>va'. xlate (pmem s1) npt va' =
       (if same_page (page_at k) va' then Some (PA_PTE f OR user_rwx OR PTE_V) else xlate (pmem s) npt va')"
    and o1: "outside (pmem s) (insert f (tables (pmem s) npt \<union> set ql)) (pmem s1)"
  shows "img_inv m0 W npt X T n (Suc k) (F(k := f)) s1 qs1"
proof -
  have I: "space_ok npt s (f # ql)" "outside m0 X (pmem s)" "tables (pmem s) npt \<union> set (f # ql) \<subseteq> X"
    "3 * (n - k) \<le> length (f # ql)" "space_image W (pmem s) npt F k" "\<And>j. k \<le> j \<Longrightarrow> j < 2 ^ 26 \<Longrightarrow> xlate (pmem s) npt (page_at j) = T j"
    "inj_on F (present W k)" "F ` present W k \<subseteq> X - (tables (pmem s) npt \<union> set (f # ql))"
    using J by (simp_all add: img_inv_def)
  have k27: "k < 2 ^ 27" using k by simp
  have f: "f \<notin> tables (pmem s) npt" "f \<notin> set ql" using I(1) by (auto simp: space_ok_def free_pages_def)
  let ?Y = "insert f (tables (pmem s) npt \<union> set ql)" and ?F = "F(k := f)"
  have Y: "?Y \<subseteq> X" using I(3) by auto
  have aY: "\<forall>q \<in> ?Y. page_aligned q" using Y al by blast
  have o: "outside m0 X (pmem s1)" by (rule outside_trans [OF I(2) o1 _ Y]) simp
  have tq: "tables (pmem s1) npt \<union> set qs1 \<subseteq> tables (pmem s) npt \<union> set ql" using s1 by blast
  have other: "F j \<in> X" "F j \<notin> ?Y" if "j \<in> present W k" for j
    using I(8) that by auto
  have kept: "xlate (pmem s1) npt (page_at j) = xlate (pmem s) npt (page_at j)" if "j < 2 ^ 26" "j \<noteq> k" for j
    using x1 same_page_at [of k j] that k27 by simp
  have "space_image W (pmem s1) npt ?F (Suc k)"
    unfolding space_image_def
  proof (intro allI impI)
    fix j assume j: "j < Suc k"
    show "case W j of None \<Rightarrow> xlate (pmem s1) npt (page_at j) = None
      | Some bs \<Rightarrow> xlate (pmem s1) npt (page_at j) = Some (PA_PTE (?F j) OR user_rwx OR PTE_V) \<and> load_bytes (pmem s1) (?F j) 4096 = bs"
    proof (cases "j = k")
      case True
      then show ?thesis using W x1 same_page_at [of k k] k27 by simp
    next
      case False
      then have j: "j < k" "j < 2 ^ 26" using j k by auto
      show ?thesis
      proof (cases "W j")
        case None
        then show ?thesis using I(5) j kept [of j] False by (auto simp: space_image_def)
      next
        case w: (Some bs)
        then have m: "j \<in> present W k" using j by (simp add: present_def)
        have "load_bytes (pmem s1) (F j) 4096 = load_bytes (pmem s) (F j) 4096"
          by (rule outside_load [OF o1 aY]) (use other [OF m] al in auto)
        moreover have "xlate (pmem s) npt (page_at j) = Some (PA_PTE (F j) OR user_rwx OR PTE_V) \<and> load_bytes (pmem s) (F j) 4096 = bs"
          using I(5) j(1) w unfolding space_image_def by fastforce
        ultimately show ?thesis using w kept [OF j(2) False] False by simp
      qed
    qed
  qed
  moreover have "inj_on ?F (present W (Suc k))"
  proof -
    have "inj_on ?F (present W k)" using I(7) by (simp add: inj_on_def present_def)
    then show ?thesis using other W by (auto simp: present_Suc)
  qed
  moreover have "?F ` present W (Suc k) \<subseteq> X - (tables (pmem s1) npt \<union> set qs1)"
  proof
    fix y assume "y \<in> ?F ` present W (Suc k)"
    then obtain j where j: "j \<in> present W (Suc k)" "y = ?F j" by blast
    then have "y \<in> X \<and> y \<notin> tables (pmem s) npt \<union> set ql"
      using other [of j] f Y W by (cases "j = k") (auto simp: present_Suc)
    then show "y \<in> X - (tables (pmem s1) npt \<union> set qs1)" using tq by blast
  qed
  moreover have "\<forall>j. Suc k \<le> j \<and> j < 2 ^ 26 \<longrightarrow> xlate (pmem s1) npt (page_at j) = T j"
    using kept I(6) by simp
  moreover have "3 * (n - Suc k) \<le> length qs1" using I(4) k(1) s1(3) by simp
  moreover have "tables (pmem s1) npt \<union> set qs1 \<subseteq> X" using tq Y by blast
  ultimately show ?thesis using s1(1) o by (simp add: img_inv_def)
qed

text \<open>Writing into one page that belongs neither to the address space nor to the free list.\<close>

lemma img_inv_store:
  assumes I: "img_inv m0 W npt X T n k F s qs" and al: "\<forall>q \<in> X. page_aligned q"
    and o: "outside (pmem s) {t} m" and t: "page_aligned t" "t \<notin> X" and m: "pmem s' = m" "freelist s' = freelist s"
  shows "space_image W m npt F k" and "space_ok npt s' qs" and "xlate m npt va = xlate (pmem s) npt va"
proof -
  have ok: "space_ok npt s qs" and X: "tables (pmem s) npt \<union> set qs \<subseteq> X" "F ` present W k \<subseteq> X"
    and c: "space_image W (pmem s) npt F k" using I by (auto simp: img_inv_def)
  have S: "space_ok npt (s\<lparr>pmem := m\<rparr>) qs" and x: "xlate m npt va = xlate (pmem s) npt va" for va
    using outside_space [OF o _ ok] t X by auto
  show "xlate m npt va = xlate (pmem s) npt va" by (rule x)
  show "space_ok npt s' qs" using S m by (simp add: space_ok_def free_pages_def)
  have "load_bytes m (F j) 4096 = load_bytes (pmem s) (F j) 4096" if "j \<in> present W k" for j
    by (rule outside_load [OF o]) (use t al X(2) that in auto)
  then show "space_image W m npt F k"
    by (intro space_image_cong [OF c x]) (simp add: present_def)
qed

text \<open>
  The child's copies \<open>F j\<close> of the first \<open>k\<close> pages of the parent; a page the parent has not mapped is
  not mapped in the child.
\<close>

definition copied :: "pmemory \<Rightarrow> u64 \<Rightarrow> pmemory \<Rightarrow> u64 \<Rightarrow> (nat \<Rightarrow> u64) \<Rightarrow> nat \<Rightarrow> bool" where
  "copied m0 ppt m npt F k \<longleftrightarrow> (\<forall>j < k. case xlate m0 ppt (page_at j) of
       None \<Rightarrow> xlate m npt (page_at j) = None
     | Some e \<Rightarrow> xlate m npt (page_at j) = Some (PA_PTE (F j) OR user_rwx OR PTE_V) \<and>
         load_bytes m (F j) 4096 = load_bytes m0 (PTE_PA e) 4096)"

definition mapped :: "pmemory \<Rightarrow> u64 \<Rightarrow> nat \<Rightarrow> nat set" where
  "mapped m r k = {j. j < k \<and> xlate m r (page_at j) \<noteq> None}"

text \<open>The parent's pages.\<close>

definition parent_pages :: "pmemory \<Rightarrow> u64 \<Rightarrow> nat \<Rightarrow> u8 list option" where
  "parent_pages m0 ppt j = map_option (\<lambda>e. load_bytes m0 (PTE_PA e) 4096) (xlate m0 ppt (page_at j))"

lemma image_parent_pages:
  "space_image (parent_pages m0 ppt) m npt F k = copied m0 ppt m npt F k" "present (parent_pages m0 ppt) k = mapped m0 ppt k"
  by (auto simp: space_image_def copied_def mapped_def present_def parent_pages_def split: option.splits)

lemma fork_loop_spec:
  fixes s :: "'a ptab_scheme"
  assumes al: "\<forall>q \<in> X. page_aligned q" and ppt: "pt_ok m0 ppt" "tables m0 ppt \<inter> X = {}"
    and fr: "\<And>j e. j < n \<Longrightarrow> xlate m0 ppt (page_at j) = Some e \<Longrightarrow> PTE_PA e \<notin> X"
    and n: "n = pages_of sz" "n \<le> 2 ^ 26" and T: "\<And>j. j < n \<Longrightarrow> T j = None"
  defines "W \<equiv> parent_pages m0 ppt"
  shows "k \<le> n \<Longrightarrow> img_inv m0 W npt X T n k F s qs \<Longrightarrow>
    \<exists>s' F' qs'. fork_loop ppt npt sz (page_at k) s = Some (Inr (True, s')) \<and> img_inv m0 W npt X T n n F' s' qs'"
proof (induction "n - k" arbitrary: k F s qs)
  case 0
  then have k: "k = n" by simp
  have "n < 2 ^ 51" using n(2) by simp
  then have "\<not> page_at k < sz" using page_at_less [of k sz] n(1) k by simp
  then show ?case using 0 k by (subst fork_loop.simps) auto
next
  case (Suc d)
  then have k: "k < n" by simp
  have "k < 2 ^ 51" using n(2) k by simp
  then have lt: "page_at k < sz" using page_at_less [of k sz] n(1) k by simp
  have I: "space_ok npt s qs" "outside m0 X (pmem s)" "3 * (n - k) \<le> length qs"
    using Suc.prems(2) by (simp_all add: img_inv_def)
  have S: "same_tables m0 ppt (pmem s)" by (rule outside_tables [OF I(2) al ppt])
  have pok: "pt_ok (pmem s) ppt" by (rule same_tables_pt_ok [OF S ppt(1)])
  have x: "xlate (pmem s) ppt va = xlate m0 ppt va" for va by (rule same_tables_xlate [OF S])
  have "\<exists>s1 F1 qs1. fork_page ppt npt (page_at k) s = Inr (True, s1) \<and> img_inv m0 W npt X T n (Suc k) F1 s1 qs1"
  proof (cases "xlate m0 ppt (page_at k)")
    case None
    have "W k = None" using None by (simp add: W_def parent_pages_def)
    then have "img_inv m0 W npt X T n (Suc k) F s qs" by (rule img_inv_skip [OF Suc.prems(2) _ T [OF k] k n(2)])
    moreover have "fork_page ppt npt (page_at k) s = Inr (True, s)"
      by (rule fork_page_none [OF pok]) (simp add: x None)
    ultimately show ?thesis by blast
  next
    case (Some e)
    obtain f ql where q: "qs = f # ql" and l: "2 \<le> length ql" using I(3) k by (cases qs) auto
    from fork_page_some [OF I(1) [unfolded q] l pok] Some x obtain s1 qs1 where
      r: "fork_page ppt npt (page_at k) s = Inr (True, s1)" and ok1: "space_ok npt s1 qs1"
      and q1: "set qs1 \<subseteq> set ql" "length ql \<le> length qs1 + 2" and t1: "tables (pmem s1) npt \<subseteq> tables (pmem s) npt \<union> set ql"
      and x1: "\<forall>va'. xlate (pmem s1) npt va' =
       (if same_page (page_at k) va' then Some (PA_PTE f OR user_rwx OR PTE_V) else xlate (pmem s) npt va')"
      and o1: "outside (pmem s) (insert f (tables (pmem s) npt \<union> set ql)) (pmem s1)"
      and b1: "load_bytes (pmem s1) f 4096 = load_bytes (pmem s) (PTE_PA e) 4096" by metis
    have "load_bytes (pmem s) (PTE_PA e) 4096 = load_bytes m0 (PTE_PA e) 4096"
      by (rule outside_load [OF I(2) al page_aligned_PTE_PA fr [OF k Some]])
    then have "W k = Some (load_bytes (pmem s1) f 4096)" using b1 Some by (simp add: W_def parent_pages_def)
    from img_inv_add [OF Suc.prems(2) [unfolded q] k n(2) al this ok1 q1 t1 x1 o1] r show ?thesis by blast
  qed
  then obtain s1 F1 qs1 where r: "fork_page ppt npt (page_at k) s = Inr (True, s1)"
    and J: "img_inv m0 W npt X T n (Suc k) F1 s1 qs1" by blast
  have "d = n - Suc k" "Suc k \<le> n" using Suc.hyps(2) k by simp_all
  from Suc.hyps(1) [OF this J] obtain s' F' qs' where
    "fork_loop ppt npt sz (page_at (Suc k)) s1 = Some (Inr (True, s'))" "img_inv m0 W npt X T n n F' s' qs'" by blast
  then show ?case using lt r by (subst fork_loop.simps) (auto simp: page_at_Suc)
qed

lemma slots_of_copy:
  assumes "page_aligned t" and "page_aligned u" and "k < 512"
  shows "load64 (copy_bytes m t u 4096) (slot t k) = load64 m (slot u k)"
proof -
  have "copy_bytes m t u 4096 (slot t k + of_nat j) = m (slot u k + of_nat j)" if "j < 8" for j
    using in_page_slot [OF assms(3) that, of t] by (simp add: copy_bytes_eq [OF assms(1,2)] slot_byte_offset)
  then show ?thesis by (auto simp: load64_def load_bytes_def intro!: arg_cong [of _ _ le_word])
qed

section \<open>A first process\<close>

lemma format_text_plain:
  "0 \<notin> set xs \<Longrightarrow> ch CHR ''%'' \<notin> set xs \<Longrightarrow> format_text (xs @ rest) ap = map_option ((@) xs) (format_text rest ap)"
proof (induction xs)
  case Nil
  then show ?case by (simp add: option.map_id [unfolded id_def])
next
  case (Cons x xs)
  then show ?case
    by (cases "xs @ rest") (auto simp: option.map_comp o_def)
qed

lemma printf_int:
  assumes "0 \<notin> set (cstr a) \<union> set (cstr b)" and "ch CHR ''%'' \<notin> set (cstr a) \<union> set (cstr b)"
  shows "\<exists>n t. printf (a @ ''%d'' @ b) [AVal w] s = Inr (n, s\<lparr>tx := t\<rparr>)"
proof -
  have b: "format_text (cstr b) [] = Some (cstr b)"
    using format_text_plain [of "cstr b" "[]" "[]"] assms by simp
  have "cstr (a @ ''%d'' @ b) = cstr a @ ch CHR ''%'' # ch CHR ''d'' # cstr b" by (simp add: cstr_def ch_def)
  moreover have "format_text (ch CHR ''%'' # ch CHR ''d'' # cstr b) [AVal w] =
      Some (decimal_text (sint (ucast w :: u32)) @ cstr b)" by (simp add: ch_def conv_text.simps b)
  ultimately have "\<exists>t. format_text (cstr (a @ ''%d'' @ b)) [AVal w] = Some t"
    using assms by (simp add: format_text_plain)
  then show ?thesis by (auto simp: printf_spec)
qed


lemma boot_pages:
  "\<exists>(s :: ptab) ps. procs s = (\<lambda>_. proc_boot) \<and> current s = None \<and> nextpid s = 1 \<and> free_pages s ps \<and> length ps = 32000"
proof -
  have k: "0 < unat (0x80300000 :: u64)" "unat (0x80300000 :: u64) \<le> unat PHYSTOP" by (simp_all add: unat_PHYSTOP)
  let ?ps = "rev (ram_pages (PGGROUNDUP 0x80300000))"
  from pmm_init_spec [OF k, of boot] obtain m :: mem where fp: "free_pages m ?ps" by (auto simp: boot_def)
  have l: "length ?ps = 32000" by (simp add: ram_pages_def PGGROUNDUP_def PGSIZE_def PHYSTOP_def)
  let ?s = "ptab_boot\<lparr>pmem := pmem m, freelist := freelist m\<rparr>"
  have "free_pages ?s ?ps" using fp by (simp add: free_pages_def)
  then show ?thesis using l by (intro exI [of _ ?s] exI [of _ ?ps]) simp
qed

section \<open>The first process\<close>

text \<open>Page \<open>j\<close> of a program, filled up with zeros.\<close>

definition prog_page :: "u8 list \<Rightarrow> nat \<Rightarrow> u8 list" where
  "prog_page prog j = take 4096 (drop (4096 * j) prog @ replicate 4096 0)"

lemma outside_store_bytes: "length bs \<le> 4096 \<Longrightarrow> outside m {p} (store_bytes m p bs)"
  by (auto simp: outside_def in_page_def intro!: store_bytes_outside)

lemma filled_page:
  "load_bytes (store_bytes (clear_bytes m p) p (take (min 4096 (length prog - 4096 * j)) (drop (4096 * j) prog))) p 4096 = prog_page prog j"
  (is "load_bytes ?m p 4096 = _")
proof (rule nth_equalityI)
  show "length (load_bytes ?m p 4096) = length (prog_page prog j)" by (simp add: load_bytes_def prog_page_def)
  fix i assume "i < length (load_bytes ?m p 4096)"
  then have i: "i < 4096" by (simp add: load_bytes_def)
  have u: "unat (of_nat i :: u64) = i" by (rule unat_of_nat_small) (use i in simp)
  show "load_bytes ?m p 4096 ! i = prog_page prog j ! i"
    using i u by (auto simp: load_bytes_def prog_page_def store_bytes_def clear_bytes_eq in_page_def nth_append)
qed

lemma load_page_spec:
  fixes s :: "'a ptab_scheme"
  assumes ok: "space_ok npt s (f # qs)" and l: "2 \<le> length qs"
  shows "\<exists>s' qs'. load_page prog npt i s = Inr (True, s') \<and> space_ok npt s' qs' \<and> set qs' \<subseteq> set qs \<and>
    length qs \<le> length qs' + 2 \<and> tables (pmem s') npt \<subseteq> tables (pmem s) npt \<union> set qs \<and>
    (\<forall>va'. xlate (pmem s') npt va' =
       (if same_page (page_at i) va' then Some (PA_PTE f OR user_rwx OR PTE_V) else xlate (pmem s) npt va')) \<and>
    outside (pmem s) (insert f (tables (pmem s) npt \<union> set qs)) (pmem s') \<and>
    load_bytes (pmem s') f 4096 = prog_page prog i"
proof -
  let ?bs = "take (min 4096 (length prog - 4096 * i)) (drop (4096 * i) prog)"
  let ?m = "store_bytes (clear_bytes (pmem s) f) f ?bs"
  have o: "outside (pmem s) {f} ?m" by (rule outside_trans [OF outside_clear outside_store_bytes]) simp_all
  have va: "of_nat i * PGSIZE = page_at i" by (simp add: page_at_def PGSIZE_def mult.commute)
  from fill_and_map [OF ok l o, of "page_at i" user_rwx] obtain s1 s2 qs2 where
    a: "alloc_page s = (f, s1)" "f \<noteq> 0" "pmem s1 = pmem s" "map_page npt (page_at i) f user_rwx (s1\<lparr>pmem := ?m\<rparr>) = Inr (0, s2)"
    and r: "space_ok npt s2 qs2" "set qs2 \<subseteq> set qs" "length qs \<le> length qs2 + 2"
    "tables (pmem s2) npt \<subseteq> tables (pmem s) npt \<union> set qs"
    "\<forall>va'. xlate (pmem s2) npt va' = (if same_page (page_at i) va' then Some (PA_PTE f OR user_rwx OR PTE_V) else xlate (pmem s) npt va')"
    "outside (pmem s) (insert f (tables (pmem s) npt \<union> set qs)) (pmem s2)" "load_bytes (pmem s2) f 4096 = load_bytes ?m f 4096"
    by blast
  have "load_page prog npt i s = Inr (True, s2)"
    using a by (simp add: load_page_def va ret_def)
  then show ?thesis using r unfolding filled_page by blast
qed

lemma load_pages_spec:
  fixes s :: "'a ptab_scheme" and prog :: "u8 list"
  assumes al: "\<forall>q \<in> X. page_aligned q" and n: "np \<le> n" "n \<le> 2 ^ 26"
  defines "W \<equiv> \<lambda>j. Some (prog_page prog j)"
  shows "k \<le> np \<Longrightarrow> img_inv m0 W npt X T n k F s qs \<Longrightarrow>
    \<exists>s' F' qs'. load_pages prog npt [k..<np] s = Inr (True, s') \<and> img_inv m0 W npt X T n np F' s' qs'"
proof (induction "np - k" arbitrary: k F s qs)
  case 0
  then show ?case by auto
next
  case (Suc d)
  then have k: "k < np" "k < n" using n by simp_all
  have I: "space_ok npt s qs" "3 * (n - k) \<le> length qs" using Suc.prems(2) by (simp_all add: img_inv_def)
  obtain f ql where q: "qs = f # ql" and l: "2 \<le> length ql" using I(2) k by (cases qs) auto
  from load_page_spec [OF I(1) [unfolded q] l, of prog k] obtain s1 qs1 where
    r: "load_page prog npt k s = Inr (True, s1)" and ok1: "space_ok npt s1 qs1"
    and q1: "set qs1 \<subseteq> set ql" "length ql \<le> length qs1 + 2" and t1: "tables (pmem s1) npt \<subseteq> tables (pmem s) npt \<union> set ql"
    and x1: "\<forall>va'. xlate (pmem s1) npt va' =
       (if same_page (page_at k) va' then Some (PA_PTE f OR user_rwx OR PTE_V) else xlate (pmem s) npt va')"
    and o1: "outside (pmem s) (insert f (tables (pmem s) npt \<union> set ql)) (pmem s1)"
    and b1: "load_bytes (pmem s1) f 4096 = prog_page prog k" by blast
  have "W k = Some (load_bytes (pmem s1) f 4096)" using b1 by (simp add: W_def)
  from img_inv_add [OF Suc.prems(2) [unfolded q] k(2) n(2) al this ok1 q1 t1 x1 o1]
  have J: "img_inv m0 W npt X T n (Suc k) (F(k := f)) s1 qs1" .
  have "d = np - Suc k" "Suc k \<le> np" using Suc.hyps(2) k by simp_all
  from Suc.hyps(1) [OF this J] obtain s' F' qs' where
    "load_pages prog npt [Suc k..<np] s1 = Inr (True, s')" "img_inv m0 W npt X T n np F' s' qs'" by blast
  then show ?case using r k(1) by (auto simp: upt_conv_Cons)
qed

text \<open>A process that has not run yet: the program's pages, the stack behind them, and the trap frame.\<close>

definition fresh_program :: "u8 list \<Rightarrow> (nat \<Rightarrow> u64) \<Rightarrow> u64 \<Rightarrow> pmemory \<Rightarrow> proc \<Rightarrow> bool" where
  "fresh_program prog F st m p \<longleftrightarrow>
     (let np = (length prog + 4095) div 4096; pt = p_pagetable p in
      p_sz p = page_at (Suc np) \<and> space_image (\<lambda>j. Some (prog_page prog j)) m pt F np \<and> inj_on F {..<np} \<and>
      (\<forall>j < 2 ^ 26 - 2. np \<le> j \<longrightarrow> xlate m pt (page_at j) =
         (if j = np then Some (PA_PTE st OR (PTE_R OR PTE_W OR PTE_U) OR PTE_V) else None)) \<and>
      load_bytes m st 4096 = replicate 4096 0 \<and>
      xlate m pt TRAPFRAME = Some (PA_PTE (p_trapframe p) OR (PTE_R OR PTE_W) OR PTE_V) \<and>
      load64 m (slot (p_trapframe p) tf_epc) = 0 \<and> load64 m (slot (p_trapframe p) tf_sp) = page_at (Suc np))"

text \<open>
  \<open>user_init\<close> loads the program at address 0, puts a page for the stack behind it, and makes the process ready: its
  trap frame enters at 0 with the stack pointer at the top.
\<close>

lemma user_init_spec:
  fixes s :: "'a ptab_scheme"
  assumes fp: "free_pages s ps" and np: "np = (length prog + 4095) div 4096" "np + extra < 2 ^ 26 - 2"
    and l: "10 + 3 * (np + extra) \<le> length ps" and blank: "p_state (procs s 0) = UNUSED"
  shows "\<exists>s' qs F st. user_init tramp trapret prog s = Inr ((), s') \<and> current s' = current s \<and> nextpid s' = i32 (nextpid s + 1) \<and>
    p_state (procs s' 0) = RUNNABLE \<and> p_pid (procs s' 0) = nextpid s \<and>
    p_parent (procs s' 0) = None \<and> p_ra (procs s' 0) = trapret \<and> (\<forall>i. i \<noteq> 0 \<longrightarrow> procs s' i = procs s i) \<and>
    fresh_program prog F st (pmem s') (procs s' 0) \<and>
    space_ok (p_pagetable (procs s' 0)) s' qs \<and> set qs \<subseteq> set ps \<and> 3 * extra \<le> length qs \<and>
    page_aligned (p_trapframe (procs s' 0)) \<and> p_trapframe (procs s' 0) \<notin> set qs \<and> page_aligned st \<and> st \<notin> set qs \<and>
    F ` {..<np} \<inter> set qs = {} \<and> outside (pmem s) (set ps) (pmem s')"
proof -
  have c: "List.find (\<lambda>i. p_state (procs s i) = UNUSED) [0..<NPROC] = Some 0"
    using blank by (simp add: NPROC_def upt_rec [of 0])
  obtain ks npt t ql where q: "ps = ks # npt # t # ql" using l by (cases ps; cases "tl ps"; cases "tl (tl ps)") auto
  have l4: "4 \<le> length ql" using l q by simp
  from alloc_process_spec [OF fp [unfolded q] l4 c, of tramp] obtain s1 q1 where
    a: "alloc_process tramp s = Inr (Some 0, s1)" and ok1: "space_ok npt s1 q1" and q1: "set q1 \<subseteq> set ql" "length ql \<le> length q1 + 4"
    and t1: "tables (pmem s1) npt \<subseteq> insert npt (set ql)"
    and x1: "\<forall>va. xlate (pmem s1) npt va = (if same_page TRAPFRAME va then Some (PA_PTE t OR (PTE_R OR PTE_W) OR PTE_V)
       else if same_page TRAMPOLINE va then Some (PA_PTE tramp OR (PTE_R OR PTE_X) OR PTE_V) else None)"
    and o1: "outside (pmem s) (insert npt (set ql)) (pmem s1)"
    and p1: "procs s1 = (procs s)(0 := (procs s 0)\<lparr>p_pid := nextpid s, p_state := USED, p_kstack := ks, p_pagetable := npt,
      p_trapframe := t, p_sz := 0, p_sp := ks + PGSIZE, p_parent := None, p_chan := NoChan\<rparr>)"
    and cu1: "current s1 = current s" "nextpid s1 = i32 (nextpid s + 1)" by blast
  let ?X = "insert npt (set ql)" and ?W = "\<lambda>j. Some (prog_page prog j)" and ?n = "np + 1 + extra"
  have al: "\<forall>q \<in> ?X. page_aligned q" and t: "page_aligned t" "t \<notin> ?X"
    using free_pages_aligned [OF fp] fp q by (auto simp: free_pages_def)
  define T where "T j = xlate (pmem s1) npt (page_at j)" for j
  let ?s2 = "upd_proc 0 (\<lambda>p. p\<lparr>p_parent := None, p_name := safestrcpy (p_name p) (cstr ''init'') 16\<rparr>) s1"
  obtain n1 tx1 where pr1: "printf ''user_init: loading init program, size=%d bytes\<newline>''
      [of_int_arg (sint (of_nat (length prog) :: u32))] ?s2 = Inr (n1, ?s2\<lparr>tx := tx1\<rparr>)"
    using printf_int [of "''user_init: loading init program, size=''" "'' bytes\<newline>''"] by (fastforce simp: char_consts of_int_arg_def)
  let ?s2' = "?s2\<lparr>tx := tx1\<rparr>"
  have m2: "pmem ?s2' = pmem s1" "space_ok npt ?s2' q1" using ok1 by (simp_all add: space_ok_def free_pages_def)
  have l1: "3 * ?n \<le> length q1" using l q q1 by simp
  have I0: "img_inv (pmem s1) ?W npt ?X T ?n 0 (\<lambda>_. 0) ?s2' q1"
    unfolding img_inv_def using m2 t1 q1(1) l1 by (auto simp: space_image_def present_def T_def)
  have n26: "np \<le> ?n" "?n \<le> 2 ^ 26" using np(2) by simp_all
  from load_pages_spec [OF al n26 _ I0] obtain s3 F q3 where
    lp: "load_pages prog npt [0..<np] ?s2' = Inr (True, s3)" and I3: "img_inv (pmem s1) ?W npt ?X T ?n np F s3 q3" by blast
  note F3 = load_pages_frame [OF lp, unfolded tab_frame_def]
  have ok3: "space_ok npt s3 q3" and X3: "tables (pmem s3) npt \<union> set q3 \<subseteq> ?X" and l3: "3 + 3 * extra \<le> length q3"
    and x3: "\<And>j. np \<le> j \<Longrightarrow> j < 2 ^ 26 \<Longrightarrow> xlate (pmem s3) npt (page_at j) = T j"
    and im3: "space_image ?W (pmem s3) npt F np" and f3: "inj_on F {..<np}" "F ` {..<np} \<subseteq> ?X - (tables (pmem s3) npt \<union> set q3)"
    using I3 by (simp_all add: img_inv_def present_def lessThan_def)
  let ?s3 = "upd_proc 0 (\<lambda>p. p\<lparr>p_sz := page_at np\<rparr>) s3"
  obtain st q4 where q4: "q3 = st # q4" "2 \<le> length q4" using l3 by (cases q3) auto
  have ok3': "space_ok npt ?s3 (st # q4)" using ok3 q4 by simp
  let ?m = "clear_bytes (pmem s3) st"
  have "outside (pmem ?s3) {st} ?m" using outside_clear by simp
  from fill_and_map [OF ok3' q4(2) this, of "page_at np" "PTE_R OR PTE_W OR PTE_U"] obtain s4 s6 q6 where
    a4: "alloc_page ?s3 = (st, s4)" "st \<noteq> 0" "page_aligned st" "pmem s4 = pmem s3" "mem.more s4 = mem.more ?s3"
    and m6: "map_page npt (page_at np) st (PTE_R OR PTE_W OR PTE_U) (s4\<lparr>pmem := ?m\<rparr>) = Inr (0, s6)"
    and ok6: "space_ok npt s6 q6" and q6: "set q6 \<subseteq> set q4" "length q4 \<le> length q6 + 2"
    and t6: "tables (pmem s6) npt \<subseteq> tables (pmem s3) npt \<union> set q4"
    and x6: "\<forall>va. xlate (pmem s6) npt va = (if same_page (page_at np) va then Some (PA_PTE st OR (PTE_R OR PTE_W OR PTE_U) OR PTE_V)
       else xlate (pmem s3) npt va)"
    and o6: "outside (pmem s3) (insert st (tables (pmem s3) npt \<union> set q4)) (pmem s6)"
    and b6: "load_bytes (pmem s6) st 4096 = load_bytes ?m st 4096" and f6: "tab_frame ?s3 s6" by auto
  note A4 = more_tab_frame [OF a4(5), unfolded tab_frame_def] and P6 = f6 [unfolded tab_frame_def]
  let ?s7 = "upd_proc 0 (\<lambda>p. p\<lparr>p_sz := p_sz p + PGSIZE\<rparr>) s6"
  let ?m7 = "store64 (store64 (pmem s6) (slot t tf_epc) 0) (slot t tf_sp) (page_at np + PGSIZE)"
  let ?s8 = "upd_proc 0 (\<lambda>p. p\<lparr>p_state := RUNNABLE, p_ra := trapret, p_sp := p_kstack p + PGSIZE\<rparr>) (?s7\<lparr>pmem := ?m7\<rparr>)"
  obtain n8 tx8 where pr8: "printf ''user_init: init process created, pid=%d\<newline>'' [of_int_arg (p_pid (procs ?s8 0))] ?s8 =
      Inr (n8, ?s8\<lparr>tx := tx8\<rparr>)"
    using printf_int [of "''user_init: init process created, pid=''" "''\<newline>''"] by (fastforce simp: char_consts of_int_arg_def)
  have va: "of_nat np * PGSIZE = page_at np" by (simp add: page_at_def PGSIZE_def mult.commute)
  have r: "user_init tramp trapret prog s = Inr ((), ?s8\<lparr>tx := tx8\<rparr>)"
    using a pr1 lp a4 m6 pr8 by (simp add: user_init_def Let_def np(1) [symmetric] va p1 A4 P6 F3 ret_def)
  have idx: "tf_epc < 512" "tf_sp < 512" "tf_epc \<noteq> tf_sp" by (simp_all add: tf_epc_def tf_sp_def)
  have o: "outside (pmem s6) {t} ?m7"
    by (rule outside_trans [OF outside_store64 [OF idx(1)] outside_store64 [OF idx(2)]]) simp_all
  let ?Y = "insert st (tables (pmem s3) npt \<union> set q4)"
  have st: "st \<notin> tables (pmem s3) npt" "st \<notin> set q4" "st \<in> set q3" using ok3' q4(1) by (auto simp: space_ok_def free_pages_def)
  have Y: "?Y \<subseteq> ?X" "\<forall>q \<in> ?Y. page_aligned q" using X3 q4(1) al by auto
  have X6: "tables (pmem s6) npt \<union> set q6 \<subseteq> tables (pmem s3) npt \<union> set q4" using t6 q6(1) by blast
  then have "(tables (pmem s6) npt \<union> set q6) \<inter> {t} = {}" using t(2) Y by blast
  with outside_space [OF o _ ok6] t(1) have ok7: "space_ok npt (s6\<lparr>pmem := ?m7\<rparr>) q6"
    and x7: "\<And>va. xlate ?m7 npt va = xlate (pmem s6) npt va" by simp_all
  have X0: "?X \<subseteq> set ps" "{t} \<subseteq> set ps" "?Y \<subseteq> set ps" using q Y(1) by auto
  have "outside (pmem s1) ?X (pmem s3)" using I3 by (simp add: img_inv_def)
  from outside_trans [OF outside_trans [OF outside_trans [OF o1 this X0(1,1)] o6 order_refl X0(3)] o order_refl X0(2)]
  have o7: "outside (pmem s) (set ps) ?m7" .
  have xj: "xlate ?m7 npt (page_at j) = (if j = np then Some (PA_PTE st OR (PTE_R OR PTE_W OR PTE_U) OR PTE_V)
      else xlate (pmem s3) npt (page_at j))" if "j < 2 ^ 26" for j
    using x6 x7 same_page_at [of np j] that np(2) by simp
  have im: "space_image ?W ?m7 npt F np"
  proof (rule space_image_cong [OF im3])
    fix j assume j: "j < np"
    then show "xlate ?m7 npt (page_at j) = xlate (pmem s3) npt (page_at j)" using xj np(2) by simp
    have F: "F j \<in> ?X" "F j \<notin> ?Y" "page_aligned (F j)" using f3(2) j q4(1) al by auto
    have "load_bytes ?m7 (F j) 4096 = load_bytes (pmem s6) (F j) 4096"
      by (rule outside_load [OF o]) (use t F in auto)
    also have "\<dots> = load_bytes (pmem s3) (F j) 4096" by (rule outside_load [OF o6 Y(2) F(3,2)])
    finally show "load_bytes ?m7 (F j) 4096 = load_bytes (pmem s3) (F j) 4096" .
  qed
  have "load_bytes ?m7 st 4096 = load_bytes (pmem s6) st 4096"
    by (rule outside_load [OF o]) (use t a4(3) st(3) X3 in auto)
  also have "\<dots> = replicate 4096 0"
    unfolding b6 using in_page_offset by (intro nth_equalityI) (auto simp: load_bytes_def clear_bytes_eq)
  finally have zs: "load_bytes ?m7 st 4096 = replicate 4096 0" .
  have ends: "TRAPFRAME = page_at (2 ^ 26 - 2)" "TRAMPOLINE = page_at (2 ^ 26 - 1)"
    by (simp_all add: page_at_def TRAPFRAME_def TRAMPOLINE_def MAXVA_def PGSIZE_def)
  have T: "T j = (if j = 2 ^ 26 - 2 then Some (PA_PTE t OR (PTE_R OR PTE_W) OR PTE_V) else None)" if "j < 2 ^ 26 - 1" for j
    using x1 same_page_at [of "2 ^ 26 - 2" j] same_page_at [of "2 ^ 26 - 1" j] that by (auto simp: T_def ends)
  have xs: "xlate ?m7 npt (page_at j) = (if j = np then Some (PA_PTE st OR (PTE_R OR PTE_W OR PTE_U) OR PTE_V) else None)"
    if "j < 2 ^ 26 - 2" "np \<le> j" for j
    using xj [of j] x3 [of j] T [of j] that by simp
  have xt: "xlate ?m7 npt TRAPFRAME = Some (PA_PTE t OR (PTE_R OR PTE_W) OR PTE_V)"
    using xj [of "2 ^ 26 - 2"] x3 [of "2 ^ 26 - 2"] T [of "2 ^ 26 - 2"] np(2) unfolding ends by simp
  have sl: "load64 ?m7 (slot t tf_epc) = 0" "load64 ?m7 (slot t tf_sp) = page_at (Suc np)"
    using idx by (simp_all add: load64_store64_slot [OF t(1) t(1)] page_at_Suc)
  define s9 where "s9 = ?s8\<lparr>tx := tx8\<rparr>"
  have P: "p_state (procs s9 0) = RUNNABLE" "p_sz (procs s9 0) = page_at (Suc np)" "p_pid (procs s9 0) = nextpid s"
    "p_parent (procs s9 0) = None" "p_ra (procs s9 0) = trapret" "p_chan (procs s9 0) = NoChan" "p_killed (procs s9 0) = p_killed (procs s 0)"
    "p_pagetable (procs s9 0) = npt" "p_trapframe (procs s9 0) = t"
    "current s9 = current s" "nextpid s9 = i32 (nextpid s + 1)" "pmem s9 = ?m7" "i \<noteq> 0 \<Longrightarrow> procs s9 i = procs s i" for i
    using cu1 by (simp_all add: s9_def P6 F3 p1 page_at_Suc)
  have S: "space_ok npt s9 q6" using ok7 by (simp add: s9_def space_ok_def free_pages_def)
  have sub: "set q6 \<subseteq> set ps" "t \<notin> set q6" "st \<notin> set q6" "F ` {..<np} \<inter> set q6 = {}" "3 * extra \<le> length q6"
  proof -
    show "set q6 \<subseteq> set ps" using X6 Y q by auto
    show "t \<notin> set q6" using X6 Y t(2) by blast
    show "st \<notin> set q6" using q6(1) st(2) by blast
    show "F ` {..<np} \<inter> set q6 = {}" using f3(2) q6(1) q4(1) by auto
    show "3 * extra \<le> length q6" using l3 q4(1) q6(2) by simp
  qed
  have "fresh_program prog F st ?m7 (procs s9 0)"
    unfolding fresh_program_def Let_def np(1) [symmetric] P(2,8,9) using im f3(1) zs xs xt sl by simp
  then show ?thesis using S t(1) a4(3) sub o7 r [folded s9_def]
    by (intro exI [of _ s9] exI [of _ q6] exI [of _ F] exI [of _ st]) (simp add: P)
qed

section \<open>The child that \<open>fork\<close> makes\<close>

text \<open>Process \<open>p\<close> runs and can fork: a free slot, free pages \<open>ps\<close> enough, and its own memory outside them.\<close>

definition fork_ready :: "'a ptab_scheme \<Rightarrow> nat \<Rightarrow> u64 list \<Rightarrow> bool" where
  "fork_ready s p ps \<longleftrightarrow> current s = Some p \<and> p_state (procs s p) = RUNNING \<and> (\<exists>i < NPROC. p_state (procs s i) = UNUSED) \<and>
     free_pages s ps \<and> 7 + 3 * pages_of (p_sz (procs s p)) \<le> length ps \<and> p_sz (procs s p) \<le> TRAPFRAME \<and>
     pt_ok (pmem s) (p_pagetable (procs s p)) \<and> tables (pmem s) (p_pagetable (procs s p)) \<inter> set ps = {} \<and>
     (\<forall>j e. j < pages_of (p_sz (procs s p)) \<longrightarrow> xlate (pmem s) (p_pagetable (procs s p)) (page_at j) = Some e \<longrightarrow>
        PTE_PA e \<notin> set ps) \<and>
     page_aligned (p_trapframe (procs s p)) \<and> p_trapframe (procs s p) \<notin> set ps"

lemma fork_spec:
  fixes s :: "'a ptab_scheme"
  assumes rdy: "fork_ready s p ps"
  shows "\<exists>s' c F qs. fork tramp trapret s = Inr (nextpid s, s') \<and> c < NPROC \<and> p_state (procs s c) = UNUSED \<and>
    p_state (procs s' c) = RUNNABLE \<and> p_pid (procs s' c) = nextpid s \<and> p_parent (procs s' c) = Some p \<and>
    p_sz (procs s' c) = p_sz (procs s p) \<and> p_ra (procs s' c) = trapret \<and> (\<forall>i. i \<noteq> c \<longrightarrow> procs s' i = procs s i) \<and>
    copied (pmem s) (p_pagetable (procs s p)) (pmem s') (p_pagetable (procs s' c)) F (pages_of (p_sz (procs s p))) \<and>
    inj_on F (mapped (pmem s) (p_pagetable (procs s p)) (pages_of (p_sz (procs s p)))) \<and>
    F ` mapped (pmem s) (p_pagetable (procs s p)) (pages_of (p_sz (procs s p))) \<subseteq> set ps - set qs \<and>
    space_ok (p_pagetable (procs s' c)) s' qs \<and> set qs \<subseteq> set ps \<and>
    xlate (pmem s') (p_pagetable (procs s' c)) TRAPFRAME =
      Some (PA_PTE (p_trapframe (procs s' c)) OR (PTE_R OR PTE_W) OR PTE_V) \<and>
    (\<forall>k < 512. load64 (pmem s') (slot (p_trapframe (procs s' c)) k) =
       (if k = tf_a 0 then 0 else load64 (pmem s) (slot (p_trapframe (procs s p)) k))) \<and>
    outside (pmem s) (set ps) (pmem s')"
proof -
  have cur: "current s = Some p" "p_state (procs s p) = RUNNING" and slot: "\<exists>i < NPROC. p_state (procs s i) = UNUSED"
    and fp: "free_pages s ps" "7 + 3 * pages_of (p_sz (procs s p)) \<le> length ps" and sz: "p_sz (procs s p) \<le> TRAPFRAME"
    and ppt: "pt_ok (pmem s) (p_pagetable (procs s p))" "tables (pmem s) (p_pagetable (procs s p)) \<inter> set ps = {}"
    and fr: "\<forall>j e. j < pages_of (p_sz (procs s p)) \<longrightarrow> xlate (pmem s) (p_pagetable (procs s p)) (page_at j) = Some e \<longrightarrow>
      PTE_PA e \<notin> set ps"
    and tf: "page_aligned (p_trapframe (procs s p))" "p_trapframe (procs s p) \<notin> set ps"
    using rdy by (simp_all add: fork_ready_def)
  obtain c where c: "List.find (\<lambda>i. p_state (procs s i) = UNUSED) [0..<NPROC] = Some c"
    using slot by (cases "List.find (\<lambda>i. p_state (procs s i) = UNUSED) [0..<NPROC]") (auto simp: find_None_iff)
  have c': "c < NPROC" "p_state (procs s c) = UNUSED" using find_first [OF c] by auto
  have pc: "p \<noteq> c" using c' cur by auto
  let ?P = "procs s p" let ?n = "pages_of (p_sz ?P)" let ?ppt = "p_pagetable ?P"
  obtain ks npt t ql where q: "ps = ks # npt # t # ql" using fp(2) by (cases ps; cases "tl ps"; cases "tl (tl ps)") auto
  have l4: "4 \<le> length ql" using fp(2) q by simp
  from alloc_process_spec [OF fp(1) [unfolded q] l4 c, of tramp] obtain s1 q1 where
    a: "alloc_process tramp s = Inr (Some c, s1)" and ok1: "space_ok npt s1 q1" and q1: "set q1 \<subseteq> set ql" "length ql \<le> length q1 + 4"
    and t1: "tables (pmem s1) npt \<subseteq> insert npt (set ql)"
    and x1: "\<forall>va. xlate (pmem s1) npt va = (if same_page TRAPFRAME va then Some (PA_PTE t OR (PTE_R OR PTE_W) OR PTE_V)
       else if same_page TRAMPOLINE va then Some (PA_PTE tramp OR (PTE_R OR PTE_X) OR PTE_V) else None)"
    and o1: "outside (pmem s) (insert npt (set ql)) (pmem s1)"
    and p1: "procs s1 = (procs s)(c := (procs s c)\<lparr>p_pid := nextpid s, p_state := USED, p_kstack := ks, p_pagetable := npt,
      p_trapframe := t, p_sz := 0, p_sp := ks + PGSIZE, p_parent := None, p_chan := NoChan\<rparr>)"
    and cu1: "current s1 = current s" by blast
  let ?X = "insert npt (set ql)"
  have al: "\<forall>q \<in> ?X. page_aligned q" and t: "page_aligned t" "t \<notin> ?X"
    using free_pages_aligned [OF fp(1)] fp(1) q by (auto simp: free_pages_def)
  have X: "?X \<subseteq> set ps" using q by auto
  have TF: "unat TRAPFRAME = 4096 * (2 ^ 26 - 2)" by (simp add: TRAPFRAME_def TRAMPOLINE_def MAXVA_def PGSIZE_def)
  have n26: "?n \<le> 2 ^ 26 - 2" using sz TF unfolding pages_of_def word_le_nat_alt by (simp add: div_le_mono)
  define T where "T j = xlate (pmem s1) npt (page_at j)" for j
  have ends: "TRAPFRAME = page_at (2 ^ 26 - 2)" "TRAMPOLINE = page_at (2 ^ 26 - 1)"
    by (simp_all add: page_at_def TRAPFRAME_def TRAMPOLINE_def MAXVA_def PGSIZE_def)
  have no: "T j = None" if "j < ?n" for j
  proof -
    have "j < 2 ^ 26 - 2" using that n26 by simp
    then show ?thesis
      using x1 ends same_page_at [of "2 ^ 26 - 2" j] same_page_at [of "2 ^ 26 - 1" j] by (simp add: T_def)
  qed
  have I0: "img_inv (pmem s) (parent_pages (pmem s) ?ppt) npt ?X T ?n 0 (\<lambda>_. 0) s1 q1"
    using ok1 o1 t1 q1 fp(2) q by (auto simp: img_inv_def space_image_def present_def T_def)
  have "PTE_PA e \<notin> ?X" if "j < ?n" "xlate (pmem s) ?ppt (page_at j) = Some e" for j e
    using fr that X by blast
  moreover have "tables (pmem s) ?ppt \<inter> ?X = {}" using ppt(2) X by blast
  moreover have "?n \<le> 2 ^ 26" using n26 by simp
  ultimately obtain s2 F q2 where lp: "fork_loop ?ppt npt (p_sz ?P) (page_at 0) s1 = Some (Inr (True, s2))"
    and I: "img_inv (pmem s) (parent_pages (pmem s) ?ppt) npt ?X T ?n ?n F s2 q2"
    using fork_loop_spec [OF al ppt(1) _ _ refl _ no _ I0] by blast
  have p2: "procs s2 = procs s1" "current s2 = current s1" using fork_loop_frame [OF lp refl] by (simp_all add: tab_frame_def)
  let ?m = "store64 (copy_bytes (pmem s2) t (p_trapframe ?P) 4096) (slot t (tf_a 0)) 0"
  have a0: "tf_a 0 < 512" by (simp add: tf_a_def)
  have om: "outside (pmem s2) {t} ?m"
    by (rule outside_trans [OF outside_copy [OF t(1) tf(1)] outside_store64 [OF a0]]) simp_all
  define s' where "s' = upd_proc c (\<lambda>x. x\<lparr>p_parent := Some p, p_name := safestrcpy (p_name x) (p_name ?P) 16,
      p_ra := trapret, p_sp := p_kstack x + PGSIZE, p_state := RUNNABLE\<rparr>)
    ((upd_proc c (\<lambda>x. x\<lparr>p_sz := p_sz ?P\<rparr>) s2)\<lparr>pmem := ?m\<rparr>)"
  have f: "fork tramp trapret s = Inr (nextpid s, s')"
    using cur a lp p1 pc p2 by (simp add: fork_def myproc_def Let_def s'_def page_at_def ret_def)
  have m': "pmem s' = ?m" "freelist s' = freelist s2" by (simp_all add: s'_def upd_proc_def)
  note J = img_inv_store [OF I al om t m', unfolded image_parent_pages]
  have o2: "outside (pmem s) ?X (pmem s2)" and X2: "tables (pmem s2) npt \<union> set q2 \<subseteq> ?X" "inj_on F (mapped (pmem s) ?ppt ?n)"
    "F ` mapped (pmem s) ?ppt ?n \<subseteq> ?X - (tables (pmem s2) npt \<union> set q2)" using I by (simp_all add: img_inv_def image_parent_pages)
  have o: "outside (pmem s) (set ps) ?m" by (rule outside_trans [OF o2 om]) (use q in auto)
  have "load64 (pmem s2) (slot (p_trapframe ?P) k) = load64 (pmem s) (slot (p_trapframe ?P) k)" if "k < 512" for k
  proof -
    have "pmem s2 (slot (p_trapframe ?P) k + of_nat j) = pmem s (slot (p_trapframe ?P) k + of_nat j)" if "j < 8" for j
      using outside_page [OF o2 al tf(1)] tf(2) X in_page_slot [OF \<open>k < 512\<close> that] by blast
    then show ?thesis by (auto simp: load64_def load_bytes_def intro!: arg_cong [of _ _ le_word])
  qed
  then have tfs: "\<forall>k < 512. load64 ?m (slot t k) = (if k = tf_a 0 then 0 else load64 (pmem s) (slot (p_trapframe ?P) k))"
    using a0 by (simp add: load64_store64_slot [OF t(1) t(1)] slots_of_copy [OF t(1) tf(1)])
  have "T (2 ^ 26 - 2) = Some (PA_PTE t OR (PTE_R OR PTE_W) OR PTE_V)"
    using x1 same_page_at [of "2 ^ 26 - 2" "2 ^ 26 - 2"] by (simp add: T_def ends)
  then have "xlate (pmem s2) npt TRAPFRAME = Some (PA_PTE t OR (PTE_R OR PTE_W) OR PTE_V)"
    using I n26 unfolding ends by (simp add: img_inv_def)
  then have tx: "xlate ?m npt TRAPFRAME = Some (PA_PTE t OR (PTE_R OR PTE_W) OR PTE_V)" by (simp only: J(3))
  have P: "procs s' c = (procs s c)\<lparr>p_pid := nextpid s, p_kstack := ks, p_pagetable := npt, p_trapframe := t,
      p_sz := p_sz ?P, p_chan := NoChan, p_parent := Some p, p_name := safestrcpy (p_name (procs s c)) (p_name ?P) 16,
      p_ra := trapret, p_sp := ks + PGSIZE, p_state := RUNNABLE\<rparr>"
    and others: "\<forall>i. i \<noteq> c \<longrightarrow> procs s' i = procs s i" by (simp_all add: s'_def p2 p1)
  have "F ` mapped (pmem s) ?ppt ?n \<subseteq> set ps - set q2" "set q2 \<subseteq> set ps" using X2 X by blast+
  then show ?thesis
    using f c' J(1,2) X2(2) tfs o tx others unfolding P m'
    by (intro exI [of _ s'] exI [of _ c] exI [of _ F] exI [of _ q2]) (simp add: P m')
qed

text \<open>The first process, after \<open>user_init\<close> on an empty table: once it runs, it can fork.\<close>

lemma first_process:
  "\<exists>(s :: ptab) s1 qs e. procs s = (\<lambda>_. proc_boot) \<and> current s = None \<and> nextpid s = 1 \<and>
    user_init 0x80200000 0x80201000 [] s = Inr ((), s1) \<and> current s1 = None \<and> nextpid s1 = 2 \<and> p_state (procs s1 0) = RUNNABLE \<and>
    fork_ready (run 0 s1) 0 qs \<and> pages_of (p_sz (procs s1 0)) = 1 \<and> xlate (pmem s1) (p_pagetable (procs s1 0)) 0 = Some e"
proof -
  obtain s :: ptab and ps where s: "procs s = (\<lambda>_. proc_boot)" "current s = None" "nextpid s = 1" and fp: "free_pages s ps"
    and l: "length ps = 32000" using boot_pages by blast
  have bl: "p_state (procs s 0) = UNUSED" by (simp add: s proc_boot_def)
  have np: "0 = (length ([] :: u8 list) + 4095) div 4096" "0 + 4 < (2 :: nat) ^ 26 - 2" "10 + 3 * (0 + 4) \<le> length ps" using l by simp_all
  from user_init_spec [OF fp np bl, of "0x80200000" "0x80201000"] obtain s1 qs F st where
    u: "user_init 0x80200000 0x80201000 [] s = Inr ((), s1)" and n': "nextpid s1 = i32 (nextpid s + 1)" and o': "\<forall>i. i \<noteq> 0 \<longrightarrow> procs s1 i = procs s i"
    and c: "current s1 = current s" "p_state (procs s1 0) = RUNNABLE"
    and fr: "fresh_program [] F st (pmem s1) (procs s1 0)" and ok: "space_ok (p_pagetable (procs s1 0)) s1 qs" and l': "3 * 4 \<le> length qs"
    and tf: "page_aligned (p_trapframe (procs s1 0))" "p_trapframe (procs s1 0) \<notin> set qs" and st: "page_aligned st" "st \<notin> set qs"
    by (elim exE conjE) (rule that; assumption)
  let ?r = "p_pagetable (procs s1 0)" and ?e = "PA_PTE st OR (PTE_R OR PTE_W OR PTE_U) OR PTE_V"
  have x: "\<forall>j < 2 ^ 26 - 2. xlate (pmem s1) ?r (page_at j) = (if j = 0 then Some ?e else None)" and P: "p_sz (procs s1 0) = page_at 1"
    using fr unfolding fresh_program_def by (simp_all add: Let_def)
  have e: "PTE_PA ?e = st" by (rule PTE_PA_pack [OF st(1)]) (simp add: PTE_R_def PTE_W_def PTE_U_def PTE_V_def)
  have p0: "page_at 0 = 0" and sz: "p_sz (procs s1 0) = PGSIZE" using P by (simp_all add: page_at_def PGSIZE_def)
  then have x0: "xlate (pmem s1) ?r 0 = Some ?e" and n: "pages_of (p_sz (procs s1 0)) = 1"
    using x by (fastforce, simp add: pages_of_def PGSIZE_def)
  have np: "nextpid s1 = 2" using n' s(3) by (simp add: i32_small)
  have r: "p_pagetable (procs (run 0 s1) 0) = ?r" "p_trapframe (procs (run 0 s1) 0) = p_trapframe (procs s1 0)"
    "p_sz (procs (run 0 s1) 0) = PGSIZE" "pmem (run 0 s1) = pmem s1" "pages_of PGSIZE = 1"
    using n sz by (simp_all add: run_def upd_proc_def)
  have "1 < NPROC" "p_state (procs (run 0 s1) 1) = UNUSED" using o' by (simp_all add: NPROC_def s proc_boot_def)
  then have "\<exists>i < NPROC. p_state (procs (run 0 s1) i) = UNUSED" by blast
  moreover have "free_pages (run 0 s1) qs" using ok by (simp add: run_def upd_proc_def space_ok_def free_pages_def)
  moreover have "PGSIZE \<le> TRAPFRAME" by (simp add: TRAPFRAME_def TRAMPOLINE_def MAXVA_def PGSIZE_def)
  ultimately have "fork_ready (run 0 s1) 0 qs"
    using ok l' tf st(2) x0 e unfolding fork_ready_def r by (simp add: space_ok_def Int_commute p0)
  then show ?thesis using s u c np n x0 by (intro exI [of _ s] exI [of _ s1] exI [of _ qs] exI [of _ ?e]) simp
qed

section \<open>Properties\<close>

text \<open>
  C6. With a free slot and memory enough (seven pages, and three for every page of the parent), \<open>fork\<close>
  makes a ready child with the parent's memory: each page the parent has mapped is mapped at the same
  address in a frame of its own, taken from the free list, with the same bytes; no other page below the
  size is mapped; the child's trap frame is the parent's but for the result 0; and memory outside
  the pages that were free, the parent's included, is unchanged.
\<close>

theorem fork_copies_memory:
  fixes s :: "'a ptab_scheme"
  assumes cur: "current s = Some p" "p_state (procs s p) = RUNNING"
    and slot: "\<exists>i < NPROC. p_state (procs s i) = UNUSED"
    and fp: "free_pages s ps" "7 + 3 * pages_of (p_sz (procs s p)) \<le> length ps"
    and sz: "p_sz (procs s p) \<le> TRAPFRAME"
    and ppt: "pt_ok (pmem s) (p_pagetable (procs s p))" "tables (pmem s) (p_pagetable (procs s p)) \<inter> set ps = {}"
    and fr: "\<forall>j e. j < pages_of (p_sz (procs s p)) \<longrightarrow> xlate (pmem s) (p_pagetable (procs s p)) (page_at j) = Some e \<longrightarrow>
      PTE_PA e \<notin> set ps"
    and tf: "page_aligned (p_trapframe (procs s p))" "p_trapframe (procs s p) \<notin> set ps"
  shows "\<exists>s' c F qs. fork tramp trapret s = Inr (nextpid s, s') \<and> c < NPROC \<and> p_state (procs s c) = UNUSED \<and>
    p_state (procs s' c) = RUNNABLE \<and> p_pid (procs s' c) = nextpid s \<and> p_parent (procs s' c) = Some p \<and>
    p_sz (procs s' c) = p_sz (procs s p) \<and> p_ra (procs s' c) = trapret \<and> (\<forall>i. i \<noteq> c \<longrightarrow> procs s' i = procs s i) \<and>
    copied (pmem s) (p_pagetable (procs s p)) (pmem s') (p_pagetable (procs s' c)) F (pages_of (p_sz (procs s p))) \<and>
    inj_on F (mapped (pmem s) (p_pagetable (procs s p)) (pages_of (p_sz (procs s p)))) \<and>
    F ` mapped (pmem s) (p_pagetable (procs s p)) (pages_of (p_sz (procs s p))) \<subseteq> set ps - set qs \<and>
    space_ok (p_pagetable (procs s' c)) s' qs \<and> set qs \<subseteq> set ps \<and>
    xlate (pmem s') (p_pagetable (procs s' c)) TRAPFRAME =
      Some (PA_PTE (p_trapframe (procs s' c)) OR (PTE_R OR PTE_W) OR PTE_V) \<and>
    (\<forall>k < 512. load64 (pmem s') (slot (p_trapframe (procs s' c)) k) =
       (if k = tf_a 0 then 0 else load64 (pmem s) (slot (p_trapframe (procs s p)) k))) \<and>
    outside (pmem s) (set ps) (pmem s')"
  by (rule fork_spec) (use assms in \<open>simp add: fork_ready_def\<close>)

theorem fork_copies_memory_witness:
  "\<exists>(s :: ptab) s1 s2 F c. user_init 0x80200000 0x80201000 [] s = Inr ((), s1) \<and>
    fork 0x80200000 0x80201000 (run 0 s1) = Inr (2, s2) \<and> p_parent (procs s2 c) = Some 0 \<and>
    load_bytes (pmem s2) (F 0) 4096 =
      load_bytes (pmem s1) (PTE_PA (the (xlate (pmem s1) (p_pagetable (procs s1 0)) 0))) 4096 \<and>
    xlate (pmem s2) (p_pagetable (procs s2 c)) 0 = Some (PA_PTE (F 0) OR user_rwx OR PTE_V)"
proof -
  obtain s :: ptab and s1 qs e where u: "user_init 0x80200000 0x80201000 [] s = Inr ((), s1)" "nextpid s1 = 2"
    and f: "fork_ready (run 0 s1) 0 qs" and x: "pages_of (p_sz (procs s1 0)) = 1" "xlate (pmem s1) (p_pagetable (procs s1 0)) 0 = Some e"
    using first_process by blast
  let ?s = "run 0 s1"
  have h: "current ?s = Some 0" "p_state (procs ?s 0) = RUNNING" "\<exists>i < NPROC. p_state (procs ?s i) = UNUSED" "free_pages ?s qs"
    "7 + 3 * pages_of (p_sz (procs ?s 0)) \<le> length qs" "p_sz (procs ?s 0) \<le> TRAPFRAME" "pt_ok (pmem ?s) (p_pagetable (procs ?s 0))"
    "tables (pmem ?s) (p_pagetable (procs ?s 0)) \<inter> set qs = {}"
    "\<forall>j e. j < pages_of (p_sz (procs ?s 0)) \<longrightarrow> xlate (pmem ?s) (p_pagetable (procs ?s 0)) (page_at j) = Some e \<longrightarrow> PTE_PA e \<notin> set qs"
    "page_aligned (p_trapframe (procs ?s 0))" "p_trapframe (procs ?s 0) \<notin> set qs"
    using f unfolding fork_ready_def by blast+
  have r: "p_pagetable (procs ?s 0) = p_pagetable (procs s1 0)" "p_sz (procs ?s 0) = p_sz (procs s1 0)"
    "pmem ?s = pmem s1" "nextpid ?s = 2" "page_at 0 = 0" using u(2) by (simp_all add: run_def upd_proc_def page_at_def)
  from fork_copies_memory [OF h, of "0x80200000" "0x80201000", unfolded r x(1)] obtain s2 c F where
    "fork 0x80200000 0x80201000 ?s = Inr (2, s2)" "p_parent (procs s2 c) = Some 0"
    "copied (pmem s1) (p_pagetable (procs s1 0)) (pmem s2) (p_pagetable (procs s2 c)) F 1" by blast
  then show ?thesis using u x(2)
    by (intro exI [of _ s] exI [of _ s1] exI [of _ s2] exI [of _ F] exI [of _ c]) (auto simp: copied_def r(5))
qed

end
