(* ===== verification/TrapSpec.thy ===== *)
theory TrapSpec
  imports Trap FsMount ProcMem
begin

text \<open>
  What a trap from the user level does to the process: preemption, death, or the way back with a result.
\<close>

section \<open>The trap frame\<close>

definition frame_slot :: "'a ptab_scheme \<Rightarrow> nat \<Rightarrow> nat \<Rightarrow> u64" where
  "frame_slot s p k = load64 (pmem s) (slot (p_trapframe (procs s p)) k)"

lemma set_slot_simps [simp]:
  "procs (set_slot p k v s) = procs s" "current (set_slot p k v s) = current s" "ptab.more (set_slot p k v s) = ptab.more s"
  by (simp_all add: set_slot_def)

lemma frame_set_slot [simp]:
  "page_aligned (p_trapframe (procs s p)) \<Longrightarrow> k < 512 \<Longrightarrow> j < 512 \<Longrightarrow>
    frame_slot (set_slot p k v s) p j = (if j = k then v else frame_slot s p j)"
  by (auto simp: frame_slot_def set_slot_def load64_store64_slot)

lemmas tf_slots = tf_kernel_satp_def tf_kernel_sp_def tf_kernel_trap_def tf_kernel_hartid_def tf_epc_def tf_a_def

lemma csr_simps [simp]:
  "procs (w_stvec x s) = procs s" "current (w_stvec x s) = current s" "pmem (w_stvec x s) = pmem s"
  "procs (w_sstatus x s) = procs s" "current (w_sstatus x s) = current s" "pmem (w_sstatus x s) = pmem s"
  "procs (w_sepc x s) = procs s" "current (w_sepc x s) = current s" "pmem (w_sepc x s) = pmem s"
  "procs (intr_on s) = procs s" "current (intr_on s) = current s" "pmem (intr_on s) = pmem s"
  "procs (intr_off s) = procs s" "current (intr_off s) = current s" "pmem (intr_off s) = pmem s"
  by (simp_all add: w_stvec_def w_sstatus_def w_sepc_def intr_on_def intr_off_def)

lemma frame_slot_cong: "pmem s = pmem t \<Longrightarrow> procs s = procs t \<Longrightarrow> frame_slot s p k = frame_slot t p k"
  by (simp add: frame_slot_def)

lemma csr_frame [simp]:
  "frame_slot (w_stvec x s) p k = frame_slot s p k" "frame_slot (w_sstatus x s) p k = frame_slot s p k"
  "frame_slot (w_sepc x s) p k = frame_slot s p k" "frame_slot (intr_on s) p k = frame_slot s p k"
  "frame_slot (intr_off s) p k = frame_slot s p k"
  by (rule frame_slot_cong; simp)+

lemma set_slot_csrs [simp]:
  fixes s :: "'a trapst_scheme"
  shows "satp (set_slot p k v s) = satp s" "sstatus (set_slot p k v s) = sstatus s" "sepc (set_slot p k v s) = sepc s"
    "scause (set_slot p k v s) = scause s" "stvec (set_slot p k v s) = stvec s"
  by (simp_all add: set_slot_def)

section \<open>The way back\<close>

definition user_satp :: "u64 \<Rightarrow> u64" where
  "user_satp pt = push_bit 60 8 OR drop_bit 12 pt"

lemma usertrapret_spec:
  fixes s :: "'a trapst_scheme"
  assumes c: "current s = Some p" and al: "page_aligned (p_trapframe (procs s p))"
  shows "\<exists>s'. usertrapret sy s = Inr (ToUser (TRAMPOLINE + (sym_userret sy - sym_trampoline sy)) TRAPFRAME
      (user_satp (p_pagetable (procs s p))), s') \<and> procs s' = procs s \<and> current s' = Some p \<and>
    sepc s' = frame_slot s p tf_epc \<and> stvec s' = TRAMPOLINE + (sym_uservec sy - sym_trampoline sy) \<and>
    sstatus s' = (sstatus s AND - 256) OR 32 \<and>
    (\<forall>k < 512. frame_slot s' p k = (if k = tf_kernel_satp then satp s else if k = tf_kernel_sp then p_kstack (procs s p) + PGSIZE
      else if k = tf_kernel_trap then sym_usertrap sy else if k = tf_kernel_hartid then 0 else frame_slot s p k))"
proof -
  let ?a = "w_stvec (TRAMPOLINE + (sym_uservec sy - sym_trampoline sy)) (intr_off s)"
  let ?t = "set_slot p tf_kernel_hartid 0 (set_slot p tf_kernel_trap (sym_usertrap sy)
    (set_slot p tf_kernel_sp (p_kstack (procs s p) + PGSIZE) (set_slot p tf_kernel_satp (satp s) ?a)))"
  let ?s' = "w_sepc (frame_slot s p tf_epc) (w_sstatus ((sstatus s AND - 256) OR 32) ?t)"
  have sa: "satp ?a = satp s" by (simp add: w_stvec_def intr_off_def)
  have st: "sstatus ?a = sstatus s AND NOT 2" by (simp add: w_stvec_def intr_off_def)
  have ep: "load64 (pmem ?t) (slot (p_trapframe (procs s p)) tf_epc) = frame_slot s p tf_epc"
  proof -
    have "frame_slot ?t p tf_epc = frame_slot s p tf_epc" using al by (simp add: tf_slots)
    then show ?thesis by (simp add: frame_slot_def)
  qed
  have k: "- push_bit 8 (1 :: u64) = - 256" "push_bit 5 (1 :: u64) = 32" by simp_all
  have m: "(sstatus s AND - 3) AND - 256 = sstatus s AND - 256" by (simp add: and.assoc)
  have "usertrapret sy s = Inr (ToUser (TRAMPOLINE + (sym_userret sy - sym_trampoline sy)) TRAPFRAME
      (user_satp (p_pagetable (procs s p))), ?s')"
    using c by (simp add: usertrapret_def Let_def myproc_def ret_def user_satp_def sa st ep k m del: push_bit_numeral)
  moreover have "frame_slot ?s' p j = (if j = tf_kernel_satp then satp s else if j = tf_kernel_sp then p_kstack (procs s p) + PGSIZE
      else if j = tf_kernel_trap then sym_usertrap sy else if j = tf_kernel_hartid then 0 else frame_slot s p j)" if "j < 512" for j
    using al that by (simp add: tf_slots)
  moreover have "sstatus ?s' = (sstatus s AND - 256) OR 32" "sepc ?s' = frame_slot s p tf_epc"
    "stvec ?s' = TRAMPOLINE + (sym_uservec sy - sym_trampoline sy)" "procs ?s' = procs s" "current ?s' = Some p"
    using c by (simp_all add: w_sepc_def w_sstatus_def w_stvec_def)
  ultimately show ?thesis by blast
qed

lemma printf_total: "format_text (cstr fmt) ap \<noteq> None \<Longrightarrow> \<exists>r t. printf fmt ap s = Inr (r, s\<lparr>tx := t\<rparr>)"
  by (auto simp: printf_spec)

section \<open>Properties\<close>

lemma syscall_unknown:
  fixes s :: "'a trapst_scheme"
  assumes c: "current s = Some p" and al: "page_aligned (p_trapframe (procs s p))"
    and n: "syscalls hw time tramp trapret junk (sint (ucast (frame_slot s p (tf_a 7)) :: u32)) = None"
  shows "\<exists>s'. syscall hw time tramp trapret junk s = Inr (True, s') \<and> procs s' = procs s \<and> current s' = Some p \<and>
    sstatus s' = sstatus s \<and> satp s' = satp s \<and>
    (\<forall>k < 512. frame_slot s' p k = (if k = tf_a 0 then - 1 else frame_slot s p k))"
proof -
  let ?num = "sint (ucast (frame_slot s p (tf_a 7)) :: u32)"
  obtain r tx' where pr: "printf ''Unknown syscall %d\<newline>'' [of_int_arg ?num] s = Inr (r, s\<lparr>tx := tx'\<rparr>)"
    using printf_total [of "''Unknown syscall %d\<newline>''" "[of_int_arg ?num]" s]
    by (auto simp: char_consts of_int_arg_def conv_text.simps)
  let ?s' = "set_a0 (- 1) (p_trapframe (procs s p)) (s\<lparr>tx := tx'\<rparr>)"
  have "syscall hw time tramp trapret junk s = Inr (True, ?s')"
    using c n pr by (simp add: syscall_def cur_frame_def myproc_def Let_def frame_slot_def ret_def)
  moreover have "frame_slot ?s' p k = (if k = tf_a 0 then - 1 else frame_slot s p k)" if "k < 512" for k
    using al that by (auto simp: frame_slot_def set_a0_def load64_store64_slot tf_a_def)
  ultimately show ?thesis using c by (intro exI [of _ ?s']) (simp add: set_a0_def)
qed

lemma exit_kills:
  assumes "current s = Some p" and "p < NPROC"
  shows "\<exists>s'. exit_process time status s = Inr ((), s') \<and> current s' = None \<and> p_state (procs s' p) = ZOMBIE \<and>
    p_exit_code (procs s' p) = status"
proof -
  have "myproc s = Some p" using assms(1) by (simp add: myproc_def)
  from exit_process_spec [OF this, of time status] obtain s' where s': "exit_process time status s = Inr ((), s')" "current s' = None"
    "\<forall>i < NPROC. procs s' i = (let x = (if i = p then (procs s p)\<lparr>p_exit_code := status, p_state := ZOMBIE\<rparr> else procs s i)
       in case p_parent (procs s p) of None \<Rightarrow> x | Some q \<Rightarrow> woken (ProcChan q) x)" by blast
  have "procs s' p = (procs s p)\<lparr>p_exit_code := status, p_state := ZOMBIE\<rparr>"
    using s'(3) assms(2) by (simp add: Let_def woken_def split: option.split)
  then show ?thesis using s'(1,2) by simp
qed

text \<open>
  C11. What becomes of a process that traps from the user level. A timer interrupt saves its program counter and puts it
  back among the ready ones, no other process changing. Any other cause but a system call, and a system call of a killed
  process, ends it with exit code -1. A system call with a number that has no handler returns to the user level behind
  the call instruction, on the process's page table, with -1 in a0 and the rest of its registers as they were.
\<close>

theorem usertrap_outcomes:
  fixes s :: "'a trapst_scheme"
  assumes c: "current s = Some p" "p < NPROC" and al: "page_aligned (p_trapframe (procs s p))" and spp: "sstatus s AND 0x100 = 0"
  shows "if timer_cause (scause s) then
      \<exists>s'. usertrap hw sy time junk s = Inr (Switched, s') \<and> current s' = None \<and> p_state (procs s' p) = RUNNABLE \<and>
        (\<forall>i. i \<noteq> p \<longrightarrow> procs s' i = procs s i) \<and> frame_slot s' p tf_epc = sepc s
    else if scause s \<noteq> 8 \<or> p_killed (procs s p) then
      \<exists>s'. usertrap hw sy time junk s = Inr (Switched, s') \<and> current s' = None \<and> p_state (procs s' p) = ZOMBIE \<and>
        p_exit_code (procs s' p) = -1
    else syscalls hw time (sym_trampoline sy) (sym_usertrapret sy) junk (sint (ucast (frame_slot s p (tf_a 7)) :: u32)) = None \<longrightarrow>
      (\<exists>s'. usertrap hw sy time junk s = Inr (ToUser (TRAMPOLINE + (sym_userret sy - sym_trampoline sy)) TRAPFRAME
          (user_satp (p_pagetable (procs s p))), s') \<and> procs s' = procs s \<and> current s' = Some p \<and> sepc s' = sepc s + 4 \<and>
        stvec s' = TRAMPOLINE + (sym_uservec sy - sym_trampoline sy) \<and> frame_slot s' p (tf_a 0) = -1 \<and>
        (\<forall>k < 512. 4 < k \<longrightarrow> k \<noteq> tf_a 0 \<longrightarrow> frame_slot s' p k = frame_slot s p k))"
proof -
  let ?s1 = "set_slot p tf_epc (sepc s) (w_stvec (sym_kernelvec sy) s)"
  have f: "sepc (w_stvec x s) = sepc s" "scause (w_stvec x s) = scause s" "sstatus (w_stvec x s) = sstatus s" "satp (w_stvec x s) = satp s" for x
    by (simp_all add: w_stvec_def)
  have s1: "current ?s1 = Some p" "procs ?s1 = procs s" using c by simp_all
  have u: "usertrap hw sy time junk s = (if scause s = 8 then
      (if p_killed (procs s p) then bnd (exit_process time (-1) ?s1) (\<lambda>_. ret Switched)
       else let s = intr_on (set_slot p tf_epc (frame_slot ?s1 p tf_epc + 4) ?s1)
            in bnd (syscall hw time (sym_trampoline sy) (sym_usertrapret sy) junk s) (\<lambda>returned s.
               if returned then usertrap_end sy time p s else ret Switched s))
    else if timer_cause (scause s) then ret Switched (yield ?s1)
    else bnd (printf ''usertrap(): unexpected scause %p pid=%d\<newline>'' [AVal (scause s), of_int_arg (p_pid (procs s p))] ?s1) (\<lambda>_ s.
         bnd (printf ''            sepc=%p stval=%p\<newline>'' [AVal (sepc s), AVal (stval s)] s) (\<lambda>_ s.
         usertrap_end sy time p (upd_proc p (\<lambda>x. x\<lparr>p_killed := True\<rparr>) s))))"
    using c(1) spp by (simp add: usertrap_def myproc_def Let_def f frame_slot_def cong: if_cong)
  consider (timer) "timer_cause (scause s)" | (dead) "\<not> timer_cause (scause s)" "scause s = 8" "p_killed (procs s p)"
    | (bad) "\<not> timer_cause (scause s)" "scause s \<noteq> 8" | (sys) "\<not> timer_cause (scause s)" "scause s = 8" "\<not> p_killed (procs s p)" by blast
  then show ?thesis
  proof cases
    case timer
    have n8: "scause s \<noteq> 8" using timer by (auto simp: timer_cause_def)
    have "frame_slot (yield ?s1) p tf_epc = frame_slot ?s1 p tf_epc"
      using c(1) by (simp add: frame_slot_def yield_def myproc_def swtch_sched_def upd_proc_def)
    then show ?thesis using timer n8 c al u by (simp add: ret_def yield_def myproc_def tf_epc_def)
  next
    case dead
    then show ?thesis using u exit_kills [OF s1(1) c(2), of time "-1"] by (auto simp: ret_def)
  next
    case bad
    have t: "format_text (cstr ''usertrap(): unexpected scause %p pid=%d\<newline>'') [AVal a, of_int_arg b] \<noteq> None"
      "format_text (cstr ''            sepc=%p stval=%p\<newline>'') [AVal a, AVal c] \<noteq> None" for a b c
      by (simp_all add: char_consts of_int_arg_def conv_text.simps)
    obtain t1 where p1: "\<exists>r. printf ''usertrap(): unexpected scause %p pid=%d\<newline>'' [AVal (scause s), of_int_arg (p_pid (procs s p))] ?s1 =
        Inr (r, ?s1\<lparr>tx := t1\<rparr>)"
      using printf_total [OF t(1)] by blast
    let ?s2 = "?s1\<lparr>tx := t1\<rparr>"
    obtain t2 where p2: "\<exists>r. printf ''            sepc=%p stval=%p\<newline>'' [AVal (sepc ?s2), AVal (stval ?s2)] ?s2 = Inr (r, ?s2\<lparr>tx := t2\<rparr>)"
      using printf_total [OF t(2)] by blast
    let ?s3 = "upd_proc p (\<lambda>x. x\<lparr>p_killed := True\<rparr>) (?s2\<lparr>tx := t2\<rparr>)"
    have "current ?s3 = Some p" "p_killed (procs ?s3 p)" using c(1) by simp_all
    then show ?thesis using u bad p1 p2 exit_kills [of ?s3 p time "-1"] c(2) by (auto simp: ret_def usertrap_end_def)
  next
    case sys
    let ?s2 = "intr_on (set_slot p tf_epc (frame_slot ?s1 p tf_epc + 4) ?s1)"
    have s2: "current ?s2 = Some p" "procs ?s2 = procs s" "page_aligned (p_trapframe (procs ?s2 p))" using c al by simp_all
    have fr2: "frame_slot ?s2 p k = (if k = tf_epc then sepc s + 4 else frame_slot s p k)" if "k < 512" for k
      using al that by (simp add: tf_slots)
    show ?thesis
    proof (cases "syscalls hw time (sym_trampoline sy) (sym_usertrapret sy) junk (sint (ucast (frame_slot s p (tf_a 7)) :: u32)) = None")
      case True
      have "frame_slot ?s2 p (tf_a 7) = frame_slot s p (tf_a 7)" using fr2 by (simp add: tf_slots)
      then obtain s3 where s3: "syscall hw time (sym_trampoline sy) (sym_usertrapret sy) junk ?s2 = Inr (True, s3)" "procs s3 = procs s"
        "current s3 = Some p" "\<forall>k < 512. frame_slot s3 p k = (if k = tf_a 0 then - 1 else frame_slot ?s2 p k)"
        using syscall_unknown [OF s2(1,3), of hw time "sym_trampoline sy" "sym_usertrapret sy" junk] True s2(2) by auto
      have al3: "page_aligned (p_trapframe (procs s3 p))" using al s3(2) by simp
      obtain s4 where s4: "usertrapret sy s3 = Inr (ToUser (TRAMPOLINE + (sym_userret sy - sym_trampoline sy)) TRAPFRAME
          (user_satp (p_pagetable (procs s3 p))), s4)" "procs s4 = procs s3" "current s4 = Some p" "sepc s4 = frame_slot s3 p tf_epc"
        "stvec s4 = TRAMPOLINE + (sym_uservec sy - sym_trampoline sy)"
        "\<forall>k < 512. frame_slot s4 p k = (if k = tf_kernel_satp then satp s3 else if k = tf_kernel_sp then p_kstack (procs s3 p) + PGSIZE
          else if k = tf_kernel_trap then sym_usertrap sy else if k = tf_kernel_hartid then 0 else frame_slot s3 p k)"
        using usertrapret_spec [OF s3(3) al3, of sy] by blast
      have "usertrap hw sy time junk s = usertrapret sy s3" using u sys s3 by (simp add: usertrap_end_def)
      moreover have "frame_slot s3 p tf_epc = sepc s + 4" using s3(4) fr2 by (simp add: tf_slots)
      moreover have "frame_slot s4 p (tf_a 0) = -1" using s4(6) s3(4) by (simp add: tf_slots)
      moreover have "frame_slot s4 p k = frame_slot s p k" if "k < 512" "4 < k" "k \<noteq> tf_a 0" for k
        using s4(6) s3(4) fr2 that by (simp add: tf_slots)
      ultimately show ?thesis using sys s4 s3(2) by auto
    qed (use sys in auto)
  qed
qed

text \<open>A kernel before \<open>main\<close>, with a disk in the drive.\<close>

definition trapst_boot :: "(nat \<Rightarrow> u8) \<Rightarrow> trapst" where
  "trapst_boot m = filest.extend (fsst.extend (fsst_boot m)
     \<lparr>ftable = (\<lambda>_. \<lparr>f_type = FD_NONE, f_ref = 0, f_readable = False, f_writable = False, f_ip = None, f_off = 0, f_major = 0\<rparr>)\<rparr>)
     \<lparr>stvec = 0, sepc = 0, sstatus = 0, scause = 0, stval = 0, satp = 0, sie = 0, stimer = 0\<rparr>"

definition call_99 :: trapst where
  "call_99 = (trapst_boot (\<lambda>_. 0))\<lparr>procs := (\<lambda>_. proc_boot\<lparr>p_trapframe := 0x80300000, p_state := RUNNING\<rparr>), current := Some 0,
     pmem := store64 (\<lambda>_. 0) (slot 0x80300000 (tf_a 7)) 99, sepc := 0x1000, scause := 8, sstatus := 0\<rparr>"

theorem usertrap_outcomes_witness:
  "\<exists>s'. usertrap prompt_device \<lparr>sym_trampoline = 0x80201000, sym_uservec = 0x80201000, sym_userret = 0x80201090,
      sym_kernelvec = 0x80202000, sym_usertrap = 0x80203000, sym_usertrapret = 0x80204000\<rparr> 0 (\<lambda>_. 0) call_99 =
      Inr (ToUser (TRAMPOLINE + 0x90) TRAPFRAME (user_satp 0), s') \<and> sepc s' = 0x1004 \<and> frame_slot s' 0 (tf_a 0) = -1"
proof -
  let ?sy = "\<lparr>sym_trampoline = 0x80201000, sym_uservec = 0x80201000, sym_userret = 0x80201090,
      sym_kernelvec = 0x80202000, sym_usertrap = 0x80203000, sym_usertrapret = 0x80204000\<rparr>"
  have f: "current call_99 = Some 0" "0 < NPROC" "page_aligned (p_trapframe (procs call_99 0))" "sstatus call_99 AND 0x100 = 0"
    "scause call_99 = 8" "sepc call_99 = 0x1000" "\<not> p_killed (procs call_99 0)" "p_pagetable (procs call_99 0) = 0"
    "frame_slot call_99 0 (tf_a 7) = 99"
    by (simp_all add: call_99_def NPROC_def page_aligned_def proc_boot_def frame_slot_def)
  have tc: "\<not> timer_cause 8" by (simp add: timer_cause_def)
  have no: "syscalls (hw :: trapst device) 0 (sym_trampoline ?sy) (sym_usertrapret ?sy) (\<lambda>_. 0) (sint (ucast (99 :: u64) :: u32)) = None" for hw
    by (simp add: syscalls_def)
  have "\<exists>s'. usertrap prompt_device ?sy 0 (\<lambda>_. 0) call_99 = Inr (ToUser (TRAMPOLINE + (sym_userret ?sy - sym_trampoline ?sy)) TRAPFRAME
      (user_satp (p_pagetable (procs call_99 0))), s') \<and> sepc s' = sepc call_99 + 4 \<and> frame_slot s' 0 (tf_a 0) = -1"
    using usertrap_outcomes [OF f(1-4), of prompt_device ?sy 0 "\<lambda>_. 0"] unfolding f(5,9) using tc f(7) no by auto
  then show ?thesis by (simp add: f(6,8))
qed

end
