(* ===== verification/Boot.thy ===== *)
theory Boot
  imports TrapSpec
begin

text \<open>
  The start of the kernel (main.c): \<open>kmain\<close> from the entry in assembly to the call of the scheduler, which does not
  return; and the debug print of a page table (vm.c). What the kernel reads from the device's registers while it
  initialises it, the clock and the addresses of the linker are arguments.
\<close>

section \<open>The page-table dump\<close>

definition permstr :: "u64 \<Rightarrow> u8 list" where
  "permstr pte =
     [if pte AND PTE_V \<noteq> 0 then ch CHR ''v'' else ch CHR ''-'',
      if pte AND PTE_R \<noteq> 0 then ch CHR ''r'' else ch CHR ''-'',
      if pte AND PTE_W \<noteq> 0 then ch CHR ''w'' else ch CHR ''-'',
      if pte AND PTE_X \<noteq> 0 then ch CHR ''x'' else ch CHR ''-'',
      if pte AND PTE_U \<noteq> 0 then ch CHR ''u'' else ch CHR ''-'']"

fun dump_pagetable :: "u64 \<Rightarrow> nat \<Rightarrow> u64 \<Rightarrow> 'a con_scheme \<Rightarrow> (unit, 'a con_scheme) outcome" where
  "dump_pagetable pagetable level va_base s =
     for_each [0..<512] (\<lambda>i s.
       let pte = load64 (pmem s) (slot pagetable i) in
       if pte AND PTE_V \<noteq> 0 then
         (let pa = PTE_PA pte; va = va_base OR push_bit (12 + 9 * level) (of_nat i)
          in bnd (for_each [0..<(2 - level) * 2] (\<lambda>_ s. bnd (printf '' '' [] s) (\<lambda>_. ret ())) s) (\<lambda>_ s.
             bnd (printf ''L%d  VA:0x%x -> PA:0x%x %s\<newline>''
               [AVal (of_nat level), AVal va, AVal pa, AStr (Some (permstr pte))] s) (\<lambda>_ s.
             let flags = pte AND (PTE_R OR PTE_W OR PTE_X)
             in if flags = 0 \<and> 0 < level then dump_pagetable pa (level - 1) va s else ret () s)))
       else ret () s) s"

section \<open>State at the entry\<close>

text \<open>
  What the loop over the zero-initialised data clears: every variable of the kernel but \<open>nextpid\<close>. (The links of the
  buffers have no null value here; \<open>binit\<close> sets them before anything reads them.)
\<close>

definition vq_zero :: vq where
  "vq_zero = \<lparr>desc = (\<lambda>_. \<lparr>d_addr = Null, d_len = 0, d_flags = 0, d_next = 0\<rparr>), avail_ring = (\<lambda>_. 0),
     avail_idx = 0, used_ring = (\<lambda>_. 0), used_dev_idx = 0, vfree = (\<lambda>_. False), used_idx = 0,
     info = (\<lambda>_. None), disk_init = False, req_type = 0, req_sector = 0, status0 = 0, regs = []\<rparr>"

definition clear_bss :: "'a trapst_scheme \<Rightarrow> 'a trapst_scheme" where
  "clear_bss s = s
     \<lparr>freelist := 0,
      kl_buffer := replicate LOG_BUFSIZE 0, kl_head := 0, kl_tail := 0, kl_count := 0, kl_total_logs := 0,
      kl_dropped := 0, kl_enabled := False, kl_use_color := False,
      vq := vq_zero,
      bufs := (\<lambda>i. (bufs s i)\<lparr>b_valid := False, b_disk := False, b_dev := 0, b_blockno := 0, b_refcnt := 0,
        b_data := replicate BSIZE 0\<rparr>),
      procs := (\<lambda>_. proc_boot), current := None,
      lg_start := 0, lg_size := 0, lg_outstanding := 0, lg_committing := False, lg_dev := 0, lh_n := 0,
      lh_block := (\<lambda>_. 0), lg_lock := False,
      fs_sb := \<lparr>sb_magic = 0, sb_size = 0, sb_nblocks = 0, sb_ninodes = 0, sb_nlog = 0, sb_logstart = 0,
        sb_inodestart = 0, sb_bmapstart = 0\<rparr>,
      icache := (\<lambda>_. \<lparr>d_type = 0, d_major = 0, d_minor = 0, d_nlink = 0, d_size = 0, d_addrs = (\<lambda>_. 0), i_dev = 0,
        i_inum = 0, i_ref = 0, i_valid = False\<rparr>),
      ftable := (\<lambda>_. \<lparr>f_type = FD_NONE, f_ref = 0, f_readable = False, f_writable = False, f_ip = None, f_off = 0,
        f_major = 0\<rparr>)\<rparr>"

section \<open>The start\<close>

text \<open>The outside of the kernel: addresses, clock, device registers, the embedded program.\<close>

record machine =
  m_symbols :: symbols
  m_end :: u64
  m_clock :: "nat \<Rightarrow> u64"
  m_status :: u32
  m_ready :: u32
  m_qmax :: u32
  m_pages :: u64
  m_prog :: "u8 list"

definition LOG_I :: "u64 \<Rightarrow> string \<Rightarrow> 'a klog_scheme \<Rightarrow> (unit, 'a klog_scheme) outcome" where
  "LOG_I time msg s = klog time LOG_INFO msg [] s"

definition kvminithart :: "u64 \<Rightarrow> 'a trapst_scheme \<Rightarrow> (unit, 'a trapst_scheme) outcome" where
  "kvminithart kpt s = ret () (s\<lparr>satp := kvminithart_satp kpt\<rparr>)"

definition kmain :: "('a trapst_scheme) device \<Rightarrow> machine \<Rightarrow> 'a trapst_scheme \<Rightarrow> (unit, 'a trapst_scheme) outcome" where
  "kmain hw M s =
     (let s = clear_bss s; clk = m_clock M; sy = m_symbols M in
      bnd (printf ''=== Lab 7 & 8: File System + Kernel Log ===\<newline>'' [] s) (\<lambda>_ s.
      bnd (log_init (clk 0) s) (\<lambda>_ s.
      bnd (LOG_I (clk 1) ''Initializing physical memory manager...\<newline>'' s) (\<lambda>_ s.
      bnd (pmm_init (m_end M) s) (\<lambda>_ s.
      bnd (LOG_I (clk 2) ''Setting up kernel page table...\<newline>'' s) (\<lambda>_ s.
      bnd (kvminit (sym_trampoline sy) s) (\<lambda>kpt s.
      bnd (kvminithart kpt s) (\<lambda>_ s.
      bnd (LOG_I (clk 3) ''Initializing trap handlers...\<newline>'' s) (\<lambda>_ s.
      let s = trap_init sy s in
      bnd (LOG_I (clk 4) ''Initializing process table...\<newline>'' s) (\<lambda>_ s.
      let s = proc_init s in
      bnd (LOG_I (clk 5) ''Initializing disk driver...\<newline>'' s) (\<lambda>_ s.
      bnd (virtio_disk_init (m_status M) (m_ready M) (m_qmax M) (m_pages M) s) (\<lambda>_ s.
      bnd (LOG_I (clk 6) ''Initializing buffer cache...\<newline>'' s) (\<lambda>_ s.
      bnd (binit s) (\<lambda>_ s.
      bnd (LOG_I (clk 7) ''Mounting file system...\<newline>'' s) (\<lambda>_ s.
      bnd (fsinit hw (clk 8) 0 s) (\<lambda>_ s.
      bnd (LOG_I (clk 9) ''Initializing file table...\<newline>'' s) (\<lambda>_ s.
      let s = fileinit s in
      bnd (LOG_I (clk 10) ''Creating init process...\<newline>'' s) (\<lambda>_ s.
      bnd (user_init (sym_trampoline sy) (sym_usertrapret sy) (m_prog M) s) (\<lambda>_ s.
      bnd (log_stats s) (\<lambda>_ s.
      LOG_I (clk 11) ''Starting scheduler...\<newline>'' s))))))))))))))))))))"

end
