(* ===== verification/Sched.thy ===== *)
theory Sched
  imports ProcMem
begin

text \<open>
  The processes as a state machine. \<open>sched_step\<close> is one step of the machine: the scheduler
  starts a process, or the running process executes one of the kernel's operations on the
  process table. \<open>proc_inv\<close> is the invariant of the table in every reachable state.
  \<open>scheduler_pass\<close> is one round of the scheduler's loop.
\<close>

section \<open>The scheduler's loop\<close>



section \<open>Steps\<close>

inductive sched_step :: "u64 \<Rightarrow> u64 \<Rightarrow> 'a ptab_scheme \<Rightarrow> 'a ptab_scheme \<Rightarrow> bool" for tramp trapret where
  dispatch: "current s = None \<Longrightarrow> scan i s = Some j \<Longrightarrow> sched_step tramp trapret s (run j s)"
| yield: "current s = Some p \<Longrightarrow> sched_step tramp trapret s (yield s)"
| resume: "current s = Some p \<Longrightarrow> sched_step tramp trapret s (sleep_resume s)"
| fork: "fork tramp trapret s = Inr (r, s') \<Longrightarrow> sched_step tramp trapret s s'"
| wait: "wait_iter s = Inr (w, s') \<Longrightarrow> sched_step tramp trapret s s'"
| exit: "exit_process time status s = Inr ((), s') \<Longrightarrow> sched_step tramp trapret s s'"
| kill: "current s = Some p \<Longrightarrow> kill pid s = (r, s') \<Longrightarrow> sched_step tramp trapret s s'"
| sbrk: "sbrk n s = Inr (v, s') \<Longrightarrow> sched_step tramp trapret s s'"
| log_sleep: "current s = Some p \<Longrightarrow> sched_step tramp trapret s (sleep LogChan s)"
| log_wakeup: "current s = Some p \<Longrightarrow> sched_step tramp trapret s (wakeup LogChan s)"

text \<open>
  The table of the kernel image, and the states reached from the first process on, with the number of pids given out
  so far.
\<close>

definition blank_table :: "'a ptab_scheme \<Rightarrow> bool" where
  "blank_table s \<longleftrightarrow> current s = None \<and> nextpid s = 1 \<and> (\<forall>i < NPROC. p_parent (procs s i) = None)"

inductive reachable :: "u64 \<Rightarrow> u64 \<Rightarrow> nat \<Rightarrow> 'a ptab_scheme \<Rightarrow> bool" for tramp trapret where
  start: "blank_table s \<Longrightarrow> user_init tramp trapret prog (proc_init s) = Inr ((), s') \<Longrightarrow> reachable tramp trapret 1 s'"
| step: "reachable tramp trapret n s \<Longrightarrow> sched_step tramp trapret s s' \<Longrightarrow>
    reachable tramp trapret (if nextpid s' = nextpid s then n else Suc n) s'"

section \<open>The invariant of the table\<close>

text \<open>\<open>waits s p\<close>: process \<open>p\<close> sleeps in \<open>wait_process\<close>.\<close>

definition waits :: "'a ptab_scheme \<Rightarrow> nat \<Rightarrow> bool" where
  "waits s p \<longleftrightarrow> p_state (procs s p) = SLEEPING \<and> p_chan (procs s p) = ProcChan p"

definition child_of :: "'a ptab_scheme \<Rightarrow> nat \<Rightarrow> nat \<Rightarrow> bool" where
  "child_of s p c \<longleftrightarrow> c < NPROC \<and> p_parent (procs s c) = Some p"

definition one_running :: "'a ptab_scheme \<Rightarrow> bool" where
  "one_running s \<longleftrightarrow> (\<forall>c. current s = Some c \<longrightarrow> c < NPROC) \<and>
     (\<forall>i < NPROC. p_state (procs s i) = RUNNING \<longleftrightarrow> current s = Some i)"

text \<open>\<open>n\<close> pids have been given out: the counter wraps around, and the pids are those before it until it does.\<close>

definition pids_ok :: "nat \<Rightarrow> 'a ptab_scheme \<Rightarrow> bool" where
  "pids_ok n s \<longleftrightarrow> nextpid s = i32 (int n + 1) \<and> (n < 2 ^ 31 \<longrightarrow>
     (\<forall>i < NPROC. p_state (procs s i) \<noteq> UNUSED \<longrightarrow> 0 < p_pid (procs s i) \<and> p_pid (procs s i) \<le> int n) \<and>
     (\<forall>i < NPROC. \<forall>j < NPROC. p_state (procs s i) \<noteq> UNUSED \<longrightarrow> p_state (procs s j) \<noteq> UNUSED \<longrightarrow>
        p_pid (procs s i) = p_pid (procs s j) \<longrightarrow> i = j))"

definition parents_ok :: "'a ptab_scheme \<Rightarrow> bool" where
  "parents_ok s \<longleftrightarrow> (\<forall>i < NPROC. (p_state (procs s i) = UNUSED \<longrightarrow> p_parent (procs s i) = None) \<and>
     (\<forall>q. p_parent (procs s i) = Some q \<longrightarrow> q < NPROC))"

definition waits_ok :: "'a ptab_scheme \<Rightarrow> bool" where
  "waits_ok s \<longleftrightarrow> (\<forall>p < NPROC. waits s p \<longrightarrow>
     (\<exists>c. child_of s p c) \<and> (\<forall>c. child_of s p c \<longrightarrow> p_state (procs s c) \<noteq> ZOMBIE))"

definition chans_ok :: "'a ptab_scheme \<Rightarrow> bool" where
  "chans_ok s \<longleftrightarrow> (\<forall>p < NPROC. \<forall>q. p_state (procs s p) = SLEEPING \<longrightarrow> p_chan (procs s p) = ProcChan q \<longrightarrow> q = p)"

definition proc_inv :: "nat \<Rightarrow> 'a ptab_scheme \<Rightarrow> bool" where
  "proc_inv n s \<longleftrightarrow> one_running s \<and> pids_ok n s \<and> parents_ok s \<and> waits_ok s \<and> chans_ok s"

lemmas proc_inv_defs = proc_inv_def one_running_def pids_ok_def parents_ok_def waits_ok_def chans_ok_def
  waits_def child_of_def

text \<open>The invariant only looks at these fields.\<close>

lemma proc_inv_cong:
  assumes "current s' = current s" and "nextpid s' = nextpid s"
    and "\<And>i. i < NPROC \<Longrightarrow> p_state (procs s' i) = p_state (procs s i) \<and> p_pid (procs s' i) = p_pid (procs s i) \<and>
      p_parent (procs s' i) = p_parent (procs s i) \<and> p_chan (procs s' i) = p_chan (procs s i)"
  shows "proc_inv n s' = proc_inv n s"
  using assms by (simp add: proc_inv_defs cong: conj_cong)

section \<open>Every step keeps it\<close>

lemma scan_RUNNABLE: "scan i s = Some j \<Longrightarrow> j < NPROC \<and> p_state (procs s j) = RUNNABLE"
  by (auto simp: scan_def dest!: find_first)

text \<open>A change of one process that keeps its pid and parent and does not make it wait for a child.\<close>

lemma inv_upd:
  assumes inv: "proc_inv n s" and p: "p < NPROC" "p_state (procs s p) \<noteq> UNUSED"
    and s': "\<And>i. i < NPROC \<Longrightarrow> procs s' i = (if i = p then x else procs s i)" "nextpid s' = nextpid s"
    and x: "p_pid x = p_pid (procs s p)" "p_parent x = p_parent (procs s p)" "p_state x \<noteq> UNUSED"
    and cur: "\<And>i. i < NPROC \<Longrightarrow> i \<noteq> p \<Longrightarrow> current s' = Some i \<longleftrightarrow> current s = Some i"
      "p_state x = RUNNING \<longleftrightarrow> current s' = Some p" "\<And>i. current s' = Some i \<Longrightarrow> i < NPROC"
    and sl: "p_state x = SLEEPING \<Longrightarrow> p_chan x = LogChan \<or> p_state (procs s p) = SLEEPING \<and> p_chan x = p_chan (procs s p)"
    and z: "\<And>q. q < NPROC \<Longrightarrow> p_state x = ZOMBIE \<Longrightarrow> p_parent x = Some q \<Longrightarrow> \<not> waits s q"
  shows "proc_inv n s'"
proof -
  have I: "one_running s" "pids_ok n s" "parents_ok s" "waits_ok s" "chans_ok s" using inv by (simp_all add: proc_inv_def)
  have w: "waits s q" if "waits s' q" "q < NPROC" for q
    using that sl by (cases "q = p") (auto simp: waits_def s')
  have k: "child_of s' q i \<longleftrightarrow> child_of s q i" for q i
    using x(2) by (cases "i = p") (auto simp: child_of_def s')
  have "one_running s'" using I(1) cur by (auto simp: one_running_def s')
  moreover have "pids_ok n s'"
  proof -
    have "p_pid (procs s' i) = p_pid (procs s i) \<and> (p_state (procs s' i) = UNUSED \<longleftrightarrow> p_state (procs s i) = UNUSED)"
      if "i < NPROC" for i using that x p by (simp add: s')
    then show ?thesis using I(2) by (simp add: pids_ok_def s'(2))
  qed
  moreover have "parents_ok s'" using I(3) x p by (simp add: parents_ok_def s')
  moreover have "(\<exists>i. child_of s' q i) \<and> (\<forall>i. child_of s' q i \<longrightarrow> p_state (procs s' i) \<noteq> ZOMBIE)"
    if q: "q < NPROC" "waits s' q" for q
  proof -
    have wq: "waits s q" using w q by blast
    have "p_state (procs s' i) \<noteq> ZOMBIE" if i: "child_of s q i" for i
    proof (cases "i = p")
      case True
      then show ?thesis using z [OF q(1)] wq i p(1) x(2) by (auto simp: s' child_of_def)
    next
      case False
      then show ?thesis using I(4) wq q(1) i by (auto simp: waits_ok_def child_of_def s')
    qed
    then show ?thesis using I(4) q(1) wq by (simp add: k waits_ok_def)
  qed
  then have "waits_ok s'" by (simp add: waits_ok_def)
  moreover have "chans_ok s'" using I(5) sl p(1) by (auto simp: chans_ok_def s' split: if_splits)
  ultimately show ?thesis by (simp add: proc_inv_def)
qed

lemma inv_running: "proc_inv n s \<Longrightarrow> current s = Some p \<Longrightarrow> p < NPROC \<and> p_state (procs s p) = RUNNING"
  by (auto simp: proc_inv_def one_running_def)

lemma inv_dispatch:
  assumes inv: "proc_inv n s" and c: "current s = None" and j: "scan i s = Some j"
  shows "proc_inv n (run j s)"
proof (rule inv_upd [OF inv])
  show "procs (run j s) k = (if k = j then (procs s j)\<lparr>p_state := RUNNING\<rparr> else procs s k)" for k by simp
qed (use scan_RUNNABLE [OF j] c in auto)

lemma inv_switch:
  assumes inv: "proc_inv n s" and c: "current s = Some p"
    and f: "p_pid (f (procs s p)) = p_pid (procs s p)" "p_parent (f (procs s p)) = p_parent (procs s p)"
    and st: "p_state (f (procs s p)) \<noteq> RUNNING" "p_state (f (procs s p)) \<noteq> UNUSED"
    and sl: "p_state (f (procs s p)) = SLEEPING \<Longrightarrow> p_chan (f (procs s p)) = LogChan"
    and z: "\<And>q. q < NPROC \<Longrightarrow> p_state (f (procs s p)) = ZOMBIE \<Longrightarrow> p_parent (procs s p) = Some q \<Longrightarrow> \<not> waits s q"
  shows "proc_inv n (swtch_sched (upd_proc p f s))"
proof (rule inv_upd [OF inv])
  show "procs (swtch_sched (upd_proc p f s)) i = (if i = p then f (procs s p) else procs s i)" for i by simp
qed (use inv_running [OF inv c] assms in auto)

lemma inv_yield: "proc_inv n s \<Longrightarrow> current s = Some p \<Longrightarrow> proc_inv n (yield s)"
  unfolding yield_def myproc_def by (simp, rule inv_switch) simp_all

lemma inv_log_sleep: "proc_inv n s \<Longrightarrow> current s = Some p \<Longrightarrow> proc_inv n (sleep LogChan s)"
  unfolding sleep_def myproc_def by (simp, rule inv_switch) simp_all

lemma inv_wakeup:
  assumes inv: "proc_inv n s"
  shows "proc_inv n (wakeup c s)"
proof -
  let ?s = "wakeup c s"
  have I: "one_running s" "pids_ok n s" "parents_ok s" "waits_ok s" "chans_ok s" using inv by (simp_all add: proc_inv_def)
  have w: "waits ?s q \<Longrightarrow> waits s q" and k: "child_of ?s q i \<longleftrightarrow> child_of s q i" for q i
    by (auto simp: waits_def child_of_def woken_def split: if_splits)
  have "one_running ?s" using I(1) by (simp add: one_running_def)
  moreover have "pids_ok n ?s" using I(2) by (simp add: pids_ok_def)
  moreover have "parents_ok ?s" using I(3) by (simp add: parents_ok_def)
  moreover have "(\<exists>i. child_of ?s q i) \<and> (\<forall>i. child_of ?s q i \<longrightarrow> p_state (procs ?s i) \<noteq> ZOMBIE)"
    if "q < NPROC" "waits ?s q" for q
    using I(4) w [OF that(2)] that(1) k by (simp add: waits_ok_def)
  then have "waits_ok ?s" by (simp add: waits_ok_def)
  moreover have "chans_ok ?s" using I(5) by (auto simp: chans_ok_def woken_def split: if_splits)
  ultimately show ?thesis by (simp add: proc_inv_def)
qed

lemma not_waits_wakeup: "q < NPROC \<Longrightarrow> \<not> waits (wakeup (ProcChan q) s) q"
  by (auto simp: waits_def woken_def)

lemma inv_exit:
  assumes inv: "proc_inv n s" and x: "exit_process time status s = Inr ((), s')"
  shows "proc_inv n s'"
proof -
  obtain p where c: "current s = Some p" using x by (auto simp: exit_process_def myproc_def split: option.splits)
  let ?f = "\<lambda>x. x\<lparr>p_exit_code := status, p_state := ZOMBIE\<rparr>"
  let ?w = "case p_parent (procs s p) of None \<Rightarrow> s | Some q \<Rightarrow> wakeup (ProcChan q) s"
  have c': "current ?w = Some p" "p_parent (procs ?w p) = p_parent (procs s p)"
    using c by (cases "p_parent (procs s p)"; simp)+
  have iw: "proc_inv n ?w" using inv inv_wakeup by (cases "p_parent (procs s p)") simp_all
  have run: "p_state (procs s p) = RUNNING" "p < NPROC" using inv c by (auto simp: proc_inv_def one_running_def)
  have nw: "q < NPROC \<Longrightarrow> p_parent (procs s p) = Some q \<Longrightarrow> \<not> waits ?w q" for q
    using not_waits_wakeup by simp
  have "proc_inv n (swtch_sched (upd_proc p ?f ?w))"
    by (rule inv_switch [OF iw c'(1)]) (use c' nw in auto)
  moreover obtain s1 where s1: "exit_process time status s = Inr ((), s1)" "current s1 = None" "nextpid s1 = nextpid s"
    "\<forall>i < NPROC. procs s1 i = (let x = (if i = p then ?f (procs s p) else procs s i)
       in case p_parent (procs s p) of None \<Rightarrow> x | Some q \<Rightarrow> woken (ProcChan q) x)"
    using exit_process_spec [of s p time status] c by (auto simp: myproc_def)
  ultimately show ?thesis
    using x by (subst proc_inv_cong [of _ "swtch_sched (upd_proc p ?f ?w)"])
      (auto simp: Let_def woken_def run split: option.splits)
qed

lemma inv_resume:
  assumes inv: "proc_inv n s" and c: "current s = Some p"
  shows "proc_inv n (sleep_resume s)"
proof (rule inv_upd [OF inv])
  show "procs (sleep_resume s) i = (if i = p then (procs s p)\<lparr>p_chan := NoChan\<rparr> else procs s i)" for i
    using c by (simp add: sleep_resume_def myproc_def)
  show "nextpid (sleep_resume s) = nextpid s" using c by (simp add: sleep_resume_def myproc_def)
qed (use inv_running [OF inv c] c in \<open>auto simp: sleep_resume_def myproc_def\<close>)

lemma inv_kill:
  assumes inv: "proc_inv n s" and k: "kill pid s = (r, s')"
  shows "proc_inv n s'"
proof (cases "List.find (\<lambda>i. p_pid (procs s i) = pid) [0..<NPROC]")
  case None
  then show ?thesis using inv k by (simp add: kill_def)
next
  case (Some i)
  then have i: "i < NPROC" using find_first by fastforce
  show ?thesis
  proof (cases "p_state (procs s i) = SLEEPING")
    case False
    then have "s' = upd_proc i (\<lambda>x. x\<lparr>p_killed := True\<rparr>) s" using k Some by (simp add: kill_def Let_def)
    then show ?thesis using inv by (subst proc_inv_cong [of _ s]) auto
  next
    case True
    then have s': "s' = upd_proc i (\<lambda>x. x\<lparr>p_state := RUNNABLE\<rparr>) (upd_proc i (\<lambda>x. x\<lparr>p_killed := True\<rparr>) s)"
      using k Some by (simp add: kill_def Let_def)
    have nr: "current s \<noteq> Some i" using inv True by (auto simp: proc_inv_def one_running_def)
    show ?thesis
    proof (rule inv_upd [OF inv i])
      show "procs s' j = (if j = i then (procs s i)\<lparr>p_killed := True, p_state := RUNNABLE\<rparr> else procs s j)" for j
        by (simp add: s')
    qed (use True nr inv_running [OF inv] in \<open>auto simp: s'\<close>)
  qed
qed

lemma inv_sbrk: "proc_inv n s \<Longrightarrow> sbrk k s = Inr (v, s') \<Longrightarrow> proc_inv n s'"
  by (frule sbrk_table) (subst proc_inv_cong [of _ s]; auto)

text \<open>A slot that is taken for a new process.\<close>

lemma inv_new:
  assumes inv: "proc_inv n s" and i: "i < NPROC" "p_state (procs s i) = UNUSED"
    and s': "\<And>j. j \<noteq> i \<Longrightarrow> procs s' j = procs s j" "nextpid s' = i32 (nextpid s + 1)" "current s' = current s"
    and pid: "p_pid (procs s' i) = nextpid s" and st: "p_state (procs s' i) \<in> {USED, UNUSED, RUNNABLE}"
    and par: "p_parent (procs s' i) = None \<or>
      p_parent (procs s' i) = current s \<and> current s \<noteq> None \<and> p_state (procs s' i) \<noteq> UNUSED"
  shows "proc_inv (Suc n) s'"
proof -
  have I: "one_running s" "pids_ok n s" "parents_ok s" "waits_ok s" "chans_ok s" using inv by (simp_all add: proc_inv_def)
  have old: "p_parent (procs s i) = None" using I(3) i by (simp add: parents_ok_def)
  have w: "waits s' q \<longleftrightarrow> waits s q" for q using st i(2) by (cases "q = i") (auto simp: waits_def s'(1))
  have nw: "p_parent (procs s' i) = Some q \<Longrightarrow> \<not> waits s q" for q
    using par inv_running [OF inv] by (auto simp: waits_def)
  have k: "child_of s' q j \<longleftrightarrow> child_of s q j" if "waits s q" for q j
    using nw that old by (cases "j = i") (auto simp: child_of_def s'(1))
  have "p_state (procs s' j) = RUNNING \<longleftrightarrow> p_state (procs s j) = RUNNING" for j
    using st i(2) by (cases "j = i") (auto simp: s'(1))
  then have "one_running s'" using I(1) by (simp add: one_running_def s'(3))
  moreover have "pids_ok (Suc n) s'"
  proof -
    have np: "nextpid s = i32 (int n + 1)" "nextpid s' = i32 (int (Suc n) + 1)" using I(2) by (simp_all add: pids_ok_def s'(2))
    have "0 < p_pid (procs s' j) \<and> p_pid (procs s' j) \<le> int (Suc n) \<and> (j \<noteq> i \<longrightarrow> p_pid (procs s' j) \<le> int n)"
      if "Suc n < 2 ^ 31" "j < NPROC" "p_state (procs s' j) \<noteq> UNUSED" for j
    proof (cases "j = i")
      case True
      have "p_pid (procs s' i) = int n + 1" using that(1) by (simp add: pid np(1) i32_small)
      then show ?thesis using True by simp
    next
      case False
      then show ?thesis using I(2) that by (fastforce simp: pids_ok_def s'(1))
    qed
    note lt = this
    have new: "p_pid (procs s' i) = int n + 1" if "Suc n < 2 ^ 31" using that by (simp add: pid np(1) i32_small)
    have "j = l" if "Suc n < 2 ^ 31" "j < NPROC" "l < NPROC" "p_state (procs s' j) \<noteq> UNUSED" "p_state (procs s' l) \<noteq> UNUSED"
        "p_pid (procs s' j) = p_pid (procs s' l)" for j l
    proof (cases "j = i \<or> l = i")
      case True
      then show ?thesis using lt [OF that(1)] new [OF that(1)] that by fastforce
    next
      case False
      then show ?thesis using I(2) that by (simp add: pids_ok_def s')
    qed
    then show ?thesis using lt np by (simp add: pids_ok_def)
  qed
  moreover have "parents_ok s'"
  proof -
    have "(p_state (procs s' j) = UNUSED \<longrightarrow> p_parent (procs s' j) = None) \<and>
        (\<forall>q. p_parent (procs s' j) = Some q \<longrightarrow> q < NPROC)" if "j < NPROC" for j
      using I(3) that par inv_running [OF inv] by (cases "j = i") (auto simp: parents_ok_def s'(1))
    then show ?thesis by (simp add: parents_ok_def)
  qed
  moreover have "waits_ok s'"
  proof -
    have "p_state (procs s' j) \<noteq> ZOMBIE" if "p_state (procs s j) \<noteq> ZOMBIE" for j
      using that st by (cases "j = i") (auto simp: s'(1))
    then show ?thesis using I(4) by (simp add: waits_ok_def w k cong: conj_cong imp_cong)
  qed
  moreover have "chans_ok s'"
  proof -
    have "p_state (procs s' j) = SLEEPING \<longleftrightarrow> j \<noteq> i \<and> p_state (procs s j) = SLEEPING" for j
      using st i(2) by (cases "j = i") (auto simp: s'(1))
    then show ?thesis using I(5) by (auto simp: chans_ok_def s'(1))
  qed
  ultimately show ?thesis by (simp add: proc_inv_def)
qed

lemma inv_fork:
  assumes inv: "proc_inv n s" and f: "fork tramp trapret s = Inr (r, s')"
  shows "proc_inv n s' \<or> proc_inv (Suc n) s'"
proof -
  obtain p where c: "current s = Some p" using fork_current [OF f] by blast
  note T = fork_table [OF f c]
  show ?thesis
  proof (cases "List.find (\<lambda>i. p_state (procs s i) = UNUSED) [0..<NPROC]")
    case None
    then have "proc_inv n s' = proc_inv n s" using T c by (intro proc_inv_cong) auto
    then show ?thesis using inv by simp
  next
    case (Some i)
    have i: "i < NPROC" "p_state (procs s i) = UNUSED" using find_first [OF Some] by auto
    have "p_parent (procs s i) = None" using inv i by (simp add: proc_inv_def parents_ok_def)
    then have "proc_inv (Suc n) s'" using T Some c by (intro inv_new [OF inv i]) auto
    then show ?thesis by simp
  qed
qed

text \<open>A zombie child is reaped by its running parent.\<close>

lemma inv_reap:
  assumes inv: "proc_inv n s" and c: "current s = Some p" and i: "child_of s p i" "p_state (procs s i) = ZOMBIE"
    and s': "\<And>j. j \<noteq> i \<Longrightarrow> procs s' j = procs s j" "nextpid s' = nextpid s" "current s' = current s"
    and x: "p_state (procs s' i) = UNUSED" "p_parent (procs s' i) = None"
  shows "proc_inv n s'"
proof -
  have I: "one_running s" "pids_ok n s" "parents_ok s" "waits_ok s" "chans_ok s" using inv by (simp_all add: proc_inv_def)
  have p: "p_state (procs s p) = RUNNING" using inv_running [OF inv c] by simp
  have w: "waits s' q \<longleftrightarrow> waits s q" for q using x i(2) by (cases "q = i") (auto simp: waits_def s'(1))
  have k: "child_of s' q j \<longleftrightarrow> child_of s q j" if "waits s q" for q j
    using that x(2) i(1) p by (cases "j = i") (auto simp: child_of_def s'(1) waits_def)
  have st: "p_state (procs s' j) = z \<longleftrightarrow> (if j = i then z = UNUSED else p_state (procs s j) = z)" for j z
    using x(1) by (auto simp: s'(1))
  have "one_running s'" using I(1) i by (auto simp: one_running_def s'(3) st)
  moreover have "pids_ok n s'" using I(2) by (auto simp: pids_ok_def s' st)
  moreover have "parents_ok s'"
  proof -
    have "(p_state (procs s' j) = UNUSED \<longrightarrow> p_parent (procs s' j) = None) \<and>
        (\<forall>q. p_parent (procs s' j) = Some q \<longrightarrow> q < NPROC)" if "j < NPROC" for j
      using I(3) that x by (cases "j = i") (auto simp: parents_ok_def s'(1))
    then show ?thesis by (simp add: parents_ok_def)
  qed
  moreover have "waits_ok s'" using I(4) by (simp add: waits_ok_def w k st cong: conj_cong imp_cong)
  moreover have "chans_ok s'" using I(5) by (auto simp: chans_ok_def st s'(1))
  ultimately show ?thesis by (simp add: proc_inv_def)
qed

text \<open>The running process goes to sleep: it has a child, and no child has exited.\<close>

lemma inv_block:
  assumes inv: "proc_inv n s" and c: "current s = Some p" and kid: "child_of s p i"
    and nz: "\<And>j. child_of s p j \<Longrightarrow> p_state (procs s j) \<noteq> ZOMBIE"
  shows "proc_inv n (sleep (ProcChan p) s)"
proof -
  let ?s = "sleep (ProcChan p) s"
  have I: "one_running s" "pids_ok n s" "parents_ok s" "waits_ok s" "chans_ok s" using inv by (simp_all add: proc_inv_def)
  have p: "p < NPROC" "p_state (procs s p) = RUNNING" using inv_running [OF inv c] by simp_all
  have s': "procs ?s j = (if j = p then (procs s p)\<lparr>p_chan := ProcChan p, p_state := SLEEPING\<rparr> else procs s j)"
    "nextpid ?s = nextpid s" "current ?s = None" for j using c by (simp_all add: sleep_def myproc_def)
  have w: "waits ?s q \<longleftrightarrow> waits s q \<or> q = p" and k: "child_of ?s q j \<longleftrightarrow> child_of s q j" for q j
    using p(2) by (auto simp: waits_def child_of_def s'(1))
  have z: "p_state (procs ?s j) = ZOMBIE \<longleftrightarrow> p_state (procs s j) = ZOMBIE" for j using p(2) by (simp add: s'(1))
  have "one_running ?s" using I(1) c by (simp add: one_running_def s')
  moreover have "pids_ok n ?s" using I(2) p by (auto simp: pids_ok_def s')
  moreover have "parents_ok ?s" using I(3) p by (auto simp: parents_ok_def s')
  moreover have "waits_ok ?s" using I(4) kid nz by (auto simp: waits_ok_def w k z)
  moreover have "chans_ok ?s" using I(5) by (auto simp: chans_ok_def s'(1))
  ultimately show ?thesis by (simp add: proc_inv_def)
qed

lemma inv_wait:
  assumes inv: "proc_inv n s" and wt: "wait_iter s = Inr (w, s')"
  shows "proc_inv n s'"
proof -
  obtain p where c: "current s = Some p" using wt by (auto simp: wait_iter_def myproc_def split: option.splits)
  let ?P = "\<lambda>i. p_parent (procs s i) = Some p \<and> p_state (procs s i) = ZOMBIE"
  show ?thesis
  proof (cases "List.find ?P [0..<NPROC]")
    case (Some i)
    have i: "child_of s p i" "p_state (procs s i) = ZOMBIE" using find_first [OF Some] by (auto simp: child_of_def)
    obtain s1 where f: "free_page (p_kstack (procs s i)) s = Inr ((), s1)" and s': "s' = upd_proc i
        (\<lambda>x. x\<lparr>p_kstack := 0, p_state := UNUSED, p_pid := 0, p_parent := None, p_name := (p_name x)[0 := 0]\<rparr>) s1"
      using wt c Some by (auto simp: wait_iter_def myproc_def Let_def bnd_eq_Inr)
    have F: "procs s1 = procs s" "current s1 = current s" "nextpid s1 = nextpid s"
      using mem_tab_frames(4) [OF f] by (simp_all add: tab_frame_def)
    show ?thesis by (rule inv_reap [OF inv c i]) (simp_all add: s' F)
  next
    case None
    then have nz: "child_of s p j \<Longrightarrow> p_state (procs s j) \<noteq> ZOMBIE" for j
      by (auto simp: find_None_iff child_of_def)
    show ?thesis
    proof (cases "\<exists>i \<in> {..<NPROC}. p_parent (procs s i) = Some p")
      case True
      then obtain i where "child_of s p i" by (auto simp: child_of_def)
      then show ?thesis using wt c None True inv_block [OF inv c _ nz] by (simp add: wait_iter_def myproc_def)
    next
      case False
      then have "s' = s" using wt c None by (simp add: wait_iter_def myproc_def)
      then show ?thesis using inv by simp
    qed
  qed
qed

lemma sched_step_keeps:
  "sched_step tramp trapret s s' \<Longrightarrow> proc_inv n s \<Longrightarrow> proc_inv n s' \<or> proc_inv (Suc n) s'"
proof (induction rule: sched_step.induct)
  case (dispatch s i j)
  then show ?case using inv_dispatch by blast
next
  case (yield s p)
  then show ?case using inv_yield by blast
next
  case (resume s p)
  then show ?case using inv_resume by blast
next
  case (fork s r s')
  then show ?case using inv_fork by blast
next
  case (wait s w s')
  then show ?case using inv_wait by blast
next
  case (exit time status s s')
  then show ?case using inv_exit by blast
next
  case (kill s p pid r s')
  then show ?case using inv_kill by blast
next
  case (sbrk k s v s')
  then show ?case using inv_sbrk by blast
next
  case (log_sleep s p)
  then show ?case using inv_log_sleep by blast
next
  case (log_wakeup s p)
  then show ?case using inv_wakeup by blast
qed

lemma sched_step_inv:
  assumes "sched_step tramp trapret s s'" and "proc_inv n s"
  shows "proc_inv (if nextpid s' = nextpid s then n else Suc n) s'"
proof -
  have p: "proc_inv k t \<Longrightarrow> nextpid t = i32 (int k + 1)" for k and t :: "'a ptab_scheme" by (simp add: proc_inv_def pids_ok_def)
  have "i32 (int (Suc n) + 1) \<noteq> i32 (int n + 1)" using i32_Suc_ne [of "int n + 1"] by (simp add: add.commute)
  then show ?thesis using sched_step_keeps [OF assms] p [OF assms(2)] p [of n s'] p [of "Suc n" s'] by auto
qed

lemma proc_init_table:
  "procs (proc_init s) i = (if i < NPROC then (procs s i)\<lparr>p_state := UNUSED\<rparr> else procs s i)"
  "current (proc_init s) = current s" "nextpid (proc_init s) = nextpid s"
proof -
  have "procs (fold (\<lambda>i. upd_proc i (\<lambda>p. p\<lparr>p_state := UNUSED\<rparr>)) [0..<n] s) i =
      (if i < n then (procs s i)\<lparr>p_state := UNUSED\<rparr> else procs s i) \<and>
    current (fold (\<lambda>i. upd_proc i (\<lambda>p. p\<lparr>p_state := UNUSED\<rparr>)) [0..<n] s) = current s \<and>
    nextpid (fold (\<lambda>i. upd_proc i (\<lambda>p. p\<lparr>p_state := UNUSED\<rparr>)) [0..<n] s) = nextpid s" for n i
    by (induction n arbitrary: i) auto
  then show "procs (proc_init s) i = (if i < NPROC then (procs s i)\<lparr>p_state := UNUSED\<rparr> else procs s i)"
    "current (proc_init s) = current s" "nextpid (proc_init s) = nextpid s" by (simp_all add: proc_init_def)
qed

lemma proc_init_blank: "\<forall>i. p_state (procs s i) = UNUSED \<Longrightarrow> proc_init s = s"
proof -
  assume u: "\<forall>i. p_state (procs s i) = UNUSED"
  then have "(procs s i)\<lparr>p_state := UNUSED\<rparr> = procs s i" for i by (cases "procs s i") (metis proc.select_convs(3) proc.update_convs(3))
  then have "upd_proc i (\<lambda>p. p\<lparr>p_state := UNUSED\<rparr>) s = s" for i by (simp add: upd_proc_def)
  then have "fold (\<lambda>i. upd_proc i (\<lambda>p. p\<lparr>p_state := UNUSED\<rparr>)) is s = s" for "is" by (induction "is") simp_all
  then show ?thesis by (simp add: proc_init_def)
qed

lemma inv_start:
  assumes b: "blank_table s" and u: "user_init tramp trapret prog (proc_init s) = Inr ((), s')"
  shows "proc_inv 1 s'"
proof -
  let ?s = "proc_init s"
  have inv: "proc_inv 0 ?s" using b by (simp add: proc_inv_defs proc_init_table blank_table_def i32_small)
  note T = user_init_table [OF u]
  have "List.find (\<lambda>i. p_state (procs ?s i) = UNUSED) [0..<NPROC] = Some 0"
    by (simp add: proc_init_table NPROC_def upt_rec [of 0])
  then obtain i where Some: "List.find (\<lambda>i. p_state (procs ?s i) = UNUSED) [0..<NPROC] = Some i" by blast
  have i: "i < NPROC" "p_state (procs ?s i) = UNUSED" using find_first [OF Some] by auto
  have "p_parent (procs ?s i) = None" using inv i by (simp add: proc_inv_def parents_ok_def)
  then show ?thesis using T Some unfolding One_nat_def by (intro inv_new [OF inv i]) auto
qed

lemma reachable_inv: "reachable tramp trapret n s \<Longrightarrow> proc_inv n s"
  by (induction rule: reachable.induct) (rule inv_start sched_step_inv; assumption)+

section \<open>The life of a process\<close>

definition life :: "procstate \<Rightarrow> procstate \<Rightarrow> bool" where
  "life a b \<longleftrightarrow> a = b \<or> (a, b) \<in> {(UNUSED, USED), (UNUSED, RUNNABLE), (RUNNABLE, RUNNING), (RUNNING, RUNNABLE),
     (RUNNING, SLEEPING), (RUNNING, ZOMBIE), (SLEEPING, RUNNABLE), (ZOMBIE, UNUSED)}"

lemma life_refl [simp]: "life a a"
  by (simp add: life_def)

lemma life_woken [simp]: "life (p_state x) (p_state (woken c x))"
  by (simp add: life_def woken_def)

lemma life_fork:
  assumes "fork tramp trapret s = Inr (r, s')"
  shows "life (p_state (procs s i)) (p_state (procs s' i))"
proof -
  obtain p where c: "current s = Some p" using fork_current [OF assms] by blast
  show ?thesis
  proof (cases "List.find (\<lambda>i. p_state (procs s i) = UNUSED) [0..<NPROC]")
    case None
    then show ?thesis using fork_table [OF assms c] by simp
  next
    case (Some j)
    have "p_state (procs s j) = UNUSED" using find_first [OF Some] by auto
    then show ?thesis using fork_table [OF assms c] Some by (cases "i = j") (auto simp: life_def)
  qed
qed

lemma life_wait:
  assumes inv: "proc_inv n s" and wt: "wait_iter s = Inr (w, s')"
  shows "life (p_state (procs s i)) (p_state (procs s' i))"
proof -
  obtain p where c: "current s = Some p" using wt by (auto simp: wait_iter_def myproc_def split: option.splits)
  let ?P = "\<lambda>i. p_parent (procs s i) = Some p \<and> p_state (procs s i) = ZOMBIE"
  show ?thesis
  proof (cases "List.find ?P [0..<NPROC]")
    case (Some j)
    have j: "p_state (procs s j) = ZOMBIE" using find_first [OF Some] by auto
    obtain s1 where f: "free_page (p_kstack (procs s j)) s = Inr ((), s1)" and s': "s' = upd_proc j
        (\<lambda>x. x\<lparr>p_kstack := 0, p_state := UNUSED, p_pid := 0, p_parent := None, p_name := (p_name x)[0 := 0]\<rparr>) s1"
      using wt c Some by (auto simp: wait_iter_def myproc_def Let_def bnd_eq_Inr)
    have "procs s1 = procs s" using mem_tab_frames(4) [OF f] by (simp add: tab_frame_def)
    then show ?thesis using j by (simp add: s' life_def)
  next
    case None
    then have "s' = s \<or> s' = sleep (ProcChan p) s" using wt c by (simp add: wait_iter_def myproc_def split: if_splits)
    moreover have "life (p_state (procs s i)) (p_state (procs (sleep (ProcChan p) s) i))"
      using c inv_running [OF inv c] by (simp add: sleep_def myproc_def life_def)
    ultimately show ?thesis by auto
  qed
qed

lemma life_step: "sched_step tramp trapret s s' \<Longrightarrow> proc_inv n s \<Longrightarrow> i < NPROC \<Longrightarrow> life (p_state (procs s i)) (p_state (procs s' i))"
proof (induction rule: sched_step.induct)
  case (dispatch s k j)
  then show ?case using scan_RUNNABLE by (auto simp: life_def)
next
  case (yield s p)
  then show ?case using inv_running by (auto simp: yield_def myproc_def life_def)
next
  case (resume s p)
  then show ?case by (simp add: sleep_resume_def myproc_def)
next
  case (fork s r s')
  then show ?case using life_fork by blast
next
  case (wait s w s')
  then show ?case using life_wait by blast
next
  case (exit time status s s')
  then obtain p where c: "current s = Some p" by (auto simp: exit_process_def myproc_def split: option.splits)
  have p: "p_state (procs s p) = RUNNING" using inv_running [OF exit.prems(1) c] by simp
  let ?x = "if i = p then (procs s p)\<lparr>p_exit_code := status, p_state := ZOMBIE\<rparr> else procs s i"
  have l: "life (p_state (procs s i)) (p_state ?x)" using p by (simp add: life_def)
  have "procs s' i = (case p_parent (procs s p) of None \<Rightarrow> ?x | Some q \<Rightarrow> woken (ProcChan q) ?x)"
  proof -
    have "myproc s = Some p" using c by (simp add: myproc_def)
    from exit_process_spec [OF this] obtain s1 where s1: "exit_process time status s = Inr ((), s1)"
      "\<forall>i < NPROC. procs s1 i = (let x = (if i = p then (procs s p)\<lparr>p_exit_code := status, p_state := ZOMBIE\<rparr> else procs s i)
         in case p_parent (procs s p) of None \<Rightarrow> x | Some q \<Rightarrow> woken (ProcChan q) x)" by blast
    have "s1 = s'" using s1(1) exit.hyps by simp
    then show ?thesis using s1(2) exit.prems(2) unfolding Let_def by blast
  qed
  moreover have "life (p_state (procs s i)) (p_state (woken k ?x))" for k
  proof (cases "i = p")
    case True
    then show ?thesis using p by (simp add: life_def)
  next
    case False
    then show ?thesis by simp
  qed
  ultimately show ?case using l by (cases "p_parent (procs s p)") (simp_all only: option.case)
next
  case (kill s p pid r s')
  show ?case
  proof (cases "List.find (\<lambda>i. p_pid (procs s i) = pid) [0..<NPROC]")
    case None
    then show ?thesis using kill.hyps(2) by (simp add: kill_def)
  next
    case (Some j)
    then have "procs s' i = (if i = j then (procs s j)\<lparr>p_killed := True, p_state :=
        (if p_state (procs s j) = SLEEPING then RUNNABLE else p_state (procs s j))\<rparr> else procs s i)"
      using kill.hyps(2) by (auto simp: kill_def Let_def)
    then show ?thesis by (simp add: life_def)
  qed
next
  case (sbrk k s v s')
  then obtain p sz where "procs s' = (procs s)(p := (procs s p)\<lparr>p_sz := sz\<rparr>)" using sbrk_table by blast
  then show ?case by simp
next
  case (log_sleep s p)
  then show ?case using inv_running by (auto simp: sleep_def myproc_def life_def)
next
  case (log_wakeup s p)
  then show ?case by simp
qed

section \<open>One round of the scheduler\<close>







section \<open>Properties\<close>

text \<open>
  C24. In every reachable state at most the current process runs, and a process that sleeps in \<open>wait_process\<close> has a
  child, none of whose like has exited without it being woken: no wake-up is lost. As long as fewer than 2^31 pids have
  been given out, no two live processes have the same pid; \<open>nextpid\<close> is one more than that number and
  wraps around as a C \<open>int\<close>.
\<close>

theorem process_table_invariant:
  assumes "reachable tramp trapret n s"
  shows "(\<forall>i < NPROC. p_state (procs s i) = RUNNING \<longleftrightarrow> current s = Some i) \<and>
    nextpid s = i32 (int n + 1) \<and>
    (n < 2 ^ 31 \<longrightarrow> (\<forall>i < NPROC. p_state (procs s i) \<noteq> UNUSED \<longrightarrow> 0 < p_pid (procs s i) \<and> p_pid (procs s i) \<le> int n) \<and>
      (\<forall>i < NPROC. \<forall>j < NPROC. p_state (procs s i) \<noteq> UNUSED \<longrightarrow> p_state (procs s j) \<noteq> UNUSED \<longrightarrow>
         p_pid (procs s i) = p_pid (procs s j) \<longrightarrow> i = j)) \<and>
    (\<forall>p < NPROC. p_state (procs s p) = SLEEPING \<longrightarrow> p_chan (procs s p) = ProcChan p \<longrightarrow>
       (\<exists>c < NPROC. p_parent (procs s c) = Some p) \<and>
       (\<forall>c < NPROC. p_parent (procs s c) = Some p \<longrightarrow> p_state (procs s c) \<noteq> ZOMBIE))"
proof -
  have I: "one_running s" "pids_ok n s" "waits_ok s" using reachable_inv [OF assms] by (simp_all add: proc_inv_def)
  have w: "nextpid s = i32 (int n + 1)" using I(2) unfolding pids_ok_def by blast
  have d: "n < 2 ^ 31 \<longrightarrow> (\<forall>i < NPROC. p_state (procs s i) \<noteq> UNUSED \<longrightarrow> 0 < p_pid (procs s i) \<and> p_pid (procs s i) \<le> int n) \<and>
      (\<forall>i < NPROC. \<forall>j < NPROC. p_state (procs s i) \<noteq> UNUSED \<longrightarrow> p_state (procs s j) \<noteq> UNUSED \<longrightarrow>
         p_pid (procs s i) = p_pid (procs s j) \<longrightarrow> i = j)" using I(2) unfolding pids_ok_def by blast
  show ?thesis using I(1,3) by (intro conjI w d) (simp_all add: one_running_def waits_ok_def waits_def child_of_def)
qed

lemma first_reachable:
  "\<exists>(s :: ptab) qs. reachable 0x80200000 0x80201000 1 s \<and> current s = None \<and> p_state (procs s 0) = RUNNABLE \<and>
    fork_ready (run 0 s) 0 qs"
proof -
  obtain s :: ptab and s1 qs where s: "procs s = (\<lambda>_. proc_boot)" "current s = None" "nextpid s = 1"
    and u: "user_init 0x80200000 0x80201000 [] s = Inr ((), s1)" and c: "current s1 = None" "p_state (procs s1 0) = RUNNABLE"
      "fork_ready (run 0 s1) 0 qs" using first_process by blast
  have "blank_table s" "proc_init s = s" using s by (simp_all add: proc_init_blank blank_table_def proc_boot_def)
  then have "reachable 0x80200000 0x80201000 1 s1" using reachable.start u by metis
  then show ?thesis using c by blast
qed

theorem process_table_invariant_witness:
  "\<exists>s :: ptab. reachable 0x80200000 0x80201000 1 s \<and> p_state (procs s 0) = RUNNABLE \<and>
    (\<forall>i < NPROC. p_state (procs s i) = RUNNING \<longleftrightarrow> current s = Some i)"
proof -
  obtain s :: ptab where "reachable 0x80200000 0x80201000 1 s" "p_state (procs s 0) = RUNNABLE" using first_reachable by blast
  with process_table_invariant [OF this(1)] show ?thesis by blast
qed

text \<open>
  C37. Every step of the machine moves every process along the edges of its life cycle: a ready process
  stays ready until it is started, only the running one sleeps or exits, only an exited one is freed.
\<close>

theorem process_life_cycle:
  assumes "reachable tramp trapret n s" and "sched_step tramp trapret s s'" and "i < NPROC"
  shows "life (p_state (procs s i)) (p_state (procs s' i))"
  using life_step [OF assms(2) reachable_inv [OF assms(1)] assms(3)] .

theorem process_life_cycle_witness:
  "\<exists>s :: ptab. reachable 0x80200000 0x80201000 1 s \<and> sched_step 0x80200000 0x80201000 s (run 0 s) \<and>
    life (p_state (procs s 0)) (p_state (procs (run 0 s) 0)) \<and> p_state (procs s 0) \<noteq> p_state (procs (run 0 s) 0)"
proof -
  obtain s :: ptab where s: "reachable 0x80200000 0x80201000 1 s" "current s = None" "p_state (procs s 0) = RUNNABLE"
    using first_reachable by blast
  have "scan 0 s = Some 0" using s(3) by (simp add: scan_def NPROC_def upt_rec [of 0])
  then have st: "sched_step 0x80200000 0x80201000 s (run 0 s)" using sched_step.dispatch [OF s(2)] by blast
  have "0 < NPROC" by (simp add: NPROC_def)
  from process_life_cycle [OF s(1) st this] show ?thesis using s(1,3) st by auto
qed






end
