(* ===== verification/BootSpec.thy ===== *)
theory BootSpec
  imports Boot Sched
begin

text \<open>
  The boot theorem: from any content of the memory and a disk with an image of \<open>mkfs\<close>, \<open>kmain\<close> reaches the scheduler
  with the kernel's address space active, the file system mounted and one ready process, the init program.
\<close>

section \<open>What the steps leave alone\<close>

text \<open>The driver and the cache; the processes; the layers above are \<open>ptab.more\<close>.\<close>

definition drv :: "'a bcache_scheme \<Rightarrow> vq \<times> (nat \<Rightarrow> buf) \<times> (nat \<Rightarrow> u8) \<times> (nat \<times> u8 list) list \<times> bptr \<times> bptr" where
  "drv s = (vq s, bufs s, img s, written s, bhead_prev s, bhead_next s)"

definition tbl :: "'a ptab_scheme \<Rightarrow> (nat \<Rightarrow> proc) \<times> nat option \<times> int" where
  "tbl s = (procs s, current s, nextpid s)"

definition above :: "'a ptab_scheme \<Rightarrow> 'a ptab_scheme \<Rightarrow> bool" where
  "above s s' \<longleftrightarrow> drv s' = drv s \<and> tbl s' = tbl s \<and> ptab.more s' = ptab.more s"

lemma above_refl [simp]: "above s s"
  by (simp add: above_def)

lemma above_trans: "above s s' \<Longrightarrow> above s' s'' \<Longrightarrow> above s s''"
  by (simp add: above_def)

lemma klog_frame_above: "klog_frame s s' \<Longrightarrow> above s s'"
  by (cases s; cases s'; simp add: klog_frame_def above_def drv_def tbl_def)

lemma more_above: "mem.more s' = mem.more s \<Longrightarrow> above s s'"
  by (cases s; cases s'; simp add: above_def drv_def tbl_def)

lemma upper_fields:
  fixes s s' :: "'a trapst_scheme"
  assumes "ptab.more s' = ptab.more s"
  shows "lg_outstanding s' = lg_outstanding s" "lg_committing s' = lg_committing s" "satp s' = satp s" "stvec s' = stvec s"
    "ftable s' = ftable s"
  using assms by (cases s; cases s'; simp)+

section \<open>Messages\<close>

lemma klog_frame_refl [simp]: "klog_frame s s"
  by (simp add: klog_frame_def)

lemma klog_frame_trans: "klog_frame s s' \<Longrightarrow> klog_frame s' s'' \<Longrightarrow> klog_frame s s''"
  by (simp add: klog_frame_def)

lemma printf_frame: "format_text (cstr fmt) ap \<noteq> None \<Longrightarrow> \<exists>n s'. printf fmt ap s = Inr (n, s') \<and> klog_frame s s'"
  using printf_total [of fmt ap s] by (force simp: klog_frame_def)

lemma LOG_I_frame: "klog_text (cstr msg) [] \<noteq> None \<Longrightarrow> \<exists>s'. LOG_I t msg s = Inr ((), s') \<and> klog_frame s s'"
  using klog_text_total [of msg "[]" LOG_INFO t s] by (simp add: LOG_I_def LOG_INFO_def)

lemma log_init_frame: "\<exists>s'. log_init t s = Inr ((), s') \<and> klog_frame s s'"
proof -
  let ?s = "s\<lparr>kl_head := 0, kl_tail := 0, kl_count := 0, kl_total_logs := 0, kl_dropped := 0, kl_enabled := True, kl_use_color := True\<rparr>"
  have "klog_text (cstr ''Kernel log system initialized\<newline>'') [] \<noteq> None" by (simp add: char_consts)
  from klog_text_total [OF this, of LOG_INFO t ?s] obtain s' where "log_init t s = Inr ((), s')" "klog_frame ?s s'"
    by (auto simp: log_init_def LOG_INFO_def)
  then show ?thesis by (auto simp: klog_frame_def)
qed

lemma printf_bnd_frame:
  assumes "format_text (cstr fmt) ap \<noteq> None" and "\<And>n s. \<exists>s'. f n s = Inr ((), s') \<and> klog_frame s s'"
  shows "\<exists>s'. bnd (printf fmt ap s) f = Inr ((), s') \<and> klog_frame s s'"
  using printf_frame [OF assms(1), of s] assms(2) by (metis bnd_Inr klog_frame_trans)

lemma log_stats_frame: "\<exists>s'. log_stats s = Inr ((), s') \<and> klog_frame s s'"
proof -
  have t: "format_text (cstr ''\<newline>=== Log Statistics ===\<newline>'') [] \<noteq> None" "format_text (cstr ''Total logs:   %d\<newline>'') [of_int_arg a] \<noteq> None"
    "format_text (cstr ''Buffer count: %d\<newline>'') [of_int_arg a] \<noteq> None" "format_text (cstr ''Dropped:      %d\<newline>'') [of_int_arg a] \<noteq> None"
    "format_text (cstr ''Buffer usage: %d / %d bytes\<newline>'') [of_int_arg a, of_int_arg b] \<noteq> None"
    "format_text (cstr ''======================\<newline>'') [] \<noteq> None" for a b
    by (simp_all add: char_consts of_int_arg_def conv_text.simps)
  show ?thesis unfolding log_stats_def by (intro printf_bnd_frame t) (simp add: ret_def)
qed

section \<open>Memory\<close>

lemma pmm_init_more: "pmm_init kend s = Inr (u, s') \<Longrightarrow> mem.more s' = mem.more s"
proof -
  have "pmm_loop p s = Inr (u, s') \<Longrightarrow> mem.more s' = mem.more s" for p
  proof (induction p s rule: pmm_loop.induct)
    case (1 p s)
    show ?case
    proof (cases "p + PGSIZE \<le> PHYSTOP")
      case True
      then obtain s1 where f: "free_page p s = Inr ((), s1)" "pmm_loop (p + PGSIZE) s1 = Inr (u, s')"
        using "1.prems" by (auto simp: pmm_loop.simps [of p] bnd_eq_Inr)
      have "mem.more s' = mem.more s1" using "1.IH" [OF True f(1) f(2)] .
      then show ?thesis using free_page_more [OF f(1)] by simp
    qed (use "1.prems" in \<open>simp add: pmm_loop.simps [of p] ret_def\<close>)
  qed
  then show "pmm_init kend s = Inr (u, s') \<Longrightarrow> mem.more s' = mem.more s" by (simp add: pmm_init_def)
qed

section \<open>The first part: memory\<close>

definition pages_after :: "u64 \<Rightarrow> nat" where
  "pages_after kend = length (ram_pages (PGGROUNDUP kend))"

lemma early_boot:
  fixes s :: "'a trapst_scheme"
  assumes kend: "0 < unat (m_end M)" "unat (m_end M) \<le> unat PHYSTOP" and k: "71 + k \<le> pages_after (m_end M)"
    and s: "freelist s = 0"
  shows "\<exists>s1 n s2 s3 s4 s5 s6 kpt qs. printf ''=== Lab 7 & 8: File System + Kernel Log ===\<newline>'' [] s = Inr (n, s1) \<and>
    log_init (m_clock M 0) s1 = Inr ((), s2) \<and>
    LOG_I (m_clock M 1) ''Initializing physical memory manager...\<newline>'' s2 = Inr ((), s3) \<and>
    pmm_init (m_end M) s3 = Inr ((), s4) \<and>
    LOG_I (m_clock M 2) ''Setting up kernel page table...\<newline>'' s4 = Inr ((), s5) \<and>
    kvminit tramp s5 = Inr (kpt, s6) \<and> space_ok kpt s6 qs \<and> k \<le> length qs \<and> above s s6 \<and>
    (\<forall>va. unat va < 2 ^ 39 \<longrightarrow> xlate (pmem s6) kpt va = kernel_map tramp va)"
proof -
  have t: "format_text (cstr ''=== Lab 7 & 8: File System + Kernel Log ===\<newline>'') [] \<noteq> None"
    "klog_text (cstr ''Initializing physical memory manager...\<newline>'') [] \<noteq> None"
    "klog_text (cstr ''Setting up kernel page table...\<newline>'') [] \<noteq> None" by (simp_all add: char_consts)
  obtain n s1 where s1: "printf ''=== Lab 7 & 8: File System + Kernel Log ===\<newline>'' [] s = Inr (n, s1)" "klog_frame s s1"
    using printf_frame [OF t(1)] by blast
  obtain s2 where s2: "log_init (m_clock M 0) s1 = Inr ((), s2)" "klog_frame s1 s2" using log_init_frame by blast
  obtain s3 where s3: "LOG_I (m_clock M 1) ''Initializing physical memory manager...\<newline>'' s2 = Inr ((), s3)" "klog_frame s2 s3"
    using LOG_I_frame [OF t(2)] by blast
  have "freelist s3 = 0" using s s1(2) s2(2) s3(2) by (simp add: klog_frame_def)
  from pmm_init_spec [OF kend this] obtain s4 where s4: "pmm_init (m_end M) s3 = Inr ((), s4)"
    "free_pages s4 (rev (ram_pages (PGGROUNDUP (m_end M))))" by blast
  obtain s5 where s5: "LOG_I (m_clock M 2) ''Setting up kernel page table...\<newline>'' s4 = Inr ((), s5)" "klog_frame s4 s5"
    using LOG_I_frame [OF t(3)] by blast
  have f: "free_pages s5 (rev (ram_pages (PGGROUNDUP (m_end M))))" using s4(2) s5(2) by (simp add: klog_frame_def free_pages_def)
  have "71 + k \<le> length (rev (ram_pages (PGGROUNDUP (m_end M))))" using k by (simp add: pages_after_def)
  from kvminit_spec [OF f this, of tramp] obtain kpt s6 qs where s6: "kvminit tramp s5 = Inr (kpt, s6)" "space_ok kpt s6 qs"
    "k \<le> length qs" "mem.more s6 = mem.more s5" "\<forall>va. unat va < 2 ^ 39 \<longrightarrow> xlate (pmem s6) kpt va = kernel_map tramp va" by blast
  have "above s s6"
    using above_trans [OF klog_frame_above [OF s1(2)] above_trans [OF klog_frame_above [OF s2(2)] above_trans [OF klog_frame_above [OF s3(2)]
      above_trans [OF more_above [OF pmm_init_more [OF s4(1)]] above_trans [OF klog_frame_above [OF s5(2)] more_above [OF s6(4)]]]]]] .
  then show ?thesis using s1(1) s2(1) s3(1) s4(1) s5(1) s6 by blast
qed

section \<open>The second part: the disk\<close>

lemma virtio_init_boot:
  assumes "vq s = vq_zero" and "m_status M AND 8 \<noteq> 0" "m_ready M = 0" "8 \<le> m_qmax M"
  shows "\<exists>q t. virtio_disk_init (m_status M) (m_ready M) (m_qmax M) (m_pages M) s = Inr ((), s\<lparr>vq := q, tx := t\<rparr>) \<and> vq_idle q"
proof -
  have z: "\<not> disk_init (vq s)" "used_idx (vq s) = 0" using assms(1) by (simp_all add: vq_zero_def)
  have nz: "m_qmax M \<noteq> 0" "\<not> m_qmax M < 8" using assms(4) by auto
  have "\<exists>q t. virtio_disk_init (m_status M) (m_ready M) (m_qmax M) (m_pages M) s = Inr ((), s\<lparr>vq := q, tx := t\<rparr>)"
    unfolding virtio_disk_init_def using z nz assms(2,3) by (simp add: printf_spec char_consts ret_def Let_def) (rule exI, rule exI, rule refl)
  then obtain q t where r: "virtio_disk_init (m_status M) (m_ready M) (m_qmax M) (m_pages M) s = Inr ((), s\<lparr>vq := q, tx := t\<rparr>)" by blast
  then show ?thesis using virtio_disk_init_idle [OF z, of "m_status M" "m_ready M" "m_qmax M" "m_pages M"] assms(2-4) by auto
qed

lemma link_mem [simp]:
  "pmem (set_next p q s) = pmem s" "pmem (set_prev p q s) = pmem s" "freelist (set_next p q s) = freelist s"
  "freelist (set_prev p q s) = freelist s"
  by (cases p; simp add: set_next.simps set_prev.simps)+

lemma binit_step_mem: "pmem (binit_step b s) = pmem s \<and> freelist (binit_step b s) = freelist s"
  by (simp add: binit_step_def link_front_def upd_buf_def Let_def)

lemma binit_mem: "binit s = Inr ((), s') \<Longrightarrow> pmem s' = pmem s \<and> freelist s' = freelist s"
proof -
  have f: "pmem (fold binit_step xs t) = pmem t \<and> freelist (fold binit_step xs t) = freelist t" for xs and t :: "'a bcache_scheme"
    by (induction xs arbitrary: t) (simp_all add: binit_step_mem)
  show "binit s = Inr ((), s') \<Longrightarrow> pmem s' = pmem s \<and> freelist s' = freelist s"
    by (auto simp: binit_def Let_def printf_spec f bnd_eq_Inr split: option.splits)
qed

lemma bcache_more_upper:
  fixes s s' :: "'a trapst_scheme"
  assumes "bcache.more s' = bcache.more s"
  shows "tbl s' = tbl s \<and> ptab.more s' = ptab.more s"
  using assms by (cases s; cases s'; simp add: tbl_def)

lemma kept_tbl: "kept s s' \<Longrightarrow> tbl s' = tbl s \<and> pmem s' = pmem s \<and> freelist s' = freelist s"
  by (simp add: kept_def tbl_def)

lemma fsst_more_csrs:
  fixes s s' :: "'a trapst_scheme"
  assumes "fsst.more s' = fsst.more s"
  shows "satp s' = satp s" "stvec s' = stvec s" "ftable s' = ftable s"
  using assms by (cases s; cases s'; simp)+

lemma space_ok_cong: "pmem s' = pmem s \<Longrightarrow> freelist s' = freelist s \<Longrightarrow> space_ok r s' qs = space_ok r s qs"
  by (simp add: space_ok_def free_pages_def)

text \<open>The state after \<open>kvminit\<close> and before the disk is used; \<open>X\<close> are the processes.\<close>

lemma disk_boot:
  fixes s :: "'a trapst_scheme"
  assumes hw: "virtio_blk hw" and regs: "m_status M AND 8 \<noteq> 0" "m_ready M = 0" "8 \<le> m_qmax M"
    and img: "image_ok (sectors h)" "img s = f_img h" and z: "vq s = vq_zero" "zero_bufs s"
    and lg: "lg_outstanding s = 0" "\<not> lg_committing s"
  shows "\<exists>s1 s2 s3 s4 s5 s6. LOG_I (m_clock M 5) ''Initializing disk driver...\<newline>'' s = Inr ((), s1) \<and>
    virtio_disk_init (m_status M) (m_ready M) (m_qmax M) (m_pages M) s1 = Inr ((), s2) \<and>
    LOG_I (m_clock M 6) ''Initializing buffer cache...\<newline>'' s2 = Inr ((), s3) \<and> binit s3 = Inr ((), s4) \<and>
    LOG_I (m_clock M 7) ''Mounting file system...\<newline>'' s4 = Inr ((), s5) \<and> fsinit hw (m_clock M 8) 0 s5 = Inr ((), s6) \<and>
    mounted mkfs_sb (medium_of (f_img h)) s6 \<and> kept s s6 \<and> satp s6 = satp s \<and> stvec s6 = stvec s"
proof -
  have t: "klog_text (cstr ''Initializing disk driver...\<newline>'') [] \<noteq> None" "klog_text (cstr ''Initializing buffer cache...\<newline>'') [] \<noteq> None"
    "klog_text (cstr ''Mounting file system...\<newline>'') [] \<noteq> None" by (simp_all add: char_consts)
  obtain s1 where s1: "LOG_I (m_clock M 5) ''Initializing disk driver...\<newline>'' s = Inr ((), s1)" "klog_frame s s1"
    using LOG_I_frame [OF t(1)] by blast
  note A1 = klog_frame_above [OF s1(2), unfolded above_def drv_def]
  have "vq s1 = vq_zero" using A1 z by simp
  from virtio_init_boot [OF this regs] obtain q tx2 where
    s2: "virtio_disk_init (m_status M) (m_ready M) (m_qmax M) (m_pages M) s1 = Inr ((), s1\<lparr>vq := q, tx := tx2\<rparr>)" "vq_idle q" by blast
  let ?s2 = "s1\<lparr>vq := q, tx := tx2\<rparr>"
  obtain s3 where s3: "LOG_I (m_clock M 6) ''Initializing buffer cache...\<newline>'' ?s2 = Inr ((), s3)" "klog_frame ?s2 s3"
    using LOG_I_frame [OF t(2)] by blast
  note A3 = klog_frame_above [OF s3(2), unfolded above_def drv_def]
  have b3: "vq_idle (vq s3)" "zero_bufs s3" "img s3 = f_img h" using A3 A1 s2(2) z(2) img(2) by (simp_all add: zero_bufs_def)
  from binit_spec [OF b3(2,1)] obtain s4 where s4: "binit s3 = Inr ((), s4)" "bc_ok s4" "pinned (cview s4) = {}"
    "medium (cview s4) = medium_of (f_img h)" using b3(3) by auto
  obtain s5 where s5: "LOG_I (m_clock M 7) ''Mounting file system...\<newline>'' s4 = Inr ((), s5)" "klog_frame s4 s5"
    using LOG_I_frame [OF t(3)] by blast
  have "ptab.more s1 = ptab.more s" "ptab.more s3 = ptab.more s1" "ptab.more s4 = ptab.more s3" "ptab.more s5 = ptab.more s4"
    using A1 A3 bcache_more_upper [OF binit_more [OF s4(1)]] klog_frame_above [OF s5(2)] by (simp_all add: above_def)
  then have up: "ptab.more s5 = ptab.more s" by simp
  have T: "tbl s5 = tbl s" "pmem s5 = pmem s" "freelist s5 = freelist s"
    using A1 A3 bcache_more_upper [OF binit_more [OF s4(1)]] klog_frame_above [OF s5(2)] binit_mem [OF s4(1)] s1(2) s3(2) s5(2)
    by (simp_all add: above_def klog_frame_def tbl_def)
  note K5 = klog_frame_cache [OF s5(2)]
  have c5: "bc_ok s5" "pinned (cview s5) = {}" "medium (cview s5) = medium_of (f_img h)" using K5 s4 by simp_all
  have l5: "lg_outstanding s5 = 0" "\<not> lg_committing s5" using upper_fields [OF up] lg by simp_all
  from mkfs_fsinit [OF hw c5 l5 img(1), of "m_clock M 8"] obtain s6 where s6: "fsinit hw (m_clock M 8) 0 s5 = Inr ((), s6)"
    "mounted mkfs_sb (medium_of (f_img h)) s6" "fsst.more s6 = fsst.more s5" "kept s5 s6" by blast
  have "kept s s6" using s6(4) T by (simp add: kept_def tbl_def)
  moreover have "satp s6 = satp s" "stvec s6 = stvec s"
    using fsst_more_csrs [OF s6(3)] upper_fields [OF up] by simp_all
  ultimately show ?thesis using s1(1) s2(1) s3(1) s4(1) s5(1) s6(1,2) by blast
qed

section \<open>The third part: the first process\<close>

text \<open>The log and the file system's own variables.\<close>

definition journal_vars :: "'a fsst_scheme \<Rightarrow> (int \<times> int \<times> int \<times> bool \<times> int) \<times> (int \<times> (nat \<Rightarrow> int) \<times> bool) \<times> superblock \<times> (nat \<Rightarrow> inode)" where
  "journal_vars s = ((lg_start s, lg_size s, lg_outstanding s, lg_committing s, lg_dev s), (lh_n s, lh_block s, lg_lock s), fs_sb s, icache s)"

lemma mounted_cong:
  fixes s s' :: "'a fsst_scheme"
  assumes "drv s' = drv s" and "journal_vars s' = journal_vars s"
  shows "mounted sb m s' = mounted sb m s"
proof -
  have c: "bc_ok s' = bc_ok s" "cview s' = cview s"
    using same_cache [of s' s] assms(1) by (simp_all add: drv_def)
  have j: "lg_start s' = lg_start s" "lg_size s' = lg_size s" "lg_outstanding s' = lg_outstanding s"
    "lg_committing s' = lg_committing s" "lg_dev s' = lg_dev s" "lh_n s' = lh_n s" "lh_block s' = lh_block s" "lg_lock s' = lg_lock s"
    "fs_sb s' = fs_sb s" "icache s' = icache s" using assms(2) by (simp_all add: journal_vars_def)
  have "home s' = home s" by (simp add: fun_eq_iff home_def j)
  then have "trans_ok s' = trans_ok s" "homes s' = homes s" by (simp_all add: trans_ok_def homes_def j)
  then show ?thesis using \<open>home s' = home s\<close> by (simp add: mounted_def log_inv_def c j)
qed

lemma upper_journal:
  fixes s s' :: "'a trapst_scheme"
  assumes "ptab.more s' = ptab.more s"
  shows "journal_vars s' = journal_vars s"
  using assms by (cases s; cases s'; simp add: journal_vars_def)

lemma fileinit_frame:
  fixes s :: "'a trapst_scheme"
  shows "\<exists>ft. fileinit s = s\<lparr>ftable := ft\<rparr>"
proof -
  have "\<exists>ft. fold (\<lambda>i. upd_file i (\<lambda>f. f\<lparr>f_ref := 0, f_type := FD_NONE\<rparr>)) xs s = s\<lparr>ftable := ft\<rparr>" for xs
  proof (induction xs arbitrary: s)
    case Nil
    show ?case by (intro exI [of _ "ftable s"]) simp
  next
    case (Cons x xs)
    from Cons [of "upd_file x (\<lambda>f. f\<lparr>f_ref := 0, f_type := FD_NONE\<rparr>) s"] show ?case by (auto simp: upd_file_def)
  qed
  then show ?thesis by (simp add: fileinit_def)
qed

text \<open>Creating a process leaves the driver and the layers above alone.\<close>

definition io_kept :: "'a ptab_scheme \<Rightarrow> 'a ptab_scheme \<Rightarrow> bool" where
  "io_kept s s' \<longleftrightarrow> drv s' = drv s \<and> ptab.more s' = ptab.more s"

lemma io_kept_more: "mem.more s' = mem.more s \<Longrightarrow> io_kept s s'"
  using more_above [of s' s] by (simp add: above_def io_kept_def)

lemma io_kept_tx: "printf fmt ap s = Inr (n, s') \<Longrightarrow> io_kept s s'"
  by (auto simp: printf_spec io_kept_def drv_def split: option.splits)

lemma io_upd [simp]:
  "drv (upd_proc i f s) = drv s" "ptab.more (upd_proc i f s) = ptab.more s"
  "drv (s\<lparr>pmem := m\<rparr>) = drv s" "drv (s\<lparr>nextpid := x\<rparr>) = drv s"
  by (simp_all add: drv_def upd_proc_def)

lemma io_steps:
  "alloc_page s = (p, t) \<Longrightarrow> drv t = drv s \<and> ptab.more t = ptab.more s"
  "free_page p s = Inr (u, t) \<Longrightarrow> drv t = drv s \<and> ptab.more t = ptab.more s"
  "create_pagetable s = Inr (p, t) \<Longrightarrow> drv t = drv s \<and> ptab.more t = ptab.more s"
  "map_page pt va pa perm s = Inr (r, t) \<Longrightarrow> drv t = drv s \<and> ptab.more t = ptab.more s"
  "printf fmt ap s = Inr (n, t) \<Longrightarrow> drv t = drv s \<and> ptab.more t = ptab.more s"
  using io_kept_more [OF conjunct1 [OF alloc_page_more]] io_kept_more [OF free_page_more]
    io_kept_more [OF conjunct1 [OF create_pagetable_more]] io_kept_more [OF map_page_more] io_kept_tx
  by (simp_all add: io_kept_def)

lemma alloc_process_io: "alloc_process tramp s = Inr (r, s') \<Longrightarrow> drv s' = drv s \<and> ptab.more s' = ptab.more s"
  by (auto simp: alloc_process_def Let_def bnd_eq_Inr split: option.splits prod.splits if_splits dest!: io_steps)

lemma load_pages_io: "load_pages prog pt is s = Inr (b, s') \<Longrightarrow> drv s' = drv s \<and> ptab.more s' = ptab.more s"
proof -
  have l: "load_page prog pt i s = Inr (b, s') \<Longrightarrow> drv s' = drv s \<and> ptab.more s' = ptab.more s" for i b and s s' :: "'a ptab_scheme"
    by (auto simp: load_page_def Let_def bnd_eq_Inr split: prod.splits if_splits dest!: io_steps)
  show "load_pages prog pt is s = Inr (b, s') \<Longrightarrow> ?thesis"
    by (induction "is" arbitrary: s) (auto simp: bnd_eq_Inr split: if_splits dest!: l)
qed

lemma alloc_page_snd: "drv (snd (alloc_page s)) = drv s" "ptab.more (snd (alloc_page s)) = ptab.more s"
  using io_steps(1) [of s "fst (alloc_page s)" "snd (alloc_page s)"] by simp_all

lemma user_init_io: "user_init tramp trapret prog s = Inr (u, s') \<Longrightarrow> drv s' = drv s \<and> ptab.more s' = ptab.more s"
  by (auto simp: user_init_def Let_def bnd_eq_Inr split_def alloc_page_snd split: option.splits if_splits
      dest!: io_steps(2-5) alloc_process_io load_pages_io)

lemma late_boot:
  fixes s :: "'a trapst_scheme"
  assumes ok: "space_ok kpt s qs" and np: "np = (length (m_prog M) + 4095) div 4096" "np < 2 ^ 26 - 2" "10 + 3 * np \<le> length qs"
    and p0: "p_state (procs s 0) = UNUSED" and mnt: "mounted sb m s"
  shows "\<exists>s1 s2 s3 s4 s5 F st. LOG_I (m_clock M 9) ''Initializing file table...\<newline>'' s = Inr ((), s1) \<and>
    LOG_I (m_clock M 10) ''Creating init process...\<newline>'' (fileinit s1) = Inr ((), s2) \<and>
    user_init tramp trapret (m_prog M) s2 = Inr ((), s3) \<and> log_stats s3 = Inr ((), s4) \<and>
    LOG_I (m_clock M 11) ''Starting scheduler...\<newline>'' s4 = Inr ((), s5) \<and>
    mounted sb m s5 \<and> satp s5 = satp s \<and> stvec s5 = stvec s \<and> (\<forall>va. xlate (pmem s5) kpt va = xlate (pmem s) kpt va) \<and>
    current s5 = current s \<and> p_state (procs s5 0) = RUNNABLE \<and> p_pid (procs s5 0) = nextpid s \<and> p_ra (procs s5 0) = trapret \<and>
    (\<forall>i. i \<noteq> 0 \<longrightarrow> procs s5 i = procs s i) \<and> fresh_program (m_prog M) F st (pmem s5) (procs s5 0)"
proof -
  have t: "klog_text (cstr ''Initializing file table...\<newline>'') [] \<noteq> None" "klog_text (cstr ''Creating init process...\<newline>'') [] \<noteq> None"
    "klog_text (cstr ''Starting scheduler...\<newline>'') [] \<noteq> None" by (simp_all add: char_consts)
  obtain s1 where s1: "LOG_I (m_clock M 9) ''Initializing file table...\<newline>'' s = Inr ((), s1)" "klog_frame s s1"
    using LOG_I_frame [OF t(1)] by blast
  obtain ft where ft: "fileinit s1 = s1\<lparr>ftable := ft\<rparr>" using fileinit_frame by blast
  obtain s2 where s2: "LOG_I (m_clock M 10) ''Creating init process...\<newline>'' (fileinit s1) = Inr ((), s2)" "klog_frame (fileinit s1) s2"
    using LOG_I_frame [OF t(2)] by blast
  note A1 = klog_frame_above [OF s1(2)] and A2 = klog_frame_above [OF s2(2)]
  have m1: "pmem s1 = pmem s" "freelist s1 = freelist s" using s1(2) by (simp_all add: klog_frame_def)
  have m2: "pmem s2 = pmem s" "freelist s2 = freelist s" using m1 s2(2) by (simp_all add: klog_frame_def ft)
  have T2: "procs s2 = procs s" "current s2 = current s" "nextpid s2 = nextpid s" using A1 A2 by (simp_all add: above_def tbl_def ft)
  have D2: "drv s2 = drv s" using A1 A2 by (simp add: above_def drv_def ft)
  have U1: "journal_vars s1 = journal_vars s" "satp s1 = satp s" "stvec s1 = stvec s"
    using upper_journal upper_fields A1 by (auto simp: above_def)
  have "journal_vars (fileinit s1) = journal_vars s1" by (simp add: journal_vars_def ft)
  then have U2: "journal_vars s2 = journal_vars s" "satp s2 = satp s" "stvec s2 = stvec s"
    using U1 upper_journal [of s2 "fileinit s1"] upper_fields [of s2 "fileinit s1"] A2 by (simp_all add: above_def ft)
  have ok2: "space_ok kpt s2 qs" using ok space_ok_cong [OF m2] by simp
  have fp: "free_pages s2 qs" "p_state (procs s2 0) = UNUSED" using ok2 p0 T2 by (simp_all add: space_ok_def)
  have np0: "np + 0 < 2 ^ 26 - 2" "10 + 3 * (np + 0) \<le> length qs" using np by simp_all
  from user_init_spec [OF fp(1) np(1) np0 fp(2), of tramp trapret] obtain s3 F st where
    s3: "user_init tramp trapret (m_prog M) s2 = Inr ((), s3)" and T3: "current s3 = current s2" "p_state (procs s3 0) = RUNNABLE"
      "p_pid (procs s3 0) = nextpid s2" "p_ra (procs s3 0) = trapret" "\<forall>i. i \<noteq> 0 \<longrightarrow> procs s3 i = procs s2 i"
    and fr: "fresh_program (m_prog M) F st (pmem s3) (procs s3 0)" and o: "outside (pmem s2) (set qs) (pmem s3)"
    by (elim exE conjE) (rule that; assumption)
  note I3 = user_init_io [OF s3]
  have al: "\<forall>q \<in> set qs. page_aligned q" using free_pages_aligned [OF fp(1)] by blast
  have "same_tables (pmem s2) kpt (pmem s3)"
    by (rule outside_tables [OF o al]) (use ok2 in \<open>auto simp: space_ok_def\<close>)
  note X3 = same_tables_xlate [OF this]
  obtain s4 where s4: "log_stats s3 = Inr ((), s4)" "klog_frame s3 s4" using log_stats_frame by blast
  obtain s5 where s5: "LOG_I (m_clock M 11) ''Starting scheduler...\<newline>'' s4 = Inr ((), s5)" "klog_frame s4 s5"
    using LOG_I_frame [OF t(3)] by blast
  have k5: "klog_frame s3 s5" by (rule klog_frame_trans [OF s4(2) s5(2)])
  note A5 = klog_frame_above [OF k5, unfolded above_def tbl_def]
  have m5: "pmem s5 = pmem s3" using k5 by (simp add: klog_frame_def)
  have "drv s5 = drv s" "ptab.more s5 = ptab.more s2" using A5 I3 D2 by simp_all
  then have U5: "journal_vars s5 = journal_vars s" "satp s5 = satp s" "stvec s5 = stvec s"
    using U2 upper_journal [of s5 s2] upper_fields [of s5 s2] by simp_all
  have "mounted sb m s5" using mounted_cong [OF \<open>drv s5 = drv s\<close> U5(1)] mnt by simp
  moreover have "procs s5 = procs s3" "current s5 = current s" using A5 T3(1) T2 by simp_all
  ultimately show ?thesis
    using s1(1) s2(1) s3 s4(1) s5(1) U5 T3 T2 fr X3 m2 unfolding m5 [symmetric] by metis
qed

section \<open>Booting\<close>

lemma cleared:
  fixes s :: "'a trapst_scheme"
  shows "freelist (clear_bss s) = 0" "vq (clear_bss s) = vq_zero" "zero_bufs (clear_bss s)" "img (clear_bss s) = img s"
    "tbl (clear_bss s) = ((\<lambda>_. proc_boot), None, nextpid s)" "lg_outstanding (clear_bss s) = 0" "\<not> lg_committing (clear_bss s)"
  by (simp_all add: clear_bss_def zero_bufs_def tbl_def)

lemma proc_init_io: "drv (proc_init s) = drv s \<and> ptab.more (proc_init s) = ptab.more s \<and> pmem (proc_init s) = pmem s \<and> freelist (proc_init s) = freelist s"
proof -
  have "drv (fold (\<lambda>i. upd_proc i f) xs s) = drv s \<and> ptab.more (fold (\<lambda>i. upd_proc i f) xs s) = ptab.more s \<and>
      pmem (fold (\<lambda>i. upd_proc i f) xs s) = pmem s \<and> freelist (fold (\<lambda>i. upd_proc i f) xs s) = freelist s" for f xs
    by (induction xs arbitrary: s) simp_all
  then show ?thesis by (simp add: proc_init_def)
qed

text \<open>From the kernel's page table to the initialisation of the disk.\<close>

lemma traps_boot:
  fixes s :: "'a trapst_scheme"
  shows "\<exists>s1 s2. LOG_I (m_clock M 3) ''Initializing trap handlers...\<newline>'' (s\<lparr>satp := a\<rparr>) = Inr ((), s1) \<and>
    LOG_I (m_clock M 4) ''Initializing process table...\<newline>'' (trap_init sy s1) = Inr ((), s2) \<and>
    drv (proc_init s2) = drv s \<and> pmem (proc_init s2) = pmem s \<and> freelist (proc_init s2) = freelist s \<and>
    satp (proc_init s2) = a \<and> stvec (proc_init s2) = sym_kernelvec sy \<and>
    lg_outstanding (proc_init s2) = lg_outstanding s \<and> lg_committing (proc_init s2) = lg_committing s \<and> tbl s2 = tbl s"
proof -
  have t: "klog_text (cstr ''Initializing trap handlers...\<newline>'') [] \<noteq> None" "klog_text (cstr ''Initializing process table...\<newline>'') [] \<noteq> None"
    by (simp_all add: char_consts)
  let ?s = "s\<lparr>satp := a\<rparr>"
  obtain s1 where s1: "LOG_I (m_clock M 3) ''Initializing trap handlers...\<newline>'' ?s = Inr ((), s1)" "klog_frame ?s s1"
    using LOG_I_frame [OF t(1)] by blast
  let ?t = "trap_init sy s1"
  obtain s2 where s2: "LOG_I (m_clock M 4) ''Initializing process table...\<newline>'' ?t = Inr ((), s2)" "klog_frame ?t s2"
    using LOG_I_frame [OF t(2)] by blast
  note A1 = klog_frame_above [OF s1(2)] and A2 = klog_frame_above [OF s2(2)]
  have f1: "drv s1 = drv s" "tbl s1 = tbl s" "pmem s1 = pmem s" "freelist s1 = freelist s"
    using A1 s1(2) by (simp_all add: above_def drv_def tbl_def klog_frame_def)
  have u1: "satp s1 = a" "lg_outstanding s1 = lg_outstanding s" "lg_committing s1 = lg_committing s"
    using upper_fields [of s1 ?s] A1 by (simp_all add: above_def)
  have f2: "drv s2 = drv s" "tbl s2 = tbl s" "pmem s2 = pmem s" "freelist s2 = freelist s"
    using A2 s2(2) f1 by (simp_all add: above_def drv_def tbl_def klog_frame_def trap_init_def w_stvec_def)
  have u2: "satp s2 = a" "stvec s2 = sym_kernelvec sy" "lg_outstanding s2 = lg_outstanding s" "lg_committing s2 = lg_committing s"
    using upper_fields [of s2 ?t] A2 u1 by (simp_all add: above_def trap_init_def w_stvec_def)
  note P = proc_init_io [of s2]
  note U = upper_fields [of "proc_init s2" s2]
  show ?thesis using s1(1) s2(1) f2 u2 P U by (intro exI [of _ s1] exI [of _ s2]) simp
qed

text \<open>
  C1. The kernel boots. From any content of memory and variables, on a machine with RAM enough and a disk that holds an
  image of \<open>mkfs\<close>, \<open>kmain\<close> reaches the scheduler: the kernel's map is the active address space, traps enter
  \<open>kernelvec\<close>, the file system is mounted with the blocks of the image, and of the processes exactly the first is
  in use; it is ready to run the init program, loaded at 0 and followed by its stack.
\<close>

theorem kernel_boots:
  fixes s :: "'a trapst_scheme"
  assumes image: "mkfs_main argc opened h0 = Inr ((), h)" "freeinode h0 = 1" "img s = f_img h"
    and hw: "virtio_blk hw" and regs: "m_status M AND 8 \<noteq> 0" "m_ready M = 0" "8 \<le> m_qmax M"
    and ram: "0 < unat (m_end M)" "unat (m_end M) \<le> unat PHYSTOP" "81 + 3 * ((length (m_prog M) + 4095) div 4096) \<le> pages_after (m_end M)"
  shows "\<exists>s' kpt F st. kmain hw M s = Inr ((), s') \<and> satp s' = kvminithart_satp kpt \<and> stvec s' = sym_kernelvec (m_symbols M) \<and>
    (\<forall>va. unat va < 2 ^ 39 \<longrightarrow> xlate (pmem s') kpt va = kernel_map (sym_trampoline (m_symbols M)) va) \<and>
    mounted mkfs_sb (medium_of (f_img h)) s' \<and> current s' = None \<and> p_state (procs s' 0) = RUNNABLE \<and> p_pid (procs s' 0) = nextpid s \<and>
    p_ra (procs s' 0) = sym_usertrapret (m_symbols M) \<and> fresh_program (m_prog M) F st (pmem s') (procs s' 0) \<and>
    (\<forall>i < NPROC. i \<noteq> 0 \<longrightarrow> p_state (procs s' i) = UNUSED)"
proof -
  let ?np = "(length (m_prog M) + 4095) div 4096" and ?sy = "m_symbols M"
  let ?tr = "sym_trampoline ?sy" and ?s0 = "clear_bss s"
  have io: "image_ok (sectors h)" using mkfs_spec [OF image(2), of argc opened] image(1) by (auto split: if_splits)
  have k: "71 + (10 + 3 * ?np) \<le> pages_after (m_end M)" using ram(3) by simp
  have "pages_after (m_end M) \<le> 2 ^ 52"
    using unsigned_less [of "PHYSTOP - PGGROUNDUP (m_end M)", where 'a = nat] by (simp add: pages_after_def ram_pages_def)
  moreover have "unat (PHYSTOP - PGGROUNDUP (m_end M)) \<le> unat PHYSTOP"
    using PGGROUNDUP_ram [OF ram(1,2)] by (simp add: unat_sub word_le_nat_alt)
  then have "pages_after (m_end M) < 2 ^ 26" by (simp add: pages_after_def ram_pages_def unat_PHYSTOP)
  ultimately have np26: "?np < 2 ^ 26 - 2" using ram(3) by simp
  note C = cleared [of s]
  from early_boot [OF ram(1,2) k C(1), of ?tr] obtain s1 n s2 s3 s4 s5 s6 kpt qs where
    e: "printf ''=== Lab 7 & 8: File System + Kernel Log ===\<newline>'' [] ?s0 = Inr (n, s1)" "log_init (m_clock M 0) s1 = Inr ((), s2)"
      "LOG_I (m_clock M 1) ''Initializing physical memory manager...\<newline>'' s2 = Inr ((), s3)" "pmm_init (m_end M) s3 = Inr ((), s4)"
      "LOG_I (m_clock M 2) ''Setting up kernel page table...\<newline>'' s4 = Inr ((), s5)" "kvminit ?tr s5 = Inr (kpt, s6)"
    and ok: "space_ok kpt s6 qs" and l: "10 + 3 * ?np \<le> length qs" and A: "above ?s0 s6"
    and x: "\<forall>va. unat va < 2 ^ 39 \<longrightarrow> xlate (pmem s6) kpt va = kernel_map ?tr va" by (elim exE conjE) (rule that; assumption)
  from traps_boot [where s = s6 and sy = ?sy and M = M and a = "kvminithart_satp kpt"] obtain s7 s8 where
    f: "LOG_I (m_clock M 3) ''Initializing trap handlers...\<newline>'' (s6\<lparr>satp := kvminithart_satp kpt\<rparr>) = Inr ((), s7)"
      "LOG_I (m_clock M 4) ''Initializing process table...\<newline>'' (trap_init ?sy s7) = Inr ((), s8)"
    and g: "drv (proc_init s8) = drv s6" "pmem (proc_init s8) = pmem s6" "freelist (proc_init s8) = freelist s6"
      "satp (proc_init s8) = kvminithart_satp kpt" "stvec (proc_init s8) = sym_kernelvec ?sy"
      "lg_outstanding (proc_init s8) = lg_outstanding s6" "lg_committing (proc_init s8) = lg_committing s6" "tbl s8 = tbl s6"
    by (elim exE conjE) (rule that; assumption)
  let ?s9 = "proc_init s8"
  have d9: "vq ?s9 = vq_zero" "zero_bufs ?s9" "img ?s9 = f_img h" "lg_outstanding ?s9 = 0" "\<not> lg_committing ?s9"
    using A g C upper_fields [of s6 ?s0] image(3) by (simp_all add: above_def drv_def zero_bufs_def)
  from disk_boot [OF hw regs io d9(3,1,2,4,5)] obtain t1 t2 t3 t4 t5 t6 where
    d: "LOG_I (m_clock M 5) ''Initializing disk driver...\<newline>'' ?s9 = Inr ((), t1)"
      "virtio_disk_init (m_status M) (m_ready M) (m_qmax M) (m_pages M) t1 = Inr ((), t2)"
      "LOG_I (m_clock M 6) ''Initializing buffer cache...\<newline>'' t2 = Inr ((), t3)" "binit t3 = Inr ((), t4)"
      "LOG_I (m_clock M 7) ''Mounting file system...\<newline>'' t4 = Inr ((), t5)" "fsinit hw (m_clock M 8) 0 t5 = Inr ((), t6)"
    and mnt: "mounted mkfs_sb (medium_of (f_img h)) t6" and kp: "kept ?s9 t6" and st: "satp t6 = satp ?s9" "stvec t6 = stvec ?s9"
    by (elim exE conjE) (rule that; assumption)
  have mem: "pmem t6 = pmem s6" "freelist t6 = freelist s6" using kp g by (simp_all add: kept_def)
  have "tbl s8 = ((\<lambda>_. proc_boot), None, nextpid s)" using g(8) A C(5) by (simp add: above_def)
  then have t6: "procs t6 i = proc_boot" "current t6 = None" "nextpid t6 = nextpid s" for i
    using kp proc_init_table [of s8] by (simp_all add: kept_def tbl_def proc_boot_def)
  have ok6: "space_ok kpt t6 qs" using space_ok_cong [OF mem] ok by simp
  have un: "p_state (procs t6 0) = UNUSED" by (simp add: t6 proc_boot_def)
  from late_boot [OF ok6 refl np26 l un mnt, of ?tr "sym_usertrapret ?sy"] obtain u1 u2 u3 u4 u5 F stk where
    u: "LOG_I (m_clock M 9) ''Initializing file table...\<newline>'' t6 = Inr ((), u1)"
      "LOG_I (m_clock M 10) ''Creating init process...\<newline>'' (fileinit u1) = Inr ((), u2)"
      "user_init ?tr (sym_usertrapret ?sy) (m_prog M) u2 = Inr ((), u3)" "log_stats u3 = Inr ((), u4)"
      "LOG_I (m_clock M 11) ''Starting scheduler...\<newline>'' u4 = Inr ((), u5)"
    and v: "mounted mkfs_sb (medium_of (f_img h)) u5" "satp u5 = satp t6" "stvec u5 = stvec t6"
      "\<forall>va. xlate (pmem u5) kpt va = xlate (pmem t6) kpt va" "current u5 = current t6" "p_state (procs u5 0) = RUNNABLE"
      "p_pid (procs u5 0) = nextpid t6" "p_ra (procs u5 0) = sym_usertrapret ?sy" "\<forall>i. i \<noteq> 0 \<longrightarrow> procs u5 i = procs t6 i"
      "fresh_program (m_prog M) F stk (pmem u5) (procs u5 0)"
    by (elim exE conjE) (rule that; assumption)
  have "kmain hw M s = Inr ((), u5)"
    by (simp add: kmain_def Let_def e f d u kvminithart_def del: One_nat_def)
  then show ?thesis using v x g(4,5) mem t6 st by (intro exI [of _ u5] exI [of _ kpt] exI [of _ F] exI [of _ stk]) (simp add: proc_boot_def)
qed

definition board :: machine where
  "board = \<lparr>m_symbols = \<lparr>sym_trampoline = 0x80201000, sym_uservec = 0x80201000, sym_userret = 0x80201090,
      sym_kernelvec = 0x80202000, sym_usertrap = 0x80203000, sym_usertrapret = 0x80204000\<rparr>,
     m_end = 0x80300000, m_clock = (\<lambda>i. of_nat i * 1000), m_status = 11, m_ready = 0, m_qmax = 1024, m_pages = 0x80210000,
     m_prog = replicate 5000 0x13\<rparr>"

theorem kernel_boots_witness:
  "\<exists>h s' kpt F st. mkfs_main 2 True host_boot = Inr ((), h) \<and> kmain prompt_device board (trapst_boot (f_img h)) = Inr ((), s') \<and>
    satp s' = kvminithart_satp kpt \<and> mounted mkfs_sb (medium_of (f_img h)) s' \<and> p_state (procs s' 0) = RUNNABLE \<and>
    fresh_program (replicate 5000 0x13) F st (pmem s') (procs s' 0)"
proof -
  have f: "freeinode host_boot = 1" "\<not> f_cap host_boot < BSIZE * FSSIZE" by (simp_all add: host_boot_def BSIZE_def FSSIZE_def)
  obtain h where h: "mkfs_main 2 True host_boot = Inr ((), h)" using mkfs_spec [OF f(1), of 2 True] f(2) by auto
  have i: "img (trapst_boot (f_img h)) = f_img h"
    using fsst_boot_ok(5) [of "f_img h"] by (cases "fsst_boot (f_img h)") (simp add: trapst_boot_def filest.defs fsst.defs)
  have r: "m_status board AND 8 \<noteq> 0" "m_ready board = 0" "8 \<le> m_qmax board" "0 < unat (m_end board)" "unat (m_end board) \<le> unat PHYSTOP"
    "81 + 3 * ((length (m_prog board) + 4095) div 4096) \<le> pages_after (m_end board)"
    by (simp_all add: board_def unat_PHYSTOP pages_after_def ram_pages_def PGGROUNDUP_def PGSIZE_def PHYSTOP_def)
  have "m_prog board = replicate 5000 0x13" by (simp add: board_def)
  with kernel_boots [OF h f(1) i virtio_blk_prompt r] h show ?thesis by metis
qed

end
