(* ===== verification/Ulib.thy ===== *)
theory Ulib
  imports Console
begin

text \<open>
  The library of the user programs (ulib.c) over the system calls of user.h. The kernel is a function from a
  call and its own state to the result, the bytes it stores in the caller's buffer and its next state, or
  \<open>None\<close> when the call does not return. A string is the bytes of its array, up to a null byte or the end of the list.
\<close>

section \<open>System calls\<close>

datatype ucall = Fork | Wait | Read int nat | Write int "u8 list" | Open "u8 list" u32 | Close int | Unlink "u8 list"
  | Logdump | Logstat

type_synonym 'k kernel = "ucall \<Rightarrow> 'k \<Rightarrow> (int \<times> u8 list \<times> 'k) option"

text \<open>
  How a piece of a program ends: with a value, with \<open>exit\<close>, in a call that does not return, or in an access outside
  an object or an overflow of a signed integer, which C leaves undefined.
\<close>

datatype ('a, 'k) user = Val 'a 'k | Exited int 'k | Lost | Undefined string

definition ubnd :: "('a, 'k) user \<Rightarrow> ('a \<Rightarrow> 'k \<Rightarrow> ('b, 'k) user) \<Rightarrow> ('b, 'k) user" where
  "ubnd r f = (case r of Val a k \<Rightarrow> f a k | Exited n k \<Rightarrow> Exited n k | Lost \<Rightarrow> Lost | Undefined m \<Rightarrow> Undefined m)"

lemma ubnd_simps [simp]:
  "ubnd (Val a k) f = f a k" "ubnd (Exited n k) f = Exited n k" "ubnd Lost f = Lost" "ubnd (Undefined m) f = Undefined m"
  by (simp_all add: ubnd_def)

lemma ubnd_cong [fundef_cong]:
  assumes "r = r'" and "\<And>a k. r' = Val a k \<Longrightarrow> f a k = g a k"
  shows "ubnd r f = ubnd r' g"
  using assms by (cases r') auto

definition ucall :: "'k kernel \<Rightarrow> ucall \<Rightarrow> 'k \<Rightarrow> (int \<times> u8 list, 'k) user" where
  "ucall K c k = (case K c k of None \<Rightarrow> Lost | Some (r, bs, k) \<Rightarrow> Val (r, bs) k)"

text \<open>A call whose result is used, and one whose result is dropped.\<close>

definition sys :: "'k kernel \<Rightarrow> ucall \<Rightarrow> 'k \<Rightarrow> (int, 'k) user" where
  "sys K c k = ubnd (ucall K c k) (\<lambda>(r, bs). Val r)"

definition sysv :: "'k kernel \<Rightarrow> ucall \<Rightarrow> 'k \<Rightarrow> (unit, 'k) user" where
  "sysv K c k = ubnd (sys K c k) (\<lambda>_. Val ())"

text \<open>A counted loop.\<close>

fun ufor :: "'i list \<Rightarrow> ('i \<Rightarrow> 'k \<Rightarrow> (unit, 'k) user) \<Rightarrow> 'k \<Rightarrow> (unit, 'k) user" where
  "ufor [] body k = Val () k"
| "ufor (i # is) body k = ubnd (body i k) (\<lambda>_. ufor is body)"

section \<open>Strings and memory\<close>

function strlen_loop :: "u8 list \<Rightarrow> nat \<Rightarrow> nat" where
  "strlen_loop s n = (if n < length s \<and> s ! n \<noteq> 0 then strlen_loop s (n + 1) else n)"
  by pat_completeness auto
termination
  by (relation "measure (\<lambda>(s, n). length s - n)") auto

declare strlen_loop.simps [simp del]

definition strlen :: "u8 list \<Rightarrow> nat" where
  "strlen s = strlen_loop s 0"

text \<open>\<open>None\<close> when the loop leaves the array.\<close>

fun memset_loop :: "u8 \<Rightarrow> nat list \<Rightarrow> u8 list \<Rightarrow> u8 list option" where
  "memset_loop c [] d = Some d"
| "memset_loop c (i # is) d = (if i < length d then memset_loop c is (d[i := c]) else None)"

definition memset :: "u8 list \<Rightarrow> u32 \<Rightarrow> nat \<Rightarrow> u8 list option" where
  "memset dst c n = memset_loop (ucast c) [0..<n] dst"

section \<open>Output\<close>

definition puts :: "'k kernel \<Rightarrow> u8 list \<Rightarrow> 'k \<Rightarrow> (unit, 'k) user" where
  "puts K s = sysv K (Write 1 (take (strlen s) s))"

definition putc :: "'k kernel \<Rightarrow> u8 \<Rightarrow> 'k \<Rightarrow> (unit, 'k) user" where
  "putc K c = sysv K (Write 1 [c])"

definition print_str :: "'k kernel \<Rightarrow> u8 list option \<Rightarrow> 'k \<Rightarrow> (unit, 'k) user" where
  "print_str K s =
     (let s = (case s of None \<Rightarrow> cstr ''(null)'' | Some cs \<Rightarrow> cs) in sysv K (Write 1 (take (strlen s) s)))"

text \<open>
  The digit loop of \<open>print_uint\<close>; \<open>buf\<close> holds the digits stored so far, \<open>None\<close> is a store outside the array of 32.
\<close>

function uint_digits :: "u64 \<Rightarrow> u64 \<Rightarrow> u8 list \<Rightarrow> u8 list option" where
  "uint_digits x base buf =
     (if 0 < x then
        (if 32 \<le> length buf then None
         else
           (let d = x mod base
            in uint_digits (x div base) base (buf @ [if d < 10 then 48 + ucast d else 97 + ucast d - 10])))
      else Some buf)"
  by pat_completeness auto
termination
  by (relation "measure (\<lambda>(x, base, buf). 32 - length buf)") auto

declare uint_digits.simps [simp del]

definition print_uint :: "'k kernel \<Rightarrow> u64 \<Rightarrow> u64 \<Rightarrow> 'k \<Rightarrow> (unit, 'k) user" where
  "print_uint K x base k =
     (if x = 0 then putc K 48 k
      else (case uint_digits x base [] of None \<Rightarrow> Undefined ''print_uint: buf'' | Some buf \<Rightarrow> ufor (rev buf) (putc K) k))"

definition print_int :: "'k kernel \<Rightarrow> u64 \<Rightarrow> 'k \<Rightarrow> (unit, 'k) user" where
  "print_int K x k =
     (if x <s 0 then ubnd (putc K 45 k) (\<lambda>_. print_uint K (- x) 10) else print_uint K x 10 k)"

fun uconv :: "'k kernel \<Rightarrow> u8 \<Rightarrow> arg list \<Rightarrow> 'k \<Rightarrow> (arg list, 'k) user" where
  "uconv K f ap k =
     (if f = ch CHR ''d'' then
        (case ap of AVal w # ap \<Rightarrow> ubnd (print_int K (va_int w) k) (\<lambda>_. Val ap) | _ \<Rightarrow> Undefined ''va_arg'')
      else if f = ch CHR ''x'' then
        (case ap of AVal w # ap \<Rightarrow> ubnd (print_uint K (va_uint w) 16 k) (\<lambda>_. Val ap) | _ \<Rightarrow> Undefined ''va_arg'')
      else if f = ch CHR ''p'' then
        (case ap of AVal w # ap \<Rightarrow>
            ubnd (print_str K (Some (cstr ''0x'')) k) (\<lambda>_ k. ubnd (print_uint K w 16 k) (\<lambda>_. Val ap))
         | _ \<Rightarrow> Undefined ''va_arg'')
      else if f = ch CHR ''s'' then
        (case ap of AStr s # ap \<Rightarrow> ubnd (print_str K s k) (\<lambda>_. Val ap) | _ \<Rightarrow> Undefined ''va_arg'')
      else if f = ch CHR ''c'' then
        (case ap of AVal w # ap \<Rightarrow> ubnd (putc K (ucast w) k) (\<lambda>_. Val ap) | _ \<Rightarrow> Undefined ''va_arg'')
      else if f = ch CHR ''%'' then ubnd (putc K (ch CHR ''%'') k) (\<lambda>_. Val ap)
      else ubnd (putc K (ch CHR ''%'') k) (\<lambda>_ k. ubnd (putc K f k) (\<lambda>_. Val ap)))"

fun uprintf_loop :: "'k kernel \<Rightarrow> u8 list \<Rightarrow> arg list \<Rightarrow> int \<Rightarrow> 'k \<Rightarrow> (int, 'k) user" where
  "uprintf_loop K [] ap count k = Val count k"
| "uprintf_loop K [c] ap count k =
     (if c = 0 \<or> c = ch CHR ''%'' then Val count k else ubnd (putc K c k) (\<lambda>_. Val (count + 1)))"
| "uprintf_loop K (c # f # fmt) ap count k =
     (if c = 0 then Val count k
      else if c \<noteq> ch CHR ''%'' then ubnd (putc K c k) (\<lambda>_. uprintf_loop K (f # fmt) ap (count + 1))
      else if f = 0 then Val count k
      else ubnd (uconv K f ap k) (\<lambda>ap. uprintf_loop K fmt ap (count + 1)))"

definition uprintf :: "'k kernel \<Rightarrow> string \<Rightarrow> arg list \<Rightarrow> 'k \<Rightarrow> (int, 'k) user" where
  "uprintf K fmt ap = uprintf_loop K (cstr fmt) ap 0"

section \<open>The text written\<close>

lemma ubnd_assoc: "ubnd (ubnd r f) g = ubnd r (\<lambda>a k. ubnd (f a k) g)"
  by (cases r) simp_all

lemma ubnd_Val [simp]: "ubnd r Val = r"
  by (cases r) simp_all

lemma ubnd_Val' [simp]: "ubnd r (\<lambda>_. Val ()) = r"
  by (cases r) simp_all

lemma ufor_append: "ufor (xs @ ys) body = (\<lambda>k. ubnd (ufor xs body k) (\<lambda>_. ufor ys body))"
  by (induction xs) (rule ext, simp add: ubnd_assoc)+

text \<open>\<open>prints ws\<close>: the program writes the pieces \<open>ws\<close> to the standard output, one call each, and nothing else.\<close>

definition pieces :: "'k kernel \<Rightarrow> u8 list list \<Rightarrow> 'k \<Rightarrow> (unit, 'k) user" where
  "pieces K ws = ufor ws (\<lambda>w. sysv K (Write 1 w))"

lemma pieces_Nil [simp]: "pieces K [] = Val ()"
  by (simp add: pieces_def fun_eq_iff)

lemma pieces_Cons: "pieces K (w # ws) = (\<lambda>k. ubnd (sysv K (Write 1 w) k) (\<lambda>_. pieces K ws))"
  by (simp add: pieces_def fun_eq_iff)

lemma pieces_append: "pieces K (vs @ ws) = (\<lambda>k. ubnd (pieces K vs k) (\<lambda>_. pieces K ws))"
  by (simp add: pieces_def ufor_append)

lemma strlen_loop_takeWhile: "n \<le> length s \<Longrightarrow> strlen_loop s n = n + length (takeWhile (\<lambda>c. c \<noteq> 0) (drop n s))"
proof (induction s n rule: strlen_loop.induct)
  case (1 s n)
  show ?case
  proof (cases "n < length s \<and> s ! n \<noteq> 0")
    case True
    then have "drop n s = s ! n # drop (n + 1) s" by (simp add: Cons_nth_drop_Suc)
    then show ?thesis using True 1 by (simp add: strlen_loop.simps [of s n])
  next
    case False
    then have "takeWhile (\<lambda>c. c \<noteq> 0) (drop n s) = []"
      by (cases "n < length s") (simp_all flip: Cons_nth_drop_Suc)
    then show ?thesis using False by (auto simp: strlen_loop.simps [of s n])
  qed
qed

lemma strlen_text: "strlen s = length (takeWhile (\<lambda>c. c \<noteq> 0) s)"
  by (simp add: strlen_def strlen_loop_takeWhile)

lemma take_strlen: "take (strlen s) s = takeWhile (\<lambda>c. c \<noteq> 0) s"
  unfolding strlen_text by (rule takeWhile_eq_take [symmetric])

lemma putc_pieces: "putc K c = pieces K [[c]]"
  by (simp add: putc_def pieces_Cons)

lemma print_str_pieces:
  "print_str K s = pieces K [case s of None \<Rightarrow> cstr ''(null)'' | Some cs \<Rightarrow> takeWhile (\<lambda>c. c \<noteq> 0) cs]"
  by (simp add: print_str_def take_strlen char_consts pieces_Cons fun_eq_iff split: option.split)

lemma ufor_putc: "ufor cs (putc K) = pieces K (map (\<lambda>c. [c]) cs)"
  by (induction cs) (rule ext, simp add: pieces_Cons putc_def)+

lemma ucast_minus_u8: "(ucast (a - b :: u64) :: u8) = ucast a - ucast b"
proof -
  have "uint (ucast (a - b) :: u8) = (uint a - uint b) mod 2 ^ 8"
    by (simp add: unsigned_ucast_eq uint_word_ariths take_bit_eq_mod mod_mod_cancel)
  also have "\<dots> = uint (ucast a - ucast b :: u8)"
    by (simp add: unsigned_ucast_eq uint_word_ariths take_bit_eq_mod mod_diff_eq)
  finally show ?thesis by (simp add: word_uint_eq_iff)
qed

text \<open>The digit loop is the one of the kernel's \<open>printu\<close>.\<close>

lemma uint_digits_digits: "uint_digits x (ucast base) buf = digits x base buf"
proof (induction x base buf rule: digits.induct)
  case (1 x base buf)
  have u: "(ucast (r - 10) :: u8) = ucast r - 10" for r :: u64
    by (simp add: ucast_minus_u8)
  have d: "(if r < 10 then 48 + ucast r else 97 + ucast r - 10) = digit r" for r :: u64
    by (simp add: digit_def u)
  show ?case
    using 1 d by (simp add: uint_digits.simps [of x] digits.simps [of x] word_gt_0 not_le)
qed

lemma print_uint_pieces:
  assumes "base = 10 \<or> base = (16 :: u32)"
  shows "\<exists>ws. concat ws = numeral_text (unat base) (unat x) \<and> (\<forall>K :: 'k kernel. print_uint K x (ucast base) = pieces K ws)"
proof (cases "x = 0")
  case True
  then show ?thesis by (intro exI [of _ "[[48]]"]) (simp add: print_uint_def numeral_text_def putc_pieces fun_eq_iff)
next
  case False
  from digits_text(1) [OF assms, of x] False
  have d: "uint_digits x (ucast base) [] = Some (map digit_char (low_digits (unat base) (unat x)))"
    by (simp add: uint_digits_digits)
  let ?cs = "rev (map digit_char (low_digits (unat base) (unat x)))"
  have "concat (map (\<lambda>c. [c]) ?cs) = ?cs" by (simp add: concat_map_singleton [of "\<lambda>c. c"])
  then show ?thesis using d False
    by (intro exI [of _ "map (\<lambda>c. [c]) ?cs"]) (simp add: print_uint_def numeral_text_def ufor_putc fun_eq_iff unat_eq_0)
qed

lemma print_int_pieces:
  "\<exists>ws. concat ws = decimal_text (sint v) \<and> (\<forall>K :: 'k kernel. print_int K v = pieces K ws)"
proof (cases "v <s 0")
  case True
  then have neg: "sint v < 0" by (simp add: word_sless_alt)
  obtain ws where w: "concat ws = numeral_text 10 (unat (- v))" "\<forall>K :: 'k kernel. print_uint K (- v) 10 = pieces K ws"
    using print_uint_pieces [of 10 "- v"] by auto
  have "unat (- v) = nat (- sint v)" by (rule unat_uminus_neg [OF True])
  then show ?thesis using w True neg
    by (intro exI [of _ "[45] # ws"]) (auto simp: print_int_def decimal_text_def putc_def pieces_Cons)
next
  case False
  then have pos: "0 \<le> sint v" by (simp add: word_sless_alt)
  have "unat v = nat (sint v)" by (rule unat_nonneg [OF False])
  then show ?thesis using print_uint_pieces [of 10 v, where 'k = 'k] False pos by (simp add: print_int_def decimal_text_def fun_eq_iff)
qed

text \<open>One conversion writes the text it stands for.\<close>

lemma uconv_pieces:
  assumes "conv_text f ap = Some (t, ap')"
  shows "\<exists>ws. concat ws = t \<and> (\<forall>K (k :: 'k). uconv K f ap k = ubnd (pieces K ws k) (\<lambda>_. Val ap'))"
proof -
  consider (pct) "f = ch CHR ''%''" | (other) "f \<noteq> ch CHR ''%''" "f \<notin> ch ` {CHR ''d'', CHR ''x'', CHR ''p'', CHR ''s'', CHR ''c''}"
    | (d) "f = ch CHR ''d''" | (x) "f = ch CHR ''x''" | (p) "f = ch CHR ''p''" | (s) "f = ch CHR ''s''" | (c) "f = ch CHR ''c''" by auto
  then show ?thesis
  proof cases
    case pct
    then show ?thesis using assms by (intro exI [of _ "[t]"]) (auto simp: conv_text.simps char_consts putc_pieces)
  next
    case other
    then have "t = [ch CHR ''%'', f]" "ap' = ap" using assms by (auto simp: conv_text.simps)
    then show ?thesis using other
      by (intro exI [of _ "[[ch CHR ''%''], [f]]"]) (auto simp: putc_def pieces_Cons ubnd_assoc)
  next
    case d
    then obtain w where w: "ap = AVal w # ap'" "t = decimal_text (sint (va_int w))"
      using assms by (auto simp: conv_text.simps char_consts sint_va_int split: list.splits arg.splits)
    then show ?thesis using print_int_pieces [of "va_int w", where 'k = 'k] d by (auto simp: char_consts)
  next
    case x
    then obtain w where w: "ap = AVal w # ap'" "t = numeral_text 16 (unat (va_uint w))"
      using assms by (auto simp: conv_text.simps char_consts unat_va_uint split: list.splits arg.splits)
    then show ?thesis using print_uint_pieces [of 16 "va_uint w", where 'k = 'k] x by (auto simp: char_consts)
  next
    case p
    then obtain w where w: "ap = AVal w # ap'" "t = cstr ''0x'' @ numeral_text 16 (unat w)"
      using assms by (auto simp: conv_text.simps char_consts split: list.splits arg.splits)
    obtain ws where ws: "concat ws = numeral_text 16 (unat w)" "\<forall>K :: 'k kernel. print_uint K w 16 = pieces K ws"
      using print_uint_pieces [of 16 w, where 'k = 'k] by auto
    show ?thesis using w p ws
      by (intro exI [of _ "cstr ''0x'' # ws"]) (auto simp: char_consts print_str_pieces pieces_Cons ubnd_assoc)
  next
    case s
    then obtain cs where w: "ap = AStr cs # ap'" "t = (case cs of None \<Rightarrow> cstr ''(null)'' | Some cs \<Rightarrow> takeWhile (\<lambda>c. c \<noteq> 0) cs)"
      using assms by (auto simp: conv_text.simps char_consts split: list.splits arg.splits)
    then show ?thesis using s by (intro exI [of _ "[t]"]) (simp add: char_consts print_str_pieces)
  next
    case c
    then obtain w where w: "ap = AVal w # ap'" "t = [ucast w]"
      using assms by (auto simp: conv_text.simps char_consts split: list.splits arg.splits)
    then show ?thesis using c by (intro exI [of _ "[t]"]) (simp add: char_consts putc_pieces)
  qed
qed

declare uconv.simps [simp del]

lemma uprintf_loop_pieces:
  assumes "format_text fmt ap = Some t"
  shows "\<exists>ws n. concat ws = t \<and> (\<forall>K (k :: 'k) count. uprintf_loop K fmt ap count k = ubnd (pieces K ws k) (\<lambda>_. Val (count + n)))"
  using assms
proof (induction fmt ap arbitrary: t rule: format_text.induct)
  case (1 ap)
  then show ?case by (intro exI [of _ "[]"] exI [of _ 0]) simp
next
  case (2 c ap)
  show ?case
  proof (cases "c = 0 \<or> c = ch CHR ''%''")
    case True
    then show ?thesis using 2 by (intro exI [of _ "[]"] exI [of _ 0]) auto
  next
    case False
    then show ?thesis using 2 by (intro exI [of _ "[[c]]"] exI [of _ 1]) (auto simp: putc_pieces)
  qed
next
  case (3 c f fmt ap)
  consider (stop) "c = 0 \<or> c = ch CHR ''%'' \<and> f = 0" | (plain) "c \<noteq> 0" "c \<noteq> ch CHR ''%''" | (conv) "c \<noteq> 0" "c = ch CHR ''%''" "f \<noteq> 0" by blast
  then show ?case
  proof cases
    case stop
    then have "t = []" using 3 by (auto split: if_splits)
    then show ?thesis using stop by (intro exI [of _ "[]"] exI [of _ 0]) auto
  next
    case plain
    then obtain u where u: "format_text (f # fmt) ap = Some u" "t = c # u" using 3 by auto
    from "3.IH"(1) [OF _ _ u(1)] plain obtain ws n where w: "concat ws = u"
      "\<forall>K (k :: 'k) count. uprintf_loop K (f # fmt) ap count k = ubnd (pieces K ws k) (\<lambda>_. Val (count + n))" by blast
    have "uprintf_loop K (f # fmt) ap m = (\<lambda>k. ubnd (pieces K ws k) (\<lambda>_. Val (m + n)))" for K :: "'k kernel" and m
      using w by blast
    then show ?thesis using w(1) u(2) plain
      by (intro exI [of _ "[c] # ws"] exI [of _ "1 + n"]) (auto simp: pieces_Cons putc_def ubnd_assoc add.assoc)
  next
    case conv
    obtain t1 ap1 u where u: "conv_text f ap = Some (t1, ap1)" "format_text fmt ap1 = Some u" "t = t1 @ u"
      using "3.prems" conv by (auto split: option.splits)
    from "3.IH"(2) [OF _ _ _ u(1) refl u(2)] conv obtain ws n where w: "concat ws = u"
      "\<forall>K (k :: 'k) count. uprintf_loop K fmt ap1 count k = ubnd (pieces K ws k) (\<lambda>_. Val (count + n))" by blast
    have l: "uprintf_loop K fmt ap1 m = (\<lambda>k. ubnd (pieces K ws k) (\<lambda>_. Val (m + n)))" for K :: "'k kernel" and m
      using w by blast
    obtain vs where v: "concat vs = t1" "\<forall>K (k :: 'k). uconv K f ap k = ubnd (pieces K vs k) (\<lambda>_. Val ap1)"
      using uconv_pieces [OF u(1)] by blast
    show ?thesis using w(1) u(3) v conv l
      by (intro exI [of _ "vs @ ws"] exI [of _ "1 + n"]) (auto simp: pieces_append ubnd_assoc add.assoc)
  qed
qed

end
