(* ===== verification/Init.thy ===== *)
theory Init
  imports Ulib
begin

text \<open>
  The init program (init.c): tests of the file system and of the kernel log, run against an arbitrary kernel. Local
  arrays are lists; a store outside one, or a signed sum that overflows, is undefined.
\<close>

section \<open>Strings and buffers\<close>

text \<open>A byte of a string; its end counts as the null byte.\<close>

definition byte_of :: "u8 list \<Rightarrow> nat \<Rightarrow> u8" where
  "byte_of s i = (if i < length s then s ! i else 0)"

function strcmp_loop :: "u8 list \<Rightarrow> u8 list \<Rightarrow> nat \<Rightarrow> int" where
  "strcmp_loop s1 s2 i =
     (if byte_of s1 i \<noteq> 0 \<and> byte_of s1 i = byte_of s2 i then strcmp_loop s1 s2 (i + 1)
      else uint (byte_of s1 i) - uint (byte_of s2 i))"
  by pat_completeness auto
termination
  by (relation "measure (\<lambda>(s1, s2, i). length s1 - i)") (auto simp: byte_of_def split: if_splits)

declare strcmp_loop.simps [simp del]

definition strcmp :: "u8 list \<Rightarrow> u8 list \<Rightarrow> int" where
  "strcmp s1 s2 = strcmp_loop s1 s2 0"

definition O_RDONLY_u :: u32 where "O_RDONLY_u = 0"
definition O_RDWR_u :: u32 where "O_RDWR_u = 2"
definition O_CREATE_u :: u32 where "O_CREATE_u = 0x200"

text \<open>\<open>printf\<close> with the result dropped, and \<open>read\<close> into an array of which at most \<open>n\<close> bytes change.\<close>

definition say :: "'k kernel \<Rightarrow> string \<Rightarrow> arg list \<Rightarrow> 'k \<Rightarrow> (unit, 'k) user" where
  "say K fmt ap k = ubnd (uprintf K fmt ap k) (\<lambda>_. Val ())"

definition read_into :: "'k kernel \<Rightarrow> int \<Rightarrow> u8 list \<Rightarrow> nat \<Rightarrow> 'k \<Rightarrow> (int \<times> u8 list, 'k) user" where
  "read_into K fd buf n k =
     ubnd (ucall K (Read fd n) k) (\<lambda>(r, bs). Val (r, take n bs @ drop (length (take n bs)) buf))"

definition int_arg :: "int \<Rightarrow> arg" where
  "int_arg i = AVal (of_int i)"

section \<open>File system tests\<close>

definition hello :: "u8 list" where
  "hello = cstr ''Hello, filesystem!''"

definition verify_file :: "'k kernel \<Rightarrow> nat \<Rightarrow> int \<Rightarrow> int \<Rightarrow> u8 list \<Rightarrow> 'k \<Rightarrow> (unit, 'k) user" where
  "verify_file K len fd bytes read_buf k =
     ubnd (if strcmp hello read_buf = 0 then say K ''[PASS] Data verified: %s\<newline>'' [AStr (Some read_buf)] k
           else
             ubnd (say K ''[FAIL] Data mismatch.\<newline>'' [] k) (\<lambda>_ k.
             ubnd (say K ''       Expected: '%s' (len=%d)\<newline>'' [AStr (Some hello), int_arg (int len)] k) (\<lambda>_ k.
             ubnd (say K ''       Got:      '%s' (len=%d)\<newline>'' [AStr (Some read_buf), int_arg bytes] k) (\<lambda>_ k.
             if 0 < bytes then say K ''       First byte hex: 0x%x\<newline>'' [AVal (ucast (read_buf ! 0))] k else Val () k))))
     (\<lambda>_ k.
     ubnd (sysv K (Close fd) k) (\<lambda>_ k.
     ubnd (sys K (Unlink (cstr ''testfile'')) k) (\<lambda>r k.
     ubnd (if r = 0 then say K ''[PASS] File deleted\<newline>'' [] k else say K ''[FAIL] Unlink failed\<newline>'' [] k) (\<lambda>_ k.
     ubnd (sys K (Open (cstr ''testfile'') O_RDONLY_u) k) (\<lambda>fd k.
     if fd < 0 then say K ''[PASS] File no longer exists\<newline>'' [] k
     else
       ubnd (say K ''[FAIL] File still exists after unlink\<newline>'' [] k) (\<lambda>_.
       sysv K (Close fd)))))))"

definition test_fs_integrity :: "'k kernel \<Rightarrow> u8 list \<Rightarrow> 'k \<Rightarrow> (unit, 'k) user" where
  "test_fs_integrity K junk k =
     ubnd (say K ''\<newline>=== FS Test 1: File Integrity ===\<newline>'' [] k) (\<lambda>_ k.
     ubnd (sys K (Open (cstr ''testfile'') (O_CREATE_u OR O_RDWR_u)) k) (\<lambda>fd k.
     if fd < 0 then say K ''[FAIL] Cannot create file\<newline>'' [] k
     else
       ubnd (say K ''[PASS] File created, fd=%d\<newline>'' [int_arg fd] k) (\<lambda>_ k.
       let len = strlen hello in
       ubnd (sys K (Write fd (take len hello)) k) (\<lambda>bytes k.
       if bytes \<noteq> int len then
         ubnd (say K ''[FAIL] Write failed, wrote %d expected %d\<newline>'' [int_arg bytes, int_arg (int len)] k) (\<lambda>_.
         sysv K (Close fd))
       else
         ubnd (say K ''[PASS] Wrote %d bytes\<newline>'' [int_arg bytes] k) (\<lambda>_ k.
         ubnd (sysv K (Close fd) k) (\<lambda>_ k.
         ubnd (sys K (Open (cstr ''testfile'') O_RDONLY_u) k) (\<lambda>fd k.
         if fd < 0 then say K ''[FAIL] Cannot reopen file\<newline>'' [] k
         else
           (case memset junk 0 64 of None \<Rightarrow> Undefined ''memset''
            | Some read_buf \<Rightarrow>
                ubnd (read_into K fd read_buf 63 k) (\<lambda>(bytes, read_buf) k.
                if bytes < 0 then
                  ubnd (say K ''[FAIL] Read failed\<newline>'' [] k) (\<lambda>_. sysv K (Close fd))
                else if 64 \<le> bytes then Undefined ''read_buf''
                else verify_file K len fd bytes (read_buf[nat bytes := 0]) k)))))))))"

definition child_name :: "int \<Rightarrow> u8 list" where
  "child_name i = cstr ''test_'' @ [of_int (48 + i)]"

definition fs_child :: "'k kernel \<Rightarrow> int \<Rightarrow> 'k \<Rightarrow> (unit, 'k) user" where
  "fs_child K i k =
     ubnd (ufor [0..<5] (\<lambda>_ k.
       ubnd (sys K (Open (child_name i) (O_CREATE_u OR O_RDWR_u)) k) (\<lambda>fd k.
       if 0 \<le> fd then
         ubnd (sysv K (Write fd (cstr ''data'')) k) (\<lambda>_ k.
         ubnd (sysv K (Close fd) k) (\<lambda>_.
         sysv K (Unlink (child_name i))))
       else Val () k)) k) (\<lambda>_ k.
     ubnd (say K ''[INFO] Child %d completed\<newline>'' [int_arg i] k) (\<lambda>_. Exited 0))"

definition test_fs_concurrent :: "'k kernel \<Rightarrow> 'k \<Rightarrow> (unit, 'k) user" where
  "test_fs_concurrent K k =
     ubnd (say K ''\<newline>=== FS Test 2: Concurrent Access ===\<newline>'' [] k) (\<lambda>_ k.
     ubnd (ufor [0..<3] (\<lambda>i k.
       ubnd (sys K Fork k) (\<lambda>pid k. if pid = 0 then fs_child K (int i) k else Val () k)) k) (\<lambda>_ k.
     ubnd (ufor [0..<3] (\<lambda>_. sysv K Wait) k) (\<lambda>_.
     say K ''[PASS] Concurrent access test completed\<newline>'' [])))"

definition file_name :: "nat \<Rightarrow> u8 list" where
  "file_name i = cstr ''file'' @ [of_nat (48 + i)]"

text \<open>The first loop of the test with several files: \<open>False\<close> when it gives up.\<close>

fun create_files :: "'k kernel \<Rightarrow> nat list \<Rightarrow> 'k \<Rightarrow> (bool, 'k) user" where
  "create_files K [] k = Val True k"
| "create_files K (i # is) k =
     ubnd (sys K (Open (file_name i) (O_CREATE_u OR O_RDWR_u)) k) (\<lambda>fd k.
     if fd < 0 then ubnd (say K ''[FAIL] Cannot create %s\<newline>'' [AStr (Some (file_name i))] k) (\<lambda>_. Val False)
     else
       ubnd (ufor [0..<i + 1] (\<lambda>_. sysv K (Write fd (cstr ''ABCD''))) k) (\<lambda>_ k.
       ubnd (sysv K (Close fd) k) (\<lambda>_. create_files K is)))"

fun verify_files :: "'k kernel \<Rightarrow> nat list \<Rightarrow> bool \<Rightarrow> 'k \<Rightarrow> (bool, 'k) user" where
  "verify_files K [] all_ok k = Val all_ok k"
| "verify_files K (i # is) all_ok k =
     ubnd (sys K (Open (file_name i) O_RDONLY_u) k) (\<lambda>fd k.
     if fd < 0 then
       ubnd (say K ''[FAIL] Cannot open %s\<newline>'' [AStr (Some (file_name i))] k) (\<lambda>_. verify_files K is False)
     else
       ubnd (sys K (Read fd 64) k) (\<lambda>n k.
       let expected = (int i + 1) * 4 in
       ubnd (if n \<noteq> expected then
               ubnd (say K ''[FAIL] %s: expected %d bytes, got %d\<newline>''
                 [AStr (Some (file_name i)), int_arg expected, int_arg n] k) (\<lambda>_. Val False)
             else Val all_ok k) (\<lambda>all_ok k.
       ubnd (sysv K (Close fd) k) (\<lambda>_. verify_files K is all_ok))))"

definition test_fs_multiple_files :: "'k kernel \<Rightarrow> 'k \<Rightarrow> (unit, 'k) user" where
  "test_fs_multiple_files K k =
     ubnd (say K ''\<newline>=== FS Test 3: Multiple Files ===\<newline>'' [] k) (\<lambda>_ k.
     ubnd (say K ''[INFO] Creating %d files...\<newline>'' [int_arg 5] k) (\<lambda>_ k.
     ubnd (create_files K [0..<5] k) (\<lambda>ok k.
     if \<not> ok then Val () k
     else
       ubnd (say K ''[PASS] Created %d files\<newline>'' [int_arg 5] k) (\<lambda>_ k.
       ubnd (say K ''[INFO] Verifying files...\<newline>'' [] k) (\<lambda>_ k.
       ubnd (verify_files K [0..<5] True k) (\<lambda>all_ok k.
       ubnd (if all_ok then say K ''[PASS] All files verified\<newline>'' [] k else Val () k) (\<lambda>_ k.
       ubnd (say K ''[INFO] Cleaning up...\<newline>'' [] k) (\<lambda>_ k.
       ubnd (ufor [0..<5] (\<lambda>i. sysv K (Unlink (file_name i))) k) (\<lambda>_.
       say K ''[PASS] Multiple files test completed\<newline>'' [])))))))))"

text \<open>Writing \<open>blocks\<close> times 512 bytes; \<open>None\<close> when a write fails.\<close>

fun write_blocks :: "'k kernel \<Rightarrow> int \<Rightarrow> u8 list \<Rightarrow> nat list \<Rightarrow> int \<Rightarrow> 'k \<Rightarrow> (int option, 'k) user" where
  "write_blocks K fd buf [] tot k = Val (Some tot) k"
| "write_blocks K fd buf (i # is) tot k =
     ubnd (sys K (Write fd (take 512 buf)) k) (\<lambda>n k.
     if n \<noteq> 512 then
       ubnd (say K ''[FAIL] Write failed at block %d\<newline>'' [int_arg (int i)] k) (\<lambda>_ k.
       ubnd (sysv K (Close fd) k) (\<lambda>_. Val None))
     else write_blocks K fd buf is (tot + n) k)"

text \<open>\<open>while ((n = read(fd, buf, 512)) > 0) read_total += n;\<close>\<close>

function read_loop :: "'k kernel \<Rightarrow> int \<Rightarrow> int \<Rightarrow> 'k \<Rightarrow> (int, 'k) user" where
  "read_loop K fd read_total k =
     ubnd (sys K (Read fd 512) k) (\<lambda>n k.
     if 0 < n then
       (if 2 ^ 31 \<le> read_total + n then Undefined ''read_total'' else read_loop K fd (read_total + n) k)
     else Val read_total k)"
  by pat_completeness auto
termination
  by (relation "measure (\<lambda>(K, fd, read_total, k). nat (2 ^ 31 - read_total))") auto

declare read_loop.simps [simp del]

definition large_pattern :: "u8 list" where
  "large_pattern = map (\<lambda>i. of_nat (65 + i mod 26)) [0..<512]"

definition test_fs_large_file :: "'k kernel \<Rightarrow> 'k \<Rightarrow> (unit, 'k) user" where
  "test_fs_large_file K k =
     ubnd (say K ''\<newline>=== FS Test 4: Large File ===\<newline>'' [] k) (\<lambda>_ k.
     ubnd (sys K (Open (cstr ''largefile'') (O_CREATE_u OR O_RDWR_u)) k) (\<lambda>fd k.
     if fd < 0 then say K ''[FAIL] Cannot create large file\<newline>'' [] k
     else
       ubnd (say K ''[INFO] Writing %d blocks...\<newline>'' [int_arg 10] k) (\<lambda>_ k.
       ubnd (write_blocks K fd large_pattern [0..<10] 0 k) (\<lambda>r k.
       case r of None \<Rightarrow> Val () k
       | Some tot \<Rightarrow>
           ubnd (say K ''[PASS] Wrote %d bytes\<newline>'' [int_arg tot] k) (\<lambda>_ k.
           ubnd (sysv K (Close fd) k) (\<lambda>_ k.
           ubnd (sys K (Open (cstr ''largefile'') O_RDONLY_u) k) (\<lambda>fd k.
           if fd < 0 then say K ''[FAIL] Cannot reopen large file\<newline>'' [] k
           else
             ubnd (read_loop K fd 0 k) (\<lambda>read_total k.
             ubnd (if read_total = tot then say K ''[PASS] Read back %d bytes\<newline>'' [int_arg read_total] k
                   else say K ''[FAIL] Read %d bytes, expected %d\<newline>'' [int_arg read_total, int_arg tot] k) (\<lambda>_ k.
             ubnd (sysv K (Close fd) k) (\<lambda>_ k.
             ubnd (sysv K (Unlink (cstr ''largefile'')) k) (\<lambda>_.
             say K ''[PASS] Large file test completed\<newline>'' [])))))))))))"

section \<open>Log tests\<close>

definition test_log_basic :: "'k kernel \<Rightarrow> 'k \<Rightarrow> (unit, 'k) user" where
  "test_log_basic K k =
     ubnd (say K ''\<newline>=== Log Test 1: Basic Functionality ===\<newline>'' [] k) (\<lambda>_ k.
     ubnd (say K ''[INFO] Displaying kernel log statistics...\<newline>'' [] k) (\<lambda>_ k.
     ubnd (sysv K Logstat k) (\<lambda>_.
     say K ''[PASS] Log statistics displayed\<newline>'' [])))"

definition test_log_dump :: "'k kernel \<Rightarrow> 'k \<Rightarrow> (unit, 'k) user" where
  "test_log_dump K k =
     ubnd (say K ''\<newline>=== Log Test 2: Log Buffer Dump ===\<newline>'' [] k) (\<lambda>_ k.
     ubnd (say K ''[INFO] Dumping kernel log buffer...\<newline>'' [] k) (\<lambda>_ k.
     ubnd (sysv K Logdump k) (\<lambda>_.
     say K ''[PASS] Log buffer dumped\<newline>'' [])))"

definition log_child :: "'k kernel \<Rightarrow> 'k \<Rightarrow> (unit, 'k) user" where
  "log_child K k =
     ubnd (sys K (Open (cstr ''logtest'') (O_CREATE_u OR O_RDWR_u)) k) (\<lambda>fd k.
     ubnd (if 0 \<le> fd then
             ubnd (sysv K (Write fd (cstr ''test'')) k) (\<lambda>_ k.
             ubnd (sysv K (Close fd) k) (\<lambda>_.
             sysv K (Unlink (cstr ''logtest''))))
           else Val () k) (\<lambda>_. Exited 0))"

text \<open>\<open>wait\<close> stores the status through its pointer; \<open>junk\<close> is what the variable holds when it does not.\<close>

definition stored_int :: "u8 list \<Rightarrow> int \<Rightarrow> int" where
  "stored_int bs junk = (if length bs < 4 then junk else sint (le_word (take 4 bs) :: u32))"

definition test_log_with_activity :: "'k kernel \<Rightarrow> int \<Rightarrow> 'k \<Rightarrow> (unit, 'k) user" where
  "test_log_with_activity K junk k =
     ubnd (say K ''\<newline>=== Log Test 3: Log with Process Activity ===\<newline>'' [] k) (\<lambda>_ k.
     ubnd (say K ''[INFO] Creating child process to generate log entries...\<newline>'' [] k) (\<lambda>_ k.
     ubnd (sys K Fork k) (\<lambda>pid k.
     ubnd (if pid = 0 then log_child K k
           else
             ubnd (ucall K Wait k) (\<lambda>(r, bs) k.
             say K ''[INFO] Child exited with status %d\<newline>'' [int_arg (stored_int bs junk)] k)) (\<lambda>_ k.
     ubnd (say K ''[INFO] Checking log after activity...\<newline>'' [] k) (\<lambda>_ k.
     ubnd (sysv K Logstat k) (\<lambda>_.
     say K ''[PASS] Log with activity test completed\<newline>'' []))))))"

section \<open>main\<close>

text \<open>\<open>junk\<close> and \<open>status\<close> are what the uninitialised local variables hold.\<close>

definition user_tests :: "'k kernel \<Rightarrow> u8 list \<Rightarrow> int \<Rightarrow> 'k \<Rightarrow> (unit, 'k) user" where
  "user_tests K junk status k =
     ubnd (ufor [''============================================================\<newline>'',
        ''          Lab 7 & 8: Combined Acceptance Tests\<newline>'',
        ''============================================================\<newline>'',
        ''\<newline>############################################################\<newline>'',
        ''#                  Lab 7: File System                      #\<newline>'',
        ''############################################################\<newline>''] (\<lambda>m. say K m []) k) (\<lambda>_ k.
     ubnd (test_fs_integrity K junk k) (\<lambda>_ k.
     ubnd (test_fs_concurrent K k) (\<lambda>_ k.
     ubnd (test_fs_multiple_files K k) (\<lambda>_ k.
     ubnd (test_fs_large_file K k) (\<lambda>_ k.
     ubnd (ufor [''\<newline>############################################################\<newline>'',
        ''#              Lab 8: Kernel Log System                    #\<newline>'',
        ''############################################################\<newline>''] (\<lambda>m. say K m []) k) (\<lambda>_ k.
     ubnd (test_log_basic K k) (\<lambda>_ k.
     ubnd (test_log_dump K k) (\<lambda>_ k.
     test_log_with_activity K status k))))))))"

definition summary :: "string list" where
  "summary =
    [''\<newline>============================================================\<newline>'',
     ''               All Tests Completed Successfully!\<newline>'',
     ''============================================================\<newline>'',
     ''\<newline>[SUMMARY] Lab 7 - File System:\<newline>'',
     ''  - File creation, read, write, delete: PASS\<newline>'',
     ''  - Concurrent file access: PASS\<newline>'',
     ''  - Multiple files handling: PASS\<newline>'',
     ''  - Large file support: PASS\<newline>'',
     ''\<newline>[SUMMARY] Lab 8 - Kernel Log System:\<newline>'',
     ''  - Log statistics: PASS\<newline>'',
     ''  - Log buffer dump: PASS\<newline>'',
     ''  - Log with process activity: PASS\<newline>'',
     ''\<newline>============================================================\<newline>'']"

definition user_main :: "'k kernel \<Rightarrow> u8 list \<Rightarrow> int \<Rightarrow> 'k \<Rightarrow> (unit, 'k) user" where
  "user_main K junk status k =
     ubnd (user_tests K junk status k) (\<lambda>_ k.
     ubnd (ufor summary (\<lambda>m. say K m []) k) (\<lambda>_. Exited 0))"

end
