(* ===== verification/InitSpec.thy ===== *)
theory InitSpec
  imports Init
begin

text \<open>
  What the user programs do against any kernel whose calls return: their output, and how \<open>main\<close> of init.c ends.
\<close>

section \<open>Programs that run to their end\<close>

text \<open>The piece returns, with a value of which \<open>Q\<close> holds.\<close>

definition yields :: "('a, 'k) user \<Rightarrow> ('a \<Rightarrow> bool) \<Rightarrow> bool" where
  "yields m Q \<longleftrightarrow> (\<exists>a k. m = Val a k \<and> Q a)"

named_theorems runs "pieces of user programs that run to their end"

lemma yields_Val [runs]: "Q a \<Longrightarrow> yields (Val a k) Q"
  by (simp add: yields_def)

lemma yields_post: "yields m P \<Longrightarrow> (\<And>a k. P a \<Longrightarrow> yields (f a k) Q) \<Longrightarrow> yields (ubnd m f) Q"
  by (auto simp: yields_def)

lemma yields_ubnd [runs]: "yields m (\<lambda>_. True) \<Longrightarrow> (\<And>a k. yields (f a k) Q) \<Longrightarrow> yields (ubnd m f) Q"
  by (auto simp: yields_def)

lemma yields_if [runs]: "(b \<Longrightarrow> yields m Q) \<Longrightarrow> (\<not> b \<Longrightarrow> yields n Q) \<Longrightarrow> yields (if b then m else n) Q"
  by simp

lemma yields_weaken: "yields m P \<Longrightarrow> (\<And>a. P a \<Longrightarrow> Q a) \<Longrightarrow> yields m Q"
  by (auto simp: yields_def)

lemma yields_ufor [runs]: "(\<And>i k. i \<in> set is \<Longrightarrow> yields (body i k) (\<lambda>_. True)) \<Longrightarrow> yields (ufor is body k) (\<lambda>_. True)"
proof (induction "is" arbitrary: k)
  case (Cons i "is")
  show ?case unfolding ufor.simps by (rule yields_ubnd [OF Cons.prems]) (use Cons in auto)
qed (simp add: yields_def)

text \<open>
  What the programs rely on: every call returns, \<open>fork\<close> returns to the parent, \<open>read\<close> returns at most the number of
  bytes asked for, and a file has an end: \<open>left\<close> bounds what the reads from a descriptor still return.
\<close>

definition dependable :: "'k kernel \<Rightarrow> (int \<Rightarrow> 'k \<Rightarrow> int) \<Rightarrow> bool" where
  "dependable K left \<longleftrightarrow>
     (\<forall>c k. K c k \<noteq> None) \<and> (\<forall>k r bs k'. K Fork k = Some (r, bs, k') \<longrightarrow> r \<noteq> 0) \<and>
     (\<forall>fd n k r bs k'. K (Read fd n) k = Some (r, bs, k') \<longrightarrow>
        r \<le> int n \<and> 0 \<le> left fd k' \<and> left fd k < 2 ^ 31 \<and> (0 < r \<longrightarrow> left fd k' + r \<le> left fd k))"

lemma dependableD:
  assumes "dependable K left"
  shows "\<exists>r bs k'. K c k = Some (r, bs, k')" and "K Fork k = Some (r, bs, k') \<Longrightarrow> r \<noteq> 0"
    and "K (Read fd n) k = Some (r, bs, k') \<Longrightarrow> r \<le> int n \<and> 0 \<le> left fd k' \<and> left fd k < 2 ^ 31 \<and> (0 < r \<longrightarrow> left fd k' + r \<le> left fd k)"
proof -
  have "K c k \<noteq> None" using assms by (simp add: dependable_def)
  then show "\<exists>r bs k'. K c k = Some (r, bs, k')" by auto
qed (use assms in \<open>unfold dependable_def, blast+\<close>)

lemma yields_ucall: "dependable K left \<Longrightarrow> yields (ucall K c k) (\<lambda>_. True)"
  using dependableD(1) [of K left c k] by (auto simp: yields_def ucall_def)

lemma yields_sys: "dependable K left \<Longrightarrow> yields (sys K c k) (\<lambda>_. True)"
  using dependableD(1) [of K left c k] by (auto simp: yields_def sys_def ucall_def)

lemma yields_sysv: "dependable K left \<Longrightarrow> yields (sysv K c k) (\<lambda>_. True)"
  using dependableD(1) [of K left c k] by (auto simp: yields_def sysv_def sys_def ucall_def)

lemma yields_fork: "dependable K left \<Longrightarrow> yields (sys K Fork k) (\<lambda>r. r \<noteq> 0)"
  using dependableD(1) [of K left Fork k] dependableD(2) [of K left k] by (auto simp: yields_def sys_def ucall_def)

lemma yields_read_into:
  "dependable K left \<Longrightarrow> n \<le> length buf \<Longrightarrow> yields (read_into K fd buf n k) (\<lambda>(r, b). r \<le> int n \<and> length b = length buf)"
  using dependableD(1) [of K left "Read fd n" k] dependableD(3) [of K left fd n k]
  by (auto simp: yields_def read_into_def ucall_def)

lemma yields_pieces: "dependable K left \<Longrightarrow> yields (pieces K ws k) (\<lambda>_. True)"
  unfolding pieces_def by (auto intro!: runs yields_sysv)

lemma yields_say: "dependable K left \<Longrightarrow> format_text (cstr fmt) ap \<noteq> None \<Longrightarrow> yields (say K fmt ap k) (\<lambda>_. True)"
proof -
  assume d: "dependable K left" and "format_text (cstr fmt) ap \<noteq> None"
  then obtain t where "format_text (cstr fmt) ap = Some t" by auto
  from uprintf_loop_pieces [OF this] obtain ws n where "uprintf K fmt ap k = ubnd (pieces K ws k) (\<lambda>_. Val n)"
    by (fastforce simp: uprintf_def)
  then show ?thesis using yields_pieces [OF d, of ws k] by (auto simp: say_def yields_def)
qed

lemma read_loop_ends:
  "dependable K left \<Longrightarrow> 0 \<le> tot \<Longrightarrow> tot + left fd k < 2 ^ 31 \<Longrightarrow> yields (read_loop K fd tot k) (\<lambda>_. True)"
proof (induction K fd tot k rule: read_loop.induct)
  case (1 K fd tot k)
  obtain r bs k' where r: "K (Read fd 512) k = Some (r, bs, k')" using dependableD(1) [OF "1.prems"(1)] by blast
  note D = dependableD(3) [OF "1.prems"(1) r]
  have s: "sys K (Read fd 512) k = Val r k'" using r by (simp add: sys_def ucall_def)
  show ?case
  proof (cases "0 < r")
    case True
    have "tot + r + left fd k' < 2 ^ 31" "\<not> 2 ^ 31 \<le> tot + r" using D True "1.prems"(3) by linarith+
    moreover from this have "yields (read_loop K fd (tot + r) k') (\<lambda>_. True)"
      using "1.IH" [OF s True] True "1.prems" by simp
    ultimately show ?thesis using True by (simp add: read_loop.simps [of K fd tot] s)
  qed (simp add: read_loop.simps [of K fd tot] s yields_def)
qed

section \<open>The tests\<close>

lemmas calls = yields_sysv yields_sys yields_ucall yields_say

lemmas text_simps = char_consts conv_text.simps int_arg_def

lemma log_basic_runs: "dependable K left \<Longrightarrow> yields (test_log_basic K k) (\<lambda>_. True)"
  unfolding test_log_basic_def by (intro runs calls) (simp_all add: text_simps)

lemma log_dump_runs: "dependable K left \<Longrightarrow> yields (test_log_dump K k) (\<lambda>_. True)"
  unfolding test_log_dump_def by (intro runs calls) (simp_all add: text_simps)

lemma yields_parent:
  assumes d: "dependable K left" and "\<And>pid k. pid \<noteq> 0 \<Longrightarrow> yields (f pid k) Q"
  shows "yields (ubnd (sys K Fork k) f) Q"
  by (rule yields_post [OF yields_fork [OF d]]) (use assms(2) in auto)

lemma log_activity_runs: "dependable K left \<Longrightarrow> yields (test_log_with_activity K junk k) (\<lambda>_. True)"
  unfolding test_log_with_activity_def split_beta
  by (intro runs calls yields_parent) (simp_all add: text_simps)

lemma concurrent_runs: "dependable K left \<Longrightarrow> yields (test_fs_concurrent K k) (\<lambda>_. True)"
  unfolding test_fs_concurrent_def
  by (intro runs yields_parent calls) (simp_all add: text_simps)

lemma create_runs: "dependable K left \<Longrightarrow> yields (create_files K is k) (\<lambda>_. True)"
proof (induction "is" arbitrary: k)
  case (Cons i "is")
  note c = calls [OF Cons.prems]
  show ?case unfolding create_files.simps 
    by (intro runs c Cons) (simp_all add: text_simps Cons)
qed (simp add: yields_Val)

lemma verify_runs: "dependable K left \<Longrightarrow> yields (verify_files K is ok k) (\<lambda>_. True)"
proof (induction "is" arbitrary: ok k)
  case (Cons i "is")
  note c = calls [OF Cons.prems]
  show ?case unfolding verify_files.simps Let_def
    by (intro runs c Cons) (simp_all add: text_simps Cons)
qed (simp add: yields_Val)

lemma multiple_files_runs: "dependable K left \<Longrightarrow> yields (test_fs_multiple_files K k) (\<lambda>_. True)"
  unfolding test_fs_multiple_files_def
  by (intro runs calls create_runs verify_runs) (simp_all add: text_simps)

lemma write_blocks_runs: "dependable K left \<Longrightarrow> yields (write_blocks K fd buf is tot k) (\<lambda>_. True)"
proof (induction "is" arbitrary: tot k)
  case (Cons i "is")
  note c = calls [OF Cons.prems]
  show ?case unfolding write_blocks.simps
    by (intro runs c Cons) (simp_all add: text_simps Cons)
qed (simp add: yields_Val)

lemma read_runs:
  assumes d: "dependable K left"
  shows "yields (read_loop K fd 0 k) (\<lambda>_. True)"
proof -
  obtain r bs k' where "K (Read fd 512) k = Some (r, bs, k')" using dependableD(1) [OF d] by blast
  then show ?thesis using read_loop_ends [OF d, of 0 fd k] dependableD(3) [OF d] by fastforce
qed

lemma yields_option [runs]: "(x = None \<Longrightarrow> yields m Q) \<Longrightarrow> (\<And>y. x = Some y \<Longrightarrow> yields (f y) Q) \<Longrightarrow> yields (case x of None \<Rightarrow> m | Some y \<Rightarrow> f y) Q"
  by (cases x) auto

lemma large_file_runs: "dependable K left \<Longrightarrow> yields (test_fs_large_file K k) (\<lambda>_. True)"
  unfolding test_fs_large_file_def
  by (intro runs calls write_blocks_runs read_runs) (simp_all add: text_simps)

lemma memset_text: "n \<le> length d \<Longrightarrow> \<exists>d'. memset d c n = Some d' \<and> length d' = length d"
proof -
  have "\<forall>i \<in> set is. i < length d \<Longrightarrow> \<exists>d'. memset_loop x is d = Some d' \<and> length d' = length d" for "is" x
  proof (induction "is" arbitrary: d)
    case (Cons i "is")
    then show ?case using Cons.IH [of "d[i := x]"] by simp
  qed simp
  then show "n \<le> length d \<Longrightarrow> ?thesis" by (simp add: memset_def)
qed

lemma verify_file_runs: "dependable K left \<Longrightarrow> yields (verify_file K len fd bytes buf k) (\<lambda>_. True)"
  unfolding verify_file_def
  by (intro runs calls) (simp_all add: text_simps)

lemma integrity_runs:
  assumes d: "dependable K left" and "length junk = 64"
  shows "yields (test_fs_integrity K junk k) (\<lambda>_. True)"
proof -
  note c = calls [OF d]
  obtain buf where b: "memset junk 0 64 = Some buf" "length buf = 64" using memset_text [of 64 junk 0] assms(2) by auto
  have r: "yields (ubnd (read_into K fd buf 63 k) (\<lambda>(bytes, read_buf) k.
      if bytes < 0 then ubnd (say K ''[FAIL] Read failed\<newline>'' [] k) (\<lambda>_. sysv K (Close fd))
      else if 64 \<le> bytes then Undefined ''read_buf'' else verify_file K len fd bytes (read_buf[nat bytes := 0]) k)) (\<lambda>_. True)" for len fd k
    by (rule yields_post [OF yields_read_into [OF d]])
      (use b in \<open>auto intro!: runs c verify_file_runs [OF d] simp: text_simps\<close>)
  show ?thesis unfolding test_fs_integrity_def Let_def b(1) option.case
    by (intro runs c r) (simp_all add: text_simps)
qed

lemma user_tests_run:
  assumes "dependable K left" and "length junk = 64"
  shows "yields (user_tests K junk status k) (\<lambda>_. True)"
  unfolding user_tests_def
  by (intro runs calls [OF assms(1)] integrity_runs [OF assms] concurrent_runs [OF assms(1)] multiple_files_runs [OF assms(1)]
      large_file_runs [OF assms(1)] log_basic_runs [OF assms(1)] log_dump_runs [OF assms(1)] log_activity_runs [OF assms(1)])
    (auto simp: text_simps)

text \<open>Texts without conversions.\<close>

lemma says_pieces:
  assumes "\<forall>m \<in> set ms. format_text (cstr m) [] = Some (cstr m)"
  shows "\<exists>ws. concat ws = concat (map cstr ms) \<and> (\<forall>K (k :: 'k). ufor ms (\<lambda>m. say K m []) k = pieces K ws k)"
  using assms
proof (induction ms)
  case Nil
  then show ?case by (intro exI [of _ "[]"]) simp
next
  case (Cons m ms)
  then obtain ws where ws: "concat ws = concat (map cstr ms)" "\<And>K :: 'k kernel. ufor ms (\<lambda>m. say K m []) = pieces K ws" by fastforce
  obtain vs n where vs: "concat vs = cstr m" "\<And>K (k :: 'k). uprintf K m [] k = ubnd (pieces K vs k) (\<lambda>_. Val n)"
    using uprintf_loop_pieces [of "cstr m" "[]" "cstr m"] Cons.prems by (fastforce simp: uprintf_def)
  have "ufor (m # ms) (\<lambda>m. say K m []) k = pieces K (vs @ ws) k" for K and k :: 'k
    by (simp add: say_def vs(2) ws(2) ubnd_assoc pieces_append)
  then show ?case using ws(1) vs(1) by (intro exI [of _ "vs @ ws"]) simp
qed

section \<open>Properties\<close>

text \<open>
  C12. The \<open>printf\<close> of the user library writes, piece by piece to the standard output and with no other call, exactly the
  text the kernel's own \<open>printf\<close> sends for the same format and arguments, whatever the kernel answers to the writes; only
  the result differs (the number of conversions and plain characters, the same for every kernel).
\<close>

theorem user_printf_agrees:
  assumes "format_text (cstr fmt) ap = Some t"
  shows "\<exists>ws n. concat ws = t \<and> (\<forall>K (k :: 'k). uprintf K fmt ap k = ubnd (pieces K ws k) (\<lambda>_. Val n)) \<and>
    printf fmt ap s = Inr (int (length t), s\<lparr>tx := tx s @ crlf t\<rparr>)"
  using uprintf_loop_pieces [OF assms] assms by (fastforce simp: uprintf_def printf_spec)

definition log_kernel :: "ucall list kernel" where
  "log_kernel c k = Some (-1, [], k @ [c])"

theorem user_printf_agrees_witness:
  "\<exists>ws n. concat ws = cstr ''fd=-7: ok'' \<and>
    (\<forall>K (k :: ucall list). uprintf K ''fd=%d: %s'' [AVal (- 7), AStr (Some (cstr ''ok''))] k = ubnd (pieces K ws k) (\<lambda>_. Val n)) \<and>
    printf ''fd=%d: %s'' [AVal (- 7), AStr (Some (cstr ''ok''))] \<lparr>pmem = (\<lambda>_. 0), freelist = 0, tx = []\<rparr> =
      Inr (9, \<lparr>pmem = (\<lambda>_. 0), freelist = 0, tx = cstr ''fd=-7: ok''\<rparr>)"
proof -
  have f: "format_text (cstr ''fd=%d: %s'') [AVal (- 7), AStr (Some (cstr ''ok''))] = Some (cstr ''fd=-7: ok'')"
    by (simp add: text_simps decimal_text_def numeral_text_def low_digits.simps digit_char_def)
  have l: "length (cstr ''fd=-7: ok'') = 9" "crlf (cstr ''fd=-7: ok'') = cstr ''fd=-7: ok''" by (simp_all add: cstr_def crlf_def)
  show ?thesis using user_printf_agrees [OF f, of "\<lparr>pmem = (\<lambda>_. 0), freelist = 0, tx = []\<rparr>", where 'k = "ucall list"]
    unfolding l by simp
qed

text \<open>
  C13. The init program ends, and always with success: on any kernel whose calls return and whose files have an end, whatever
  the other results of the calls are, \<open>main\<close> runs all tests to their end, prints that all of them completed successfully and
  exits with status 0.
\<close>

theorem main_ends_with_success:
  assumes d: "dependable K left" and "length junk = 64"
  shows "\<exists>k1 k2 ws pre post. user_main K junk status k = ubnd (pieces K ws k1) (\<lambda>_. Exited 0) \<and>
    concat ws = pre @ cstr ''All Tests Completed Successfully!\<newline>'' @ post \<and> user_main K junk status k = Exited 0 k2"
proof -
  have "\<forall>m \<in> set summary. format_text (cstr m) [] = Some (cstr m)" by (simp add: char_consts summary_def)
  from says_pieces [OF this] obtain ws where ws: "concat ws = concat (map cstr summary)"
    "\<forall>K (k :: 'a). ufor summary (\<lambda>m. say K m []) k = pieces K ws k" by blast
  have b: "concat (map cstr summary) = cstr (summary ! 0 @ ''               '') @ cstr ''All Tests Completed Successfully!\<newline>'' @
      concat (map cstr (drop 2 summary))"
    by (simp add: summary_def cstr_def)
  obtain k1 where t: "user_tests K junk status k = Val () k1"
    using user_tests_run [OF assms, of status k] by (auto simp: yields_def)
  then have u: "user_main K junk status k = ubnd (pieces K ws k1) (\<lambda>_. Exited 0)" using ws(2) by (simp add: user_main_def)
  obtain k2 where "pieces K ws k1 = Val () k2" using yields_pieces [OF d, of ws k1] by (auto simp: yields_def)
  then have "user_main K junk status k = Exited 0 k2" using u by simp
  then show ?thesis using u ws(1) b by metis
qed

theorem main_ends_with_success_witness:
  "\<exists>k. user_main log_kernel (replicate 64 0) 0 [] = Exited 0 k"
proof -
  have "dependable log_kernel (\<lambda>_ _. 0)" by (simp add: dependable_def log_kernel_def)
  then show ?thesis using main_ends_with_success [of log_kernel "\<lambda>_ _. 0" "replicate 64 0" 0 "[]"] by auto
qed

end
