(* ===== verification/FsWrite.thy ===== *)
theory FsWrite
  imports FsFile
begin

text \<open>
  Writing files: the blocks a file owns, \<open>bmap\<close> with allocation, and \<open>writei\<close>, as changes of the
  abstract bytes of the file that leave every other block of the file system alone.
\<close>

section \<open>Changing a block that is held\<close>

context journal
begin

lemma room_held:
  assumes "room s (Suc k)" and "view t = c_ref n (view s)" and "free_slots t = free_slots s"
  shows "room t k"
proof -
  have p: "pinned (view t) = insert n (pinned (view s))" by (auto simp: assms(2) pinned_def)
  have "refs (view t) m + k < 2 ^ 32" for m
  proof -
    have "refs (view s) m + Suc k < 2 ^ 32" using assms(1) unfolding room_def by blast
    then show ?thesis by (auto simp: assms(2))
  qed
  moreover have "int k \<le> free_slots t" using assms(1,3) by (simp add: room_def)
  ultimately show ?thesis using roomD [OF assms(1), of n] by (simp add: room_def p)
qed

lemma edit_held:
  assumes ok: "ok s" and h: "holds s i n" and lg: "loggable s n" and d: "length d = BSIZE" and r: "room s (Suc k)"
  shows "get_data i s = content (view s) n \<and> (\<exists>s2 s3. log i (set_data i d s) = Inr ((), s2) \<and> brelse i s2 = Inr ((), s3) \<and> ok s3 \<and>
    view s3 = c_mark n True (c_set n d (c_unref n (view s))) \<and> frame s s3 \<and> room s3 k)"
proof -
  have ref: "get_data i s = content (view s) n" "refs (view s) n \<noteq> 0" using handle [OF ok h] by auto
  let ?v = "c_unref n (view s)" let ?t = "set_data i d s"
  have v: "view s = c_ref n ?v" using ref(2) by simp
  note T = set_law [OF ok h d]
  have "0 < free_slots ?t" "loggable ?t n" "holds ?t i n" using T r lg h frame_loggable by (auto simp: room_def)
  then obtain s2 where s2: "log i ?t = Inr ((), s2)" "ok s2" "view s2 = c_mark n True (view ?t)" "frame ?t s2"
    "free_slots ?t - 1 \<le> free_slots s2" "holds s2 = holds ?t"
    using log_law [OF conjunct1 [OF T]] by blast
  have v2: "view s2 = c_ref n (c_mark n True (c_set n d ?v))" using s2(3) T v by (metis c_commute)
  have h2: "holds s2 i n" using s2(6) T h by simp
  obtain s3 where s3: "brelse i s2 = Inr ((), s3)" "ok s3" "view s3 = c_mark n True (c_set n d ?v)" "frame s2 s3"
    "free_slots s3 = free_slots s2" using look_release [OF s2(2) h2 v2] by auto
  have "pinned (view s3) = pinned (view s)" using ref(2) by (auto simp: s3(3) pinned_def)
  moreover have "int k \<le> free_slots s3" using r s3(5) s2(5) T by (simp add: room_def)
  moreover have "refs (view s3) m + k < 2 ^ 32" for m
  proof -
    have "refs (view s) m + Suc k < 2 ^ 32" using r unfolding room_def by blast
    then show ?thesis by (auto simp: s3(3))
  qed
  ultimately have "room s3 k" using r by (simp add: room_def)
  moreover have "frame s s3" using T s2(4) s3(4) frame_trans by blast
  ultimately show ?thesis using ref(1) s2(1) s3(1-3) by blast
qed

end

section \<open>The blocks of a file\<close>

definition MAXFILE :: nat where "MAXFILE = NDIRECT + NINDIRECT"

text \<open>A block in use that holds data: it may be logged and is not a block of the bitmap.\<close>

definition data_block :: "'a fsst_scheme \<Rightarrow> u32 \<Rightarrow> bool" where
  "data_block s b \<longleftrightarrow> fs_block s b \<and> unat b < fs_size s \<and> block_used s (unat b) \<and>
     (\<forall>k < fs_size s. b \<noteq> BBLOCK (of_nat k) (fs_sb s))"

text \<open>The blocks of the file's contents, and at position \<open>MAXFILE\<close> the block of indirect addresses.\<close>

definition owned :: "'a fsst_scheme \<Rightarrow> nat \<Rightarrow> nat \<Rightarrow> u32" where
  "owned s i k = (if k = MAXFILE then d_addrs (icache s i) NDIRECT else file_addr s i k)"

text \<open>A file owns each of its blocks at one position only, and none of them holds its inode.\<close>

abbreviation inode_block :: "'a fsst_scheme \<Rightarrow> nat \<Rightarrow> u32" where
  "inode_block s i \<equiv> IBLOCK (i_inum (icache s i)) (fs_sb s)"

definition file_wf :: "'a fsst_scheme \<Rightarrow> nat \<Rightarrow> bool" where
  "file_wf s i \<longleftrightarrow> bitmap_ok s \<and> i_dev (icache s i) = 0 \<and> unat (d_size (icache s i)) \<le> MAXFILE * BSIZE \<and>
     data_block s (inode_block s i) \<and>
     (\<forall>k \<le> MAXFILE. owned s i k \<noteq> 0 \<longrightarrow> data_block s (owned s i k) \<and> owned s i k \<noteq> inode_block s i \<and>
        (\<forall>j \<le> MAXFILE. owned s i j = owned s i k \<longrightarrow> j = k))"

definition file_blocks :: "'a fsst_scheme \<Rightarrow> nat \<Rightarrow> u32 set" where
  "file_blocks s i = owned s i ` {..MAXFILE} - {0}"

definition free_blocks :: "'a fsst_scheme \<Rightarrow> nat set" where
  "free_blocks s = {n. n < fs_size s \<and> \<not> block_used s n}"

lemma file_wf_ok: "file_wf s i \<Longrightarrow> file_ok s i"
proof -
  assume w: "file_wf s i"
  have "usable (owned s i k)" if "k \<le> MAXFILE" "owned s i k \<noteq> 0" for k
    using w that by (simp add: file_wf_def data_block_def fs_block_def)
  note us = this
  have "d_addrs (icache s i) NDIRECT \<noteq> 0 \<Longrightarrow> usable (d_addrs (icache s i) NDIRECT)" using us [of MAXFILE] by (simp add: owned_def)
  moreover have "file_addr s i k \<noteq> 0 \<Longrightarrow> usable (file_addr s i k)" if "k < MAXFILE" for k using us [of k] that by (simp add: owned_def)
  ultimately show ?thesis using w by (simp add: file_ok_def file_wf_def MAXFILE_def)
qed

lemma owned_usable: "file_wf s i \<Longrightarrow> k \<le> MAXFILE \<Longrightarrow> owned s i k \<noteq> 0 \<Longrightarrow> data_block s (owned s i k) \<and> usable (owned s i k)"
  by (simp add: file_wf_def data_block_def fs_block_def)

text \<open>Everything but the blocks and the inode in slot \<open>i\<close> is the same.\<close>

definition slot_frame :: "nat \<Rightarrow> 'a fsst_scheme \<Rightarrow> 'a fsst_scheme \<Rightarrow> bool" where
  "slot_frame i s s' \<longleftrightarrow> fs_frame s (s'\<lparr>icache := icache s\<rparr>) \<and> (\<forall>j. j \<noteq> i \<longrightarrow> icache s' j = icache s j) \<and>
     (\<exists>a sz. icache s' i = (icache s i)\<lparr>d_addrs := a, d_size := sz\<rparr>)"

lemma inode_self: "\<exists>a sz. ip = ip\<lparr>d_addrs := a, d_size := sz\<rparr>" for ip :: inode
proof -
  have "ip = ip\<lparr>d_addrs := d_addrs ip, d_size := d_size ip\<rparr>" by (cases ip) simp
  then show ?thesis by blast
qed

lemma slot_frame_refl: "slot_frame i s s"
proof -
  have "s\<lparr>icache := icache s\<rparr> = s" by (cases s) simp
  then show ?thesis using inode_self [of "icache s i"] unfolding slot_frame_def by simp
qed

lemma slot_frame_fs: "fs_frame s s' \<Longrightarrow> slot_frame i s s'" for s s' :: "'a fsst_scheme"
proof -
  assume f: "fs_frame s s'"
  then have ic: "icache s' = icache s" using fs_frame_fs by blast
  then have "s'\<lparr>icache := icache s\<rparr> = s'" by (cases s') simp
  then show ?thesis using f ic inode_self [of "icache s i"] unfolding slot_frame_def by metis
qed

lemma slot_frame_upd:
  "f (icache s i) = (icache s i)\<lparr>d_addrs := a, d_size := sz\<rparr> \<Longrightarrow> slot_frame i s (upd_inode i f s)"
  by (cases s) (auto simp: slot_frame_def upd_inode_def fs_frame_def)

lemma slot_frame_trans:
  assumes "slot_frame i s s'" and "slot_frame i s' s''"
  shows "slot_frame i s s''"
proof -
  have "fs_frame s (s''\<lparr>icache := icache s\<rparr>)"
    using assms by (cases s; cases s'; cases s''; simp add: slot_frame_def fs_frame_def)
  moreover have "\<exists>a sz. icache s'' i = (icache s i)\<lparr>d_addrs := a, d_size := sz\<rparr>"
  proof -
    obtain a sz b sy where "icache s' i = (icache s i)\<lparr>d_addrs := a, d_size := sz\<rparr>" "icache s'' i = (icache s' i)\<lparr>d_addrs := b, d_size := sy\<rparr>"
      using assms unfolding slot_frame_def by blast
    then have "icache s'' i = (icache s i)\<lparr>d_addrs := b, d_size := sy\<rparr>" by simp
    then show ?thesis by blast
  qed
  ultimately show ?thesis using assms unfolding slot_frame_def by metis
qed

lemma slot_frameD:
  assumes "slot_frame i s s'"
  shows "fs_sb s' = fs_sb s" "lg_start s' = lg_start s" "fs_size s' = fs_size s" "fs_block s' b = fs_block s b"
    "inode_block s' i = inode_block s i" "i_dev (icache s' j) = i_dev (icache s j)" "i_ref (icache s' j) = i_ref (icache s j)"
    "i_inum (icache s' j) = i_inum (icache s j)" "i_valid (icache s' j) = i_valid (icache s j)"
    "d_type (icache s' j) = d_type (icache s j)" "fsst.more s' = fsst.more s" "pmem s' = pmem s"
proof -
  let ?t = "s'\<lparr>icache := icache s\<rparr>"
  have f: "fs_frame s ?t" and ic: "\<exists>a sz. icache s' i = (icache s i)\<lparr>d_addrs := a, d_size := sz\<rparr>" "\<forall>j. j \<noteq> i \<longrightarrow> icache s' j = icache s j"
    using assms by (simp_all add: slot_frame_def)
  have "fs_sb ?t = fs_sb s" using fs_frame_fs [OF f] by simp
  then show sb: "fs_sb s' = fs_sb s" by simp
  show lg: "lg_start s' = lg_start s" using fs_frameD(1) [OF f] by simp
  show "fs_size s' = fs_size s" "fs_block s' b = fs_block s b" using sb lg by (simp_all add: fs_size_def fs_block_def)
  show "inode_block s' i = inode_block s i" using ic(1) sb by auto
  show "i_dev (icache s' j) = i_dev (icache s j)" "i_ref (icache s' j) = i_ref (icache s j)" "i_inum (icache s' j) = i_inum (icache s j)"
    "i_valid (icache s' j) = i_valid (icache s j)" "d_type (icache s' j) = d_type (icache s j)"
    using ic by (cases "j = i"; auto)+
  show "fsst.more s' = fsst.more s" "pmem s' = pmem s" using f by (cases s; cases s'; simp add: fs_frame_def)+
qed

text \<open>
  A file has grown: only its own blocks, free blocks, the bitmap and the blocks \<open>X\<close> (the one of the file's inode, when
  that is written) have changed.
\<close>

definition grown :: "u32 set \<Rightarrow> nat \<Rightarrow> 'a fsst_scheme \<Rightarrow> 'a fsst_scheme \<Rightarrow> bool" where
  "grown X i s s' \<longleftrightarrow> in_trans s' \<and> slot_frame i s s' \<and> file_wf s' i \<and>
     refs (cview s') = refs (cview s) \<and> medium (cview s') = medium (cview s) \<and>
     (\<forall>k \<le> MAXFILE. owned s' i k = owned s i k \<or> owned s i k = 0 \<and> unat (owned s' i k) \<in> free_blocks s) \<and>
     (\<forall>n < fs_size s. block_used s n \<longrightarrow> block_used s' n) \<and>
     (\<forall>b. data_block s b \<longrightarrow> b \<notin> file_blocks s i \<longrightarrow> b \<notin> X \<longrightarrow> disk s' b = disk s b)"

lemma grown_refl: "in_trans s \<Longrightarrow> file_wf s i \<Longrightarrow> grown X i s s"
  by (simp add: grown_def slot_frame_refl)

lemma grown_mono: "grown X i s s' \<Longrightarrow> X \<subseteq> Y \<Longrightarrow> grown Y i s s'"
  by (auto simp: grown_def)

lemma data_block_mono:
  assumes "slot_frame i s s'" and "\<forall>n < fs_size s. block_used s n \<longrightarrow> block_used s' n" and "data_block s b"
  shows "data_block s' b"
  using assms slot_frameD(1,3,4) [OF assms(1)] by (simp add: data_block_def)

lemma file_blocks_grown:
  assumes "grown X i s s'" and "data_block s b" and "b \<notin> file_blocks s i"
  shows "b \<notin> file_blocks s' i"
proof
  assume "b \<in> file_blocks s' i"
  then obtain k where k: "k \<le> MAXFILE" "owned s' i k = b" "b \<noteq> 0" by (auto simp: file_blocks_def)
  then have "owned s i k = b \<or> unat b \<in> free_blocks s" using assms(1) by (auto simp: grown_def)
  then show False using k assms(2,3) by (auto simp: free_blocks_def data_block_def file_blocks_def)
qed

lemma grown_trans:
  assumes g: "grown X i s s'" and h: "grown X i s' s''"
  shows "grown X i s s''"
proof -
  have f: "slot_frame i s s'" and u: "\<forall>n < fs_size s. block_used s n \<longrightarrow> block_used s' n" using g by (simp_all add: grown_def)
  note F = slot_frameD [OF f]
  have fr: "free_blocks s' \<subseteq> free_blocks s" using u F(3) by (auto simp: free_blocks_def)
  have own: "owned s'' i k = owned s i k \<or> owned s i k = 0 \<and> unat (owned s'' i k) \<in> free_blocks s" if "k \<le> MAXFILE" for k
  proof (cases "owned s'' i k = owned s' i k")
    case True
    then show ?thesis using g that by (simp add: grown_def)
  next
    case False
    then have 1: "owned s' i k = 0" "unat (owned s'' i k) \<in> free_blocks s" using h that fr unfolding grown_def by blast+
    have "owned s' i k = owned s i k \<or> owned s i k = 0" using g that unfolding grown_def by blast
    then show ?thesis using 1 by auto
  qed
  have "disk s'' b = disk s b" if b: "data_block s b" "b \<notin> file_blocks s i" "b \<notin> X" for b
  proof -
    have "disk s' b = disk s b" using g b by (simp add: grown_def)
    moreover have "disk s'' b = disk s' b"
      using h data_block_mono [OF f u b(1)] file_blocks_grown [OF g b(1,2)] b(3) unfolding grown_def by metis
    ultimately show ?thesis by simp
  qed
  moreover have "slot_frame i s s''" using g h slot_frame_trans unfolding grown_def by blast
  moreover have "\<forall>n < fs_size s. block_used s n \<longrightarrow> block_used s'' n" using u h F(3) by (simp add: grown_def)
  ultimately show ?thesis using g h own unfolding grown_def by simp
qed

section \<open>Adding a block to a file\<close>

lemma allocated_data:
  fixes s :: "'a fsst_scheme"
  assumes a: "allocated s n s'" and bok: "bitmap_ok s" and tr: "in_trans s"
  shows "slot_frame i s s'" "icache s' = icache s" "in_trans s'" "n \<in> free_blocks s" "unat (of_nat n :: u32) = n"
    "usable (of_nat n)" "disk s' (of_nat n) = replicate BSIZE 0" "data_block s b \<Longrightarrow> disk s' b = disk s b \<and> b \<noteq> of_nat n"
    "m < fs_size s \<Longrightarrow> block_used s' m \<longleftrightarrow> m = n \<or> block_used s m" "bitmap_ok s'"
proof -
  have f: "fs_frame s s'" "in_trans s'" "n < fs_size s" "\<not> block_used s n" using a by (simp_all add: allocated_def)
  then show "slot_frame i s s'" "icache s' = icache s" "in_trans s'" "n \<in> free_blocks s"
    using slot_frame_fs [OF f(1)] fs_frame_fs [OF f(1)] by (simp_all add: free_blocks_def)
  show un: "unat (of_nat n :: u32) = n" using f(3) fs_size_bound [of s] by (simp add: unat_of_nat_small)
  show us: "usable (of_nat n)" using bok f(3,4) by (simp add: bitmap_ok_def fs_block_def)
  show "disk s' (of_nat n) = replicate BSIZE 0" using a by (simp add: allocated_def)
  show "data_block s b \<Longrightarrow> disk s' b = disk s b \<and> b \<noteq> of_nat n"
    using a f(3,4) un by (auto simp: allocated_def data_block_def)
  show "m < fs_size s \<Longrightarrow> block_used s' m \<longleftrightarrow> m = n \<or> block_used s m" by (rule allocated_used [OF a bok _ in_trans_bc [OF tr]])
  show "bitmap_ok s'" by (rule allocated_bitmap_ok [OF a bok in_trans_bc [OF tr]])
qed

lemma file_byte_owned: "p < MAXFILE * BSIZE \<Longrightarrow>
    file_byte s i p = (let a = owned s i (p div BSIZE) in if a = 0 then 0 else disk s a ! (p mod BSIZE)) \<and> p div BSIZE < MAXFILE"
  using less_mult_imp_div_less [of p MAXFILE BSIZE] by (simp add: file_byte_def owned_def)

lemma block_added:
  fixes s :: "'a fsst_scheme"
  assumes W: "file_wf s i" and tr: "in_trans s'" and n: "n \<in> free_blocks s" and f: "slot_frame i s s'"
    and v: "refs (cview s') = refs (cview s)" "medium (cview s') = medium (cview s)"
    and used: "\<And>m. m < fs_size s \<Longrightarrow> block_used s' m \<longleftrightarrow> m = n \<or> block_used s m"
    and sz: "d_size (icache s' i) = d_size (icache s i)"
    and zero: "disk s' (of_nat n) = replicate BSIZE 0"
    and same: "\<And>b. data_block s b \<Longrightarrow> b \<noteq> owned s i MAXFILE \<Longrightarrow> disk s' b = disk s b"
    and own: "\<And>j. j \<le> MAXFILE \<Longrightarrow> owned s' i j = (if j = k then of_nat n else owned s i j)"
    and k: "k \<le> MAXFILE" "owned s i k = 0"
  shows "grown {} i s s'" "p < MAXFILE * BSIZE \<Longrightarrow> file_byte s' i p = file_byte s i p"
    "card (free_blocks s) = Suc (card (free_blocks s'))"
proof -
  note F = slot_frameD [OF f]
  have bok: "bitmap_ok s" and n': "n < fs_size s" "\<not> block_used s n" using W n by (simp_all add: file_wf_def free_blocks_def)
  have un: "unat (of_nat n :: u32) = n" using n' fs_size_bound [of s] by (simp add: unat_of_nat_small)
  have us: "fs_block s (of_nat n)" "\<forall>m < fs_size s. of_nat n \<noteq> BBLOCK (of_nat m) (fs_sb s)"
    using bok n' by (simp_all add: bitmap_ok_def)
  have mono: "data_block s b \<Longrightarrow> data_block s' b" for b using data_block_mono [OF f] used by blast
  have new: "data_block s' (of_nat n)" using us n' used un F by (simp add: data_block_def)
  have nd: "\<not> data_block s (of_nat n)" using n' un by (simp add: data_block_def)
  have bok': "bitmap_ok s'" using bok used F by (simp add: bitmap_ok_def)
  have W': "file_wf s' i"
    unfolding file_wf_def F(5,6) sz
  proof (intro conjI allI impI bok')
    show "i_dev (icache s i) = 0" "unat (d_size (icache s i)) \<le> MAXFILE * BSIZE" using W by (simp_all add: file_wf_def)
    show "data_block s' (inode_block s i)" using W mono by (simp add: file_wf_def)
    fix j assume j: "j \<le> MAXFILE" "owned s' i j \<noteq> 0"
    have old: "data_block s (owned s i l) \<and> owned s i l \<noteq> inode_block s i" if "l \<le> MAXFILE" "owned s i l \<noteq> 0" for l
      using W that by (simp add: file_wf_def)
    show "data_block s' (owned s' i j)" using new old mono own j by (simp split: if_splits)
    show "owned s' i j \<noteq> inode_block s i" using old nd W own j by (auto simp: file_wf_def split: if_splits)
    show "l = j" if l: "l \<le> MAXFILE" "owned s' i l = owned s' i j" for l
    proof (cases "l = k \<or> j = k")
      case True
      then show ?thesis using l j own old nd by (metis (full_types))
    next
      case False
      then show ?thesis using W l j own unfolding file_wf_def by metis
    qed
  qed
  have "disk s' b = disk s b" if "data_block s b" "b \<notin> file_blocks s i" for b
  proof (rule same [OF that(1)])
    have "b \<noteq> 0" using that(1) by (auto simp: data_block_def fs_block_def usable_def)
    then show "b \<noteq> owned s i MAXFILE" using that(2) by (auto simp: file_blocks_def)
  qed
  then show "grown {} i s s'" using tr f W' v own k n used un by (auto simp: grown_def)
  show "file_byte s' i p = file_byte s i p" if p: "p < MAXFILE * BSIZE"
  proof -
    let ?j = "p div BSIZE"
    have j: "?j < MAXFILE" using file_byte_owned [OF p] by blast
    have z: "replicate BSIZE 0 ! (p mod BSIZE) = (0 :: u8)" by (simp add: BSIZE_def)
    have "disk s' (owned s i ?j) = disk s (owned s i ?j)" if nz: "owned s i ?j \<noteq> 0"
    proof (rule same)
      show "data_block s (owned s i ?j)" using W j nz by (simp add: file_wf_def)
      show "owned s i ?j \<noteq> owned s i MAXFILE"
      proof
        assume e: "owned s i ?j = owned s i MAXFILE"
        have "\<forall>l \<le> MAXFILE. owned s i l = owned s i ?j \<longrightarrow> l = ?j" using W j nz unfolding file_wf_def by (meson less_imp_le)
        then show False using e j by auto
      qed
    qed
    then show ?thesis using file_byte_owned [OF p, of s i] file_byte_owned [OF p, of s' i] own [of ?j] j k(2) z zero by (auto simp: Let_def)
  qed
  have "finite (free_blocks s)" by (simp add: free_blocks_def)
  moreover have "free_blocks s' = free_blocks s - {n}" using used F(3) by (auto simp: free_blocks_def)
  ultimately show "card (free_blocks s) = Suc (card (free_blocks s'))" using card.remove [OF _ n] by simp
qed

section \<open>bmap with allocation\<close>

text \<open>The file has at most \<open>c\<close> blocks more, and reads the same.\<close>

definition extended :: "nat \<Rightarrow> nat \<Rightarrow> 'a fsst_scheme \<Rightarrow> 'a fsst_scheme \<Rightarrow> bool" where
  "extended c i s s' \<longleftrightarrow> grown {} i s s' \<and> d_size (icache s' i) = d_size (icache s i) \<and>
     (\<forall>p < MAXFILE * BSIZE. file_byte s' i p = file_byte s i p) \<and> card (free_blocks s) \<le> card (free_blocks s') + c"

lemma extended_trans: "extended c i s s' \<Longrightarrow> extended d i s' s'' \<Longrightarrow> extended (c + d) i s s''"
  by (auto simp: extended_def intro: grown_trans)

lemma extendedD: "extended c i s s' \<Longrightarrow> in_trans s' \<and> file_wf s' i \<and> card (free_blocks s) \<le> card (free_blocks s') + c"
  by (simp add: extended_def grown_def)

text \<open>The same contents and the same inodes: the same file.\<close>

lemma same_file:
  fixes s :: "'a fsst_scheme"
  assumes f: "fs_frame s s'" and d: "disk s' = disk s"
  shows "owned s' i = owned s i" "file_byte s' i = file_byte s i" "block_used s' = block_used s" "data_block s' = data_block s"
    "file_wf s' i = file_wf s i" "bitmap_ok s' = bitmap_ok s" "free_blocks s' = free_blocks s" "fs_size s' = fs_size s"
    "inode_block s' i = inode_block s i" "file_blocks s' i = file_blocks s i"
proof -
  have ic: "icache s' = icache s" and sb: "fs_sb s' = fs_sb s" using fs_frame_fs [OF f] by simp_all
  have lg: "lg_start s' = lg_start s" using fs_frameD [OF f] by simp
  show sz: "fs_size s' = fs_size s" by (simp add: fs_size_def sb)
  show ib: "inode_block s' i = inode_block s i" by (simp add: ic sb)
  have fb: "fs_block s' = fs_block s" by (simp add: fs_block_def fun_eq_iff lg)
  show o: "owned s' i = owned s i" by (simp add: owned_def file_addr_def ic d fun_eq_iff Let_def)
  then show "file_blocks s' i = file_blocks s i" by (simp add: file_blocks_def)
  show "file_byte s' i = file_byte s i" by (simp add: file_byte_def file_addr_def ic d fun_eq_iff Let_def)
  show u: "block_used s' = block_used s" by (simp add: block_used_def fun_eq_iff sb d)
  show b: "bitmap_ok s' = bitmap_ok s" by (simp add: bitmap_ok_def u fb sz sb)
  show D: "data_block s' = data_block s" by (simp add: data_block_def fun_eq_iff fb sz u sb)
  show "file_wf s' i = file_wf s i" by (simp add: file_wf_def b D o ic ib sb)
  show "free_blocks s' = free_blocks s" by (simp add: free_blocks_def u sz)
qed

lemma extended_same:
  fixes s :: "'a fsst_scheme"
  assumes f: "fs_frame s s'" and v: "cview s' = cview s" and "in_trans s'" and W: "file_wf s i"
  shows "extended 0 i s s'"
proof -
  have d: "disk s' = disk s" by (simp add: v)
  note S = same_file [OF f d]
  have "icache s' = icache s" using fs_frame_fs [OF f] by simp
  then show ?thesis using assms slot_frame_fs [OF f] by (simp add: extended_def grown_def S)
qed

text \<open>The address in place \<open>k\<close> of the inode, allocated if there is none.\<close>

definition get_addr :: "('a fsst_scheme) device \<Rightarrow> nat \<Rightarrow> nat \<Rightarrow> 'a fsst_scheme \<Rightarrow> (u32, 'a fsst_scheme) outcome" where
  "get_addr hw i k s = (if d_addrs (icache s i) k = 0
     then bnd (balloc hw (i_dev (icache s i)) s) (\<lambda>addr s. ret addr (upd_inode i (\<lambda>ip. ip\<lparr>d_addrs := (d_addrs ip)(k := addr)\<rparr>) s))
     else ret (d_addrs (icache s i) k) s)"

lemma inode_addr:
  fixes s :: "'a fsst_scheme"
  assumes hw: "virtio_blk hw" and tr: "in_trans s" and W: "file_wf s i" and rm: "jr.room s (Suc (Suc r))"
    and k: "k \<le> NDIRECT" and free: "free_blocks s \<noteq> {}"
  defines "pos \<equiv> (if k = NDIRECT then MAXFILE else k)"
  shows "\<exists>a s'. get_addr hw i k s = Inr (a, s') \<and> extended 1 i s s' \<and> a = owned s' i pos \<and> a \<noteq> 0 \<and> d_addrs (icache s' i) k = a \<and> jr.room s' r"
proof -
  have pos: "pos \<le> MAXFILE" "owned t i pos = d_addrs (icache t i) k" for t :: "'a fsst_scheme"
    using k by (auto simp: pos_def owned_def file_addr_def MAXFILE_def NINDIRECT_def BSIZE_def)
  show ?thesis
  proof (cases "d_addrs (icache s i) k = 0")
    case False
    have "extended 0 i s s" using extended_same [OF fs_frame_refl refl tr W] .
    then have "extended 1 i s s" by (simp add: extended_def)
    then show ?thesis using False pos(2) [of s] jr.room_le [OF rm, of r] by (auto simp: get_addr_def ret_def)
  next
    case True
    have bok: "bitmap_ok s" and dev: "i_dev (icache s i) = 0" using W by (simp_all add: file_wf_def)
    have "\<not> all_used_below s (fs_size s)" using free by (auto simp: all_used_below_def free_blocks_def)
    then obtain n s1 where n: "balloc hw 0 s = Inr (of_nat n, s1)" "allocated s n s1" "jr.room s1 r"
      using balloc_spec [OF hw tr bok rm] by auto
    note A = allocated_data [OF n(2) bok tr]
    let ?f = "\<lambda>ip. ip\<lparr>d_addrs := (d_addrs ip)(k := of_nat n)\<rparr>" let ?t = "upd_inode i ?f s1"
    have fr: "slot_frame i s ?t"
    proof (rule slot_frame_trans [OF A(1)], rule slot_frame_upd)
      show "?f (icache s1 i) = (icache s1 i)\<lparr>d_addrs := (d_addrs (icache s1 i))(k := of_nat n), d_size := d_size (icache s1 i)\<rparr>"
        by (cases "icache s1 i") simp
    qed
    have nz: "of_nat n \<noteq> (0 :: u32)" using A(6) by (simp add: usable_def)
    have own: "owned ?t i j = (if j = pos then of_nat n else owned s i j)" if j: "j \<le> MAXFILE" for j
    proof (cases "j < NDIRECT \<or> j = MAXFILE")
      case True
      then show ?thesis using k A(2) by (auto simp: owned_def file_addr_def pos_def MAXFILE_def NINDIRECT_def BSIZE_def)
    next
      case False
      then have ne: "j \<noteq> pos" "j < MAXFILE" using j k by (auto simp: pos_def)
      have ad: "file_addr ?t i j = file_addr s i j"
      proof (cases "k = NDIRECT")
        case kn: True
        have e: "get32 (4 * (j - NDIRECT)) (replicate BSIZE (0 :: u8)) = 0" if "j < MAXFILE"
          by (rule get_field_zeros) (use that False in \<open>simp add: MAXFILE_def NDIRECT_def NINDIRECT_def BSIZE_def\<close>)
        show ?thesis using False kn nz \<open>d_addrs (icache s i) k = 0\<close> A(7) e [OF ne(2)] by (simp add: file_addr_def)
      next
        case kn: False
        have "disk s1 (d_addrs (icache s i) NDIRECT) = disk s (d_addrs (icache s i) NDIRECT)" if "d_addrs (icache s i) NDIRECT \<noteq> 0"
          using A(8) owned_usable [OF W, of MAXFILE] that by (simp add: owned_def)
        then show ?thesis using False kn A(2) by (simp add: file_addr_def)
      qed
      then show ?thesis using ne by (simp add: owned_def)
    qed
    have "block_used ?t m = block_used s1 m" for m by (simp add: block_used_def)
    then have used: "block_used ?t m \<longleftrightarrow> m = n \<or> block_used s m" if "m < fs_size s" for m using A(9) [OF that] by simp
    have v: "refs (cview ?t) = refs (cview s)" "medium (cview ?t) = medium (cview s)" using n(2) by (simp_all add: allocated_def)
    have z: "owned s i pos = 0" using True pos(2) by simp
    note B = block_added [OF W _ A(4) fr v used _ _ _ own pos(1) z]
    have sz: "in_trans ?t" "d_size (icache ?t i) = d_size (icache s i)" "disk ?t (of_nat n) = replicate BSIZE 0" using A by simp_all
    have same: "disk ?t b = disk s b" if "data_block s b" for b using A(8) [OF that] by simp
    have "extended 1 i s ?t" using B(1) [OF sz(1) _ sz(2,3)] B(2) [OF sz(1) _ sz(2,3)] B(3) [OF sz(1) _ sz(2,3)] same sz(2)
      by (simp add: extended_def)
    then show ?thesis using True n dev nz own pos(1) by (auto simp: get_addr_def ret_def)
  qed
qed

text \<open>The entry of a position in the block of indirect addresses, replaced.\<close>

lemma put_entry:
  assumes l: "length d = BSIZE" and k: "k < NINDIRECT" and j: "j < NINDIRECT"
  shows "get32 (4 * j) (put32 (4 * k) a d) = (if j = k then a else get32 (4 * j) d)" "length (put32 (4 * k) a d) = BSIZE"
proof -
  have b: "4 * k + 4 \<le> length d" using k l by (simp add: NINDIRECT_def BSIZE_def)
  show "length (put32 (4 * k) a d) = BSIZE" using b l by simp
  show "get32 (4 * j) (put32 (4 * k) a d) = (if j = k then a else get32 (4 * j) d)"
  proof (cases "j = k")
    case True
    then show ?thesis using get_put_field [OF b, of a] by simp
  next
    case False
    then have "4 * j + 4 \<le> 4 * k \<or> 4 * k + 4 \<le> 4 * j" by linarith
    then show ?thesis using False get_put_field_other [OF b] by simp
  qed
qed

text \<open>An address stored in the block of indirect addresses \<open>ind\<close>, which the caller holds.\<close>

lemma indirect_added:
  fixes s :: "'a fsst_scheme" and hw :: "('a fsst_scheme) device"
  assumes hw: "virtio_blk hw" and W: "file_wf s i" and tr: "in_trans s"
    and ind: "ind = owned s i MAXFILE" "ind \<noteq> 0" and k: "k < NINDIRECT" and z: "get32 (4 * k) (disk s ind) = 0"
    and h: "in_trans s1" "holds s1 bp ind" "cview s1 = c_ref ind (cview s)" "fs_frame s s1"
    and a: "allocated s1 n s2" and rm: "jr.room s2 (Suc r)"
  shows "\<exists>s3 s4. log_write bp (set_buf_data bp (put32 (4 * k) (of_nat n) (b_data (bufs s2 bp))) s2) = Inr ((), s3) \<and>
    brelse bp s3 = Inr ((), s4) \<and> extended 1 i s s4 \<and> owned s4 i (NDIRECT + k) = of_nat n \<and> of_nat n \<noteq> (0 :: u32) \<and> jr.room s4 r"
proof -
  have d1: "disk s1 = disk s" by (simp add: h(3))
  note S = same_file [OF h(4) d1]
  have bok: "bitmap_ok s1" using W by (simp add: file_wf_def S)
  note A = allocated_data [OF a bok h(1)]
  have db: "data_block s ind" and us: "usable ind" using owned_usable [OF W, of MAXFILE] ind by simp_all
  have D: "disk s2 ind = disk s ind" using A(8) db d1 S(4) by simp
  have len: "length (disk s ind) = BSIZE" by (rule content_length [OF in_trans_bc [OF tr] us])
  let ?d = "put32 (4 * k) (of_nat n) (disk s ind)"
  have h2: "holds s2 bp ind" using a h(2) by (simp add: allocated_def)
  have ok: "virtio_blk hw \<and> in_trans s2" using hw A(3) by simp
  have f2: "fs_frame s1 s2" using a by (simp add: allocated_def)
  have lg: "ind \<notin> log_area (lg_start s2)"
    using db fs_frameD(1) [OF f2] fs_frameD(1) [OF h(4)] by (simp add: data_block_def fs_block_def)
  have gd: "b_data (bufs s2 bp) = disk s ind" using jr.handle [OF ok h2] D by simp
  from jr.edit_held [OF ok h2 lg put_entry(2) [OF len k k, of "of_nat n"] rm] obtain s3 s4 where
    e: "log_write bp (set_buf_data bp ?d s2) = Inr ((), s3)" "brelse bp s3 = Inr ((), s4)" "in_trans s4" "fs_frame s2 s4"
      "cview s4 = c_mark ind True (c_set ind ?d (c_unref ind (cview s2)))" "jr.room s4 r" by blast
  have f: "fs_frame s s4" using fs_frame_trans [OF fs_frame_trans [OF h(4) f2] e(4)] .
  have ic: "icache s4 = icache s" and sb: "fs_sb s4 = fs_sb s" using fs_frame_fs [OF f] by simp_all
  have dk: "disk s4 b = (if b = ind then ?d else disk s2 b)" for b by (simp add: e(5))
  have ne: "of_nat n \<noteq> ind" using A(8) [of ind] db by (auto simp: S)
  have nz: "of_nat n \<noteq> (0 :: u32)" using A(6) by (simp add: usable_def)
  have dir: "d_addrs (icache s i) NDIRECT = ind" using ind by (simp add: owned_def)
  have own: "owned s4 i j = (if j = NDIRECT + k then of_nat n else owned s i j)" if j: "j \<le> MAXFILE" for j
  proof (cases "j < NDIRECT \<or> j = MAXFILE")
    case True
    then show ?thesis using k by (auto simp: owned_def file_addr_def ic MAXFILE_def NINDIRECT_def BSIZE_def NDIRECT_def)
  next
    case False
    then have "j - NDIRECT < NINDIRECT" using j by (auto simp: MAXFILE_def)
    from put_entry(1) [OF len k this] show ?thesis using False ind(2)
      by (auto simp: owned_def file_addr_def ic dir dk)
  qed
  have bb: "ind \<noteq> BBLOCK (of_nat m) (fs_sb s)" if "m < fs_size s" for m using db that by (simp add: data_block_def)
  have sb2: "fs_sb s2 = fs_sb s" using fs_frame_fs [OF f2] fs_frame_fs [OF h(4)] by simp
  have used: "block_used s4 m \<longleftrightarrow> m = n \<or> block_used s m" if m: "m < fs_size s" for m
  proof -
    have "block_used s4 m = block_used s2 m" using bb [OF m] unfolding block_used_def dk by (simp add: sb sb2)
    then show ?thesis using A(9) [of m] m by (simp add: S)
  qed
  have v: "refs (cview s4) = refs (cview s)" "medium (cview s4) = medium (cview s)"
    using a by (auto simp: e(5) allocated_def h(3) fun_eq_iff)
  have zero: "disk s4 (of_nat n) = replicate BSIZE 0" using A(7) ne by (simp add: dk)
  have same: "disk s4 b = disk s b" if "data_block s b" "b \<noteq> owned s i MAXFILE" for b
    using A(8) [of b] that by (simp add: dk S ind d1)
  have kk: "NDIRECT + k \<le> MAXFILE" "owned s i (NDIRECT + k) = 0"
    using k z ind(2) by (simp_all add: MAXFILE_def owned_def file_addr_def dir)
  have nf: "n \<in> free_blocks s" using A(4) by (simp add: S)
  note B = block_added [OF W e(3) nf slot_frame_fs [OF f] v used _ zero same own kk]
  have "extended 1 i s s4" using B by (simp add: extended_def ic)
  then show ?thesis using e(1,2,6) own [OF kk(1)] nz unfolding gd by auto
qed

lemma bmap_allocates:
  fixes s :: "'a fsst_scheme"
  assumes hw: "virtio_blk hw" and tr: "in_trans s" and W: "file_wf s i" and rm: "jr.room s (r + 6)"
    and n: "unat bn < MAXFILE" and free: "2 \<le> card (free_blocks s)"
  shows "\<exists>s'. bmap hw i bn True s = Inr (owned s' i (unat bn), s') \<and> extended 2 i s s' \<and> owned s' i (unat bn) \<noteq> 0 \<and> jr.room s' r"
proof -
  have fr: "free_blocks s \<noteq> {}" using free by auto
  have rm': "jr.room s (Suc (Suc (r + 4)))" by (rule jr.room_le [OF rm]) simp
  note A = inode_addr [OF hw tr W rm' _ fr]
  show ?thesis
  proof (cases "unat bn < NDIRECT")
    case True
    then obtain a s1 where 1: "get_addr hw i (unat bn) s = Inr (a, s1)" "extended 1 i s s1" "a = owned s1 i (unat bn)" "a \<noteq> 0" "jr.room s1 (r + 4)"
      using A [of "unat bn"] by auto
    have "bmap hw i bn True s = Inr (a, s1)" using True 1(1) by (simp add: bmap_def Let_def get_addr_def)
    moreover have "extended 2 i s s1" using 1(2) by (simp add: extended_def)
    ultimately show ?thesis using 1(3,4) jr.room_le [OF 1(5), of r] by auto
  next
    case False
    let ?k = "unat bn - NDIRECT"
    have k: "?k < NINDIRECT" "NDIRECT + ?k = unat bn" using False n by (simp_all add: MAXFILE_def)
    obtain ind s1 where 1: "get_addr hw i NDIRECT s = Inr (ind, s1)" "extended 1 i s s1" "ind = owned s1 i MAXFILE" "ind \<noteq> 0"
      "d_addrs (icache s1 i) NDIRECT = ind" "jr.room s1 (r + 4)"
      using A [OF le_refl, unfolded if_P [OF refl]] by blast
    have tr1: "in_trans s1" and W1: "file_wf s1 i" and fr1: "free_blocks s1 \<noteq> {}" using extendedD [OF 1(2)] free by auto
    have dev: "i_dev (icache s1 i) = 0" using W1 by (simp add: file_wf_def)
    have us: "usable ind" using owned_usable [OF W1, of MAXFILE] 1(3,4) by simp
    have ok1: "virtio_blk hw \<and> in_trans s1" using hw tr1 by simp
    have rm1: "jr.room s1 (Suc (r + 3))" by (rule jr.room_le [OF 1(6)]) simp
    obtain bp s2 where 2: "bread hw 0 ind s1 = Inr (bp, s2)" "in_trans s2" "holds s2 bp ind" "b_data (bufs s2 bp) = disk s1 ind"
      "cview s2 = c_ref ind (cview s1)" "fs_frame s1 s2" "log_slots s2 = log_slots s1" using jr.look_read [OF ok1 us rm1] by blast
    have d2: "disk s2 = disk s1" by (simp add: 2(5))
    have step: "bmap hw i bn True s = bnd (if get32 (4 * ?k) (disk s1 ind) = 0 then
        bnd (balloc hw 0 s2) (\<lambda>addr s.
        bnd (log_write bp (set_buf_data bp (put32 (4 * ?k) addr (b_data (bufs s bp))) s)) (\<lambda>_. ret addr))
        else ret (get32 (4 * ?k) (disk s1 ind)) s2) (\<lambda>addr s. bnd (brelse bp s) (\<lambda>_. ret addr))"
    proof -
      have "bmap hw i bn True s = bnd (get_addr hw i NDIRECT s) (\<lambda>addr s.
           bnd (bread hw (i_dev (icache s i)) addr s) (\<lambda>bp s.
           bnd (if get32 (4 * ?k) (b_data (bufs s bp)) = 0 then
                  bnd (balloc hw (i_dev (icache s i)) s) (\<lambda>addr s.
                  bnd (log_write bp (set_buf_data bp (put32 (4 * ?k) addr (b_data (bufs s bp))) s)) (\<lambda>_.
                  ret addr))
                else ret (get32 (4 * ?k) (b_data (bufs s bp))) s) (\<lambda>addr s.
           bnd (brelse bp s) (\<lambda>_. ret addr))))"
        using False k(1) by (simp add: bmap_def Let_def get_addr_def [abs_def])
      then show ?thesis by (simp only: 1(1) bnd_Inr dev 2(1,4) fs_frame_fs [OF 2(6)])
    qed
    show ?thesis
    proof (cases "get32 (4 * ?k) (disk s1 ind) = 0")
      case nz: False
      have ok2: "virtio_blk hw \<and> in_trans s2" using hw 2(2) by simp
      obtain s3 where 3: "brelse bp s2 = Inr ((), s3)" "in_trans s3" "cview s3 = cview s1" "fs_frame s2 s3" "log_slots s3 = log_slots s2"
        using jr.look_release [OF ok2 2(3,5) jr.coherent [OF ok1]] by blast
      have f: "fs_frame s1 s3" by (rule fs_frame_trans [OF 2(6) 3(4)])
      have E: "extended 0 i s1 s3" by (rule extended_same [OF f 3(3,2) W1])
      have d: "disk s3 = disk s1" by (simp add: 3(3))
      have "owned s3 i (unat bn) = get32 (4 * ?k) (disk s1 ind)"
        using False n 1(4,5) by (simp add: same_file(1) [OF f d] owned_def file_addr_def)
      moreover have "jr.room s3 r" using jr.room_le [OF rm1, of r] 3(3,5) 2(7) by (simp add: jr.room_def)
      moreover have "extended 2 i s s3" using extended_trans [OF 1(2) E] by (simp add: extended_def)
      ultimately show ?thesis using nz 3(1) unfolding step by (auto simp: ret_def)
    next
      case z: True
      have W2: "bitmap_ok s2" "free_blocks s2 = free_blocks s1" "fs_size s2 = fs_size s1"
        using same_file [OF 2(6) d2] W1 by (simp_all add: file_wf_def)
      have "\<not> all_used_below s2 (fs_size s2)" using fr1 unfolding W2(2) [symmetric] by (auto simp: all_used_below_def free_blocks_def)
      moreover have "jr.room s2 (Suc (Suc (Suc r)))" using jr.room_held [OF rm1 2(5,7)] by (simp add: numeral_3_eq_3)
      ultimately obtain m s3 where 3: "balloc hw 0 s2 = Inr (of_nat m, s3)" "allocated s2 m s3" "jr.room s3 (Suc r)"
        using balloc_spec [OF hw 2(2) W2(1)] by metis
      obtain s4 s5 where 4: "log_write bp (set_buf_data bp (put32 (4 * ?k) (of_nat m) (b_data (bufs s3 bp))) s3) = Inr ((), s4)"
        "brelse bp s4 = Inr ((), s5)" "extended 1 i s1 s5" "owned s5 i (NDIRECT + ?k) = of_nat m" "of_nat m \<noteq> (0 :: u32)" "jr.room s5 r"
        using indirect_added [OF hw W1 tr1 1(3,4) k(1) z 2(2,3,5,6) 3(2,3)] by blast
      have "extended 2 i s s5" using extended_trans [OF 1(2) 4(3)] by (simp only: one_add_one)
      then show ?thesis using z 3(1) 4 unfolding step k(2) by (auto simp: ret_def)
    qed
  qed
qed

section \<open>Writing\<close>

text \<open>One block of contents is replaced.\<close>

lemma block_replaced:
  fixes s :: "'a fsst_scheme"
  assumes W: "file_wf s i" and tr: "in_trans s'" and f: "fs_frame s s'" and v: "refs (cview s') = refs (cview s)" "medium (cview s') = medium (cview s)"
    and k: "k < MAXFILE" "owned s i k \<noteq> 0" and d: "disk s' = (disk s)(owned s i k := d)"
  shows "grown {} i s s'" "free_blocks s' = free_blocks s" "icache s' = icache s"
    "p < MAXFILE * BSIZE \<Longrightarrow> file_byte s' i p = (if p div BSIZE = k then d ! (p mod BSIZE) else file_byte s i p)"
proof -
  have ic: "icache s' = icache s" and sb: "fs_sb s' = fs_sb s" using fs_frame_fs [OF f] by simp_all
  show "icache s' = icache s" by (rule ic)
  note F = slot_frameD [OF slot_frame_fs [OF f, of i]]
  let ?a = "owned s i k"
  have db: "data_block s ?a" using owned_usable [OF W, of k] k by simp
  have uniq: "owned s i j \<noteq> ?a" if "j \<le> MAXFILE" "j \<noteq> k" for j
    using W k that unfolding file_wf_def by (meson less_imp_le)
  have own: "owned s' i j = owned s i j" if "j \<le> MAXFILE" for j
  proof -
    have "d_addrs (icache s i) NDIRECT \<noteq> ?a" using uniq [of MAXFILE] k(1) by (simp add: owned_def)
    then show ?thesis by (simp add: owned_def file_addr_def ic d Let_def)
  qed
  have used: "block_used s' m = block_used s m" if "m < fs_size s" for m
    using db that by (auto simp: block_used_def d sb data_block_def)
  have bok: "bitmap_ok s'" using W used F by (simp add: file_wf_def bitmap_ok_def)
  have mono: "data_block s b \<Longrightarrow> data_block s' b" for b using data_block_mono [OF slot_frame_fs [OF f, of i]] used by blast
  have W': "file_wf s' i"
    using W own mono bok by (simp add: file_wf_def ic sb)
  have "?a \<in> file_blocks s i" using k by (auto simp: file_blocks_def)
  then show "grown {} i s s'" using tr v W' own used slot_frame_fs [OF f, of i] by (auto simp: grown_def d)
  show "free_blocks s' = free_blocks s" using used F by (auto simp: free_blocks_def)
  show "p < MAXFILE * BSIZE \<Longrightarrow> file_byte s' i p = (if p div BSIZE = k then d ! (p mod BSIZE) else file_byte s i p)"
    using file_byte_owned [of p s i] file_byte_owned [of p s' i] own [of "p div BSIZE"] uniq [of "p div BSIZE"] k
    by (auto simp: Let_def d)
qed

text \<open>The bytes of a file after \<open>bs\<close> was written at \<open>off\<close>.\<close>

definition wrote :: "nat \<Rightarrow> nat \<Rightarrow> u8 list \<Rightarrow> 'a fsst_scheme \<Rightarrow> 'a fsst_scheme \<Rightarrow> bool" where
  "wrote i off bs s s' \<longleftrightarrow> (\<forall>p < MAXFILE * BSIZE. file_byte s' i p =
     (if off \<le> p \<and> p < off + length bs then bs ! (p - off) else file_byte s i p))"

lemma wrote_append: "wrote i off bs s s' \<Longrightarrow> wrote i (off + length bs) cs s' s'' \<Longrightarrow> wrote i off (bs @ cs) s s''"
  by (auto simp: wrote_def nth_append)

lemma splice_nth:
  assumes "k + length bs \<le> length d"
  shows "splice k bs d ! j = (if k \<le> j \<and> j < k + length bs then bs ! (j - k) else d ! j)" "length (splice k bs d) = length d"
  using assms by (auto simp: splice_def nth_append)

lemma in_chunk:
  fixes off n l q :: nat
  assumes "off mod n + l \<le> n"
  shows "(q div n = off div n \<and> off mod n \<le> q mod n \<and> q mod n < off mod n + l) = (off \<le> q \<and> q < off + l)"
    "off \<le> q \<and> q < off + l \<Longrightarrow> q mod n - off mod n = q - off"
proof -
  have e: "q = n * (q div n) + q mod n" "off = n * (off div n) + off mod n" by simp_all
  have "q div n = off div n" if "off \<le> q \<and> q < off + l"
  proof (rule div_nat_eqI)
    show "n * (off div n) \<le> q" "q < n * Suc (off div n)" using e(2) that assms unfolding mult_Suc_right by linarith+
  qed
  moreover have "off \<le> q \<longleftrightarrow> off mod n \<le> q mod n" "q < off + l \<longleftrightarrow> q mod n < off mod n + l" "q mod n - off mod n = q - off"
    if "q div n = off div n" using e(1) [unfolded that] e(2) by linarith+
  ultimately show "(q div n = off div n \<and> off mod n \<le> q mod n \<and> q mod n < off mod n + l) = (off \<le> q \<and> q < off + l)"
    and "off \<le> q \<and> q < off + l \<Longrightarrow> q mod n - off mod n = q - off" by blast+
qed

lemma write_chunk:
  fixes s :: "'a fsst_scheme" and off :: u32
  assumes hw: "virtio_blk hw" and tr: "in_trans s" and W: "file_wf s i" and rm: "jr.room s (r + 7)" and free: "2 \<le> card (free_blocks s)"
    and p: "unat off < MAXFILE * BSIZE" "unat off mod BSIZE + length bs \<le> BSIZE"
  shows "\<exists>a s1 bp s2 s3 s4. bmap hw i (off div of_nat BSIZE) True s = Inr (a, s1) \<and> a \<noteq> 0 \<and> i_dev (icache s1 i) = 0 \<and>
    bread hw 0 a s1 = Inr (bp, s2) \<and>
    log_write bp (set_buf_data bp (splice (unat (off mod of_nat BSIZE)) bs (b_data (bufs s2 bp))) s2) = Inr ((), s3) \<and>
    brelse bp s3 = Inr ((), s4) \<and> grown {} i s s4 \<and> d_size (icache s4 i) = d_size (icache s i) \<and>
    card (free_blocks s) \<le> card (free_blocks s4) + 2 \<and> jr.room s4 r \<and> wrote i (unat off) bs s s4"
proof -
  let ?k = "unat off div BSIZE"
  have k: "?k < MAXFILE" using p(1) by (simp add: less_mult_imp_div_less)
  have bn: "unat (off div of_nat BSIZE) = ?k" and om: "unat (off mod of_nat BSIZE) = unat off mod BSIZE"
    by (simp_all add: unat_div_distrib unat_mod_distrib BSIZE_def)
  have rm': "jr.room s (Suc r + 6)" using rm by (simp add: numeral_eq_Suc)
  obtain s1 where 1: "bmap hw i (off div of_nat BSIZE) True s = Inr (owned s1 i ?k, s1)" "extended 2 i s s1" "owned s1 i ?k \<noteq> 0"
    "jr.room s1 (Suc r)" using bmap_allocates [OF hw tr W rm' _ free, of "off div of_nat BSIZE"] k unfolding bn by blast
  let ?a = "owned s1 i ?k"
  have E: "in_trans s1" "file_wf s1 i" "grown {} i s s1" "d_size (icache s1 i) = d_size (icache s i)"
    "\<forall>q < MAXFILE * BSIZE. file_byte s1 i q = file_byte s i q" "card (free_blocks s) \<le> card (free_blocks s1) + 2"
    using 1(2) by (simp_all add: extended_def grown_def)
  have db: "data_block s1 ?a" "usable ?a" using owned_usable [OF E(2), of ?k] k 1(3) by simp_all
  have ok1: "virtio_blk hw \<and> in_trans s1" using hw E(1) by simp
  have lg: "?a \<notin> log_area (lg_start s1)" using db(1) by (simp add: data_block_def fs_block_def)
  let ?d = "splice (unat off mod BSIZE) bs (disk s1 ?a)"
  have l: "length (disk s1 ?a) = BSIZE" by (rule content_length [OF in_trans_bc [OF E(1)] db(2)])
  have ld: "length ?d = BSIZE" using splice_nth(2) [of "unat off mod BSIZE" bs "disk s1 ?a"] p(2) l by simp
  obtain bp s2 where 2: "bread hw 0 ?a s1 = Inr (bp, s2)" "b_data (bufs s2 bp) = disk s1 ?a" using jr.look [OF ok1 db(2) 1(4)] by blast
  from jr.edit [OF ok1 db(2) 1(4) lg ld 2(1)] obtain s3 s4 where
    3: "log_write bp (set_buf_data bp ?d s2) = Inr ((), s3)" "brelse bp s3 = Inr ((), s4)" "in_trans s4"
      "disk s4 = (disk s1)(?a := ?d)" "refs (cview s4) = refs (cview s1)" "medium (cview s4) = medium (cview s1)"
      "fs_frame s1 s4" "jr.room s4 r" by blast
  note B = block_replaced [OF E(2) 3(3,7,5,6) k 1(3) 3(4)]
  have "wrote i (unat off) bs s s4"
    unfolding wrote_def
  proof (intro allI impI)
    fix q assume q: "q < MAXFILE * BSIZE"
    have old: "file_byte s1 i q = file_byte s i q" using E(5) q by blast
    have iff: "(q div BSIZE = ?k \<and> unat off mod BSIZE \<le> q mod BSIZE \<and> q mod BSIZE < unat off mod BSIZE + length bs) =
        (unat off \<le> q \<and> q < unat off + length bs)"
      and diff: "unat off \<le> q \<and> q < unat off + length bs \<Longrightarrow> q mod BSIZE - unat off mod BSIZE = q - unat off"
      using in_chunk [OF p(2), of q] by blast+
    have "file_byte s1 i q = disk s1 ?a ! (q mod BSIZE)" if "q div BSIZE = ?k"
      using file_byte_owned [OF q, of s1 i] that 1(3) by (simp add: Let_def)
    then show "file_byte s4 i q = (if unat off \<le> q \<and> q < unat off + length bs then bs ! (q - unat off) else file_byte s i q)"
      using B(4) [OF q] splice_nth(1) [of "unat off mod BSIZE" bs "disk s1 ?a" "q mod BSIZE"] p(2) l iff diff old by auto
  qed
  moreover have "grown {} i s s4" by (rule grown_trans [OF E(3) B(1)])
  moreover have "i_dev (icache s1 i) = 0" using E(2) by (simp add: file_wf_def)
  ultimately show ?thesis
    using 1 2 3 E(4,6) B(2,3) unfolding om by (intro exI conjI) (assumption | simp)+
qed

lemma writei_loop_spec:
  fixes s :: "'a fsst_scheme" and off :: u32
  assumes "virtio_blk hw" and "in_trans s" and "file_wf s i" and "tot \<le> n" and "jr.room s (7 * c + r)" and "2 * c \<le> card (free_blocks s)"
    and "unat off + unat (n - tot) \<le> MAXFILE * BSIZE" and "length src = unat (n - tot)"
    and "n = tot \<or> unat off mod BSIZE + unat (n - tot) \<le> c * BSIZE"
  shows "\<exists>s'. writei_loop hw i tot off n src s = Inr (Some (off + (n - tot)), s') \<and> grown {} i s s' \<and>
    d_size (icache s' i) = d_size (icache s i) \<and> jr.room s' r \<and> wrote i (unat off) src s s'"
  using assms
proof (induction "unat (n - tot)" arbitrary: tot off src s c rule: less_induct)
  case less
  note hw = less.prems(1) and tr = less.prems(2) and W = less.prems(3) and rm = less.prems(5) and fr = less.prems(6)
    and bd = less.prems(7) and len = less.prems(8)
  show ?case
  proof (cases "tot < n")
    case False
    then have "tot = n" "src = []" using less.prems(4) len by auto
    then show ?thesis using grown_refl [OF tr W] jr.room_le [OF rm, of r]
      by (subst writei_loop.simps) (auto simp: ret_def wrote_def)
  next
    case True
    let ?m = "fs_chunk off (n - tot)"
    have b: "unat off + unat (n - tot) < 2 ^ 32" using bd by (simp add: MAXFILE_def NDIRECT_def NINDIRECT_def BSIZE_def)
    note M = chunk_step [OF True b]
    let ?bs = "take (unat ?m) src"
    have l: "length ?bs = unat ?m" using len M(2) by simp
    have c: "unat off mod BSIZE + unat (n - tot) \<le> c * BSIZE" using less.prems(9) True by auto
    then obtain c' where c': "c = Suc c'" using M(2,3) by (cases c) auto
    have w: "jr.room s ((7 * c' + r) + 7)" "2 \<le> card (free_blocks s)" "unat off < MAXFILE * BSIZE" "unat off mod BSIZE + length ?bs \<le> BSIZE"
      using rm fr bd M(1-3) l by (simp_all add: c' ac_simps BSIZE_def)
    obtain a s1 bp s2 s3 s4 where 1: "bmap hw i (off div of_nat BSIZE) True s = Inr (a, s1)" "a \<noteq> 0" "i_dev (icache s1 i) = 0"
      "bread hw 0 a s1 = Inr (bp, s2)"
      "log_write bp (set_buf_data bp (splice (unat (off mod of_nat BSIZE)) ?bs (b_data (bufs s2 bp))) s2) = Inr ((), s3)"
      "brelse bp s3 = Inr ((), s4)" "grown {} i s s4" "d_size (icache s4 i) = d_size (icache s i)"
      "card (free_blocks s) \<le> card (free_blocks s4) + 2" "jr.room s4 (7 * c' + r)" "wrote i (unat off) ?bs s s4"
      using write_chunk [OF hw tr W w] by blast
    have W4: "in_trans s4" "file_wf s4 i" using 1(7) by (simp_all add: grown_def)
    have fr4: "2 * c' \<le> card (free_blocks s4)" using fr 1(9) by (simp add: c')
    have b4: "unat (off + ?m) + unat (n - (tot + ?m)) \<le> MAXFILE * BSIZE" using bd M(2) by (simp add: M(4,5))
    have l4: "length (drop (unat ?m) src) = unat (n - (tot + ?m))" using len by (simp add: M(5))
    have c4: "n = tot + ?m \<or> unat (off + ?m) mod BSIZE + unat (n - (tot + ?m)) \<le> c' * BSIZE"
    proof (cases "unat ?m < unat (n - tot)")
      case True
      from M(9) [OF this] have e: "unat off mod BSIZE + unat ?m = BSIZE" .
      have "(unat off + unat ?m) mod BSIZE = (unat off mod BSIZE + unat ?m) mod BSIZE" by (simp add: mod_simps)
      then have "unat (off + ?m) mod BSIZE = 0" unfolding M(4) e by simp
      moreover have "unat (n - tot) - unat ?m \<le> c' * BSIZE" using c e unfolding c' mult_Suc by linarith
      ultimately show ?thesis by (simp add: M(5))
    next
      case False
      then have "unat (n - (tot + ?m)) = 0" using M(2,5) by simp
      then show ?thesis by (simp add: unat_eq_zero)
    qed
    obtain s' where s': "writei_loop hw i (tot + ?m) (off + ?m) n (drop (unat ?m) src) s4 = Inr (Some (off + ?m + (n - (tot + ?m))), s')"
      "grown {} i s4 s'" "d_size (icache s' i) = d_size (icache s4 i)" "jr.room s' r" "wrote i (unat (off + ?m)) (drop (unat ?m) src) s4 s'"
      using less.hyps [OF fs_chunk_decreases [OF True] hw W4 M(6) 1(10) fr4 b4 l4 c4] by blast
    have "writei_loop hw i tot off n src s = Inr (Some (off + (n - tot)), s')"
      using True 1(2-6) s'(1) by (subst writei_loop.simps) (simp add: 1(1) Let_def)
    moreover have "wrote i (unat off) src s s'"
    proof -
      have "unat (off + ?m) = unat off + length ?bs" by (simp only: M(4) l)
      from wrote_append [OF 1(11) s'(5) [unfolded this]] show ?thesis by (simp only: append_take_drop_id)
    qed
    moreover have "d_size (icache s' i) = d_size (icache s i)" using s'(3) 1(8) by simp
    ultimately show ?thesis using grown_trans [OF 1(7) s'(2)] s'(4) by blast
  qed
qed

section \<open>The inode after a write\<close>

text \<open>Only the block of the file's inode has changed, and the inode's size may be new.\<close>

lemma inode_written:
  fixes s :: "'a fsst_scheme"
  assumes W: "file_wf s i" and tr: "in_trans s'" and f: "slot_frame i s s'" and a: "d_addrs (icache s' i) = d_addrs (icache s i)"
    and v: "refs (cview s') = refs (cview s)" "medium (cview s') = medium (cview s)"
    and d: "\<And>b. b \<noteq> inode_block s i \<Longrightarrow> disk s' b = disk s b" and sz: "unat (d_size (icache s' i)) \<le> MAXFILE * BSIZE"
  shows "grown {inode_block s i} i s s'" "p < MAXFILE * BSIZE \<Longrightarrow> file_byte s' i p = file_byte s i p"
proof -
  note F = slot_frameD [OF f]
  have ib: "data_block s (inode_block s i)" using W by (simp add: file_wf_def)
  have ne: "owned s i k \<noteq> inode_block s i" if "k \<le> MAXFILE" for k
  proof -
    have "inode_block s i \<noteq> 0" using ib by (auto simp: data_block_def fs_block_def usable_def)
    then show ?thesis using W that by (auto simp: file_wf_def)
  qed
  have own: "owned s' i k = owned s i k" if "k \<le> MAXFILE" for k
  proof -
    have "disk s' (d_addrs (icache s i) NDIRECT) = disk s (d_addrs (icache s i) NDIRECT)" using d ne [of MAXFILE] by (simp add: owned_def)
    then show ?thesis by (simp add: owned_def file_addr_def a Let_def)
  qed
  have used: "block_used s' m = block_used s m" if m: "m < fs_size s" for m
  proof -
    have "BBLOCK (of_nat m) (fs_sb s) \<noteq> inode_block s i" using ib m by (auto simp: data_block_def)
    then show ?thesis by (simp add: block_used_def F(1) d)
  qed
  have mono: "data_block s b \<Longrightarrow> data_block s' b" for b using data_block_mono [OF f] used by blast
  have "bitmap_ok s'" using W used F by (simp add: file_wf_def bitmap_ok_def)
  then have W': "file_wf s' i" using W own mono sz F(5,6) by (simp add: file_wf_def)
  then show "grown {inode_block s i} i s s'" using tr f v own used d by (auto simp: grown_def)
  show "file_byte s' i p = file_byte s i p" if p: "p < MAXFILE * BSIZE"
    using file_byte_owned [OF p, of s i] file_byte_owned [OF p, of s' i] own [of "p div BSIZE"] ne [of "p div BSIZE"] d
    by (auto simp: Let_def)
qed

text \<open>\<open>iupdate\<close> after the size was set.\<close>

lemma iupdate_size:
  fixes s :: "'a fsst_scheme"
  assumes hw: "virtio_blk hw" and W: "file_wf s i" and tr: "in_trans s" and rm: "jr.room s (Suc r)"
    and sz: "unat sz \<le> MAXFILE * BSIZE" "t = upd_inode i (\<lambda>ip. ip\<lparr>d_size := sz\<rparr>) s"
  shows "\<exists>s'. iupdate hw i t = Inr ((), s') \<and> grown {inode_block s i} i s s' \<and> jr.room s' r \<and> d_size (icache s' i) = sz \<and>
    (\<forall>p < MAXFILE * BSIZE. file_byte s' i p = file_byte s i p) \<and> same_dinode (disk_inode s' (i_inum (icache s i))) (icache s' i) \<and>
    (\<forall>m. m \<noteq> i_inum (icache s i) \<longrightarrow> same_dinode (disk_inode s' m) (disk_inode s m))"
proof -
  let ?n = "i_inum (icache s i)" let ?b = "inode_block s i"
  have tI: "i_inum (icache t i) = ?n" "i_dev (icache t i) = 0" "fs_sb t = fs_sb s" "lg_start t = lg_start s" "cview t = cview s"
    "in_trans t" "jr.room t (Suc r)" using W tr rm by (simp_all add: sz(2) file_wf_def)
  have fb: "fs_block t (IBLOCK (i_inum (icache t i)) (fs_sb t))" using W by (simp add: tI file_wf_def data_block_def fs_block_def)
  from iupdate_spec [OF hw tI(6,7,2) fb] obtain s' where
    u: "iupdate hw i t = Inr ((), s')" "in_trans s'" "fs_frame t s'" "jr.room s' r" "refs (cview s') = refs (cview s)"
      "medium (cview s') = medium (cview s)"
      "disk s' = (disk s)(?b := put_dinode (ioff ?n) (icache t i) (disk s ?b))" unfolding tI(1,3,5) by blast
  have fr: "slot_frame i s s'"
  proof (rule slot_frame_trans [OF _ slot_frame_fs [OF u(3)]], unfold sz(2), rule slot_frame_upd)
    show "(icache s i)\<lparr>d_size := sz\<rparr> = (icache s i)\<lparr>d_addrs := d_addrs (icache s i), d_size := sz\<rparr>" by (cases "icache s i") simp
  qed
  have ic: "icache s' = icache t" using fs_frame_fs [OF u(3)] by simp
  have a: "d_addrs (icache s' i) = d_addrs (icache s i)" "d_size (icache s' i) = sz" by (simp_all add: ic sz(2))
  have "unat (d_size (icache s' i)) \<le> MAXFILE * BSIZE" using sz(1) a(2) by simp
  note I = inode_written [OF W u(2) fr a(1) u(5,6) _ this]
  have us: "usable ?b" using W by (simp add: file_wf_def data_block_def fs_block_def)
  have l: "ioff ?n + 64 \<le> length (disk s ?b)" using ioff_bound [of ?n] content_length [OF in_trans_bc [OF tr] us] by simp
  have sb: "fs_sb s' = fs_sb s" using slot_frameD(1) [OF fr] .
  have "same_dinode (disk_inode s' ?n) (icache s' i)"
    using put_dinode_spec(2) [OF l, of "icache t i"] by (simp add: disk_inode_def u(7) sb ic)
  moreover have "same_dinode (disk_inode s' m) (disk_inode s m)" if ne: "m \<noteq> ?n" for m
  proof (cases "IBLOCK m (fs_sb s) = ?b")
    case True
    then have "ioff m + 64 \<le> ioff ?n \<or> ioff ?n + 64 \<le> ioff m" using inode_place [of ?n "fs_sb s" m] ne by metis
    then show ?thesis using put_dinode_spec(3) [OF l, of "ioff m" "icache t i"] True by (simp add: disk_inode_def u(7) sb)
  qed (simp add: disk_inode_def u(7) sb same_dinode_def)
  ultimately show ?thesis using u(1,4,7) I a(2) by auto
qed

section \<open>Other files\<close>

text \<open>Files that share no block.\<close>

lemma other_file:
  fixes s :: "'a fsst_scheme"
  assumes g: "grown X i s s'" and j: "j \<noteq> i" and W: "file_wf s j" and dis: "file_blocks s j \<inter> (file_blocks s i \<union> X) = {}"
  shows "k \<le> MAXFILE \<Longrightarrow> owned s' j k = owned s j k" "p < MAXFILE * BSIZE \<Longrightarrow> file_byte s' j p = file_byte s j p" "file_wf s' j"
proof -
  have f: "slot_frame i s s'" and u: "\<forall>n < fs_size s. block_used s n \<longrightarrow> block_used s' n" and b: "bitmap_ok s'"
    using g by (simp_all add: grown_def file_wf_def)
  note F = slot_frameD [OF f]
  have ic: "icache s' j = icache s j" using f j by (simp add: slot_frame_def)
  have same: "disk s' (owned s j k) = disk s (owned s j k)" if "k \<le> MAXFILE" "owned s j k \<noteq> 0" for k
  proof -
    have "owned s j k \<in> file_blocks s j" using that by (auto simp: file_blocks_def)
    then have "owned s j k \<notin> file_blocks s i" "owned s j k \<notin> X" using dis by blast+
    then show ?thesis using g owned_usable [OF W that] by (simp add: grown_def)
  qed
  show own: "owned s' j k = owned s j k" if "k \<le> MAXFILE" for k
    using same [of MAXFILE] by (simp add: owned_def file_addr_def ic Let_def)
  show "file_byte s' j p = file_byte s j p" if p: "p < MAXFILE * BSIZE"
    using file_byte_owned [OF p, of s j] file_byte_owned [OF p, of s' j] own [of "p div BSIZE"] same [of "p div BSIZE"]
    by (auto simp: Let_def)
  show "file_wf s' j" using W own data_block_mono [OF f u] b by (simp add: file_wf_def ic F(1))
qed

lemma other_inode:
  assumes "grown {} i s s'" and "data_block s (IBLOCK m (fs_sb s))" and "IBLOCK m (fs_sb s) \<notin> file_blocks s i"
  shows "disk_inode s' m = disk_inode s m"
proof -
  have f: "slot_frame i s s'" using assms(1) by (simp add: grown_def)
  show ?thesis using assms by (simp add: disk_inode_def grown_def slot_frameD(1) [OF f])
qed

lemma writei_spec:
  fixes s :: "'a fsst_scheme" and off :: u32
  assumes hw: "virtio_blk hw" and tr: "in_trans s" and W: "file_wf s i" and off: "off \<le> d_size (icache s i)"
    and bd: "unat off + unat n \<le> MAXFILE * BSIZE" and len: "length src = unat n"
    and c: "unat off mod BSIZE + unat n \<le> c * BSIZE" and rm: "jr.room s (7 * c + Suc r)" and fr: "2 * c \<le> card (free_blocks s)"
  shows "\<exists>s'. writei hw i src off n s = Inr (int (unat n), s') \<and> grown {inode_block s i} i s s' \<and> jr.room s' r \<and> wrote i (unat off) src s s' \<and>
    d_size (icache s' i) = max (d_size (icache s i)) (off + n) \<and>
    (n \<noteq> 0 \<longrightarrow> same_dinode (disk_inode s' (i_inum (icache s i))) (icache s' i)) \<and>
    (\<forall>m. m \<noteq> i_inum (icache s i) \<longrightarrow> data_block s (IBLOCK m (fs_sb s)) \<longrightarrow> IBLOCK m (fs_sb s) \<notin> file_blocks s i \<longrightarrow>
       same_dinode (disk_inode s' m) (disk_inode s m))"
proof -
  have "unat n < 2 ^ 31" using bd by (simp add: MAXFILE_def NDIRECT_def NINDIRECT_def BSIZE_def)
  then have sn: "sint n = int (unat n)" by (rule sint_nonneg)
  have nov: "unat off + unat n < 2 ^ 32" using bd by (simp add: MAXFILE_def NDIRECT_def NINDIRECT_def BSIZE_def)
  then have un: "unat (off + n) = unat off + unat n" by (simp add: unat_add_lem [THEN iffD1])
  have in_file: "\<not> (off > d_size (icache s i) \<or> off + n < off)" using off nov unfolding add_overflows by (simp add: not_less)
  obtain s1 where 1: "writei_loop hw i 0 off n src s = Inr (Some (off + n), s1)" "grown {} i s s1"
    "d_size (icache s1 i) = d_size (icache s i)" "jr.room s1 (Suc r)" "wrote i (unat off) src s s1"
    using writei_loop_spec [OF hw tr W _ rm fr, of 0 n off src] bd len c by auto
  have W1: "in_trans s1" "file_wf s1 i" "slot_frame i s s1" using 1(2) by (simp_all add: grown_def)
  note F = slot_frameD [OF W1(3)]
  show ?thesis
  proof (cases "n = 0")
    case True
    then have "writei hw i src off n s = Inr (int (unat n), s1)" using in_file 1(1) sn by (simp add: writei_def ret_def)
    moreover have "\<forall>m. data_block s (IBLOCK m (fs_sb s)) \<longrightarrow> IBLOCK m (fs_sb s) \<notin> file_blocks s i \<longrightarrow>
       same_dinode (disk_inode s1 m) (disk_inode s m)" using other_inode [OF 1(2)] by (simp add: same_dinode_def)
    ultimately show ?thesis using True 1(3,5) grown_mono [OF 1(2), of "{inode_block s i}"] jr.room_le [OF 1(4), of r] off
      by (auto simp: max_def)
  next
    case False
    let ?sz = "max (d_size (icache s i)) (off + n)"
    define t where "t = upd_inode i (\<lambda>ip. ip\<lparr>d_size := ?sz\<rparr>) s1"
    have "t = s1" if "\<not> off + n > d_size (icache s1 i)"
    proof -
      have "?sz = d_size (icache s1 i)" using that 1(3) by (simp add: max_def not_less)
      then have "(icache s1 i)\<lparr>d_size := ?sz\<rparr> = icache s1 i" by (cases "icache s1 i") simp
      then show ?thesis by (simp add: t_def upd_inode_def)
    qed
    moreover have "t = upd_inode i (\<lambda>ip. ip\<lparr>d_size := off + n\<rparr>) s1" if "off + n > d_size (icache s1 i)"
      using that 1(3) by (simp add: t_def max_def not_le)
    ultimately have w: "writei hw i src off n s = bnd (iupdate hw i t) (\<lambda>_. ret (int (unat n)))"
      using False in_file 1(1) sn by (simp add: writei_def word_gt_0)
    have "unat ?sz \<le> MAXFILE * BSIZE" using W bd un by (simp add: file_wf_def max_def)
    from iupdate_size [OF hw W1(2,1) 1(4) this t_def] obtain s' where
      2: "iupdate hw i t = Inr ((), s')" "grown {inode_block s1 i} i s1 s'" "jr.room s' r" "d_size (icache s' i) = ?sz"
        "\<forall>p < MAXFILE * BSIZE. file_byte s' i p = file_byte s1 i p" "same_dinode (disk_inode s' (i_inum (icache s1 i))) (icache s' i)"
        "\<forall>m. m \<noteq> i_inum (icache s1 i) \<longrightarrow> same_dinode (disk_inode s' m) (disk_inode s1 m)" by blast
    have "grown {inode_block s i} i s s'"
      using grown_trans [OF grown_mono [OF 1(2), of "{inode_block s i}"] 2(2) [unfolded F(5)]] by simp
    moreover have "wrote i (unat off) src s s'" using 1(5) 2(5) by (simp add: wrote_def)
    moreover have "\<forall>m. m \<noteq> i_inum (icache s i) \<longrightarrow> data_block s (IBLOCK m (fs_sb s)) \<longrightarrow> IBLOCK m (fs_sb s) \<notin> file_blocks s i \<longrightarrow>
       same_dinode (disk_inode s' m) (disk_inode s m)" using 2(7) other_inode [OF 1(2)] F(8) by metis
    moreover have "writei hw i src off n s = Inr (int (unat n), s')" by (simp add: w 2(1) ret_def)
    ultimately show ?thesis using 2(3,4) 2(6) [unfolded F(8)] by blast
  qed
qed

section \<open>Properties\<close>

text \<open>
  C15. Writing \<open>n\<close> bytes into a file, over direct and indirect blocks, holes and the end of the file, in a transaction with
  room for the blocks touched and enough free blocks: -1 when the offset is behind the end. Otherwise \<open>n\<close> is returned,
  the file has the bytes written at the offset and its old bytes elsewhere, its size is the larger one of the old
  size and the end of the range, its inode is written to the inode table, and no other file changes.
\<close>

theorem writei_writes_file:
  fixes s :: "'a fsst_scheme"
  assumes hw: "virtio_blk hw" and tr: "in_trans s" and W: "file_wf s i"
    and bd: "unat off + unat n \<le> MAXFILE * BSIZE" and len: "length src = unat n"
    and c: "unat off mod BSIZE + unat n \<le> c * BSIZE" and rm: "jr.room s (7 * c + 1)" and fr: "2 * c \<le> card (free_blocks s)"
  shows "if off > d_size (icache s i) then writei hw i src off n s = Inr (-1, s)
    else \<exists>s'. writei hw i src off n s = Inr (int (unat n), s') \<and> in_trans s' \<and> file_wf s' i \<and>
      d_size (icache s' i) = max (d_size (icache s i)) (off + n) \<and>
      (\<forall>p < MAXFILE * BSIZE. file_byte s' i p =
         (if unat off \<le> p \<and> p < unat off + unat n then src ! (p - unat off) else file_byte s i p)) \<and>
      (n \<noteq> 0 \<longrightarrow> same_dinode (disk_inode s' (i_inum (icache s i))) (icache s' i)) \<and>
      (\<forall>j. j \<noteq> i \<longrightarrow> file_wf s j \<longrightarrow> file_blocks s j \<inter> insert (inode_block s i) (file_blocks s i) = {} \<longrightarrow>
         icache s' j = icache s j \<and> file_wf s' j \<and> (\<forall>p < MAXFILE * BSIZE. file_byte s' j p = file_byte s j p))"
proof (cases "off > d_size (icache s i)")
  case True
  then show ?thesis by (simp add: writei_def ret_def)
next
  case False
  have off: "off \<le> d_size (icache s i)" and rm': "jr.room s (7 * c + Suc 0)" using False rm by simp_all
  from writei_spec [OF hw tr W off bd len c rm' fr] obtain s' where
    s': "writei hw i src off n s = Inr (int (unat n), s')" "grown {inode_block s i} i s s'" "wrote i (unat off) src s s'"
      "d_size (icache s' i) = max (d_size (icache s i)) (off + n)"
      "n \<noteq> 0 \<longrightarrow> same_dinode (disk_inode s' (i_inum (icache s i))) (icache s' i)" by blast
  have "icache s' j = icache s j \<and> file_wf s' j \<and> (\<forall>p < MAXFILE * BSIZE. file_byte s' j p = file_byte s j p)"
    if "j \<noteq> i" "file_wf s j" "file_blocks s j \<inter> insert (inode_block s i) (file_blocks s i) = {}" for j
    using other_file [OF s'(2) that(1,2)] that s'(2) by (auto simp: grown_def slot_frame_def)
  then show ?thesis using False s' by (auto simp: grown_def wrote_def len)
qed

text \<open>A file of 1020 bytes in block 61, inode 3, on the small disk.\<close>

definition short_icache :: "nat \<Rightarrow> inode" where
  "short_icache i = \<lparr>d_type = T_FILE, d_major = 0, d_minor = 0, d_nlink = 1, d_size = 1020,
     d_addrs = (\<lambda>k. if k = 0 then 61 else 0), i_dev = 0, i_inum = 3, i_ref = 1, i_valid = True\<rparr>"

lemma short_file:
  "\<exists>s :: 'a fsst_scheme. in_trans s \<and> jr.room s 29 \<and> file_wf s 0 \<and> icache s = short_icache \<and> 936 \<le> card (free_blocks s)"
proof -
  obtain s :: "'a fsst_scheme" where s: "in_trans s" "jr.room s 29" "bitmap_ok s" "disk s = medium_of small_image" "fs_sb s = small_sb"
    "icache s = short_icache" "lg_start s = 2" "fs_size s = 1000" "\<forall>n < 1000. block_used s n \<longleftrightarrow> n < 64"
    using small_fs [of short_icache] by blast
  have bb: "BBLOCK (of_nat n) (fs_sb s) = 60" if "n < 1000" for n using small_bitmap_block [OF that] by (simp add: s(5))
  have db: "data_block s b" if "32 \<le> unat b" "unat b < 60 \<or> unat b = 61" for b
    using that s(9) bb by (auto simp: data_block_def fs_block_def usable_def small_block_def s(7,8) log_area_2 word_unat_eq_iff)
  have o: "owned s 0 k = (if k = 0 then 61 else 0)" for k
    by (simp add: owned_def file_addr_def s(6) short_icache_def NDIRECT_def MAXFILE_def NINDIRECT_def BSIZE_def)
  have ib: "inode_block s 0 = 34" by (simp add: s(5,6) short_icache_def small_sb_def IBLOCK_def IPB_def BSIZE_def)
  have "file_wf s 0"
    using db [of 34] db [of 61] s(3) by (simp add: file_wf_def o ib) (simp add: s(6) short_icache_def MAXFILE_def NDIRECT_def NINDIRECT_def BSIZE_def)
  moreover have "free_blocks s = {64..<1000}" using s(9) by (auto simp: free_blocks_def s(8))
  ultimately show ?thesis using s(1,2,6) by auto
qed

theorem writei_writes_file_witness:
  "\<exists>(s :: fsst) s'. writei prompt_device 0 [1, 2, 3, 4, 5, 6, 7, 8] 1020 8 s = Inr (8, s') \<and>
    d_size (icache s' 0) = 1028 \<and> file_byte s' 0 1024 = 5 \<and> writei prompt_device 0 [1] 1021 1 s = Inr (-1, s)"
proof -
  obtain s :: fsst where s: "in_trans s" "jr.room s 29" "file_wf s 0" "icache s = short_icache" "936 \<le> card (free_blocks s)"
    using short_file by blast
  have b: "MAXFILE * BSIZE = 274432" by (simp add: MAXFILE_def NDIRECT_def NINDIRECT_def BSIZE_def)
  have rm: "jr.room s (7 * 2 + 1)" by (rule jr.room_le [OF s(2)]) simp
  have fr: "2 * 2 \<le> card (free_blocks s)" using s(5) by simp
  note W = writei_writes_file [OF virtio_blk_prompt s(1,3) _ _ _ rm fr]
  have n: "\<not> (1020 :: u32) > d_size (icache s 0)" "(1021 :: u32) > d_size (icache s 0)" by (simp_all add: s(4) short_icache_def)
  have "writei prompt_device 0 [1] 1021 1 s = Inr (-1, s)"
    using W [of 1021 1 "[1]", unfolded if_P [OF n(2)] b] by (simp add: BSIZE_def)
  moreover from W [of 1020 8 "[1, 2, 3, 4, 5, 6, 7, 8]", unfolded if_not_P [OF n(1)] b] obtain s' where
    "writei prompt_device 0 [1, 2, 3, 4, 5, 6, 7, 8] 1020 8 s = Inr (8, s')" "d_size (icache s' 0) = max (d_size (icache s 0)) (1020 + 8)"
    "\<forall>p < 274432. file_byte s' 0 p = (if 1020 \<le> p \<and> p < 1020 + 8 then [1, 2, 3, 4, 5, 6, 7, 8] ! (p - 1020) else file_byte s 0 p)"
    by (auto simp: BSIZE_def)
  ultimately show ?thesis by (intro exI [of _ s] exI [of _ s']) (simp add: s(4) short_icache_def)
qed

text \<open>
  C35. The code does not check a write against the largest size of a file: a write at the end of a file of
  \<open>MAXFILE\<close> blocks, which is within the bounds \<open>writei\<close> tests, panics in \<open>bmap\<close> instead of returning -1.
\<close>

theorem writei_full_file_panics:
  assumes "unat off = MAXFILE * BSIZE" and "off \<le> d_size (icache s i)" and "0 < n" and "off + n \<ge> off"
  shows "writei hw i src off n s = Inl (Panic ''bmap: out of range'')"
proof -
  have "unat (off div of_nat BSIZE) = MAXFILE" using assms(1) by (simp add: unat_div_distrib BSIZE_def)
  then have "bmap hw i (off div of_nat BSIZE) True s = Inl (Panic ''bmap: out of range'')"
    by (simp add: bmap_def Let_def MAXFILE_def)
  then have "writei_loop hw i 0 off n src s = Inl (Panic ''bmap: out of range'')"
    using assms(3) by (subst writei_loop.simps) simp
  moreover have "\<not> (off > d_size (icache s i) \<or> off + n < off)" using assms(2,4) by (simp add: not_less)
  ultimately show ?thesis by (simp add: writei_def)
qed

theorem writei_full_file_panics_witness:
  "\<exists>s :: fsst. file_ok s 0 \<and> writei prompt_device 0 [1] 274432 1 s = Inl (Panic ''bmap: out of range'')"
proof -
  obtain s :: fsst where s: "icache s = (\<lambda>_. short_icache 0\<lparr>d_size := 274432\<rparr>)" using small_fs by blast
  have "usable 61" by (simp add: usable_def small_block_def)
  then have "file_ok s 0"
    by (simp add: file_ok_def file_addr_def Let_def s short_icache_def NDIRECT_def NINDIRECT_def BSIZE_def)
  then show ?thesis using writei_full_file_panics [of 274432 s 0 1 prompt_device "[1]"]
    by (auto simp: s MAXFILE_def NDIRECT_def NINDIRECT_def BSIZE_def)
qed

end
