(* ===== verification/FsDir.thy ===== *)
theory FsDir
  imports FsWrite FsMount
begin

text \<open>
  Directories as maps from names to inode numbers: \<open>dirlookup\<close> finds the first entry in use with the name,
  \<open>dirlink\<close> adds one pair to the map.
\<close>

section \<open>Names\<close>

text \<open>The name in a buffer of \<open>DIRSIZ\<close> bytes: up to the NUL, if there is one.\<close>

definition cname :: "fname \<Rightarrow> u8 list" where
  "cname f = takeWhile (\<lambda>c. c \<noteq> 0) (map f [0..<DIRSIZ])"

lemma name_match_takeWhile:
  "name_match a b is \<longleftrightarrow> takeWhile (\<lambda>c. c \<noteq> 0) (map a is) = takeWhile (\<lambda>c. c \<noteq> 0) (map b is)"
  by (induction "is") auto

lemma name_match_cname: "name_match a b [0..<DIRSIZ] \<longleftrightarrow> cname a = cname b"
  by (simp add: cname_def name_match_takeWhile)

section \<open>Directories\<close>

text \<open>The file an inode describes, wherever the inode is: in the cache or in the inode table.\<close>

definition dino_addr :: "'a fsst_scheme \<Rightarrow> 'b dinode_scheme \<Rightarrow> nat \<Rightarrow> u32" where
  "dino_addr s d k = (if k < NDIRECT then d_addrs d k
     else if d_addrs d NDIRECT = 0 then 0 else get32 (4 * (k - NDIRECT)) (disk s (d_addrs d NDIRECT)))"

definition dino_byte :: "'a fsst_scheme \<Rightarrow> 'b dinode_scheme \<Rightarrow> nat \<Rightarrow> u8" where
  "dino_byte s d p = (let a = dino_addr s d (p div BSIZE) in if a = 0 then 0 else disk s a ! (p mod BSIZE))"

lemma file_dino: "file_addr s i = dino_addr s (icache s i)" "file_byte s i = dino_byte s (icache s i)"
  by (auto simp: file_addr_def dino_addr_def file_byte_def dino_byte_def Let_def fun_eq_iff)

text \<open>Entry \<open>k\<close>, the number of entries, and the place of the first entry in use with a name.\<close>

definition dirent_at :: "'a fsst_scheme \<Rightarrow> 'b dinode_scheme \<Rightarrow> nat \<Rightarrow> u8 list" where
  "dirent_at s d k = map (dino_byte s d) [16 * k..<16 * k + 16]"

definition dir_size :: "'b dinode_scheme \<Rightarrow> nat" where
  "dir_size d = unat (d_size d) div 16"

definition names_entry :: "u8 list \<Rightarrow> u8 list \<Rightarrow> bool" where
  "names_entry nm e \<longleftrightarrow> de_inum e \<noteq> 0 \<and> cname (de_name e) = nm"

definition dir_pos :: "'a fsst_scheme \<Rightarrow> 'b dinode_scheme \<Rightarrow> u8 list \<Rightarrow> nat option" where
  "dir_pos s d nm = List.find (\<lambda>k. names_entry nm (dirent_at s d k)) [0..<dir_size d]"

definition dir_map :: "'a fsst_scheme \<Rightarrow> 'b dinode_scheme \<Rightarrow> u8 list \<Rightarrow> u16 option" where
  "dir_map s d nm = map_option (\<lambda>k. de_inum (dirent_at s d k)) (dir_pos s d nm)"

definition dir_ok :: "'a fsst_scheme \<Rightarrow> nat \<Rightarrow> bool" where
  "dir_ok s i \<longleftrightarrow> file_ok s i \<and> d_type (icache s i) = T_DIR \<and> 16 dvd unat (d_size (icache s i))"

text \<open>Only the bytes of the blocks and the fields kept on the medium matter.\<close>

definition dino_ok :: "'a fsst_scheme \<Rightarrow> 'b dinode_scheme \<Rightarrow> bool" where
  "dino_ok s d \<longleftrightarrow> (d_addrs d NDIRECT \<noteq> 0 \<longrightarrow> usable (d_addrs d NDIRECT)) \<and>
     (\<forall>k < NDIRECT + NINDIRECT. dino_addr s d k \<noteq> 0 \<longrightarrow> usable (dino_addr s d k)) \<and>
     unat (d_size d) \<le> (NDIRECT + NINDIRECT) * BSIZE"

lemma same_disk_dir:
  assumes "disk s' = disk s"
  shows "dir_map s' d = dir_map s d" "dino_ok s' d = dino_ok s d"
proof -
  have e: "dirent_at s' d = dirent_at s d" by (simp add: dirent_at_def dino_byte_def dino_addr_def Let_def assms fun_eq_iff)
  show "dir_map s' d = dir_map s d" unfolding dir_map_def dir_pos_def fun_eq_iff e by blast
  show "dino_ok s' d = dino_ok s d" by (simp add: dino_ok_def dino_addr_def assms)
qed

lemma same_dinode_dir:
  assumes "same_dinode d d'"
  shows "dir_map s d = dir_map s d'" "dino_ok s d = dino_ok s d'" "d_type d = d_type d'" "d_size d = d_size d'" "d_nlink d = d_nlink d'"
proof -
  have a: "\<And>k. k \<le> NDIRECT \<Longrightarrow> d_addrs d k = d_addrs d' k" and z: "d_size d = d_size d'"
    using assms by (simp_all add: same_dinode_def)
  then have ad: "dino_addr s d = dino_addr s d'" by (simp add: dino_addr_def fun_eq_iff)
  have e: "dirent_at s d = dirent_at s d'" by (simp add: dirent_at_def dino_byte_def ad fun_eq_iff)
  show "dir_map s d = dir_map s d'" unfolding dir_map_def dir_pos_def dir_size_def fun_eq_iff e z by blast
  show "dino_ok s d = dino_ok s d'" using a [of NDIRECT] z by (simp add: dino_ok_def ad)
  show "d_type d = d_type d'" "d_size d = d_size d'" "d_nlink d = d_nlink d'" using assms by (simp_all add: same_dinode_def)
qed

section \<open>dirlookup\<close>

text \<open>Reading entry \<open>k\<close>.\<close>

lemma readi_entry:
  fixes s :: "'a fsst_scheme"
  assumes hw: "virtio_blk hw" and tr: "in_trans s" and rm: "jr.room s (Suc r)" and d: "dir_ok s i" and k: "k < dir_size (icache s i)"
  shows "\<exists>s'. readi hw i (of_nat (16 * k)) 16 s = Inr ((16, dirent_at s (icache s i) k), s') \<and> looked r s s'"
    "unat (of_nat (16 * k) :: u32) = 16 * k"
proof -
  let ?sz = "unat (d_size (icache s i))"
  have fok: "file_ok s i" and dv: "?sz = 16 * dir_size (icache s i)" using d by (auto simp: dir_ok_def dir_size_def)
  have b: "?sz < 2 ^ 31" using fok by (simp add: file_ok_def NDIRECT_def NINDIRECT_def BSIZE_def)
  show o: "unat (of_nat (16 * k) :: u32) = 16 * k" by (rule unat_of_nat_small) (use k dv b in auto)
  have "16 * k + 16 \<le> ?sz" using k dv by simp
  then have "read_result s i (unat (of_nat (16 * k) :: u32)) (unat (16 :: u32)) = (16, dirent_at s (icache s i) k)"
    using b unfolding o by (simp add: read_result_def Let_def dirent_at_def file_dino min_def)
  then show "\<exists>s'. readi hw i (of_nat (16 * k)) 16 s = Inr ((16, dirent_at s (icache s i) k), s') \<and> looked r s s'"
    using readi_spec [OF hw tr rm fok, of "of_nat (16 * k)" 16] by simp
qed

lemma looked_dir:
  assumes "looked r s s'"
  shows "dir_ok s' i = dir_ok s i" "dirent_at s' = (dirent_at s :: 'b dinode_scheme \<Rightarrow> nat \<Rightarrow> u8 list)"
    "dir_pos s' = (dir_pos s :: 'b dinode_scheme \<Rightarrow> u8 list \<Rightarrow> nat option)"
    "dir_map s' = (dir_map s :: 'b dinode_scheme \<Rightarrow> u8 list \<Rightarrow> u16 option)"
proof -
  note L = lookedD [OF assms]
  show "dir_ok s' i = dir_ok s i" by (simp add: dir_ok_def L)
  show e: "dirent_at s' = (dirent_at s :: 'b dinode_scheme \<Rightarrow> nat \<Rightarrow> u8 list)"
    by (simp add: dirent_at_def dino_byte_def dino_addr_def Let_def L fun_eq_iff)
  show p: "dir_pos s' = (dir_pos s :: 'b dinode_scheme \<Rightarrow> u8 list \<Rightarrow> nat option)" by (simp add: dir_pos_def e fun_eq_iff)
  show "dir_map s' = (dir_map s :: 'b dinode_scheme \<Rightarrow> u8 list \<Rightarrow> u16 option)" by (simp add: dir_map_def e p fun_eq_iff)
qed

text \<open>The search, and then the inode that is got for the entry found.\<close>

lemma dirlookup_loop_spec:
  fixes s :: "'a fsst_scheme"
  assumes "virtio_blk hw" and "in_trans s" and "jr.room s (Suc r)" and "dir_ok s i" and "n \<le> dir_size (icache s i)"
  shows "\<exists>s'. looked r s s' \<and> dirlookup_loop hw i name (map (\<lambda>k. 16 * k) [m..<n]) s =
    (case List.find (\<lambda>k. names_entry (cname name) (dirent_at s (icache s i) k)) [m..<n] of
       None \<Rightarrow> Inr (None, s')
     | Some k \<Rightarrow> bnd (iget (i_dev (icache s i)) (ucast (de_inum (dirent_at s (icache s i) k))) s') (\<lambda>j. ret (Some (j, of_nat (16 * k)))))"
  using assms
proof (induction "n - m" arbitrary: m s)
  case 0
  then show ?case using looked_refl by (auto simp: ret_def)
next
  case (Suc l)
  then have m: "m < n" "m < dir_size (icache s i)" by simp_all
  have up: "[m..<n] = m # [Suc m..<n]" using m(1) by (rule upt_conv_Cons)
  let ?e = "dirent_at s (icache s i) m"
  obtain s1 where 1: "readi hw i (of_nat (16 * m)) 16 s = Inr ((16, ?e), s1)" "looked r s s1"
    using readi_entry(1) [OF Suc.prems(1-4) m(2)] by blast
  note L = lookedD [OF 1(2)] and D = looked_dir [OF 1(2)]
  have hit: "(de_inum ?e = 0 \<or> \<not> name_match name (de_name ?e) [0..<DIRSIZ]) \<longleftrightarrow> \<not> names_entry (cname name) ?e"
    by (auto simp: names_entry_def name_match_cname)
  show ?case
  proof (cases "names_entry (cname name) ?e")
    case True
    then show ?thesis using 1 hit by (auto simp: up L)
  next
    case False
    have "l = n - Suc m" using Suc.hyps(2) by simp
    moreover have "dir_ok s1 i" "n \<le> dir_size (icache s1 i)" using Suc.prems(4,5) D L by simp_all
    ultimately obtain s' where s': "looked r s1 s'" "dirlookup_loop hw i name (map (\<lambda>k. 16 * k) [Suc m..<n]) s1 =
      (case List.find (\<lambda>k. names_entry (cname name) (dirent_at s1 (icache s1 i) k)) [Suc m..<n] of None \<Rightarrow> Inr (None, s')
       | Some k \<Rightarrow> bnd (iget (i_dev (icache s1 i)) (ucast (de_inum (dirent_at s1 (icache s1 i) k))) s') (\<lambda>j. ret (Some (j, of_nat (16 * k)))))"
      using Suc.hyps(1) [of "Suc m" s1] Suc.prems(1) L(1,2) by blast
    have "dirlookup_loop hw i name (map (\<lambda>k. 16 * k) [m..<n]) s = dirlookup_loop hw i name (map (\<lambda>k. 16 * k) [Suc m..<n]) s1"
      using 1(1) False hit by (simp add: up)
    then show ?thesis using s'(2) [unfolded L(3) D(2)] looked_trans [OF 1(2) s'(1)] False by (auto simp: up)
  qed
qed

lemma dirlookup_spec:
  fixes s :: "'a fsst_scheme"
  assumes hw: "virtio_blk hw" and tr: "in_trans s" and rm: "jr.room s (Suc r)" and d: "dir_ok s i"
  shows "\<exists>s'. looked r s s' \<and> dirlookup hw i name s = (case dir_pos s (icache s i) (cname name) of None \<Rightarrow> Inr (None, s')
     | Some k \<Rightarrow> bnd (iget 0 (ucast (de_inum (dirent_at s (icache s i) k))) s') (\<lambda>j. ret (Some (j, of_nat (16 * k)))))"
proof -
  have "(unat (d_size (icache s i)) + 15) div 16 = dir_size (icache s i)" using d by (auto simp: dir_ok_def dir_size_def)
  then have "entries (unat (d_size (icache s i))) = map (\<lambda>k. 16 * k) [0..<dir_size (icache s i)]" by (simp add: entries_def)
  then have "dirlookup hw i name s = dirlookup_loop hw i name (map (\<lambda>k. 16 * k) [0..<dir_size (icache s i)]) s"
    using d by (simp add: dirlookup_def dir_ok_def)
  moreover have dev: "i_dev (icache s i) = 0" using d by (simp add: dir_ok_def file_ok_def)
  ultimately show ?thesis
    using dirlookup_loop_spec [OF hw tr rm d order_refl, of name 0, unfolded dev] by (simp only: dir_pos_def)
qed

section \<open>dirlink\<close>

text \<open>The first unused entry, or the one after the last.\<close>

definition free_entry :: "'a fsst_scheme \<Rightarrow> 'b dinode_scheme \<Rightarrow> nat \<Rightarrow> nat" where
  "free_entry s d m = (case List.find (\<lambda>k. de_inum (dirent_at s d k) = 0) [m..<dir_size d] of None \<Rightarrow> dir_size d | Some k \<Rightarrow> k)"

lemma dirlink_slot_spec:
  fixes s :: "'a fsst_scheme"
  assumes "virtio_blk hw" and "in_trans s" and "jr.room s (Suc r)" and "dir_ok s i" and "m \<le> dir_size (icache s i)"
  shows "\<exists>s'. dirlink_slot hw i (16 * dir_size (icache s i)) (map (\<lambda>k. 16 * k) [m..<dir_size (icache s i)]) s =
    Inr (16 * free_entry s (icache s i) m, s') \<and> looked r s s'"
  using assms
proof (induction "dir_size (icache s i) - m" arbitrary: m s)
  case 0
  then have "m = dir_size (icache s i)" by simp
  then show ?case using 0(3,4) looked_refl by (auto simp: ret_def free_entry_def)
next
  case (Suc l)
  then have m: "m < dir_size (icache s i)" by simp
  have up: "[m..<dir_size (icache s i)] = m # [Suc m..<dir_size (icache s i)]" using m by (rule upt_conv_Cons)
  let ?e = "dirent_at s (icache s i) m"
  obtain s1 where 1: "readi hw i (of_nat (16 * m)) 16 s = Inr ((16, ?e), s1)" "looked r s s1"
    using readi_entry(1) [OF Suc.prems(1-4) m] by blast
  note L = lookedD [OF 1(2)] and D = looked_dir [OF 1(2)]
  show ?case
  proof (cases "de_inum ?e = 0")
    case True
    then show ?thesis using 1 by (simp add: up free_entry_def ret_def)
  next
    case False
    have "l = dir_size (icache s1 i) - Suc m" "dir_ok s1 i" "Suc m \<le> dir_size (icache s1 i)"
      using Suc.hyps(2) Suc.prems(4) D L m by simp_all
    then obtain s' where s': "dirlink_slot hw i (16 * dir_size (icache s1 i)) (map (\<lambda>k. 16 * k) [Suc m..<dir_size (icache s1 i)]) s1 =
      Inr (16 * free_entry s1 (icache s1 i) (Suc m), s')" "looked r s1 s'"
      using Suc.hyps(1) [of s1 "Suc m"] Suc.prems(1) L(1,2) by blast
    have "free_entry s1 (icache s1 i) (Suc m) = free_entry s (icache s i) m"
      using False by (simp add: free_entry_def up L D del: upt_Suc)
    then show ?thesis using s' 1(1) False looked_trans [OF 1(2) s'(2)] by (simp add: up L)
  qed
qed

lemma free_entry_spec:
  "free_entry s d 0 \<le> dir_size d" "free_entry s d 0 < dir_size d \<Longrightarrow> de_inum (dirent_at s d (free_entry s d 0)) = 0"
  by (auto simp: free_entry_def split: option.split dest!: find_upt(1))

text \<open>The new entry.\<close>

lemma make_dirent_entry:
  "length (make_dirent v name) = 16" "de_inum (make_dirent v name) = v" "cname (de_name (make_dirent v name)) = cname name"
proof -
  have l: "length (le_bytes 2 v) = 2" by simp
  show "length (make_dirent v name) = 16" by (simp add: make_dirent_def DIRSIZ_def)
  show "de_inum (make_dirent v name) = v" by (simp add: make_dirent_def de_inum_def get_field_def le_word_le_bytes)
  have "map (de_name (make_dirent v name)) [0..<DIRSIZ] = map name [0..<DIRSIZ]"
    by (auto simp: de_name_def make_dirent_def nth_append)
  then show "cname (de_name (make_dirent v name)) = cname name" by (simp only: cname_def)
qed

text \<open>The first entry with a property, when entry \<open>k\<close>, which did not have it, is replaced or added.\<close>

lemma find_append:
  "List.find P (xs @ ys) = (case List.find P xs of None \<Rightarrow> List.find P ys | Some x \<Rightarrow> Some x)"
  by (induction xs) auto

lemma find_replaced:
  assumes k: "k \<le> n" "k < n \<longrightarrow> \<not> P k" and same: "\<forall>j < n. j \<noteq> k \<longrightarrow> Q j = P j"
  shows "\<not> Q k \<Longrightarrow> List.find Q [0..<max n (Suc k)] = List.find P [0..<n]"
    "Q k \<Longrightarrow> List.find P [0..<n] = None \<Longrightarrow> List.find Q [0..<max n (Suc k)] = Some k"
proof -
  assume nk: "\<not> Q k"
  have "List.find Q [0..<n] = List.find P [0..<n]" 
  proof (rule find_cong [OF refl])
    fix j assume "j \<in> set [0..<n]"
    then show "Q j = P j" using same k nk by (cases "j = k") auto
  qed
  moreover have "List.find Q [0..<max n (Suc k)] = List.find Q [0..<n]"
  proof (cases "k = n")
    case True
    then show ?thesis using nk by (simp add: max_def find_append split: option.split)
  next
    case False
    then have "max n (Suc k) = n" using k(1) by simp
    then show ?thesis by simp
  qed
  ultimately show "List.find Q [0..<max n (Suc k)] = List.find P [0..<n]" by simp
next
  assume q: "Q k" and none: "List.find P [0..<n] = None"
  have "\<not> Q j" if "j < k" for j using same find_upt(2) [OF none, of j] that k(1) by simp
  then show "List.find Q [0..<max n (Suc k)] = Some k" using q k(1) by (auto simp: find_Some_iff intro!: exI [of _ k])
qed

text \<open>What a write of an entry does to the map: at a place that was unused, or behind the last entry.\<close>

lemma entry_written:
  fixes s :: "'a fsst_scheme"
  assumes d: "dir_ok s i" "dir_ok s' i" and k: "k \<le> dir_size (icache s i)"
    and un: "k < dir_size (icache s i) \<Longrightarrow> de_inum (dirent_at s (icache s i) k) = 0"
    and w: "wrote i (16 * k) e s s'" "length e = 16" and b: "16 * k + 16 \<le> MAXFILE * BSIZE"
    and sz: "dir_size (icache s' i) = max (dir_size (icache s i)) (Suc k)"
  shows "de_inum e = 0 \<or> cname (de_name e) \<noteq> nm \<Longrightarrow> dir_map s' (icache s' i) nm = dir_map s (icache s i) nm"
    "names_entry nm e \<Longrightarrow> dir_map s (icache s i) nm = None \<Longrightarrow> dir_map s' (icache s' i) nm = Some (de_inum e)"
proof -
  let ?n = "dir_size (icache s i)"
  have szs: "16 * ?n \<le> MAXFILE * BSIZE" using d(1) by (simp add: dir_ok_def dir_size_def file_ok_def MAXFILE_def)
  have byte: "dino_byte s' (icache s' i) p = (if 16 * k \<le> p \<and> p < 16 * k + 16 then e ! (p - 16 * k) else dino_byte s (icache s i) p)"
    if "p < MAXFILE * BSIZE" for p using w that by (simp add: wrote_def file_dino)
  have new: "dirent_at s' (icache s' i) k = e"
    by (rule nth_equalityI) (use b w(2) byte in \<open>simp_all add: dirent_at_def\<close>)
  have old: "dirent_at s' (icache s' i) j = dirent_at s (icache s i) j" if "j \<noteq> k" "j < ?n" for j
  proof -
    have "16 * j + 16 \<le> MAXFILE * BSIZE" "16 * j + 16 \<le> 16 * k \<or> 16 * k + 16 \<le> 16 * j" using that szs by linarith+
    then show ?thesis using byte by (auto simp: dirent_at_def)
  qed
  let ?P = "\<lambda>j. names_entry nm (dirent_at s (icache s i) j)" and ?Q = "\<lambda>j. names_entry nm (dirent_at s' (icache s' i) j)"
  have pk: "k < ?n \<longrightarrow> \<not> ?P k" using un by (simp add: names_entry_def)
  have same: "\<forall>j < ?n. j \<noteq> k \<longrightarrow> ?Q j = ?P j" using old by simp
  note F = find_replaced [of k ?n ?P ?Q, OF k pk same]
  show "dir_map s' (icache s' i) nm = dir_map s (icache s i) nm" if "de_inum e = 0 \<or> cname (de_name e) \<noteq> nm"
  proof -
    have nq: "\<not> ?Q k" using that by (auto simp: new names_entry_def)
    have pos: "dir_pos s' (icache s' i) nm = dir_pos s (icache s i) nm" using F(1) [OF nq] by (simp add: dir_pos_def sz)
    have "dirent_at s' (icache s' i) j = dirent_at s (icache s i) j" if "dir_pos s (icache s i) nm = Some j" for j
    proof (rule old)
      show "j < ?n" "j \<noteq> k" using find_upt(1) [OF that [unfolded dir_pos_def]] pk by auto
    qed
    then show ?thesis by (simp add: dir_map_def pos split: option.split) (auto intro: option.map_cong0 simp: map_option_case split: option.split)
  qed
  show "dir_map s' (icache s' i) nm = Some (de_inum e)" if "names_entry nm e" "dir_map s (icache s i) nm = None"
  proof -
    have "?Q k" "List.find ?P [0..<?n] = None" using that by (simp_all add: new dir_map_def dir_pos_def)
    from F(2) [OF this] show ?thesis by (simp add: dir_map_def dir_pos_def sz new)
  qed
qed

text \<open>\<open>dirlink\<close> of a name that is not there.\<close>

lemma dirlink_spec:
  fixes s :: "'a fsst_scheme"
  assumes hw: "virtio_blk hw" and tr: "in_trans s" and rm: "jr.room s (Suc r + 7)" and W: "file_wf s i" and d: "dir_ok s i"
    and none: "dir_map s (icache s i) (cname name) = None" and bd: "unat (d_size (icache s i)) + 16 \<le> MAXFILE * BSIZE"
    and fr: "2 \<le> card (free_blocks s)" and nz: "ucast inum \<noteq> (0 :: u16)"
  shows "\<exists>s'. dirlink hw i name inum s = Inr (0, s') \<and> grown {inode_block s i} i s s' \<and> jr.room s' r \<and> dir_ok s' i \<and>
    dir_map s' (icache s' i) = (dir_map s (icache s i))(cname name \<mapsto> ucast inum) \<and>
    same_dinode (disk_inode s' (i_inum (icache s i))) (icache s' i) \<and>
    (\<forall>m. m \<noteq> i_inum (icache s i) \<longrightarrow> data_block s (IBLOCK m (fs_sb s)) \<longrightarrow> IBLOCK m (fs_sb s) \<notin> file_blocks s i \<longrightarrow>
       same_dinode (disk_inode s' m) (disk_inode s m))"
proof -
  let ?n = "dir_size (icache s i)" and ?k = "free_entry s (icache s i) 0" and ?e = "make_dirent (ucast inum) name"
  have rm0: "jr.room s (Suc (r + 7))" using rm by simp
  have dv: "unat (d_size (icache s i)) = 16 * ?n" using d by (auto simp: dir_ok_def dir_size_def)
  obtain s1 where 1: "looked (r + 7) s s1" "dirlookup hw i name s = Inr (None, s1)"
    using dirlookup_spec [OF hw tr rm0 d, of name] none by (auto simp: dir_map_def)
  note L1 = lookedD [OF 1(1)] and D1 = looked_dir [OF 1(1)]
  have d1: "dir_ok s1 i" using d D1 by simp
  obtain s2 where 2: "dirlink_slot hw i (16 * ?n) (map (\<lambda>k. 16 * k) [0..<?n]) s1 = Inr (16 * ?k, s2)" "looked (r + 7) s1 s2"
  proof -
    have "free_entry s1 (icache s1 i) 0 = ?k" by (simp add: free_entry_def D1 L1)
    then show ?thesis using dirlink_slot_spec [OF hw L1(1,2) d1, of 0] that by (auto simp: L1)
  qed
  have L: "looked (r + 7) s s2" by (rule looked_trans [OF 1(1) 2(2)])
  note L2 = lookedD [OF L] and D2 = looked_dir [OF L]
  have f: "fs_frame s s2" and v: "cview s2 = cview s" using L by (simp_all add: looked_def)
  have dk: "disk s2 = disk s" by (simp add: v)
  note S = same_file [OF f dk]
  have b: "16 * ?k + 16 \<le> MAXFILE * BSIZE" "16 * ?k \<le> unat (d_size (icache s i))" using free_entry_spec(1) [of s "icache s i"] bd dv by linarith+
  have lt: "16 * ?k < 2 ^ 31" using b by (simp add: MAXFILE_def NDIRECT_def NINDIRECT_def BSIZE_def)
  then have un: "unat (of_nat (16 * ?k) :: u32) = 16 * ?k" by (intro unat_of_nat_small) simp
  have off: "of_nat (16 * ?k) \<le> d_size (icache s2 i)" using b(2) by (simp only: word_le_nat_alt un L2)
  have c: "unat (of_nat (16 * ?k) :: u32) mod BSIZE + unat (16 :: u32) \<le> 1 * BSIZE"
  proof -
    have "16 * ?k mod BSIZE = 16 * (?k mod 64)" by (simp add: BSIZE_def mult_mod_right)
    moreover have "?k mod 64 < 64" by simp
    ultimately show ?thesis unfolding un by (simp add: BSIZE_def)
  qed
  have bd2: "unat (of_nat (16 * ?k) :: u32) + unat (16 :: u32) \<le> MAXFILE * BSIZE" unfolding un using b(1) by simp
  have W2: "file_wf s2 i" "2 * 1 \<le> card (free_blocks s2)" using W fr by (simp_all add: S)
  have r2: "jr.room s2 (7 * 1 + Suc r)" using L2(2) by (simp add: ac_simps)
  have u16: "unat (16 :: u32) = 16" by simp
  have le: "length ?e = unat (16 :: u32)" by (simp add: make_dirent_entry)
  from writei_spec [OF hw L2(1) W2(1) off bd2 le c r2 W2(2)] obtain s' where
    3: "writei hw i ?e (of_nat (16 * ?k)) 16 s2 = Inr (int 16, s')" "grown {inode_block s2 i} i s2 s'" "jr.room s' r"
      "wrote i (16 * ?k) ?e s2 s'" "d_size (icache s' i) = max (d_size (icache s2 i)) (of_nat (16 * ?k) + 16)"
      "(16 :: u32) \<noteq> 0 \<longrightarrow> same_dinode (disk_inode s' (i_inum (icache s2 i))) (icache s' i)"
      "\<forall>m. m \<noteq> i_inum (icache s2 i) \<longrightarrow> data_block s2 (IBLOCK m (fs_sb s2)) \<longrightarrow> IBLOCK m (fs_sb s2) \<notin> file_blocks s2 i \<longrightarrow>
       same_dinode (disk_inode s' m) (disk_inode s2 m)"
    unfolding un u16 by (elim exE conjE) (rule that; assumption)
  have usz: "unat (d_size (icache s' i)) = max (16 * ?n) (16 * ?k + 16)"
  proof -
    have "unat (of_nat (16 * ?k) + 16 :: u32) = 16 * ?k + 16" using un lt by (subst unat_add_lem [THEN iffD1]) simp_all
    then show ?thesis unfolding 3(5) L2 using dv by (auto simp: max_def word_le_nat_alt)
  qed
  have W': "file_wf s' i" and sf: "slot_frame i s2 s'" using 3(2) by (simp_all add: grown_def)
  have d': "dir_ok s' i"
    using file_wf_ok [OF W'] d slot_frameD(10) [OF sf] usz by (simp add: dir_ok_def L2 max_def)
  have n': "dir_size (icache s' i) = max ?n (Suc ?k)" unfolding dir_size_def usz by (simp add: max_def dir_size_def)
  have un': "?k < dir_size (icache s2 i) \<Longrightarrow> de_inum (dirent_at s2 (icache s2 i) ?k) = 0"
    using free_entry_spec(2) [of s "icache s i"] by (simp add: D2 L2)
  have k2: "?k \<le> dir_size (icache s2 i)" "dir_size (icache s' i) = max (dir_size (icache s2 i)) (Suc ?k)" "dir_ok s2 i"
    using free_entry_spec(1) [of s "icache s i"] n' d by (simp_all add: L2 D2)
  note E = entry_written [OF k2(3) d' k2(1) un' 3(4) make_dirent_entry(1) b(1) k2(2), unfolded D2 L2(3) make_dirent_entry(2,3)]
  have map: "dir_map s' (icache s' i) = (dir_map s (icache s i))(cname name \<mapsto> ucast inum)"
  proof (rule ext)
    fix nm
    show "dir_map s' (icache s' i) nm = ((dir_map s (icache s i))(cname name \<mapsto> ucast inum)) nm"
      using E(1) [of nm] E(2) [of nm] none nz by (cases "nm = cname name") (auto simp: names_entry_def make_dirent_entry)
  qed
  have "dirlink hw i name inum s = Inr (0, s')"
  proof -
    have "nat (sint (d_size (icache s1 i))) = 16 * ?n" using sint_nonneg [of "d_size (icache s i)"] dv bd
      by (simp add: L1 MAXFILE_def NDIRECT_def NINDIRECT_def BSIZE_def)
    then have "entries (nat (sint (d_size (icache s1 i)))) = map (\<lambda>k. 16 * k) [0..<?n]" by (simp add: entries_def)
    then show ?thesis using 1(2) 2(1) 3(1) by (simp add: dirlink_def Let_def ret_def)
  qed
  moreover have "grown {inode_block s i} i s s'"
  proof -
    have "grown {} i s s2" using extended_same [OF f v L2(1) W] by (simp add: extended_def)
    from grown_trans [OF grown_mono [OF this empty_subsetI] 3(2) [unfolded S]] show ?thesis .
  qed
  ultimately show ?thesis using 3(3,6,7) d' map by (simp add: S L2 disk_inode_def dk)
qed

section \<open>The root directory of a new file system\<close>

lemma mkfs_bitmap_block: "n < 1000 \<Longrightarrow> BBLOCK (of_nat n) mkfs_sb = 45"
  by (simp add: BBLOCK_def mkfs_sb_def BPB_def BSIZE_def word_unat_eq_iff unat_div_distrib unat_of_nat_small unat_word_ariths)

lemma fresh_data_block:
  assumes f: "fresh_fs s" and b: "32 \<le> unat b" "unat b < 47" "unat b \<noteq> 45"
  shows "data_block s b"
proof -
  have F: "fs_size s = 1000" "\<forall>n < 1000. block_used s n \<longleftrightarrow> n < 47" "fs_sb s = mkfs_sb" "lg_start s = 2" using f by (simp_all add: fresh_fs_def)
  have "usable b" using b by (auto simp: usable_def small_block_def word_unat_eq_iff)
  moreover have "b \<noteq> 45" using b by (auto simp: word_unat_eq_iff)
  ultimately show ?thesis using b F(2) mkfs_bitmap_block by (simp add: data_block_def fs_block_def F log_area_2)
qed

text \<open>The names of the root directory: the directory itself, twice.\<close>

definition root_map :: "u8 list \<Rightarrow> u16 option" where
  "root_map = [[ch CHR ''.''] \<mapsto> 1, [ch CHR ''.'', ch CHR ''.''] \<mapsto> 1]"

lemma root_dirents:
  "dirent_at s root_dinode 0 = mk_dirent 1 ''.''" "dirent_at s root_dinode 1 = mk_dirent 1 ''..''"
  if "disk s 46 = root_entries @ replicate (BSIZE - 32) 0"
proof -
  have l: "length (mk_dirent 1 ''.'') = 16" "length (mk_dirent 1 ''..'') = 16" by (simp_all add: length_mk_dirent DIRSIZ_def)
  have "length root_entries = 32" using l by (simp add: root_entries_def)
  then have b: "dino_byte s root_dinode p = root_entries ! p" if "p < 32" for p
    using that \<open>disk s 46 = _\<close> by (simp add: dino_byte_def dino_addr_def root_dinode_def NDIRECT_def BSIZE_def nth_append)
  show "dirent_at s root_dinode 0 = mk_dirent 1 ''.''" "dirent_at s root_dinode 1 = mk_dirent 1 ''..''"
    by (rule nth_equalityI; use l in \<open>simp add: dirent_at_def b root_entries_def nth_append del: upt_rec_numeral\<close>)+
qed

lemma mk_dirent_entry:
  assumes "length nn < DIRSIZ" and "0 \<notin> set (cstr nn)"
  shows "cname (de_name (mk_dirent v nn)) = cstr nn" "de_inum (mk_dirent v nn) = ucast v"
proof -
  have l: "length (le_bytes 2 (ucast v :: u16)) = 2" by simp
  have "map (de_name (mk_dirent v nn)) [0..<DIRSIZ] = cstr nn @ replicate (DIRSIZ - length nn) 0"
    using assms(1) by (intro nth_equalityI) (simp_all add: de_name_def mk_dirent_def nth_append cstr_def)
  moreover have "takeWhile (\<lambda>c. c \<noteq> 0) (cstr nn @ replicate (DIRSIZ - length nn) 0) = cstr nn"
  proof -
    have "\<forall>c \<in> set (cstr nn). c \<noteq> 0" using assms(2) by metis
    then have "takeWhile (\<lambda>c. c \<noteq> 0) (cstr nn @ replicate (DIRSIZ - length nn) 0) = cstr nn @ takeWhile (\<lambda>c. c \<noteq> 0) (replicate (DIRSIZ - length nn) 0)"
      by (simp add: takeWhile_append2)
    then show ?thesis by (cases "DIRSIZ - length nn") simp_all
  qed
  ultimately show "cname (de_name (mk_dirent v nn)) = cstr nn" by (simp only: cname_def)
  show "de_inum (mk_dirent v nn) = ucast v" by (simp add: mk_dirent_def de_inum_def get_field_def le_word_le_bytes)
qed

lemma fresh_root_map:
  assumes "fresh_fs s" and "same_dinode d root_dinode"
  shows "dir_map s d = root_map"
proof (rule ext)
  fix nm
  have dk: "disk s 46 = root_entries @ replicate (BSIZE - 32) 0" using assms(1) by (simp add: fresh_fs_def)
  note E = root_dirents [OF dk]
  have c: "cstr ''.'' = [ch CHR ''.'']" "cstr ''..'' = [ch CHR ''.'', ch CHR ''.'']" "ch CHR ''.'' \<noteq> 0"
    by (simp_all add: cstr_def ch_def)
  have n: "names_entry nm (mk_dirent 1 ''.'') \<longleftrightarrow> nm = [ch CHR ''.'']" "names_entry nm (mk_dirent 1 ''..'') \<longleftrightarrow> nm = [ch CHR ''.'', ch CHR ''.'']"
    "de_inum (mk_dirent 1 ''.'') = 1" "de_inum (mk_dirent 1 ''..'') = 1"
    using c by (auto simp: names_entry_def mk_dirent_entry DIRSIZ_def)
  have "dir_size root_dinode = 2" by (simp add: dir_size_def root_dinode_def)
  then have u: "[0..<dir_size root_dinode] = [0, 1]" by (simp add: upt_rec)
  have "dir_map s root_dinode nm = root_map nm"
    using n E(2) by (cases "nm = [ch CHR ''.'']"; cases "nm = [ch CHR ''.'', ch CHR ''.'']")
      (simp_all add: dir_map_def dir_pos_def u E root_map_def)
  then show "dir_map s d nm = root_map nm" using same_dinode_dir(1) [OF assms(2), of s] by simp
qed

text \<open>The root directory, got and locked in a new file system.\<close>

lemma root_loaded:
  fixes s :: "'a fsst_scheme"
  assumes f: "fresh_fs s" and hw: "virtio_blk hw"
  shows "\<exists>i s1 s2. iget ROOTDEV ROOTINO s = Inr (i, s1) \<and> ilock hw i s1 = Inr ((), s2) \<and> in_trans s2 \<and> jr.room s2 29 \<and>
    cview s2 = cview s \<and> fs_sb s2 = fs_sb s \<and> lg_start s2 = lg_start s \<and> same_dinode (icache s2 i) root_dinode \<and> i < NINODE \<and>
    i_dev (icache s2 i) = 0 \<and> i_inum (icache s2 i) = 1 \<and> i_ref (icache s2 i) = 1 \<and> icache_ok (icache s2) \<and>
    (\<forall>j < NINODE. j \<noteq> i \<longrightarrow> i_ref (icache s2 j) = 0)"
proof -
  have F: "in_trans s" "jr.room s 29" "\<forall>j < NINODE. i_ref (icache s j) = 0" "same_dinode (disk_inode s 1) root_dinode" "fs_sb s = mkfs_sb"
    using f by (simp_all add: fresh_fs_def)
  have ok: "icache_ok (icache s)" using F(3) by (simp add: icache_ok_def)
  have c0: "iref_count (icache s) 0 1 = 0" by (rule iref_count_none) (use F(3) in auto)
  have "\<exists>j < NINODE. i_ref (icache s j) = 0" using F(3) by (intro exI [of _ 0]) (simp add: NINODE_def)
  then have room: "\<not> (iref_count (icache s) 0 1 = 0 \<and> (\<forall>j < NINODE. i_ref (icache s j) \<noteq> 0))" by blast
  obtain i s1 where 1: "iget 0 1 s = Inr (i, s1)" "i < NINODE" "i_dev (icache s1 i) = 0" "i_inum (icache s1 i) = 1" "icache_ok (icache s1)"
    "\<forall>j. j \<noteq> i \<longrightarrow> icache s1 j = icache s j" "\<not> i_valid (icache s1 i)" "i_ref (icache s1 i) = 1"
    using iget_counts [OF ok room] c0 by blast
  obtain g where g: "s1 = upd_inode i g s" using iget_upd [OF 1(1)] by blast
  have tr: "in_trans s1" "jr.room s1 (Suc 28)" "cview s1 = cview s" "fs_sb s1 = fs_sb s" "lg_start s1 = lg_start s" using F by (simp_all add: g)
  have us: "usable (IBLOCK 1 (fs_sb s1))"
    by (simp add: tr(4) F(5) IBLOCK_def mkfs_sb_def IPB_def BSIZE_def usable_def small_block_def)
  have di: "disk_inode s1 1 = disk_inode s 1" by (simp add: disk_inode_def tr)
  have ty: "d_type (disk_inode s1 1) \<noteq> 0" using F(4) by (simp add: di same_dinode_def root_dinode_def T_DIR_def)
  have ref: "1 \<le> i_ref (icache s1 i)" using 1(8) by simp
  obtain s2 where 2: "ilock hw i s1 = Inr ((), s2)" "in_trans s2" "cview s2 = cview s1" "jr.room s2 (Suc 28)" "fs_sb s2 = fs_sb s1"
    "lg_start s2 = lg_start s1" "icache s2 = (icache s1)(i := (load_dinode (disk_inode s1 1) (icache s1 i))\<lparr>i_valid := True\<rparr>)"
    using ilock_spec [OF hw tr(1,2) 1(3) ref 1(7)] us ty unfolding 1(4) if_not_P [OF ty] by blast
  have refs: "i_ref (icache s2 j) = i_ref (icache s1 j)" "i_dev (icache s2 j) = i_dev (icache s1 j)" "i_inum (icache s2 j) = i_inum (icache s1 j)" for j
    by (simp_all add: 2(7) load_dinode_def)
  have "same_dinode (icache s2 i) root_dinode"
    using same_dinode_trans [OF _ F(4), of "icache s2 i"] by (simp add: 2(7) di)
  moreover have "icache_ok (icache s2)" using 1(5) by (simp only: icache_ok_def refs)
  ultimately show ?thesis
    using 1(1-4,6,8) 2(1-6) tr(3-5) F(3) by (intro exI [of _ i] exI [of _ s1] exI [of _ s2]) (simp add: ROOTDEV_def ROOTINO_def refs)
qed

lemma same_bitmap:
  assumes "disk s' = disk s" and "fs_sb s' = fs_sb s" and "lg_start s' = lg_start s"
  shows "data_block s' b = data_block s b" "bitmap_ok s' = bitmap_ok s" "free_blocks s' = free_blocks s"
proof -
  have u: "block_used s' n = block_used s n" "fs_size s' = fs_size s" "fs_block s' b = fs_block s b" for n b
    by (simp_all add: block_used_def fs_size_def fs_block_def assms)
  show "data_block s' b = data_block s b" "bitmap_ok s' = bitmap_ok s" "free_blocks s' = free_blocks s"
    by (simp_all add: data_block_def bitmap_ok_def free_blocks_def u assms(2))
qed

lemma root_directory:
  fixes s2 :: "'a fsst_scheme"
  assumes f: "fresh_fs s" and e: "cview s2 = cview s" "fs_sb s2 = fs_sb s" "lg_start s2 = lg_start s"
    and d: "same_dinode (icache s2 i) root_dinode" "i_dev (icache s2 i) = 0" "i_inum (icache s2 i) = 1"
  shows "dir_ok s2 i" "file_wf s2 i" "card (free_blocks s2) = 953" "dir_map s2 (icache s2 i) = root_map" "d_size (icache s2 i) = 32"
proof -
  have dk: "disk s2 = disk s" by (simp add: e(1))
  note B = same_bitmap [OF dk e(2,3)]
  have us: "usable 46" by (simp add: usable_def small_block_def)
  have a: "d_addrs (icache s2 i) k = (if k = 0 then 46 else 0)" if "k \<le> NDIRECT" for k
    using d(1) that by (auto simp: same_dinode_def root_dinode_def)
  have o: "owned s2 i k = (if k = 0 then 46 else 0)" for k
    using a [of k] a [of NDIRECT] by (auto simp: owned_def file_addr_def Let_def MAXFILE_def NDIRECT_def NINDIRECT_def BSIZE_def)
  show sz: "d_size (icache s2 i) = 32" using d(1) by (simp add: same_dinode_def root_dinode_def)
  have ib: "IBLOCK 1 (fs_sb s2) = 32" using f by (simp add: e fresh_fs_def IBLOCK_def mkfs_sb_def IPB_def BSIZE_def)
  show W: "file_wf s2 i"
    using f fresh_data_block [OF f, of 32] fresh_data_block [OF f, of 46]
    by (simp add: file_wf_def o d(2,3) ib B fresh_fs_def sz) (simp add: MAXFILE_def NDIRECT_def NINDIRECT_def BSIZE_def)
  show "dir_ok s2 i" using file_wf_ok [OF W] d(1) by (simp add: dir_ok_def sz same_dinode_def root_dinode_def)
  have "free_blocks s = {47..<1000}" using f by (auto simp: free_blocks_def fresh_fs_def)
  then show "card (free_blocks s2) = 953" by (simp add: B)
  show "dir_map s2 (icache s2 i) = root_map"
    using fresh_root_map [OF f d(1)] by (simp only: same_disk_dir(1) [OF dk])
qed

text \<open>The cache initialised, an image of \<open>mkfs\<close> mounted and a transaction begun.\<close>

lemma new_fs: "\<exists>s :: fsst. fresh_fs s"
proof -
  have f: "freeinode host_boot = 1" "\<not> f_cap host_boot < BSIZE * FSSIZE" by (simp_all add: host_boot_def BSIZE_def FSSIZE_def)
  obtain h where "mkfs_main 2 True host_boot = Inr ((), h)" "image_ok (sectors h)" using mkfs_spec [OF f(1), of 2 True] f(2) by auto
  then show ?thesis using mkfs_mounts [OF virtio_blk_prompt fsst_boot_ok [of "f_img h"]] by blast
qed

section \<open>Properties\<close>

lemma dir_map_pos:
  "dir_map s d nm = Some m \<Longrightarrow> \<exists>k. dir_pos s d nm = Some k \<and> k < dir_size d \<and> names_entry nm (dirent_at s d k) \<and> de_inum (dirent_at s d k) = m"
proof -
  assume "dir_map s d nm = Some m"
  then obtain k where k: "dir_pos s d nm = Some k" "de_inum (dirent_at s d k) = m" by (auto simp: dir_map_def)
  then show ?thesis using find_upt(1) [OF k(1) [unfolded dir_pos_def]] by blast
qed

text \<open>\<open>dirlookup\<close> of a name that is there, when a slot can be got for its inode.\<close>

lemma dirlookup_hit:
  fixes s :: "'a fsst_scheme"
  assumes hw: "virtio_blk hw" and tr: "in_trans s" and rm: "jr.room s (Suc r)" and d: "dir_ok s i" and ok: "icache_ok (icache s)"
    and m: "dir_map s (icache s i) (cname name) = Some m"
    and room: "\<not> (iref_count (icache s) 0 (ucast m) = 0 \<and> (\<forall>j < NINODE. i_ref (icache s j) \<noteq> 0))"
  shows "\<exists>j k s' s1 f. dirlookup hw i name s = Inr (Some (j, of_nat (16 * k)), s1) \<and> dir_pos s (icache s i) (cname name) = Some k \<and>
    looked r s s' \<and> iget 0 (ucast m) s' = Inr (j, s1) \<and> s1 = upd_inode j f s' \<and> j < NINODE \<and> i_dev (icache s1 j) = 0 \<and>
    i_inum (icache s1 j) = ucast m \<and> icache_ok (icache s1) \<and> 0 < i_ref (icache s1 j) \<and> (\<forall>l. l \<noteq> j \<longrightarrow> icache s1 l = icache s l) \<and>
    iref_count (icache s1) = add_ref 1 0 (ucast m) (iref_count (icache s)) \<and>
    (0 < iref_count (icache s) 0 (ucast m) \<longrightarrow> 0 < i_ref (icache s j) \<and> icache s1 j = (icache s j)\<lparr>i_ref := i_ref (icache s j) + 1\<rparr>) \<and>
    (iref_count (icache s) 0 (ucast m) = 0 \<longrightarrow> \<not> i_valid (icache s1 j) \<and> i_ref (icache s1 j) = 1 \<and> i_ref (icache s j) = 0)"
proof -
  obtain k where k: "dir_pos s (icache s i) (cname name) = Some k" "de_inum (dirent_at s (icache s i) k) = m"
    using dir_map_pos [OF m] by blast
  obtain s' where s': "looked r s s'"
    "dirlookup hw i name s = bnd (iget 0 (ucast m) s') (\<lambda>j. ret (Some (j, of_nat (16 * k))))"
    using dirlookup_spec [OF hw tr rm d, of name] k by auto
  have ic: "icache s' = icache s" using lookedD(3) [OF s'(1)] .
  obtain j s1 where g: "iget 0 (ucast m) s' = Inr (j, s1)" "j < NINODE" "i_dev (icache s1 j) = 0" "i_inum (icache s1 j) = ucast m"
    "icache_ok (icache s1)" "0 < i_ref (icache s1 j)" "\<forall>l. l \<noteq> j \<longrightarrow> icache s1 l = icache s l"
    "iref_count (icache s1) = add_ref 1 0 (ucast m) (iref_count (icache s))"
    "0 < iref_count (icache s) 0 (ucast m) \<longrightarrow> 0 < i_ref (icache s j) \<and> icache s1 j = (icache s j)\<lparr>i_ref := i_ref (icache s j) + 1\<rparr>"
    "iref_count (icache s) 0 (ucast m) = 0 \<longrightarrow> \<not> i_valid (icache s1 j) \<and> i_ref (icache s1 j) = 1 \<and> i_ref (icache s j) = 0"
    using iget_counts [of s' 0 "ucast m", unfolded ic, OF ok room] by blast
  obtain f where "s1 = upd_inode j f s'" using iget_upd [OF g(1)] by blast
  moreover have "dirlookup hw i name s = Inr (Some (j, of_nat (16 * k)), s1)" using s'(2) g(1) by (simp add: ret_def)
  ultimately show ?thesis using k(1) s'(1) g by blast
qed

text \<open>
  C19. In a directory, \<open>dirlookup\<close> finds what the directory, taken as a map from names to inode numbers, has for the
  name: nothing, or a slot of the inode cache for the first entry in use with the name, with the offset of the entry
  and one reference more to its inode and no other; it panics when no slot is left. No block changes.
\<close>

theorem dirlookup_finds:
  fixes s :: "'a fsst_scheme"
  assumes hw: "virtio_blk hw" and tr: "in_trans s" and rm: "jr.room s 1" and d: "dir_ok s i" and ok: "icache_ok (icache s)"
  shows "case dir_map s (icache s i) (cname name) of
      None \<Rightarrow> \<exists>s'. dirlookup hw i name s = Inr (None, s') \<and> disk s' = disk s \<and> icache s' = icache s
    | Some m \<Rightarrow>
        if iref_count (icache s) 0 (ucast m) = 0 \<and> (\<forall>j < NINODE. i_ref (icache s j) \<noteq> 0)
        then dirlookup hw i name s = Inl (Panic ''iget: no inodes'')
        else \<exists>j k s'. dirlookup hw i name s = Inr (Some (j, of_nat (16 * k)), s') \<and> dir_pos s (icache s i) (cname name) = Some k \<and>
          i_dev (icache s' j) = 0 \<and> i_inum (icache s' j) = ucast m \<and> disk s' = disk s \<and> icache_ok (icache s') \<and>
          iref_count (icache s') = add_ref 1 0 (ucast m) (iref_count (icache s))"
proof -
  have rm': "jr.room s (Suc 0)" using rm by simp
  show ?thesis
  proof (cases "dir_map s (icache s i) (cname name)")
    case None
    then show ?thesis using dirlookup_spec [OF hw tr rm' d, of name] lookedD by (fastforce simp: dir_map_def)
  next
    case (Some m)
    show ?thesis
    proof (cases "iref_count (icache s) 0 (ucast m) = 0 \<and> (\<forall>j < NINODE. i_ref (icache s j) \<noteq> 0)")
      case full: True
      obtain k where k: "dir_pos s (icache s i) (cname name) = Some k" "de_inum (dirent_at s (icache s i) k) = m"
        using dir_map_pos [OF Some] by blast
      obtain s' where s': "looked 0 s s'"
        "dirlookup hw i name s = bnd (iget 0 (ucast m) s') (\<lambda>j. ret (Some (j, of_nat (16 * k))))"
        using dirlookup_spec [OF hw tr rm' d, of name] k by auto
      have ic: "icache s' = icache s" using lookedD(3) [OF s'(1)] .
      have "iget 0 (ucast m) s' = Inl (Panic ''iget: no inodes'')" using iget_spec [of s' 0 "ucast m"] ok full by (simp add: ic)
      then show ?thesis using Some full s'(2) by simp
    next
      case False
      obtain j k s' s1 f where h: "dirlookup hw i name s = Inr (Some (j, of_nat (16 * k)), s1)" "dir_pos s (icache s i) (cname name) = Some k"
        "looked 0 s s'" "s1 = upd_inode j f s'" "i_dev (icache s1 j) = 0" "i_inum (icache s1 j) = ucast m" "icache_ok (icache s1)"
        "iref_count (icache s1) = add_ref 1 0 (ucast m) (iref_count (icache s))"
        using dirlookup_hit [OF hw tr rm' d ok Some False] by blast
      moreover have "disk s1 = disk s" using lookedD(5) [OF h(3)] by (simp add: h(4))
      ultimately show ?thesis using Some unfolding Some option.case if_not_P [OF False] by blast
    qed
  qed
qed

text \<open>The names \<open>..\<close> and \<open>x\<close>.\<close>

definition dotdot_name :: fname where
  "dotdot_name k = (if k < 2 then ch CHR ''.'' else 0)"

definition x_name :: fname where
  "x_name k = (if k = 0 then ch CHR ''x'' else 0)"

lemma some_names: "cname dotdot_name = [ch CHR ''.'', ch CHR ''.'']" "cname x_name = [ch CHR ''x'']"
  "root_map [ch CHR ''.'', ch CHR ''.''] = Some 1" "root_map [ch CHR ''x''] = None"
proof -
  have nz: "ch CHR ''.'' \<noteq> 0" "ch CHR ''x'' \<noteq> 0" "ch CHR ''x'' \<noteq> ch CHR ''.''" by (simp_all add: ch_def)
  then show "cname dotdot_name = [ch CHR ''.'', ch CHR ''.'']" "cname x_name = [ch CHR ''x'']"
    by (simp_all add: cname_def DIRSIZ_def upt_rec dotdot_name_def x_name_def)
  show "root_map [ch CHR ''.'', ch CHR ''.''] = Some 1" "root_map [ch CHR ''x''] = None" using nz by (simp_all add: root_map_def)
qed

theorem dirlookup_finds_witness:
  "\<exists>(s :: fsst) i j k s' s1. dir_ok s i \<and> dirlookup prompt_device i dotdot_name s = Inr (Some (j, k), s') \<and> i_inum (icache s' j) = 1 \<and>
    iref_count (icache s') 0 1 = 2 \<and> dirlookup prompt_device i x_name s = Inr (None, s1)"
proof -
  obtain s0 :: fsst where f: "fresh_fs s0" using new_fs by blast
  obtain i and s :: fsst where s: "in_trans s" "jr.room s 29" "cview s = cview s0" "fs_sb s = fs_sb s0" "lg_start s = lg_start s0"
    "same_dinode (icache s i) root_dinode" "i < NINODE" "i_dev (icache s i) = 0" "i_inum (icache s i) = 1" "i_ref (icache s i) = 1"
    "icache_ok (icache s)" using root_loaded [OF f virtio_blk_prompt] by blast
  note D = root_directory [OF f s(3-6,8,9)]
  have c: "iref_count (icache s) 0 (ucast (1 :: u16)) = 1" using iref_count_slot [OF s(11,7)] s(8-10) by simp
  then have nf: "\<not> (iref_count (icache s) 0 (ucast (1 :: u16)) = 0 \<and> (\<forall>j < NINODE. i_ref (icache s j) \<noteq> 0))" by simp
  have r: "jr.room s 1" by (rule jr.room_le [OF s(2)]) simp
  note L = dirlookup_finds [OF virtio_blk_prompt s(1) r D(1) s(11), unfolded D(4)]
  obtain j k s' where 1: "dirlookup prompt_device i dotdot_name s = Inr (Some (j, of_nat (16 * k)), s')" "i_inum (icache s' j) = ucast (1 :: u16)"
    "iref_count (icache s') = add_ref 1 0 (ucast (1 :: u16)) (iref_count (icache s))"
    using L [of dotdot_name, unfolded some_names option.case if_not_P [OF nf]] by blast
  have "iref_count (icache s') 0 1 = 2" using 1(3) c by (simp add: add_ref_def)
  moreover have "i_inum (icache s' j) = 1" using 1(2) by simp
  ultimately show ?thesis using L [of x_name, unfolded some_names option.case] 1(1) D(1) by blast
qed

text \<open>
  C18. \<open>dirlink\<close> of a name the directory does not have returns 0 and adds exactly this pair to the directory's map,
  which \<open>dirlookup\<close> then finds; the inode table has the directory's inode, and no other inode or file changes. A
  name that is there is refused with -1, and neither the disk nor a reference count changes.
\<close>

theorem dirlink_extends_map:
  fixes s :: "'a fsst_scheme"
  assumes hw: "virtio_blk hw" and tr: "in_trans s" and rm: "jr.room s 8" and W: "file_wf s i" and d: "dir_ok s i"
    and ok: "icache_ok (icache s)" and slot: "\<exists>j < NINODE. i_ref (icache s j) = 0"
    and bd: "unat (d_size (icache s i)) + 16 \<le> MAXFILE * BSIZE" and fr: "2 \<le> card (free_blocks s)" and nz: "ucast inum \<noteq> (0 :: u16)"
  shows "case dir_map s (icache s i) (cname name) of
      Some m \<Rightarrow> \<exists>s'. dirlink hw i name inum s = Inr (-1, s') \<and> disk s' = disk s \<and> iref_count (icache s') = iref_count (icache s)
    | None \<Rightarrow> \<exists>s'. dirlink hw i name inum s = Inr (0, s') \<and> in_trans s' \<and> dir_ok s' i \<and> file_wf s' i \<and>
        dir_map s' (icache s' i) = (dir_map s (icache s i))(cname name \<mapsto> ucast inum) \<and>
        same_dinode (disk_inode s' (i_inum (icache s i))) (icache s' i) \<and>
        (\<forall>n. n \<noteq> i_inum (icache s i) \<longrightarrow> data_block s (IBLOCK n (fs_sb s)) \<longrightarrow> IBLOCK n (fs_sb s) \<notin> file_blocks s i \<longrightarrow>
           same_dinode (disk_inode s' n) (disk_inode s n)) \<and>
        (\<forall>j. j \<noteq> i \<longrightarrow> icache s' j = icache s j \<and> (file_wf s j \<longrightarrow> file_blocks s j \<inter> insert (inode_block s i) (file_blocks s i) = {} \<longrightarrow>
           (\<forall>p < MAXFILE * BSIZE. file_byte s' j p = file_byte s j p)))"
proof (cases "dir_map s (icache s i) (cname name)")
  case None
  have rm': "jr.room s (Suc 0 + 7)" using rm by simp
  obtain s' where s': "dirlink hw i name inum s = Inr (0, s')" "grown {inode_block s i} i s s'" "dir_ok s' i"
    "dir_map s' (icache s' i) = (dir_map s (icache s i))(cname name \<mapsto> ucast inum)"
    "same_dinode (disk_inode s' (i_inum (icache s i))) (icache s' i)"
    "\<forall>n. n \<noteq> i_inum (icache s i) \<longrightarrow> data_block s (IBLOCK n (fs_sb s)) \<longrightarrow> IBLOCK n (fs_sb s) \<notin> file_blocks s i \<longrightarrow>
           same_dinode (disk_inode s' n) (disk_inode s n)"
    using dirlink_spec [OF hw tr rm' W d None bd fr nz] by (elim exE conjE) (rule that; assumption)
  have "\<forall>p < MAXFILE * BSIZE. file_byte s' j p = file_byte s j p"
    if "j \<noteq> i" "file_wf s j" "file_blocks s j \<inter> insert (inode_block s i) (file_blocks s i) = {}" for j
    using other_file(2) [OF s'(2) that(1,2)] that(3) by simp
  moreover have "in_trans s'" "file_wf s' i" "\<forall>j. j \<noteq> i \<longrightarrow> icache s' j = icache s j" using s'(2) by (simp_all add: grown_def slot_frame_def)
  ultimately show ?thesis using s'(1,3-6) unfolding None option.case by blast
next
  case (Some m)
  have rm': "jr.room s (Suc 7)" using rm by simp
  have room: "\<not> (iref_count (icache s) 0 (ucast m) = 0 \<and> (\<forall>j < NINODE. i_ref (icache s j) \<noteq> 0))" using slot by blast
  obtain j k s' s1 f where h: "dirlookup hw i name s = Inr (Some (j, of_nat (16 * k)), s1)"
    "looked 7 s s'" "s1 = upd_inode j f s'" "j < NINODE" "i_dev (icache s1 j) = 0" "i_inum (icache s1 j) = ucast m"
    "icache_ok (icache s1)" "0 < i_ref (icache s1 j)" "iref_count (icache s1) = add_ref 1 0 (ucast m) (iref_count (icache s))"
    "0 < iref_count (icache s) 0 (ucast m) \<longrightarrow> 0 < i_ref (icache s j) \<and> icache s1 j = (icache s j)\<lparr>i_ref := i_ref (icache s j) + 1\<rparr>"
    "iref_count (icache s) 0 (ucast m) = 0 \<longrightarrow> \<not> i_valid (icache s1 j) \<and> i_ref (icache s1 j) = 1 \<and> i_ref (icache s j) = 0"
    using dirlookup_hit [OF hw tr rm' d ok Some room] by blast
  have "0 \<le> iref_count (icache s) 0 (ucast m)" by (auto simp: iref_count_def split: option.split dest!: find_upt(1))
  then have "i_ref (icache s1 j) \<noteq> 1 \<or> \<not> i_valid (icache s1 j) \<or> d_nlink (icache s1 j) \<noteq> 0"
    using h(10,11) by (cases "iref_count (icache s) 0 (ucast m) = 0") auto
  note P = iput_counts [OF h(7,4,8) this, unfolded h(5,6,9) add_ref_undo]
  have "dirlink hw i name inum s = Inr (-1, upd_inode j (\<lambda>ip. ip\<lparr>i_ref := i_ref ip - 1\<rparr>) s1)"
    using h(1) P(1) by (simp add: dirlink_def ret_def)
  moreover have "disk (upd_inode j (\<lambda>ip. ip\<lparr>i_ref := i_ref ip - 1\<rparr>) s1) = disk s" using lookedD(5) [OF h(2)] by (simp add: h(3))
  ultimately show ?thesis using P(3) unfolding Some option.case by blast
qed

theorem dirlink_extends_map_witness:
  "\<exists>(s :: fsst) i s' s1. dir_ok s i \<and> dirlink prompt_device i x_name 2 s = Inr (0, s') \<and>
    dir_map s' (icache s' i) = root_map([ch CHR ''x''] \<mapsto> 2) \<and> dirlink prompt_device i dotdot_name 2 s = Inr (-1, s1) \<and> disk s1 = disk s"
proof -
  obtain s0 :: fsst where f: "fresh_fs s0" using new_fs by blast
  obtain i and s :: fsst where s: "in_trans s" "jr.room s 29" "cview s = cview s0" "fs_sb s = fs_sb s0" "lg_start s = lg_start s0"
    "same_dinode (icache s i) root_dinode" "i < NINODE" "i_dev (icache s i) = 0" "i_inum (icache s i) = 1" "icache_ok (icache s)"
    "\<forall>j < NINODE. j \<noteq> i \<longrightarrow> i_ref (icache s j) = 0" using root_loaded [OF f virtio_blk_prompt] by blast
  note D = root_directory [OF f s(3-6,8,9)]
  have r: "jr.room s 8" by (rule jr.room_le [OF s(2)]) simp
  have "(if i = 0 then 1 else 0 :: nat) < NINODE" "(if i = 0 then 1 else 0) \<noteq> i" by (simp_all add: NINODE_def)
  then have slot: "\<exists>j < NINODE. i_ref (icache s j) = 0" using s(11) by blast
  have n: "unat (d_size (icache s i)) + 16 \<le> MAXFILE * BSIZE" "2 \<le> card (free_blocks s)" "ucast (2 :: u32) \<noteq> (0 :: u16)"
    by (simp_all add: D(3,5) MAXFILE_def NDIRECT_def NINDIRECT_def BSIZE_def)
  note L = dirlink_extends_map [OF virtio_blk_prompt s(1) r D(2,1) s(10) slot n, unfolded D(4)]
  obtain s' where "dirlink prompt_device i x_name 2 s = Inr (0, s')" "dir_map s' (icache s' i) = root_map(cname x_name \<mapsto> ucast (2 :: u32))"
    using L [of x_name, unfolded some_names option.case] unfolding some_names by blast
  moreover obtain s1 where "dirlink prompt_device i dotdot_name 2 s = Inr (-1, s1)" "disk s1 = disk s"
    using L [of dotdot_name, unfolded some_names option.case] by blast
  ultimately show ?thesis using D(1) unfolding some_names by auto
qed

end
