(* ===== verification/FsPath.thy ===== *)
theory FsPath
  imports FsDir
begin

text \<open>
  Paths: \<open>skipelem\<close> against the splitting of the path at its slashes, and \<open>namei\<close> and \<open>nameiparent\<close> against
  the walk through the tree of directories on the disk.
\<close>

section \<open>The names of a path\<close>

text \<open>The pieces between slashes; the names are the pieces that are not empty, cut to 14 bytes.\<close>

definition split_slash :: "u8 list \<Rightarrow> u8 list list" where
  "split_slash p = foldr (\<lambda>c es. if c = slash then [] # es else (c # hd es) # tl es) p [[]]"

definition pieces :: "u8 list \<Rightarrow> u8 list list" where
  "pieces p = filter (\<lambda>e. e \<noteq> []) (split_slash p)"

definition path_names :: "u8 list \<Rightarrow> u8 list list" where
  "path_names p = map (take DIRSIZ) (pieces p)"

lemma split_slash_simps:
  "split_slash [] = [[]]" "split_slash (c # p) = (if c = slash then [] # split_slash p else (c # hd (split_slash p)) # tl (split_slash p))"
  by (simp_all add: split_slash_def)

lemma split_slash_unfold:
  "split_slash p = takeWhile (\<lambda>c. c \<noteq> slash) p # (case dropWhile (\<lambda>c. c \<noteq> slash) p of [] \<Rightarrow> [] | c # r \<Rightarrow> split_slash r)"
  by (induction p) (auto simp: split_slash_simps)

lemma pieces_simps:
  "pieces [] = []" "pieces (slash # p) = pieces p"
  by (simp_all add: pieces_def split_slash_simps)

lemma pieces_drop: "pieces (dropWhile (\<lambda>c. c = slash) p) = pieces p"
  by (induction p) (auto simp: pieces_simps)

text \<open>The first name of a path that does not begin with a slash, and the rest.\<close>

lemma pieces_first:
  assumes "p \<noteq> []" and "hd p \<noteq> slash"
  shows "pieces p = takeWhile (\<lambda>c. c \<noteq> slash) p # pieces (dropWhile (\<lambda>c. c \<noteq> slash) p)"
proof -
  let ?r = "dropWhile (\<lambda>c. c \<noteq> slash) p"
  have e: "takeWhile (\<lambda>c. c \<noteq> slash) p \<noteq> []" using assms by (cases p) auto
  show ?thesis
  proof (cases ?r)
    case Nil
    have "split_slash p = [takeWhile (\<lambda>c. c \<noteq> slash) p]" using split_slash_unfold [of p] unfolding Nil by simp
    then show ?thesis using e unfolding Nil by (simp add: pieces_def split_slash_simps(1))
  next
    case (Cons c r)
    then have "c = slash" using hd_dropWhile [of "\<lambda>c. c \<noteq> slash" p] by simp
    have "split_slash p = takeWhile (\<lambda>c. c \<noteq> slash) p # split_slash r" using split_slash_unfold [of p] unfolding Cons by simp
    then show ?thesis using e \<open>c = slash\<close> unfolding Cons by (simp add: pieces_def split_slash_simps(2))
  qed
qed

lemma skipelem_pieces:
  "case pieces path of [] \<Rightarrow> skipelem path name = None
   | e # es \<Rightarrow> \<exists>rest. skipelem path name = Some (rest, copy_name e name) \<and> pieces rest = es \<and> (rest = [] \<longleftrightarrow> es = []) \<and>
       set e \<subseteq> set path \<and> set rest \<subseteq> set path"
proof -
  let ?p = "dropWhile (\<lambda>c. c = slash) path"
  show ?thesis
  proof (cases "?p = []")
    case True
    have "pieces path = []" using pieces_drop [of path] unfolding True by (simp add: pieces_simps)
    then show ?thesis using True by (simp add: skipelem_def)
  next
    case False
    then have h: "hd ?p \<noteq> slash" using hd_dropWhile by blast
    let ?e = "takeWhile (\<lambda>c. c \<noteq> slash) ?p" and ?q = "dropWhile (\<lambda>c. c \<noteq> slash) ?p"
    let ?r = "dropWhile (\<lambda>c. c = slash) ?q"
    have 1: "pieces path = ?e # pieces ?r" using pieces_first [OF False h] pieces_drop by metis
    have ne: "pieces ?r \<noteq> []" if "?r \<noteq> []"
    proof -
      have "hd ?r \<noteq> slash" using that hd_dropWhile by blast
      from pieces_first [OF that this] show ?thesis by simp
    qed
    have 2: "?r = [] \<longleftrightarrow> pieces ?r = []" by (metis ne pieces_simps(1))
    have "set ?e \<subseteq> set path" "set ?r \<subseteq> set path" by (auto dest!: set_takeWhileD set_dropWhileD)
    moreover have "skipelem path name = Some (?r, copy_name ?e name)" using False by (simp add: skipelem_def Let_def)
    ultimately show ?thesis using 2 unfolding 1 list.case by blast
  qed
qed

lemma cname_copy_name:
  assumes "0 \<notin> set e"
  shows "cname (copy_name e name) = take DIRSIZ e"
proof (cases "length e < DIRSIZ")
  case False
  then have "map (copy_name e name) [0..<DIRSIZ] = take DIRSIZ e" by (intro nth_equalityI) (auto simp: copy_name_def)
  moreover have "\<forall>c \<in> set (take DIRSIZ e). c \<noteq> 0" using assms by (metis in_set_takeD)
  ultimately show ?thesis by (simp add: cname_def takeWhile_eq_all_conv)
next
  case True
  have "[0..<DIRSIZ] = [0..<length e] @ length e # [Suc (length e)..<DIRSIZ]"
    using True upt_add_eq_append [of 0 "length e" "DIRSIZ - length e"] upt_conv_Cons [OF True] by simp
  moreover have "map (copy_name e name) [0..<length e] = e" using True by (intro nth_equalityI) (auto simp: copy_name_def)
  moreover have "copy_name e name (length e) = 0" using True by (simp add: copy_name_def)
  ultimately have "map (copy_name e name) [0..<DIRSIZ] = e @ 0 # map (copy_name e name) [Suc (length e)..<DIRSIZ]" by simp
  moreover have "\<forall>c \<in> set e. c \<noteq> 0" using assms by metis
  ultimately show ?thesis using True by (simp add: cname_def takeWhile_append2)
qed

section \<open>The tree of directories on the disk\<close>

text \<open>The inodes of a tree: in use, linked, and closed under the entries of directories.\<close>

definition tree_inode :: "'a fsst_scheme \<Rightarrow> u32 set \<Rightarrow> u32 \<Rightarrow> bool" where
  "tree_inode s R n \<longleftrightarrow> (let d = disk_inode s n in
     usable (IBLOCK n (fs_sb s)) \<and> d_type d \<noteq> 0 \<and> d_nlink d \<noteq> 0 \<and>
     (d_type d = T_DIR \<longrightarrow> dino_ok s d \<and> 16 dvd unat (d_size d) \<and> (\<forall>nm m. dir_map s d nm = Some m \<longrightarrow> ucast m \<in> R)))"

definition fs_tree :: "'a fsst_scheme \<Rightarrow> u32 set \<Rightarrow> bool" where
  "fs_tree s R \<longleftrightarrow> (\<forall>n \<in> R. tree_inode s R n)"

text \<open>The inode a name leads to, and the one a list of names leads to.\<close>

definition dir_entry :: "'a fsst_scheme \<Rightarrow> u32 \<Rightarrow> u8 list \<Rightarrow> u32 option" where
  "dir_entry s n nm = (if d_type (disk_inode s n) = T_DIR then map_option ucast (dir_map s (disk_inode s n) nm) else None)"

fun walk :: "'a fsst_scheme \<Rightarrow> u32 \<Rightarrow> u8 list list \<Rightarrow> u32 option" where
  "walk s n [] = Some n"
| "walk s n (e # es) = (case dir_entry s n e of None \<Rightarrow> None | Some m \<Rightarrow> walk s m es)"

text \<open>What a path leads to from inode \<open>n\<close>: its inode, or with \<open>parent\<close> the directory of its last name.\<close>

definition target :: "'a fsst_scheme \<Rightarrow> u32 \<Rightarrow> bool \<Rightarrow> u8 list list \<Rightarrow> u32 option" where
  "target s n parent nms =
     (if \<not> parent then walk s n nms
      else if nms = [] then None
      else (case walk s n (butlast nms) of None \<Rightarrow> None | Some d \<Rightarrow> if d_type (disk_inode s d) = T_DIR then Some d else None))"

lemma target_simps:
  "target s n parent [] = (if parent then None else Some n)"
  "target s n parent (e # es) =
    (if d_type (disk_inode s n) \<noteq> T_DIR then None
     else if parent \<and> es = [] then Some n
     else (case dir_entry s n e of None \<Rightarrow> None | Some m \<Rightarrow> target s m parent es))"
  by (auto simp: target_def dir_entry_def split: option.split)

section \<open>Cached inodes of the tree\<close>

text \<open>What is cached of an inode of the tree is what the inode table has.\<close>

definition cached_ok :: "'a fsst_scheme \<Rightarrow> u32 set \<Rightarrow> bool" where
  "cached_ok s R \<longleftrightarrow> icache_ok (icache s) \<and> (\<forall>j < NINODE. 0 < i_ref (icache s j) \<longrightarrow> i_valid (icache s j) \<longrightarrow>
     i_dev (icache s j) = 0 \<longrightarrow> i_inum (icache s j) \<in> R \<longrightarrow> same_dinode (icache s j) (disk_inode s (i_inum (icache s j))))"

text \<open>Slot \<open>i\<close> refers to inode \<open>n\<close>.\<close>

definition slot_of :: "'a fsst_scheme \<Rightarrow> nat \<Rightarrow> u32 \<Rightarrow> bool" where
  "slot_of s i n \<longleftrightarrow> i < NINODE \<and> 0 < i_ref (icache s i) \<and> i_dev (icache s i) = 0 \<and> i_inum (icache s i) = n"

text \<open>The slots that are free, once the reference held to slot \<open>i\<close> is given up.\<close>

definition free_slots_but :: "'a fsst_scheme \<Rightarrow> nat \<Rightarrow> nat set" where
  "free_slots_but s i = {l. l < NINODE \<and> (i_ref (icache s l) = 0 \<or> l = i \<and> i_ref (icache s l) = 1)}"

text \<open>The blocks are the same.\<close>

definition same_blocks :: "nat \<Rightarrow> 'a fsst_scheme \<Rightarrow> 'a fsst_scheme \<Rightarrow> bool" where
  "same_blocks r s s' \<longleftrightarrow> in_trans s' \<and> cview s' = cview s \<and> fs_sb s' = fs_sb s \<and> jr.room s' (Suc r)"

lemma same_blocks_refl: "in_trans s \<Longrightarrow> jr.room s (Suc r) \<Longrightarrow> same_blocks r s s"
  by (simp add: same_blocks_def)

lemma same_blocks_trans: "same_blocks r s s' \<Longrightarrow> same_blocks r s' s'' \<Longrightarrow> same_blocks r s s''"
  by (simp add: same_blocks_def)

lemma same_blocks_upd: "same_blocks r s s' \<Longrightarrow> same_blocks r s (upd_inode i f s')"
  by (simp add: same_blocks_def)

lemma looked_same_blocks: "looked r s s' \<Longrightarrow> same_blocks r s s'"
  using lookedD by (fastforce simp: looked_def same_blocks_def)

lemma same_blocksD:
  assumes "same_blocks r s s'"
  shows "in_trans s'" "jr.room s' (Suc r)" "disk_inode s' n = disk_inode s n" "disk s' = disk s"
    "fs_tree s' R = fs_tree s R" "dir_entry s' n = dir_entry s n" "target s' n = target s n" "fs_sb s' = fs_sb s"
proof -
  have v: "disk s' = disk s" and sb: "fs_sb s' = fs_sb s" using assms by (simp_all add: same_blocks_def)
  show "in_trans s'" "jr.room s' (Suc r)" "disk s' = disk s" "fs_sb s' = fs_sb s" using assms by (simp_all add: same_blocks_def)
  note D = same_disk_dir [OF v]
  show di: "disk_inode s' n = disk_inode s n" for n by (simp add: disk_inode_def v sb)
  show "fs_tree s' R = fs_tree s R" by (simp add: fs_tree_def tree_inode_def di D sb)
  show de: "dir_entry s' n = dir_entry s n" for n by (simp add: dir_entry_def di D fun_eq_iff)
  have "walk s' n nms = walk s n nms" for n nms by (induction nms arbitrary: n) (auto simp: de split: option.split)
  then show "target s' n = target s n" by (simp add: target_def di fun_eq_iff split: option.split)
qed

section \<open>The steps of a walk\<close>

lemma ilock_tree:
  fixes s :: "'a fsst_scheme"
  assumes hw: "virtio_blk hw" and tr: "in_trans s" and rm: "jr.room s (Suc r)" and c: "cached_ok s R" and t: "fs_tree s R"
    and i: "slot_of s i n" and n: "n \<in> R"
  shows "\<exists>s'. ilock hw i s = Inr ((), s') \<and> same_blocks r s s' \<and> cached_ok s' R \<and> slot_of s' i n \<and>
    same_dinode (icache s' i) (disk_inode s n) \<and> free_slots_but s' i = free_slots_but s i \<and> iref_count (icache s') = iref_count (icache s)"
proof (cases "i_valid (icache s i)")
  case True
  then have "ilock hw i s = Inr ((), s)" using i by (simp add: ilock_def slot_of_def ret_def)
  moreover have "same_dinode (icache s i) (disk_inode s n)" using c i n True by (auto simp: cached_ok_def slot_of_def)
  ultimately show ?thesis using c i same_blocks_refl [OF tr rm] by blast
next
  case False
  let ?ic = "(icache s)(i := (load_dinode (disk_inode s n) (icache s i))\<lparr>i_valid := True\<rparr>)"
  have I: "i < NINODE" "1 \<le> i_ref (icache s i)" "i_dev (icache s i) = 0" "i_inum (icache s i) = n" using i by (simp_all add: slot_of_def)
  have T: "usable (IBLOCK n (fs_sb s))" "d_type (disk_inode s n) \<noteq> 0" using t n by (simp_all add: fs_tree_def tree_inode_def Let_def)
  obtain s' where s': "ilock hw i s = Inr ((), s')" "in_trans s'" "cview s' = cview s" "jr.room s' (Suc r)" "fs_sb s' = fs_sb s"
    "icache s' = ?ic"
    using ilock_spec [OF hw tr rm I(3,2) False] T unfolding I(4) if_not_P [OF T(2)] by blast
  have B: "same_blocks r s s'" using s' by (simp add: same_blocks_def)
  have refs: "i_ref (?ic j) = i_ref (icache s j)" "i_dev (?ic j) = i_dev (icache s j)" "i_inum (?ic j) = i_inum (icache s j)" for j
    by (simp_all add: load_dinode_def)
  have cnt: "iref_count ?ic = iref_count (icache s)" "icache_ok ?ic = icache_ok (icache s)"
    by (simp_all only: iref_count_def icache_ok_def refs fun_eq_iff) (auto split: option.split)
  have sd: "same_dinode (icache s' i) (disk_inode s n)" by (simp add: s'(6))
  have C: "cached_ok s' R"
    unfolding cached_ok_def
  proof (intro conjI allI impI)
    show "icache_ok (icache s')" using c cnt(2) by (simp add: s'(6) cached_ok_def)
    fix j assume j: "j < NINODE" "0 < i_ref (icache s' j)" "i_valid (icache s' j)" "i_dev (icache s' j) = 0" "i_inum (icache s' j) \<in> R"
    show "same_dinode (icache s' j) (disk_inode s' (i_inum (icache s' j)))"
    proof (cases "j = i")
      case True
      then have "i_inum (icache s' j) = n" using I(4) refs(3) [of i] by (simp only: s'(6))
      then show ?thesis using True sd same_blocksD(3) [OF B] by simp
    next
      case False
      then show ?thesis using c j same_blocksD(3) [OF B] by (simp add: cached_ok_def s'(6))
    qed
  qed
  have r': "i_ref (icache s' j) = i_ref (icache s j)" "i_dev (icache s' j) = i_dev (icache s j)"
    "i_inum (icache s' j) = i_inum (icache s j)" for j by (simp_all only: s'(6) refs)
  have "slot_of s' i n" "free_slots_but s' i = free_slots_but s i" using i by (simp_all add: slot_of_def free_slots_but_def r')
  then show ?thesis using s'(1) B C sd cnt(1) [folded s'(6)] by blast
qed

text \<open>Giving up a slot of the tree.\<close>

lemma iunlockput_tree:
  fixes s :: "'a fsst_scheme"
  assumes c: "cached_ok s R" and t: "fs_tree s R" and i: "slot_of s i n" and n: "n \<in> R" and tr: "in_trans s" and rm: "jr.room s (Suc r)"
  defines "s' \<equiv> upd_inode i (\<lambda>ip. ip\<lparr>i_ref := i_ref ip - 1\<rparr>) s"
  shows "iunlockput hw i s = Inr ((), s')" "iput hw i s = Inr ((), s')" "same_blocks r s s'" "cached_ok s' R"
    "iref_count (icache s') = add_ref (-1) 0 n (iref_count (icache s))"
proof -
  have I: "i < NINODE" "0 < i_ref (icache s i)" "i_dev (icache s i) = 0" "i_inum (icache s i) = n" using i by (simp_all add: slot_of_def)
  have ok: "icache_ok (icache s)" using c by (simp add: cached_ok_def)
  have "d_nlink (icache s i) \<noteq> 0" if "i_valid (icache s i)"
  proof -
    have "same_dinode (icache s i) (disk_inode s n)" using c I n that by (auto simp: cached_ok_def)
    then show ?thesis using t n by (simp add: fs_tree_def tree_inode_def Let_def same_dinode_def)
  qed
  then have keep: "i_ref (icache s i) \<noteq> 1 \<or> \<not> i_valid (icache s i) \<or> d_nlink (icache s i) \<noteq> 0" by blast
  note P = iput_counts [OF ok I(1,2) keep, folded s'_def, unfolded I(3,4)]
  show "iput hw i s = Inr ((), s')" by (rule P(1))
  then show "iunlockput hw i s = Inr ((), s')" using I(2) by (simp add: iunlockput_def iunlock_def ret_def)
  show B: "same_blocks r s s'" unfolding s'_def by (rule same_blocks_upd [OF same_blocks_refl [OF tr rm]])
  show "iref_count (icache s') = add_ref (-1) 0 n (iref_count (icache s))" by (rule P(3))
  have "same_dinode (ip\<lparr>i_ref := v\<rparr>) d = same_dinode ip d" for ip :: inode and v and d :: dinode by (simp add: same_dinode_def)
  then show "cached_ok s' R" using c P(2) same_blocksD(3) [OF B] by (auto simp: cached_ok_def s'_def)
qed

text \<open>Getting a reference keeps what is cached.\<close>

lemma cached_got:
  assumes c: "cached_ok s R" and d: "\<And>n. disk_inode s' n = disk_inode s n" and ok: "icache_ok (icache s')"
    and other: "\<forall>l. l \<noteq> j \<longrightarrow> icache s' l = icache s l"
    and new: "i_ref (icache s j) = 0 \<and> i_ref (icache s' j) = 1 \<and> \<not> i_valid (icache s' j) \<or>
      0 < i_ref (icache s j) \<and> icache s' j = (icache s j)\<lparr>i_ref := i_ref (icache s j) + 1\<rparr>"
  shows "cached_ok s' R"
  unfolding cached_ok_def
proof (intro conjI allI impI ok)
  fix l assume l: "l < NINODE" "0 < i_ref (icache s' l)" "i_valid (icache s' l)" "i_dev (icache s' l) = 0" "i_inum (icache s' l) \<in> R"
  have "same_dinode (icache s' l) (disk_inode s (i_inum (icache s l))) \<and> i_inum (icache s' l) = i_inum (icache s l)"
    using c l new other unfolding cached_ok_def by (cases "l = j") (auto simp: same_dinode_def)
  then show "same_dinode (icache s' l) (disk_inode s' (i_inum (icache s' l)))" using d by simp
qed

text \<open>From a locked directory to the inode of an entry.\<close>

lemma dirlookup_tree:
  fixes s :: "'a fsst_scheme"
  assumes hw: "virtio_blk hw" and tr: "in_trans s" and rm: "jr.room s (Suc r)" and c: "cached_ok s R" and t: "fs_tree s R"
    and i: "slot_of s i n" and n: "n \<in> R" and same: "same_dinode (icache s i) (disk_inode s n)" and dir: "d_type (disk_inode s n) = T_DIR"
    and free: "2 \<le> card (free_slots_but s i)"
  shows "case dir_map s (disk_inode s n) (cname name) of
      None \<Rightarrow> \<exists>s'. dirlookup hw i name s = Inr (None, s') \<and> same_blocks r s s' \<and> icache s' = icache s
    | Some m \<Rightarrow> \<exists>j off s'. dirlookup hw i name s = Inr (Some (j, off), s') \<and> same_blocks r s s' \<and> cached_ok s' R \<and> slot_of s' i n \<and>
        slot_of (upd_inode i (\<lambda>ip. ip\<lparr>i_ref := i_ref ip - 1\<rparr>) s') j (ucast m) \<and> ucast m \<in> R \<and> iref_count (icache s') = add_ref 1 0 (ucast m) (iref_count (icache s)) \<and>
        free_slots_but (upd_inode i (\<lambda>ip. ip\<lparr>i_ref := i_ref ip - 1\<rparr>) s') j = free_slots_but s i"
proof -
  note S = same_dinode_dir [OF same]
  have T: "dino_ok s (disk_inode s n)" "16 dvd unat (d_size (disk_inode s n))"
    "\<forall>nm m. dir_map s (disk_inode s n) nm = Some m \<longrightarrow> ucast m \<in> R" using t n dir by (simp_all add: fs_tree_def tree_inode_def Let_def)
  have I: "i < NINODE" "0 < i_ref (icache s i)" "i_dev (icache s i) = 0" "i_inum (icache s i) = n" using i by (simp_all add: slot_of_def)
  have d: "dir_ok s i"
    using T(1,2) I(3) dir unfolding S(2) [of s, symmetric]
    by (simp add: dir_ok_def file_ok_def file_dino dino_ok_def S)
  have ok: "icache_ok (icache s)" using c by (simp add: cached_ok_def)
  show ?thesis
  proof (cases "dir_map s (disk_inode s n) (cname name)")
    case None
    then have "dir_map s (icache s i) (cname name) = None" by (simp only: S(1))
    then obtain s' where "looked r s s'" "dirlookup hw i name s = Inr (None, s')"
      using dirlookup_spec [OF hw tr rm d, of name] by (auto simp: dir_map_def)
    then show ?thesis using None looked_same_blocks lookedD(3) by auto
  next
    case (Some m)
    then have hit: "dir_map s (icache s i) (cname name) = Some m" by (simp only: S(1))
    have "\<exists>l < NINODE. i_ref (icache s l) = 0"
    proof (rule ccontr)
      assume "\<not> ?thesis"
      then have "free_slots_but s i \<subseteq> {i}" by (auto simp: free_slots_but_def)
      then have "card (free_slots_but s i) \<le> card {i}" by (intro card_mono) auto
      then show False using free by simp
    qed
    then have room: "\<not> (iref_count (icache s) 0 (ucast m) = 0 \<and> (\<forall>l < NINODE. i_ref (icache s l) \<noteq> 0))" by blast
    obtain j k s1 s' f where h: "dirlookup hw i name s = Inr (Some (j, of_nat (16 * k)), s')" "looked r s s1" "s' = upd_inode j f s1"
      "j < NINODE" "i_dev (icache s' j) = 0" "i_inum (icache s' j) = ucast m" "icache_ok (icache s')" "0 < i_ref (icache s' j)"
      "\<forall>l. l \<noteq> j \<longrightarrow> icache s' l = icache s l" "iref_count (icache s') = add_ref 1 0 (ucast m) (iref_count (icache s))"
      "0 < iref_count (icache s) 0 (ucast m) \<longrightarrow> 0 < i_ref (icache s j) \<and> icache s' j = (icache s j)\<lparr>i_ref := i_ref (icache s j) + 1\<rparr>"
      "iref_count (icache s) 0 (ucast m) = 0 \<longrightarrow> \<not> i_valid (icache s' j) \<and> i_ref (icache s' j) = 1 \<and> i_ref (icache s j) = 0"
      using dirlookup_hit [OF hw tr rm d ok hit room] by blast
    have B: "same_blocks r s s'" unfolding h(3) by (rule same_blocks_upd [OF looked_same_blocks [OF h(2)]])
    have nn: "0 \<le> iref_count (icache s) 0 (ucast m)" by (auto simp: iref_count_def split: option.split dest!: find_upt(1))
    have new: "i_ref (icache s j) = 0 \<and> i_ref (icache s' j) = 1 \<and> \<not> i_valid (icache s' j) \<or>
      0 < i_ref (icache s j) \<and> icache s' j = (icache s j)\<lparr>i_ref := i_ref (icache s j) + 1\<rparr>"
      using h(11,12) nn by (cases "iref_count (icache s) 0 (ucast m) = 0") auto
    have C: "cached_ok s' R" by (rule cached_got [OF c same_blocksD(3) [OF B] h(7,9) new])
    have "slot_of s' i n" using new h(9) I by (cases "i = j") (auto simp: slot_of_def)
    moreover have "slot_of (upd_inode i (\<lambda>ip. ip\<lparr>i_ref := i_ref ip - 1\<rparr>) s') j (ucast m)"
      using h(4-6,8) new I(2) by (cases "i = j") (auto simp: slot_of_def)
    moreover have "free_slots_but (upd_inode i (\<lambda>ip. ip\<lparr>i_ref := i_ref ip - 1\<rparr>) s') j = free_slots_but s i"
    proof -
      let ?t = "upd_inode i (\<lambda>ip. ip\<lparr>i_ref := i_ref ip - 1\<rparr>) s'"
      have "i_ref (icache ?t l) = i_ref (icache s l) + of_bool (l = j) - of_bool (l = i)" for l
        using new h(9) by (cases "l = j") auto
      moreover have "0 \<le> i_ref (icache s l)" if "l < NINODE" for l using ok that by (simp add: icache_ok_def)
      ultimately show ?thesis using I(2) unfolding free_slots_but_def by (force simp: of_bool_def split: if_splits)
    qed
    ultimately show ?thesis using Some h(1,10) B C T(3) by auto
  qed
qed

section \<open>namex\<close>

lemma add_ref_step: "add_ref (-1) d k (add_ref 1 d m (add_ref (-1) d n (add_ref 1 d k c))) = add_ref (-1) d n (add_ref 1 d m c)"
  "add_ref (-1) d n (add_ref 1 d n c) = c"
  by (auto simp: add_ref_def fun_eq_iff)

text \<open>What \<open>namex\<close> leaves behind: the slot of the inode the path leads to, in exchange for the one of \<open>n\<close>.\<close>

definition resolved :: "nat \<Rightarrow> u32 set \<Rightarrow> 'a fsst_scheme \<Rightarrow> (u32 \<Rightarrow> u32 \<Rightarrow> int) \<Rightarrow> u32 option \<Rightarrow> (nat option \<times> fname, 'a fsst_scheme) outcome \<Rightarrow>
    u8 list option \<Rightarrow> bool" where
  "resolved r R s c trg out nm \<longleftrightarrow> (\<exists>res name' s'. out = Inr ((res, name'), s') \<and> same_blocks r s s' \<and> cached_ok s' R \<and>
     (case trg of None \<Rightarrow> res = None \<and> iref_count (icache s') = c
      | Some m \<Rightarrow> \<exists>j. res = Some j \<and> slot_of s' j m \<and> iref_count (icache s') = add_ref 1 0 m c \<and>
          (case nm of None \<Rightarrow> True | Some x \<Rightarrow> cname name' = x)))"

lemma resolvedI:
  assumes "out = Inr ((res, name'), s')" and "same_blocks r s s'" and "cached_ok s' R"
    and "case trg of None \<Rightarrow> res = None \<and> iref_count (icache s') = c
      | Some m \<Rightarrow> \<exists>j. res = Some j \<and> slot_of s' j m \<and> iref_count (icache s') = add_ref 1 0 m c \<and>
          (case nm of None \<Rightarrow> True | Some x \<Rightarrow> cname name' = x)"
  shows "resolved r R s c trg out nm"
  using assms unfolding resolved_def by blast

lemma resolved_from: "same_blocks r s t \<Longrightarrow> resolved r R t c trg out nm \<Longrightarrow> resolved r R s c trg out nm"
  unfolding resolved_def using same_blocks_trans by blast

lemma add_ref_commute: "add_ref a d n (add_ref b d m c) = add_ref b d m (add_ref a d n c)"
  by (auto simp: add_ref_def fun_eq_iff)

lemma namex_loop_spec:
  fixes s :: "'a fsst_scheme"
  assumes hw: "virtio_blk hw"
  shows "in_trans s \<Longrightarrow> jr.room s (Suc r) \<Longrightarrow> cached_ok s R \<Longrightarrow> fs_tree s R \<Longrightarrow> slot_of s i n \<Longrightarrow> n \<in> R \<Longrightarrow> 0 \<notin> set path \<Longrightarrow>
    2 \<le> card (free_slots_but s i) \<Longrightarrow>
    resolved r R s (add_ref (-1) 0 n (iref_count (icache s))) (target s n parent (path_names path)) (namex_loop hw parent i path name s)
      (if parent then Some (last (path_names path)) else None)"
proof (induction "length path" arbitrary: path i n name s rule: less_induct)
  case less
  note tr = less.prems(1) and rm = less.prems(2) and c = less.prems(3) and t = less.prems(4) and i = less.prems(5) and n = less.prems(6)
    and nz = less.prems(7) and free = less.prems(8)
  let ?c = "iref_count (icache s)"
  note put0 = iunlockput_tree [OF c t i n tr rm]
  show ?case
  proof (cases "pieces path")
    case Nil
    then have k: "skipelem path name = None" and nm: "path_names path = []" using skipelem_pieces [of path name] by (simp_all add: path_names_def)
    show ?thesis
    proof (cases parent)
      case True
      have "namex_loop hw parent i path name s = Inr ((None, name), upd_inode i (\<lambda>ip. ip\<lparr>i_ref := i_ref ip - 1\<rparr>) s)"
        using k True put0(2) by (subst namex_loop.simps) (simp add: ret_def)
      then show ?thesis by (rule resolvedI [OF _ put0(3,4)]) (simp add: target_simps nm True put0(5))
    next
      case False
      have "namex_loop hw parent i path name s = Inr ((Some i, name), s)"
        using k False by (subst namex_loop.simps) (simp add: ret_def)
      then show ?thesis
        by (rule resolvedI [OF _ same_blocks_refl [OF tr rm] c]) (simp add: target_simps nm False i add_ref_commute [of 1])
    qed
  next
    case (Cons e es)
    then obtain rest where k: "skipelem path name = Some (rest, copy_name e name)" "pieces rest = es" "rest = [] \<longleftrightarrow> es = []"
      "set e \<subseteq> set path" "set rest \<subseteq> set path" using skipelem_pieces [of path name] by auto
    let ?name = "copy_name e name" and ?e = "take DIRSIZ e"
    have cn: "cname ?name = ?e" using k(4) nz by (intro cname_copy_name) blast
    have pn: "path_names path = ?e # path_names rest" "path_names rest = [] \<longleftrightarrow> rest = []" using Cons k(2,3) by (auto simp: path_names_def)
    obtain s1 where 1: "ilock hw i s = Inr ((), s1)" "same_blocks r s s1" "cached_ok s1 R" "slot_of s1 i n"
      "same_dinode (icache s1 i) (disk_inode s n)" "free_slots_but s1 i = free_slots_but s i" "iref_count (icache s1) = ?c"
      using ilock_tree [OF hw tr rm c t i n] by blast
    note B = same_blocksD [OF 1(2)]
    have t1: "fs_tree s1 R" using t B(5) by simp
    have sd: "same_dinode (icache s1 i) (disk_inode s1 n)" using 1(5) B(3) by simp
    have ty: "d_type (icache s1 i) = d_type (disk_inode s n)" using 1(5) by (simp add: same_dinode_def)
    note put1 = iunlockput_tree [OF 1(3) t1 1(4) n B(1,2)]
    let ?rest = "\<lambda>s. if d_type (icache s i) \<noteq> T_DIR then bnd (iunlockput hw i s) (\<lambda>_. ret (None, ?name))
          else if parent \<and> rest = [] then bnd (iunlock i s) (\<lambda>_. ret (Some i, ?name))
          else bnd (dirlookup hw i ?name s) (\<lambda>r s.
            case r of None \<Rightarrow> bnd (iunlockput hw i s) (\<lambda>_. ret (None, ?name))
            | Some (nxt, _) \<Rightarrow> bnd (iunlockput hw i s) (\<lambda>_. namex_loop hw parent nxt rest ?name))"
    have step: "namex_loop hw parent i path name s = ?rest s1"
      using k(1) 1(1) by (subst namex_loop.simps) simp
    consider (leaf) "d_type (disk_inode s n) \<noteq> T_DIR" | (holder) "d_type (disk_inode s n) = T_DIR \<and> parent \<and> rest = []"
      | (dir) "d_type (disk_inode s n) = T_DIR \<and> \<not> (parent \<and> rest = [])" by blast
    then show ?thesis
    proof cases
      case leaf
      then have "namex_loop hw parent i path name s = Inr ((None, ?name), upd_inode i (\<lambda>ip. ip\<lparr>i_ref := i_ref ip - 1\<rparr>) s1)"
        unfolding step using put1(1) ty by (simp add: ret_def)
      then show ?thesis
        by (rule resolvedI [OF _ same_blocks_trans [OF 1(2) put1(3)] put1(4)]) (simp add: target_simps pn(1) leaf put1(5) 1(7))
    next
      case holder
      then have pr: "path_names path = [?e]" using pn by simp
      have "0 < i_ref (icache s1 i)" using 1(4) by (simp add: slot_of_def)
      then have "namex_loop hw parent i path name s = Inr ((Some i, ?name), s1)"
        unfolding step using ty holder by (simp add: ret_def iunlock_def)
      then show ?thesis
        by (rule resolvedI [OF _ 1(2,3)]) (simp add: target_simps pr holder 1(4,7) add_ref_commute [of 1] cn)
    next
      case dir
      then have d1: "d_type (disk_inode s1 n) = T_DIR" and nt: "\<not> (parent \<and> path_names rest = [])" using B(3) pn(2) by simp_all
      have fr: "2 \<le> card (free_slots_but s1 i)" using free 1(6) by simp
      note dl = dirlookup_tree [OF hw B(1,2) 1(3) t1 1(4) n sd d1 fr, of ?name, unfolded cn B(3)]
      have dm: "dir_map s1 (disk_inode s n) = dir_map s (disk_inode s n)" by (rule same_disk_dir [OF B(4)])
      show ?thesis
      proof (cases "dir_map s (disk_inode s n) ?e")
        case None
        then obtain s2 where 2: "dirlookup hw i ?name s1 = Inr (None, s2)" "same_blocks r s1 s2" "icache s2 = icache s1"
          using dl by (auto simp: dm)
        have c2: "cached_ok s2 R" "slot_of s2 i n" "fs_tree s2 R"
          using 1(3,4) t1 same_blocksD(3,5) [OF 2(2)] by (simp_all add: cached_ok_def slot_of_def 2(3))
        note put2 = iunlockput_tree [OF c2(1,3,2) n same_blocksD(1,2) [OF 2(2)]]
        have "namex_loop hw parent i path name s = Inr ((None, ?name), upd_inode i (\<lambda>ip. ip\<lparr>i_ref := i_ref ip - 1\<rparr>) s2)"
          unfolding step using ty dir 2(1) put2(1) by (auto simp: ret_def)
        moreover have "target s n parent (path_names path) = None" using None dir nt by (auto simp: target_simps pn(1) dir_entry_def)
        ultimately show ?thesis
          by (intro resolvedI [OF _ same_blocks_trans [OF 1(2) same_blocks_trans [OF 2(2) put2(3)]] put2(4)])
            (simp_all add: put2(5) 2(3) 1(7))
      next
        case (Some m)
        let ?m = "ucast m :: u32"
        obtain j off s2 where 2: "dirlookup hw i ?name s1 = Inr (Some (j, off), s2)" "same_blocks r s1 s2" "cached_ok s2 R" "slot_of s2 i n"
          "slot_of (upd_inode i (\<lambda>ip. ip\<lparr>i_ref := i_ref ip - 1\<rparr>) s2) j ?m" "?m \<in> R"
          "iref_count (icache s2) = add_ref 1 0 ?m (iref_count (icache s1))"
          "free_slots_but (upd_inode i (\<lambda>ip. ip\<lparr>i_ref := i_ref ip - 1\<rparr>) s2) j = free_slots_but s1 i"
          using dl by (auto simp: dm Some)
        have t2: "fs_tree s2 R" using t1 same_blocksD(5) [OF 2(2)] by simp
        note put2 = iunlockput_tree [OF 2(3) t2 2(4) n same_blocksD(1,2) [OF 2(2)]]
        let ?t = "upd_inode i (\<lambda>ip. ip\<lparr>i_ref := i_ref ip - 1\<rparr>) s2"
        have B2: "same_blocks r s ?t" by (rule same_blocks_trans [OF 1(2) same_blocks_trans [OF 2(2) put2(3)]])
        note D2 = same_blocksD [OF B2]
        have e1: "namex_loop hw parent i path name s = namex_loop hw parent j rest ?name ?t"
          unfolding step using ty dir 2(1) put2(1) by (auto simp: ret_def)
        have re: "resolved r R ?t (add_ref (-1) 0 ?m (iref_count (icache ?t))) (target ?t ?m parent (path_names rest))
          (namex_loop hw parent j rest ?name ?t) (if parent then Some (last (path_names rest)) else None)"
        proof (rule less.hyps [OF _ D2(1,2) put2(4) _ 2(5,6)])
          show "length rest < length path" using skipelem_shorter [OF k(1)] .
          show "fs_tree ?t R" using t D2(5) by simp
          show "0 \<notin> set rest" using k(5) nz by blast
          show "2 \<le> card (free_slots_but ?t j)" using free 1(6) 2(8) by simp
        qed
        have e2: "add_ref (-1) 0 ?m (iref_count (icache ?t)) = add_ref (-1) 0 n ?c"
          unfolding put2(5) 2(7) 1(7) by (auto simp: add_ref_def fun_eq_iff)
        have e3: "target s n parent (path_names path) = target ?t ?m parent (path_names rest)"
          using dir nt Some D2(7) by (auto simp: target_simps pn(1) dir_entry_def)
        have e4: "(if parent then Some (last (path_names path)) else None) = (if parent then Some (last (path_names rest)) else None)"
          using nt by (simp add: pn(1))
        show ?thesis unfolding e1 e3 e4 e2 [symmetric] by (rule resolved_from [OF B2 re])
      qed
    qed
  qed
qed

text \<open>The walk starts at the root, of which a reference is got first.\<close>

lemma namex_spec:
  fixes s :: "'a fsst_scheme"
  assumes hw: "virtio_blk hw" and tr: "in_trans s" and rm: "jr.room s (Suc r)" and c: "cached_ok s R" and t: "fs_tree s R" and root: "ROOTINO \<in> R"
    and nz: "0 \<notin> set path" and free: "2 \<le> card {l. l < NINODE \<and> i_ref (icache s l) = 0}"
  shows "resolved r R s (iref_count (icache s)) (target s ROOTINO parent (path_names path)) (namex hw path parent name s)
    (if parent then Some (last (path_names path)) else None)"
proof -
  have ok: "icache_ok (icache s)" using c by (simp add: cached_ok_def)
  have "{l. l < NINODE \<and> i_ref (icache s l) = 0} \<noteq> {}" using free by (intro notI) simp
  then have room: "\<not> (iref_count (icache s) 0 ROOTINO = 0 \<and> (\<forall>l < NINODE. i_ref (icache s l) \<noteq> 0))" by auto
  obtain i s1 where 1: "iget 0 ROOTINO s = Inr (i, s1)" "i < NINODE" "i_dev (icache s1 i) = 0" "i_inum (icache s1 i) = ROOTINO"
    "icache_ok (icache s1)" "0 < i_ref (icache s1 i)" "\<forall>j. j \<noteq> i \<longrightarrow> icache s1 j = icache s j"
    "iref_count (icache s1) = add_ref 1 0 ROOTINO (iref_count (icache s))"
    "0 < iref_count (icache s) 0 ROOTINO \<longrightarrow> 0 < i_ref (icache s i) \<and> icache s1 i = (icache s i)\<lparr>i_ref := i_ref (icache s i) + 1\<rparr>"
    "iref_count (icache s) 0 ROOTINO = 0 \<longrightarrow> \<not> i_valid (icache s1 i) \<and> i_ref (icache s1 i) = 1 \<and> i_ref (icache s i) = 0"
    using iget_counts [OF ok room] by blast
  obtain g where g: "s1 = upd_inode i g s" using iget_upd [OF 1(1)] by blast
  have B: "same_blocks r s s1" unfolding g by (rule same_blocks_upd [OF same_blocks_refl [OF tr rm]])
  note D = same_blocksD [OF B]
  have nn: "0 \<le> iref_count (icache s) 0 ROOTINO" by (auto simp: iref_count_def split: option.split dest!: find_upt(1))
  have new: "i_ref (icache s i) = 0 \<and> i_ref (icache s1 i) = 1 \<and> \<not> i_valid (icache s1 i) \<or>
      0 < i_ref (icache s i) \<and> icache s1 i = (icache s i)\<lparr>i_ref := i_ref (icache s i) + 1\<rparr>"
    using 1(9,10) nn by (cases "iref_count (icache s) 0 ROOTINO = 0") auto
  have C: "cached_ok s1 R" by (rule cached_got [OF c D(3) 1(5,7) new])
  have sl: "slot_of s1 i ROOTINO" using 1(2-4,6) by (simp add: slot_of_def)
  have "i_ref (icache s1 l) = i_ref (icache s l) + of_bool (l = i)" for l using new 1(7) by (cases "l = i") auto
  then have "free_slots_but s1 i = {l. l < NINODE \<and> i_ref (icache s l) = 0}"
    using new unfolding free_slots_but_def by (force simp: of_bool_def split: if_splits)
  then have fr: "2 \<le> card (free_slots_but s1 i)" using free by simp
  have t1: "fs_tree s1 R" using t D(5) by simp
  have "namex hw path parent name s = namex_loop hw parent i path name s1" using 1(1) by (simp add: namex_def ROOTDEV_def)
  moreover note L = resolved_from [OF B namex_loop_spec [OF hw D(1,2) C t1 sl root nz fr, of parent name], unfolded 1(8) add_ref_step D(7)]
  ultimately show ?thesis by simp
qed

section \<open>The tree of a new file system\<close>

lemma fresh_tree:
  assumes f: "fresh_fs s"
  shows "fs_tree s {1}" "cached_ok s R" "dir_entry s 1 nm = map_option ucast (root_map nm)" "d_type (disk_inode s 1) = T_DIR"
    "2 \<le> card {l. l < NINODE \<and> i_ref (icache s l) = 0}"
proof -
  have F: "\<forall>j < NINODE. i_ref (icache s j) = 0" "same_dinode (disk_inode s 1) root_dinode" "fs_sb s = mkfs_sb"
    using f by (simp_all add: fresh_fs_def)
  have d: "d_type (disk_inode s 1) = T_DIR" "d_nlink (disk_inode s 1) = 1" "d_size (disk_inode s 1) = 32"
    using F(2) by (simp_all add: same_dinode_def root_dinode_def)
  have dm: "dir_map s (disk_inode s 1) = root_map" by (rule fresh_root_map [OF f F(2)])
  have us: "usable (IBLOCK 1 (fs_sb s))" by (simp add: F(3) IBLOCK_def mkfs_sb_def IPB_def BSIZE_def usable_def small_block_def)
  have "dino_addr s root_dinode k = (if k = 0 then 46 else 0)" for k
    by (simp add: dino_addr_def root_dinode_def NDIRECT_def)
  then have "dino_ok s root_dinode"
    by (simp add: dino_ok_def) (simp add: root_dinode_def NDIRECT_def NINDIRECT_def BSIZE_def usable_def small_block_def)
  then have dk: "dino_ok s (disk_inode s 1)" using same_dinode_dir(2) [OF F(2), of s] by simp
  have r: "root_map nm = Some m \<Longrightarrow> m = 1" for nm m by (auto simp: root_map_def split: if_splits)
  show "fs_tree s {1}" using us d dk by (auto simp: fs_tree_def tree_inode_def dm T_DIR_def dest!: r)
  show "cached_ok s R" using F(1) by (simp add: cached_ok_def icache_ok_def)
  show "dir_entry s 1 nm = map_option ucast (root_map nm)" by (simp add: dir_entry_def d dm)
  show "d_type (disk_inode s 1) = T_DIR" by (rule d(1))
  have "{l. l < NINODE \<and> i_ref (icache s l) = 0} = {..<NINODE}" using F(1) by auto
  then show "2 \<le> card {l. l < NINODE \<and> i_ref (icache s l) = 0}" by (simp add: NINODE_def)
qed

text \<open>The paths \<open>/..//.\<close> and \<open>/../x\<close>.\<close>

lemma some_paths:
  "path_names (cstr ''/..//.'') = [[ch CHR ''.'', ch CHR ''.''], [ch CHR ''.'']]"
  "path_names (cstr ''/../x'') = [[ch CHR ''.'', ch CHR ''.''], [ch CHR ''x'']]"
  "0 \<notin> set (cstr ''/..//.'')" "0 \<notin> set (cstr ''/../x'')"
  by (simp_all add: path_names_def pieces_def split_slash_simps cstr_def slash_def ch_def DIRSIZ_def)

section \<open>Properties\<close>

text \<open>
  C17. \<open>namei\<close> resolves a path as the tree of directories on the disk says: its names, the non-empty pieces between slashes
  cut to 14 bytes, are followed from the root. When they lead to an inode the result is a slot for it, with one reference
  more to it and to no other inode; otherwise the result is null and the references are what they were. No block changes.
  Two free slots of the inode cache are enough for every path.
\<close>

theorem namei_resolves:
  fixes s :: "'a fsst_scheme"
  assumes "virtio_blk hw" and "in_trans s" and "jr.room s 1" and "cached_ok s R" and "fs_tree s R" and "ROOTINO \<in> R"
    and "0 \<notin> set path" and "2 \<le> card {l. l < NINODE \<and> i_ref (icache s l) = 0}"
  shows "case walk s ROOTINO (path_names path) of
      None \<Rightarrow> \<exists>s'. namei hw path s = Inr (None, s') \<and> disk s' = disk s \<and> cached_ok s' R \<and> iref_count (icache s') = iref_count (icache s)
    | Some n \<Rightarrow> \<exists>i s'. namei hw path s = Inr (Some i, s') \<and> slot_of s' i n \<and> disk s' = disk s \<and> cached_ok s' R \<and>
        iref_count (icache s') = add_ref 1 0 n (iref_count (icache s))"
proof -
  have r: "jr.room s (Suc 0)" using assms(3) by simp
  have t: "target s ROOTINO False (path_names path) = walk s ROOTINO (path_names path)" by (simp add: target_def)
  obtain res name' s' where 1: "namex hw path False (\<lambda>_. 0) s = Inr ((res, name'), s')" "same_blocks 0 s s'" "cached_ok s' R"
    "case walk s ROOTINO (path_names path) of None \<Rightarrow> res = None \<and> iref_count (icache s') = iref_count (icache s)
      | Some m \<Rightarrow> \<exists>j. res = Some j \<and> slot_of s' j m \<and> iref_count (icache s') = add_ref 1 0 m (iref_count (icache s))"
    using namex_spec [OF assms(1,2) r assms(4-8), of False "\<lambda>_. 0"] unfolding resolved_def t if_False option.case simp_thms by blast
  have "namei hw path s = Inr (res, s')" using 1(1) by (simp add: namei_def ret_def)
  then show ?thesis using 1(3,4) same_blocksD(4) [OF 1(2)] by (auto split: option.splits)
qed

theorem namei_resolves_witness:
  "\<exists>(s :: fsst) i s' s1. namei prompt_device (cstr ''/..//.'') s = Inr (Some i, s') \<and> slot_of s' i 1 \<and> iref_count (icache s') 0 1 = 1 \<and>
    namei prompt_device (cstr ''/../x'') s = Inr (None, s1)"
proof -
  obtain s :: fsst where f: "fresh_fs s" using new_fs by blast
  have tr: "in_trans s" "jr.room s 29" and z: "\<forall>j < NINODE. i_ref (icache s j) = 0" using f by (simp_all add: fresh_fs_def)
  have r: "jr.room s 1" by (rule jr.room_le [OF tr(2)]) simp
  have rt: "ROOTINO \<in> {1}" by (simp add: ROOTINO_def)
  note T = fresh_tree [OF f]
  note N = namei_resolves [OF virtio_blk_prompt tr(1) r T(2,1) rt _ T(5)]
  have w: "walk s ROOTINO (path_names (cstr ''/..//.'')) = Some 1" "walk s ROOTINO (path_names (cstr ''/../x'')) = None"
    by (simp_all add: some_paths ROOTINO_def T(3) some_names(3,4)) (simp add: root_map_def)
  have "iref_count (icache s) 0 1 = 0" by (rule iref_count_none) (use z in auto)
  then show ?thesis
    using N [OF some_paths(3), unfolded w option.case] N [OF some_paths(4), unfolded w option.case] by (fastforce simp: add_ref_def)
qed

text \<open>
  C20. \<open>nameiparent\<close> gives the directory that holds the last name of a path and that name: null when the path has no name,
  when the names before the last do not lead to a directory, or when one of them is missing.
\<close>

theorem nameiparent_resolves:
  fixes s :: "'a fsst_scheme"
  assumes "virtio_blk hw" and "in_trans s" and "jr.room s 1" and "cached_ok s R" and "fs_tree s R" and "ROOTINO \<in> R"
    and "0 \<notin> set path" and "2 \<le> card {l. l < NINODE \<and> i_ref (icache s l) = 0}"
  shows "case (if path_names path = [] then None else walk s ROOTINO (butlast (path_names path))) of
      Some n \<Rightarrow> if d_type (disk_inode s n) = T_DIR
        then \<exists>i name' s'. nameiparent hw path name s = Inr ((Some i, name'), s') \<and> slot_of s' i n \<and> cname name' = last (path_names path) \<and>
          disk s' = disk s \<and> cached_ok s' R \<and> iref_count (icache s') = add_ref 1 0 n (iref_count (icache s))
        else \<exists>name' s'. nameiparent hw path name s = Inr ((None, name'), s') \<and> disk s' = disk s \<and> iref_count (icache s') = iref_count (icache s)
    | None \<Rightarrow> \<exists>name' s'. nameiparent hw path name s = Inr ((None, name'), s') \<and> disk s' = disk s \<and> iref_count (icache s') = iref_count (icache s)"
proof -
  have r: "jr.room s (Suc 0)" using assms(3) by simp
  obtain res name' s' where 1: "nameiparent hw path name s = Inr ((res, name'), s')" "same_blocks 0 s s'" "cached_ok s' R"
    "case target s ROOTINO True (path_names path) of None \<Rightarrow> res = None \<and> iref_count (icache s') = iref_count (icache s)
      | Some m \<Rightarrow> \<exists>j. res = Some j \<and> slot_of s' j m \<and> iref_count (icache s') = add_ref 1 0 m (iref_count (icache s)) \<and>
          cname name' = last (path_names path)"
    using namex_spec [OF assms(1,2) r assms(4-8), of True name] unfolding resolved_def nameiparent_def if_True option.case by blast
  then show ?thesis using same_blocksD(4) [OF 1(2)] by (auto simp: target_def split: option.splits if_splits)
qed

theorem nameiparent_resolves_witness:
  "\<exists>(s :: fsst) i name' s'. nameiparent prompt_device (cstr ''/../x'') (\<lambda>_. 0) s = Inr ((Some i, name'), s') \<and> slot_of s' i 1 \<and>
    cname name' = [ch CHR ''x'']"
proof -
  obtain s :: fsst where f: "fresh_fs s" using new_fs by blast
  have tr: "in_trans s" "jr.room s 29" using f by (simp_all add: fresh_fs_def)
  have r: "jr.room s 1" by (rule jr.room_le [OF tr(2)]) simp
  have rt: "ROOTINO \<in> {1}" by (simp add: ROOTINO_def)
  note T = fresh_tree [OF f]
  have w: "(if path_names (cstr ''/../x'') = [] then None else walk s ROOTINO (butlast (path_names (cstr ''/../x'')))) = Some 1"
    by (simp add: some_paths ROOTINO_def T(3) some_names(3))
  show ?thesis
    using nameiparent_resolves [OF virtio_blk_prompt tr(1) r T(2,1) rt some_paths(4) T(5), of "\<lambda>_. 0", unfolded w option.case if_P [OF T(4)]]
    by (auto simp: some_paths)
qed

end
