(* ===== verification/FileSpec.thy ===== *)
theory FileSpec
  imports File FsWrite
begin

text \<open>
  Open files: \<open>filewrite\<close> and \<open>fileread\<close> at the offset of the open file, as changes and reads of the bytes of
  the file it refers to.
\<close>

section \<open>The table of open files and the file system\<close>

lemma ftable_more: "fsst.more s' = fsst.more s \<Longrightarrow> ftable s' = ftable s"
  by (cases s; cases s') (simp add: filest.defs fsst.defs)

lemma upd_file_simps [simp]:
  "ftable (upd_file f g s) j = (if j = f then g (ftable s f) else ftable s j)" "icache (upd_file f g s) = icache s"
  "fs_sb (upd_file f g s) = fs_sb s" "lg_start (upd_file f g s) = lg_start s"
  by (simp_all add: upd_file_def)

lemma upd_file_view [simp]:
  "cview (upd_file f g s) = cview s" "in_trans (upd_file f g s) = in_trans s" "jr.room (upd_file f g s) k = jr.room s k"
  by (rule same_trans; simp add: upd_file_def)+

lemma upd_file_file [simp]:
  "file_byte (upd_file f g s) i = file_byte s i" "file_ok (upd_file f g s) i = file_ok s i" "file_wf (upd_file f g s) i = file_wf s i"
  "free_blocks (upd_file f g s) = free_blocks s"
proof -
  let ?t = "upd_file f g s"
  have a: "file_addr ?t i = file_addr s i" by (simp add: file_addr_def Let_def fun_eq_iff)
  show "file_byte ?t i = file_byte s i" by (simp add: file_byte_def Let_def a fun_eq_iff)
  show "file_ok ?t i = file_ok s i" by (simp add: file_ok_def a)
  have u: "block_used ?t n = block_used s n" "fs_block ?t b = fs_block s b" "fs_size ?t = fs_size s" for n b
    by (simp_all add: block_used_def fs_block_def fs_size_def)
  show "free_blocks ?t = free_blocks s" by (simp add: free_blocks_def u)
  show "file_wf ?t i = file_wf s i" by (simp add: file_wf_def data_block_def bitmap_ok_def owned_def u a)
qed

text \<open>An open file on slot \<open>i\<close>, whose inode is loaded.\<close>

definition open_on :: "'a filest_scheme \<Rightarrow> nat \<Rightarrow> nat \<Rightarrow> bool" where
  "open_on s f i \<longleftrightarrow> f_type (ftable s f) = FD_INODE \<and> f_ip (ftable s f) = Some i \<and> 1 \<le> i_ref (icache s i) \<and> i_valid (icache s i)"

lemma unat_of_int: "0 \<le> n \<Longrightarrow> n < 2 ^ 31 \<Longrightarrow> unat (of_int n :: u32) = nat n"
  by (simp add: unsigned_of_int take_bit_int_eq_self)

lemma filewrite_spec:
  fixes s :: "'a filest_scheme"
  assumes hw: "virtio_blk hw" and tr: "in_trans s" and W: "file_wf s i" and o: "open_on s f i" "f_writable (ftable s f)"
    and off: "f_off (ftable s f) \<le> d_size (icache s i)" and n: "0 \<le> n" "unat (f_off (ftable s f)) + nat n \<le> MAXFILE * BSIZE"
    and len: "length src = nat n" and c: "unat (f_off (ftable s f)) mod BSIZE + nat n \<le> c * BSIZE"
    and rm: "jr.room s (7 * c + Suc r)" and fr: "2 * c \<le> card (free_blocks s)"
  shows "\<exists>s'. filewrite hw f src n s = Inr (n, s') \<and> in_trans s' \<and> file_wf s' i \<and> jr.room s' r \<and> wrote i (unat (f_off (ftable s f))) src s s' \<and>
    ftable s' = (ftable s)(f := (ftable s f)\<lparr>f_off := f_off (ftable s f) + of_int n\<rparr>) \<and>
    i_ref (icache s' i) = i_ref (icache s i) \<and> i_valid (icache s' i) \<and>
    d_size (icache s' i) = max (d_size (icache s i)) (f_off (ftable s f) + of_int n)"
proof -
  let ?off = "f_off (ftable s f)" and ?n = "of_int n :: u32"
  have "n < 2 ^ 31" using n by (simp add: MAXFILE_def NDIRECT_def NINDIRECT_def BSIZE_def)
  then have un: "unat ?n = nat n" using n(1) by (rule unat_of_int [rotated])
  obtain s1 where 1: "writei hw i src ?off ?n s = Inr (n, s1)" "grown {inode_block s i} i s s1" "jr.room s1 r" "wrote i (unat ?off) src s s1"
    "d_size (icache s1 i) = max (d_size (icache s i)) (?off + ?n)"
    using writei_spec [OF hw tr W off _ _ _ rm fr, of ?n src, unfolded un, OF n(2) len c] n(1) by auto
  have G: "slot_frame i s s1" "in_trans s1" "file_wf s1 i" using 1(2) by (simp_all add: grown_def)
  note F = slot_frameD [OF G(1)]
  have ft: "ftable s1 = ftable s" by (rule ftable_more [OF F(11)])
  define t where "t = (if n > 0 then upd_file f (\<lambda>x. x\<lparr>f_off := f_off x + of_int n\<rparr>) s1 else s1)"
  have ot: "ftable t = (ftable s)(f := (ftable s f)\<lparr>f_off := ?off + of_int n\<rparr>)"
  proof (cases "n > 0")
    case True
    then show ?thesis by (auto simp: t_def ft)
  next
    case False
    then have "n = 0" using n(1) by simp
    then have "(ftable s f)\<lparr>f_off := ?off + of_int n\<rparr> = ftable s f" by (cases "ftable s f") simp
    then show ?thesis using False by (simp add: t_def ft)
  qed
  have it: "icache t = icache s1" by (simp add: t_def)
  have "filewrite hw f src n s = Inr (n, t)"
    using o 1(1) F(7) by (simp add: filewrite_def open_on_def on_inode_def ilock_def iunlock_def ret_def t_def [symmetric] ot it)
  moreover have "in_trans t" "file_wf t i" "jr.room t r" "wrote i (unat ?off) src s t"
    using G 1(3,4) by (simp_all add: t_def wrote_def)
  ultimately show ?thesis using ot 1(5) F(7,9) o(1) by (auto simp: it open_on_def)
qed

lemma fileread_spec:
  fixes s :: "'a filest_scheme"
  assumes hw: "virtio_blk hw" and tr: "in_trans s" and rm: "jr.room s (Suc k)" and fok: "file_ok s i"
    and o: "open_on s f i" "f_readable (ftable s f)" and n: "0 \<le> n" "n < 2 ^ 31"
    and r: "read_result s i (unat (f_off (ftable s f))) (nat n) = (m, bs)"
  shows "\<exists>s'. fileread hw f n s = Inr ((m, bs), s') \<and> in_trans s' \<and> disk s' = disk s \<and> icache s' = icache s \<and>
    ftable s' = (ftable s)(f := (ftable s f)\<lparr>f_off := f_off (ftable s f) + (if m > 0 then of_int m else 0)\<rparr>)"
proof -
  let ?off = "f_off (ftable s f)"
  obtain s1 where 1: "readi hw i ?off (of_int n) s = Inr ((m, bs), s1)" "looked k s s1"
    using readi_spec [OF hw tr rm fok, of ?off "of_int n"] r unat_of_int [OF n] by auto
  note L = lookedD [OF 1(2)]
  have ft: "ftable s1 = ftable s" by (rule ftable_more) (use 1(2) in \<open>cases s; cases s1; simp add: looked_def fs_frame_def\<close>)
  define t where "t = (if m > 0 then upd_file f (\<lambda>x. x\<lparr>f_off := f_off x + of_int m\<rparr>) s1 else s1)"
  have "icache t = icache s" by (simp add: t_def L(3))
  moreover have "ftable t = (ftable s)(f := (ftable s f)\<lparr>f_off := ?off + (if m > 0 then of_int m else 0)\<rparr>)"
    by (cases "ftable s f") (auto simp: t_def ft)
  moreover from calculation have "fileread hw f n s = Inr ((m, bs), t)"
    using o 1(1) L(3) by (simp add: fileread_def open_on_def on_inode_def ilock_def iunlock_def ret_def t_def [symmetric])
  moreover have "in_trans t" "disk t = disk s" using L(1,5) by (simp_all add: t_def)
  ultimately show ?thesis by blast
qed

section \<open>Properties\<close>

text \<open>
  C16. What is written through one open file is read through another one of the same inode at the same offset:
  \<open>filewrite\<close> of \<open>n\<close> bytes, over block boundaries and the end of the file, followed by \<open>fileread\<close> of \<open>n\<close> bytes gives \<open>n\<close>
  both times and the bytes written. Both offsets are advanced by \<open>n\<close>, no other open file changes, and reading
  changes no block.
\<close>

theorem filewrite_fileread:
  fixes s :: "'a filest_scheme"
  assumes hw: "virtio_blk hw" and tr: "in_trans s" and W: "file_wf s i"
    and f: "open_on s f i" "f_writable (ftable s f)" and g: "open_on s g i" "f_readable (ftable s g)" "g \<noteq> f"
    and off: "f_off (ftable s f) = off" "f_off (ftable s g) = off" "off \<le> d_size (icache s i)"
    and n: "0 \<le> n" "unat off + nat n \<le> MAXFILE * BSIZE" and len: "length src = nat n"
    and c: "unat off mod BSIZE + nat n \<le> c * BSIZE" and rm: "jr.room s (7 * c + 2)" and fr: "2 * c \<le> card (free_blocks s)"
  shows "\<exists>s1 s2. filewrite hw f src n s = Inr (n, s1) \<and> fileread hw g n s1 = Inr ((n, src), s2) \<and>
    f_off (ftable s2 f) = off + of_int n \<and> f_off (ftable s2 g) = off + of_int n \<and>
    (\<forall>h. h \<noteq> f \<longrightarrow> h \<noteq> g \<longrightarrow> ftable s2 h = ftable s h) \<and> disk s2 = disk s1 \<and> file_wf s1 i"
proof -
  have rm': "jr.room s (7 * c + Suc 1)" using rm by simp
  have b: "MAXFILE * BSIZE < 2 ^ 31" by (simp add: MAXFILE_def NDIRECT_def NINDIRECT_def BSIZE_def)
  have n31: "n < 2 ^ 31" using n b by simp
  obtain s1 where 1: "filewrite hw f src n s = Inr (n, s1)" "in_trans s1" "file_wf s1 i" "jr.room s1 1" "wrote i (unat off) src s s1"
    "ftable s1 = (ftable s)(f := (ftable s f)\<lparr>f_off := off + of_int n\<rparr>)" "i_ref (icache s1 i) = i_ref (icache s i)"
    "i_valid (icache s1 i)" "d_size (icache s1 i) = max (d_size (icache s i)) (off + of_int n)"
    using filewrite_spec [OF hw tr W f _ n(1) _ len _ rm' fr] off n c by auto
  have un: "unat (off + of_int n) = unat off + nat n"
    using unat_of_int [OF n(1) n31] n(2) b by (simp add: unat_add_lem [THEN iffD1])
  have sz: "unat off + nat n \<le> unat (d_size (icache s1 i))"
    using un by (auto simp: 1(9) max_def word_le_nat_alt)
  have "map (file_byte s1 i) [unat off..<unat off + nat n] = src"
    using 1(5) n(2) len by (auto simp: wrote_def intro!: nth_equalityI)
  then have r: "read_result s1 i (unat (f_off (ftable s1 g))) (nat n) = (n, src)"
    using sz n b g(3) off(2) by (simp add: read_result_def Let_def 1(6) min_def) arith
  have o: "open_on s1 g i" "f_readable (ftable s1 g)" using f(1) g 1(6-8) by (simp_all add: open_on_def)
  have "jr.room s1 (Suc 0)" using 1(4) by simp
  from fileread_spec [OF hw 1(2) this file_wf_ok [OF 1(3)] o n(1) n31 r] obtain s2 where
    2: "fileread hw g n s1 = Inr ((n, src), s2)" "disk s2 = disk s1"
      "ftable s2 = (ftable s1)(g := (ftable s1 g)\<lparr>f_off := f_off (ftable s1 g) + (if n > 0 then of_int n else 0)\<rparr>)" by blast
  have "f_off (ftable s2 g) = off + of_int n" using n(1) g(3) off(2) by (cases "n = 0") (simp_all add: 2(3) 1(6))
  then show ?thesis using 1(1,3) 2 g(3) by (intro exI [of _ s1] exI [of _ s2]) (auto simp: 1(6))
qed

text \<open>The file of 1020 bytes, open for writing as file 0 and for reading as file 1, both at its end.\<close>

definition two_files :: "nat \<Rightarrow> ofile" where
  "two_files h = \<lparr>f_type = FD_INODE, f_ref = 1, f_readable = (h = 1), f_writable = (h = 0), f_ip = Some 0, f_off = 1020, f_major = 0\<rparr>"

theorem filewrite_fileread_witness:
  "\<exists>(s :: filest) s1 s2. filewrite prompt_device 0 [1, 2, 3, 4, 5, 6, 7, 8] 8 s = Inr (8, s1) \<and>
    fileread prompt_device 1 8 s1 = Inr ((8, [1, 2, 3, 4, 5, 6, 7, 8]), s2) \<and> f_off (ftable s2 0) = 1028 \<and> f_off (ftable s2 1) = 1028"
proof -
  obtain s0 :: filest where s0: "in_trans s0" "jr.room s0 29" "file_wf s0 0" "icache s0 = short_icache" "936 \<le> card (free_blocks s0)"
    using short_file by blast
  define s where "s = upd_file 1 (\<lambda>_. two_files 1) (upd_file 0 (\<lambda>_. two_files 0) s0)"
  have ft: "ftable s 0 = two_files 0" "ftable s 1 = two_files 1" by (simp_all add: s_def)
  have fb: "free_blocks s = free_blocks s0" by (simp add: s_def)
  have st: "in_trans s" "jr.room s (7 * 2 + 2)" "file_wf s 0" "icache s = short_icache" "2 * 2 \<le> card (free_blocks s)"
    using s0 jr.room_le [OF s0(2), of 16] by (simp_all only: fb) (simp_all add: s_def)
  have o: "open_on s 0 0" "f_writable (ftable s 0)" "open_on s 1 0" "f_readable (ftable s 1)"
    by (simp_all add: open_on_def ft [simplified] ft st(4) two_files_def short_icache_def)
  have off: "f_off (ftable s 0) = 1020" "f_off (ftable s 1) = 1020" "1020 \<le> d_size (icache s 0)"
    by (simp_all add: ft [simplified] ft st(4) two_files_def short_icache_def)
  from filewrite_fileread [OF virtio_blk_prompt st(1,3) o(1-4) _ off, of 8 "[1, 2, 3, 4, 5, 6, 7, 8]" 2] st(2,5)
  show ?thesis by (auto simp: MAXFILE_def NDIRECT_def NINDIRECT_def BSIZE_def)
qed

end
