(* ===== verification/LogWait.thy ===== *)
theory LogWait
  imports Trans Sched
begin

text \<open>
  What follows when \<open>begin_op\<close> puts its caller to sleep: the lock of the log is held from then on. The steps are those of
  all processes, in any order and number: the operations on the process table, those of the log, the continuation of
  a sleeper that was woken (\<open>kill\<close> does that), and everything else that leaves the variable \<open>log\<close> alone, which
  no code outside log.c names.
\<close>

section \<open>Steps that leave the log alone\<close>

lemma ptab_more_log:
  fixes s t :: "'a logst_scheme"
  assumes "ptab.more t = ptab.more s"
  shows "lg_lock t = lg_lock s" "log_busy t = log_busy s"
  using assms by (cases s; cases t; simp add: log_busy_def)+

lemma wait_iter_more: "wait_iter s = Inr (w, t) \<Longrightarrow> ptab.more t = ptab.more s"
proof -
  assume w: "wait_iter s = Inr (w, t)"
  then obtain p where c: "current s = Some p" by (auto simp: wait_iter_def myproc_def split: option.splits)
  show ?thesis
  proof (cases "List.find (\<lambda>i. p_parent (procs s i) = Some p \<and> p_state (procs s i) = ZOMBIE) [0..<NPROC]")
    case None
    then show ?thesis using w c by (auto simp: wait_iter_def myproc_def sleep_def split: if_splits)
  next
    case (Some i)
    then show ?thesis using w c
      by (auto simp: wait_iter_def myproc_def Let_def bnd_eq_Inr tab_frame_def dest!: mem_tab_frames(4))
  qed
qed

lemma sched_step_more: "sched_step tramp trapret s t \<Longrightarrow> ptab.more t = ptab.more s"
proof (induction rule: sched_step.induct)
  case (fork s r s')
  then show ?case using fork_current [OF fork] fork_table [OF fork] by blast
next
  case (wait s w s')
  then show ?case by (rule wait_iter_more)
next
  case (exit time status s s')
  then obtain p where "myproc s = Some p" by (auto simp: exit_process_def split: option.splits)
  then show ?case using exit_process_spec [of s p time status] exit by auto
next
  case (kill s p pid r s')
  then show ?case by (auto simp: kill_def Let_def split: option.splits if_splits)
next
  case (sbrk k s v s')
  then show ?case using sbrk_table by blast
qed (simp_all add: yield_def sleep_def sleep_resume_def myproc_def)

section \<open>The log with its lock held\<close>

definition log_vars :: "'a logst_scheme \<Rightarrow> int \<times> int \<times> int \<times> bool \<times> int \<times> int \<times> (nat \<Rightarrow> int) \<times> bool" where
  "log_vars s = (lg_start s, lg_size s, lg_outstanding s, lg_committing s, lg_dev s, lh_n s, lh_block s, lg_lock s)"

inductive system_step :: "('a logst_scheme) device \<Rightarrow> 'a logst_scheme \<Rightarrow> 'a logst_scheme \<Rightarrow> bool" for hw where
  process: "sched_step tramp trapret s t \<Longrightarrow> system_step hw s t"
| elsewhere: "log_vars t = log_vars s \<Longrightarrow> system_step hw s t"
| enter: "begin_op s = Inr (r, t) \<Longrightarrow> system_step hw s t"
| again: "begin_op_iter (sleep_resume s) = (r, t) \<Longrightarrow> system_step hw s t"
| log: "log_write b s = Inr ((), t) \<Longrightarrow> system_step hw s t"
| leave: "end_op hw s = Inr ((), t) \<Longrightarrow> system_step hw s t"

lemma locked_log:
  assumes "lg_lock s"
  shows "begin_op s = Inl Hang" "end_op hw s = Inl Hang" "log_write b s = Inl Hang"
  using assms by (simp_all add: begin_op_def end_op_def log_write_def acquire_log_def)

lemma sleeper_sleeps_again:
  assumes "log_busy s"
  shows "begin_op_iter (sleep_resume s) = (Asleep, sleep LogChan (sleep_resume s))"
proof -
  have "ptab.more (sleep_resume s) = ptab.more s" by (simp add: sleep_resume_def split: option.splits)
  from ptab_more_log(2) [OF this] assms have "log_busy (sleep_resume s)" by simp
  then show ?thesis by (auto simp: begin_op_iter_def log_busy_def)
qed

lemma sleep_log: "lg_lock (sleep c s) = lg_lock s" "log_busy (sleep c s) = log_busy s"
  by (rule ptab_more_log; simp add: sleep_def split: option.splits)+

lemma system_step_locked:
  assumes "system_step hw s t" and "lg_lock s" and "log_busy s"
  shows "lg_lock t \<and> log_busy t"
  using assms
proof (induction rule: system_step.induct)
  case (process tramp trapret s t)
  then show ?case using ptab_more_log [OF sched_step_more [OF process.hyps]] by simp
next
  case (elsewhere t s)
  then show ?case by (simp add: log_vars_def log_busy_def)
next
  case (again s r t)
  have "ptab.more (sleep_resume s) = ptab.more s" by (simp add: sleep_resume_def split: option.splits)
  then show ?case using again sleeper_sleeps_again [OF again.prems(2)] ptab_more_log [of "sleep_resume s" s] by (auto simp: sleep_log)
qed (simp_all add: locked_log)

lemma system_locked:
  assumes "(system_step hw)\<^sup>*\<^sup>* s t" and "lg_lock s" and "log_busy s"
  shows "lg_lock t \<and> log_busy t"
  using assms by (induction rule: rtranclp_induct) (auto dest: system_step_locked)

section \<open>Properties\<close>

text \<open>
  C36. A caller that \<open>begin_op\<close> puts to sleep keeps the log's lock, and nobody can use the log again: in every state
  the system reaches from there, by any number of steps of any processes, every operation of the log, the
  \<open>end_op\<close> that would wake the sleeper included, waits for ever, and a sleeper that is woken by other means goes back
  to sleep.
\<close>

theorem begin_op_sleeper_blocks_log:
  assumes "\<not> lg_lock s" and "log_busy s" and "current s = Some p"
  shows "\<exists>s'. begin_op s = Inr (Asleep, s') \<and> p_state (procs s' p) = SLEEPING \<and> p_chan (procs s' p) = LogChan \<and>
    (\<forall>t. (system_step hw)\<^sup>*\<^sup>* s' t \<longrightarrow> lg_lock t \<and> begin_op t = Inl Hang \<and> end_op hw t = Inl Hang \<and>
       (\<forall>b. log_write b t = Inl Hang) \<and> fst (begin_op_iter (sleep_resume t)) = Asleep)"
proof -
  let ?s' = "sleep LogChan (s\<lparr>lg_lock := True\<rparr>)"
  have b: "begin_op s = Inr (Asleep, ?s')" by (rule begin_op_waits [OF assms(1,2)])
  have p: "p_state (procs ?s' p) = SLEEPING" "p_chan (procs ?s' p) = LogChan" using assms(3) by (simp_all add: sleep_def myproc_def)
  have l: "lg_lock ?s'" "log_busy ?s'" using assms(2) by (simp_all add: sleep_log) (simp add: log_busy_def)
  have "lg_lock t \<and> begin_op t = Inl Hang \<and> end_op hw t = Inl Hang \<and> (\<forall>b. log_write b t = Inl Hang) \<and>
      fst (begin_op_iter (sleep_resume t)) = Asleep" if "(system_step hw)\<^sup>*\<^sup>* ?s' t" for t
    using system_locked [OF that l] locked_log sleeper_sleeps_again by fastforce
  then show ?thesis using b p by blast
qed

text \<open>An operation is under way in a log of twelve blocks: process 2 has to wait when it begins one, too.\<close>

definition sleepy_log :: logst where
  "sleepy_log = logst_boot\<lparr>lg_size := 12, lg_outstanding := 1, current := Some 2,
     procs := (\<lambda>_. proc_boot)(2 := proc_boot\<lparr>p_state := RUNNING, p_pid := 3\<rparr>, 3 := proc_boot\<lparr>p_state := RUNNABLE, p_pid := 4\<rparr>)\<rparr>"

text \<open>Process 3 is started, kills the sleeper, which makes it runnable, and ends its own operation: it waits.\<close>

theorem begin_op_sleeper_blocks_log_witness:
  "\<exists>s' t. begin_op sleepy_log = Inr (Asleep, s') \<and> (system_step prompt_device)\<^sup>*\<^sup>* s' t \<and> current t = Some 3 \<and>
    p_state (procs t 2) = RUNNABLE \<and> end_op prompt_device t = Inl Hang"
proof -
  have l: "\<not> lg_lock sleepy_log" "log_busy sleepy_log" "current sleepy_log = Some 2"
    by (simp_all add: sleepy_log_def logst_boot_def ptab.defs ptab_boot_def bcache.defs bcache_boot_def vblk.defs
        vblk_boot_def klog.defs log_busy_def)
  from begin_op_sleeper_blocks_log [OF this, of prompt_device]
  obtain s' where s': "begin_op sleepy_log = Inr (Asleep, s')" "\<forall>t. (system_step prompt_device)\<^sup>*\<^sup>* s' t \<longrightarrow> end_op prompt_device t = Inl Hang"
    by blast
  have e: "s' = sleep LogChan (sleepy_log\<lparr>lg_lock := True\<rparr>)" using begin_op_waits [OF l(1,2)] s'(1) by simp
  have ps: "procs s' 2 = proc_boot\<lparr>p_state := SLEEPING, p_pid := 3, p_chan := LogChan\<rparr>" "current s' = None"
    "procs s' 3 = proc_boot\<lparr>p_state := RUNNABLE, p_pid := 4\<rparr>" "i \<noteq> 2 \<Longrightarrow> i \<noteq> 3 \<Longrightarrow> procs s' i = proc_boot" for i
    by (simp_all add: e sleep_def myproc_def sleepy_log_def)
  have "scan 3 s' = Some 3" by (simp add: scan_def NPROC_def upt_rec [of 3] ps)
  then have 1: "system_step prompt_device s' (run 3 s')" using system_step.process [OF sched_step.dispatch] ps(2) by blast
  obtain r t where k: "kill 3 (run 3 s') = (r, t)" by fastforce
  have slots: "[0..<NPROC] = 0 # 1 # 2 # [3..<NPROC]" by (simp add: NPROC_def upt_conv_Cons)
  have "List.find (\<lambda>i. p_pid (procs (run 3 s') i) = 3) [0..<NPROC] = Some 2"
    by (simp add: slots ps proc_boot_def)
  then have t: "current t = Some 3" "p_state (procs t 2) = RUNNABLE" using k by (auto simp: kill_def Let_def ps)
  have "system_step prompt_device (run 3 s') t" using system_step.process [OF sched_step.kill [OF _ k]] by simp
  then have "(system_step prompt_device)\<^sup>*\<^sup>* s' t" using 1 by simp
  then show ?thesis using s' t by blast
qed

end
