(* ===== verification/Spec2Isabelle.thy ===== *)
theory Spec2Isabelle
  imports BootSpec InitSpec FsPath FileSpec LogWait
begin

text \<open>
  Verification development of a small teaching kernel for 64-bit RISC-V: the kernel (src/kernel, src/include), the user
  library and init program (src/user) and the program that builds the disk image (src/mkfs).

  \<^bold>\<open>The program.\<close> The kernel owns physical memory (pmm.c), maps it (vm.c, vm_init.c), prints (uart.c, console.c,
  printf.c, klog.c), drives a virtio disk (virtio_disk.c) under a cache of 30 buffers (bio.c) and a write-ahead log
  (log.c), keeps a file system of inodes, directories and paths on it (fs.c) with a table of open files (file.c), and
  runs up to 64 processes (proc.c) that enter it by traps (trap.c) and system calls (syscall.c, sysproc.c, sysfile.c).
  \<open>kmain\<close> (main.c) starts the parts in order; \<open>mkfs\<close> wrote the disk they mount.

  \<^bold>\<open>States.\<close> Every global variable of the kernel is a field of one extensible record, a layer per file: \<open>mem\<close>
  (physical memory as bytes, \<open>freelist\<close>), \<open>con\<close> (bytes sent by the UART), \<open>klog\<close> (\<open>log_state\<close>), \<open>vblk\<close>
  (\<open>disk\<close>, the buffers, the medium), \<open>bcache\<close> (the list head), \<open>ptab\<close> (\<open>proc\<close>, \<open>current_proc\<close>, \<open>nextpid\<close>), \<open>logst\<close>
  (\<open>log\<close>), \<open>fsst\<close> (\<open>sb\<close>, \<open>icache\<close>), \<open>filest\<close> (\<open>ftable\<close>), \<open>trapst\<close> (the supervisor registers). An operation of a
  layer works on every extension of its record. A function returns a value with the new state, or an error value: a
  panic, an access outside an object, or a wait that cannot end. Unsigned machine integers are words of their
  width. A C \<open>int\<close> is an integer: what counts up without a test (\<open>nextpid\<close>, the counters of klog.c) wraps around at 32
  bits by \<open>i32\<close>, what comes from memory is read as 32 bits; the counters of the log and the reference counts are not
  wrapped, as the tests of \<open>begin_op\<close> and \<open>log_write\<close> and the sizes of the tables bound them.
  Page tables, trap frames and user pages are bytes of physical memory; the kernel's own structures are fields, as
  no code takes their addresses.

  \<^bold>\<open>Theories.\<close>
  Prelude: words, results and their sequencing, byte encodings. Riscv: constants and macros of riscv.h, 64-bit cells.
  Pmm: the free list; locale \<open>page_allocator\<close>. Vm, PageTables: walks, \<open>map_page\<close>, the tree of tables and its
  translation, \<open>xlate\<close>. UserCopy: \<open>copyin\<close>, \<open>copyinstr\<close>, \<open>copyout\<close> against byte-at-a-time references.
  VmInit: the kernel map. Console, Klog: formatted output, the ring of messages. Virtio: requests on the queue.
  Bio: the cache, its list, and the abstract cache \<open>cview\<close> (contents, pending changes, references, medium) that the
  operations refine; locale \<open>block_cache\<close>. Log, Trans: commit, recovery, crashes, and transactions from \<open>begin_op\<close> to \<open>end_op\<close>.
  Journal: locale \<open>journal\<close>, reading and changing a block inside a transaction, interpreted on the cache and the log.
  Fs: the operations of fs.c. FsBlocks, FsInode, FsFile: bitmap, inodes, and contents of files over the blocks. FsWrite:
  writing files (\<open>bmap\<close> with allocation, \<open>writei\<close>) in the context \<open>journal\<close>. FsDir: directories as maps from names to inode
  numbers. FsPath: paths as walks over the tree of directories on the disk. File, FileSpec: open files.
  Mkfs, FsMount: the image builder, and mounting its images.
  Proc, Fork, ProcMem, Sched: the process table, creation of processes, their memory, the scheduler as a step relation.
  LogWait: the system after \<open>begin_op\<close> has put its caller to sleep, as a relation over the steps of all processes.
  Syscall: arguments, handlers, dispatch. Trap, TrapSpec: traps and the way back. Boot, BootSpec: \<open>kmain\<close>.
  Ulib, Init, InitSpec: the user programs over an abstract kernel.

  \<^bold>\<open>What the lemmas show.\<close> Memory: allocated pages are fresh, tables form a tree, a mapping changes one page, copies
  agree with the references, \<open>fork\<close> and \<open>user_init\<close> build separate address spaces. Disk: each layer refines the
  one below, down to a driver that moves one block per request; a commit cut short by a crash is recovered to all or nothing, again after a
  crash of the recovery. File system: allocation, inode encoding, reference counts, contents of files as functions of the blocks; a write
  changes the bytes of its range, takes blocks that were free and leaves every other file alone; \<open>dirlookup\<close> is the lookup in a
  directory's map and \<open>dirlink\<close> adds one pair; \<open>namei\<close> is the walk along the names of a path and leaves one
  reference; what one open file wrote another one reads. Booting: from any content of memory to the call of the scheduler, on an image of
  \<open>mkfs\<close>. Processes: invariants of all reachable tables, the life cycle, no lost wake-up of a parent, distinct pids until their
  counter wraps, a fair round of the scheduler whatever the processes do, and a log that stays locked for ever once \<open>begin_op\<close>
  has slept. Traps: the ways a trap ends. User programs: the text they write, and that they end.

  \<^bold>\<open>Bounds.\<close> The tables have the sizes of the headers (NPROC, NBUF, NINODE, NFILE, NOFILE, LOGBLOCKS = 30, of which a
  transaction uses 29). Recursion is structural or has a measure; the two loops over wrapping 64-bit addresses (\<open>fork\<close>,
  \<open>sbrk\<close>) are partial functions into options, and a loop that does not end is \<open>Hang\<close>. No fuel is used.

  \<^bold>\<open>Parameters.\<close> The disk device is a function run after each notification; \<open>virtio_blk\<close> states its documented
  behaviour, and \<open>prompt_device\<close> satisfies it. The clock, the linker's addresses, the registers read while
  the disk is initialised, the embedded init program, the bytes of uninitialised arrays and, in a round of the scheduler,
  what a process does are arguments. For the user programs the kernel is a function from calls to results.

  \<^bold>\<open>Not modelled.\<close> Assembly (entry, kernelvec, swtch, trampoline, the call stubs): a context switch is the choice of the
  running process, and a call that sleeps ends at its switch; where the code continues after it is a definition of its own
  (\<open>sleep_resume\<close>). The wait for the UART, memory barriers, interrupt acknowledgement and the TLB. The interrupt
  enable bit that \<open>intr_off\<close> and \<open>intr_on\<close> switch in \<open>exit_process\<close>, \<open>wait_process\<close> and \<open>scheduler\<close>, and preemption inside the
  kernel: the kernel's own trap handler does not yield. Overlap of a copy's source and destination. The
  host's messages of \<open>mkfs\<close>. \<open>destroy_pagetable\<close> has no body.
\<close>

end
